(* ===== verification/Prelude.thy ===== *)
theory Prelude
  imports Main "HOL-Library.Word" "HOL-Library.Multiset"
begin

text \<open>
  Shared vocabulary of the development: machine integers as the Go code has them
  (\<open>uint32\<close> as a 32-bit word, \<open>int64\<close> as an integer with the two's complement wrap
  written out), Go strings with the library functions the sources call
  (\<open>strings.HasPrefix\<close>, \<open>strings.LastIndex\<close>, \<open>strconv.FormatUint\<close>,
  \<open>strconv.ParseUint\<close>), first-fit scans over a range, and the lemma collections the
  component theories draw on.
\<close>

unbundle bit_operations_syntax

named_theorems inv_defs \<open>definitions of the component invariants\<close>
named_theorems op_defs \<open>definitions of the modelled operations\<close>

section \<open>Machine integers\<close>

type_synonym u8 = "8 word"
type_synonym u32 = "32 word"
type_synonym u64 = "64 word"
type_synonym bytes = "u8 list"

definition i64 :: "int \<Rightarrow> int" where
  "i64 x = (x + 2 ^ 63) mod 2 ^ 64 - 2 ^ 63"

definition in_i64 :: "int \<Rightarrow> bool" where
  "in_i64 x \<longleftrightarrow> - (2 ^ 63) \<le> x \<and> x < 2 ^ 63"

lemma i64_id [simp]: "in_i64 x \<Longrightarrow> i64 x = x"
  by (simp add: i64_def in_i64_def)

lemma i64_in [simp]: "in_i64 (i64 x)"
  by (simp add: i64_def in_i64_def pos_mod_bound algebra_simps)

lemma i64_mod: "i64 x mod 2 ^ 64 = x mod 2 ^ 64"
  by (simp add: i64_def mod_simps)

text \<open>Go's integer division and remainder truncate towards zero.\<close>

definition godiv :: "int \<Rightarrow> int \<Rightarrow> int" where
  "godiv a b = sgn a * sgn b * (\<bar>a\<bar> div \<bar>b\<bar>)"

definition gomod :: "int \<Rightarrow> int \<Rightarrow> int" where
  "gomod a b = a - b * godiv a b"

lemma godiv_nonneg [simp]: "0 \<le> a \<Longrightarrow> 0 < b \<Longrightarrow> godiv a b = a div b"
  by (cases "a = 0") (simp_all add: godiv_def)

lemma gomod_nonneg [simp]: "0 \<le> a \<Longrightarrow> 0 < b \<Longrightarrow> gomod a b = a mod b"
  by (simp add: gomod_def minus_mult_div_eq_mod)

section \<open>Masks on 32-bit addresses\<close>

lemma mask_low8: "(0xFFFFFF00 :: u32) = NOT (mask 8)"
  by (simp add: mask_eq_exp_minus_1)

lemma mask_low16: "(0xFFFF0000 :: u32) = NOT (mask 16)"
  by (simp add: mask_eq_exp_minus_1)

lemma unat_and_not_mask: "unat ((x :: u32) AND NOT (mask k)) = unat x div 2 ^ k * 2 ^ k"
proof -
  have eq: "x AND NOT (mask k) = push_bit k (drop_bit k x)"
    by (rule bit_word_eqI) (auto simp: bit_simps)
  have lt: "unat x div 2 ^ k * 2 ^ k < 2 ^ 32"
    using le_less_trans [OF div_times_less_eq_dividend unsigned_less [of x]] by simp
  have "unat (push_bit k (drop_bit k x)) = take_bit LENGTH(32) (push_bit k (unat (drop_bit k x)))"
    by (simp only: unsigned_push_bit_eq)
  also have "\<dots> = take_bit LENGTH(32) (unat x div 2 ^ k * 2 ^ k)"
    by (simp only: unat_drop_bit_eq, simp only: drop_bit_eq_div push_bit_eq_mult)
  finally show ?thesis using lt by (simp add: eq take_bit_nat_eq_self)
qed

lemma unat_net8: "unat ((x :: u32) AND 0xFFFFFF00) = unat x div 256 * 256"
  using unat_and_not_mask [of x 8] by (simp add: mask_low8)

lemma unat_net16: "unat ((x :: u32) AND 0xFFFF0000) = unat x div 65536 * 65536"
  using unat_and_not_mask [of x 16] by (simp add: mask_low16)

lemma unat_lt_32: "unat (x :: u32) < 4294967296"
  using unsigned_less [of x] by simp

lemma unat_net8_add:
  "n < 256 \<Longrightarrow> unat (((x :: u32) AND 0xFFFFFF00) + of_nat n) = unat x div 256 * 256 + n"
proof -
  assume "n < 256"
  have "unat x div 256 < 16777216"
    using unat_lt_32 [of x] by (intro less_mult_imp_div_less) simp
  with \<open>n < 256\<close> have "unat x div 256 * 256 + n < 4294967296" by linarith
  with \<open>n < 256\<close> show ?thesis by (simp add: unat_word_ariths unat_net8 unat_of_nat)
qed

section \<open>Go strings\<close>

text \<open>A Go \<open>string\<close> is a byte sequence: an Isabelle \<open>string\<close>, whose characters are bytes.\<close>

definition digit_char :: "nat \<Rightarrow> char" where
  "digit_char d = char_of (48 + d)"

definition is_digit :: "char \<Rightarrow> bool" where
  "is_digit c \<longleftrightarrow> 48 \<le> (of_char c :: nat) \<and> (of_char c :: nat) \<le> 57"

definition digit_val :: "char \<Rightarrow> nat" where
  "digit_val c = of_char c - 48"

fun show_nat :: "nat \<Rightarrow> string" where
  "show_nat n = (if n < 10 then [digit_char n] else show_nat (n div 10) @ [digit_char (n mod 10)])"

declare show_nat.simps [simp del]

definition read_nat :: "string \<Rightarrow> nat" where
  "read_nat s = foldl (\<lambda>acc c. acc * 10 + digit_val c) 0 s"

lemma of_char_digit [simp]: "d < 10 \<Longrightarrow> (of_char (digit_char d) :: nat) = 48 + d"
  by (simp add: digit_char_def)

lemma digit_val_char [simp]: "d < 10 \<Longrightarrow> digit_val (digit_char d) = d"
  by (simp add: digit_val_def)

lemma is_digit_char [simp]: "d < 10 \<Longrightarrow> is_digit (digit_char d)"
  by (simp add: is_digit_def)

lemma show_nat_digits: "\<forall>c \<in> set (show_nat n). is_digit c"
proof (induction n rule: show_nat.induct)
  case (1 n) then show ?case by (subst show_nat.simps) auto
qed

lemma show_nat_nonempty [simp]: "show_nat n \<noteq> []"
  by (subst show_nat.simps) simp

lemma read_show_nat [simp]: "read_nat (show_nat n) = n"
proof (induction n rule: show_nat.induct)
  case (1 n) then show ?case
    by (subst show_nat.simps) (auto simp: read_nat_def)
qed

lemma show_nat_inj [simp]: "show_nat m = show_nat n \<longleftrightarrow> m = n"
  by (metis read_show_nat)

definition has_prefix :: "string \<Rightarrow> string \<Rightarrow> bool" where
  "has_prefix s p \<longleftrightarrow> take (length p) s = p"

definition has_suffix :: "string \<Rightarrow> string \<Rightarrow> bool" where
  "has_suffix s p \<longleftrightarrow> has_prefix (rev s) (rev p)"

lemma has_prefix_append [simp]: "has_prefix (p @ s) p"
  by (simp add: has_prefix_def)

text \<open>Two dotted or underscored fields: the text up to a separator is determined when it does not
  contain the separator.\<close>

lemma append_sep_inj:
  assumes "c \<notin> set a" "c \<notin> set b" "a @ c # x = b @ c # y"
  shows "a = b \<and> x = y"
proof -
  have "takeWhile (\<lambda>d. d \<noteq> c) (a @ c # x) = a" "takeWhile (\<lambda>d. d \<noteq> c) (b @ c # y) = b"
    using assms(1,2) by (auto simp: takeWhile_append takeWhile_eq_all_conv)
  then show ?thesis using assms(3) by auto
qed

lemma append_sep_inj_last:
  assumes "c \<notin> set x" "c \<notin> set y" "a @ c # x = b @ c # y"
  shows "a = b \<and> x = y"
proof -
  have "rev x @ c # rev a = rev y @ c # rev b" using arg_cong [OF assms(3), of rev] by simp
  with append_sep_inj [of c "rev x" "rev y" "rev a" "rev b"] assms(1,2) show ?thesis by simp
qed

lemma show_nat_no_sep: "\<not> is_digit c \<Longrightarrow> c \<notin> set (show_nat n)"
  using show_nat_digits by blast

section \<open>First-fit scans\<close>

lemma map_le_Some: "m \<subseteq>\<^sub>m m' \<Longrightarrow> m a = Some v \<Longrightarrow> m' a = Some v"
  by (force simp: map_le_def)

lemma find_SomeD: "find P xs = Some x \<Longrightarrow> P x \<and> x \<in> set xs"
  by (induction xs) (auto split: if_splits)

text \<open>A loop \<open>for n := lo; n <= hi; n++ { if P(n) { return n } }\<close>.\<close>

definition first_fit :: "(nat \<Rightarrow> bool) \<Rightarrow> nat \<Rightarrow> nat \<Rightarrow> nat option" where
  "first_fit P lo hi = find P [lo ..< Suc hi]"

lemma first_fit_code [code]:
  "first_fit P lo hi = (if hi < lo then None else if P lo then Some lo else first_fit P (Suc lo) hi)"
  unfolding first_fit_def by (cases "hi < lo") (simp_all add: upt_rec [of lo "Suc hi"] del: upt_Suc)

lemma first_fit_Some:
  assumes "first_fit P lo hi = Some n"
  shows "P n \<and> lo \<le> n \<and> n \<le> hi \<and> (\<forall>m. lo \<le> m \<and> m < n \<longrightarrow> \<not> P m)"
proof -
  from assms obtain i where i: "i < length [lo ..< Suc hi]" "P ([lo ..< Suc hi] ! i)"
      "n = [lo ..< Suc hi] ! i" "\<forall>j<i. \<not> P ([lo ..< Suc hi] ! j)"
    unfolding first_fit_def find_Some_iff by blast
  from i(1) have ilt: "lo + i < Suc hi" by (simp only: length_upt less_diff_conv add.commute)
  then have n: "n = lo + i" using i(3) by (simp only: nth_upt)
  have "\<not> P m" if "lo \<le> m" "m < n" for m
    using i(4) [rule_format, of "m - lo"] ilt n that by (simp del: upt_Suc)
  then show ?thesis using i(2,3) n ilt by auto
qed

lemma first_fit_None: "first_fit P lo hi = None \<longleftrightarrow> (\<forall>n. lo \<le> n \<and> n \<le> hi \<longrightarrow> \<not> P n)"
  by (auto simp: first_fit_def find_None_iff)

lemma first_fit_SomeD [dest]: "first_fit P lo hi = Some n \<Longrightarrow> P n \<and> lo \<le> n \<and> n \<le> hi"
  by (drule first_fit_Some) simp

lemma first_fit_total: "P n \<Longrightarrow> lo \<le> n \<Longrightarrow> n \<le> hi \<Longrightarrow> \<exists>m. first_fit P lo hi = Some m"
  by (metis first_fit_None not_None_eq)

text \<open>The first fit is unique: it is the only index that satisfies the predicate with none below.\<close>

lemma first_fit_eqI:
  "P n \<Longrightarrow> lo \<le> n \<Longrightarrow> n \<le> hi \<Longrightarrow> (\<And>m. lo \<le> m \<Longrightarrow> m < n \<Longrightarrow> \<not> P m) \<Longrightarrow> first_fit P lo hi = Some n"
proof -
  assume n: "P n" "lo \<le> n" "n \<le> hi" and below: "\<And>m. lo \<le> m \<Longrightarrow> m < n \<Longrightarrow> \<not> P m"
  obtain m where m: "first_fit P lo hi = Some m" using first_fit_total [of P n lo hi] n by blast
  then show ?thesis using first_fit_Some [OF m] n below by (metis linorder_neqE_nat)
qed

section \<open>Pigeonhole on a range\<close>

lemma range_has_free:
  assumes "length us < Suc hi - lo"
  shows "\<exists>n. lo \<le> n \<and> n \<le> hi \<and> n \<notin> set us"
proof (rule ccontr)
  assume "\<not> ?thesis"
  then have "{lo .. hi} \<subseteq> set us" by auto
  then have "card {lo .. hi} \<le> card (set us)" by (rule card_mono [OF finite_set])
  with card_length [of us] assms show False by simp
qed

section \<open>Sequences of operations\<close>

text \<open>A run of operations, each of which returns the new state and an output.\<close>

fun run_ops :: "('s \<Rightarrow> 'o \<Rightarrow> 's \<times> 'r) \<Rightarrow> 's \<Rightarrow> 'o list \<Rightarrow> 's \<times> 'r list" where
  "run_ops step s [] = (s, [])"
| "run_ops step s (op # ops) =
     (let (s1, r) = step s op; (s2, rs) = run_ops step s1 ops in (s2, r # rs))"

lemma run_ops_Cons:
  "run_ops step s (op # ops) = (s', rs) \<longleftrightarrow>
     (\<exists>s1 r rs'. step s op = (s1, r) \<and> run_ops step s1 ops = (s', rs') \<and> rs = r # rs')"
  by (auto split: prod.splits)

lemma run_ops_append:
  "run_ops step s (xs @ ys) =
     (let (s1, r1) = run_ops step s xs; (s2, r2) = run_ops step s1 ys in (s2, r1 @ r2))"
  by (induction xs arbitrary: s) (auto split: prod.splits)

lemma run_ops_length: "run_ops step s xs = (s', rs) \<Longrightarrow> length rs = length xs"
  by (induction xs arbitrary: s rs) (auto split: prod.splits)

lemma map_filter_append: "List.map_filter f (xs @ ys) = List.map_filter f xs @ List.map_filter f ys"
  by (induction xs) (simp_all add: map_filter_simps split: option.splits)

text \<open>
  The contract of an allocator: a grant records its owner, and no operation takes a recorded owner
  away. Then two grants of the same resource, anywhere in a run, are to the same owner.
\<close>

locale exclusive_grants =
  fixes step :: "'s \<Rightarrow> 'o \<Rightarrow> 's \<times> ('k \<times> 'a) option"
    and owner :: "'s \<Rightarrow> 'a \<Rightarrow> 'k option"
    and inv :: "'s \<Rightarrow> bool"
  assumes step_inv: "inv s \<Longrightarrow> step s op = (s', g) \<Longrightarrow> inv s'"
    and step_grant: "inv s \<Longrightarrow> step s op = (s', Some (k, a)) \<Longrightarrow> owner s' a = Some k"
    and step_keep: "inv s \<Longrightarrow> step s op = (s', g) \<Longrightarrow> owner s a = Some k \<Longrightarrow> owner s' a = Some k"
begin

lemma run_inv: "inv s \<Longrightarrow> run_ops step s ops = (s', gs) \<Longrightarrow> inv s'"
  by (induction ops arbitrary: s gs) (auto simp del: run_ops.simps(2) simp: run_ops_Cons intro: step_inv)

lemma run_keep:
  "inv s \<Longrightarrow> run_ops step s ops = (s', gs) \<Longrightarrow> owner s a = Some k \<Longrightarrow> owner s' a = Some k"
  by (induction ops arbitrary: s gs)
    (auto simp del: run_ops.simps(2) simp: run_ops_Cons intro: step_inv step_keep)

lemma run_grant:
  "inv s \<Longrightarrow> run_ops step s ops = (s', gs) \<Longrightarrow> Some (k, a) \<in> set gs \<Longrightarrow> owner s' a = Some k"
proof (induction ops arbitrary: s gs)
  case (Cons op ops)
  then obtain s1 r rs where step: "step s op = (s1, r)" "run_ops step s1 ops = (s', rs)" "gs = r # rs"
    by (auto simp del: run_ops.simps(2) simp: run_ops_Cons)
  show ?case
  proof (cases "r = Some (k, a)")
    case True
    then show ?thesis
      using run_keep [OF step_inv [OF Cons.prems(1) step(1)] step(2)] step_grant [OF Cons.prems(1)] step(1) by blast
  next
    case False
    then show ?thesis using Cons.IH [OF step_inv [OF Cons.prems(1) step(1)] step(2)] Cons.prems(3) step(3) by simp
  qed
qed simp

lemma run_exclusive:
  "inv s \<Longrightarrow> run_ops step s ops = (s', gs) \<Longrightarrow> Some (k, a) \<in> set gs \<Longrightarrow> Some (k', a) \<in> set gs \<Longrightarrow> k = k'"
  using run_grant [of s ops s' gs k a] run_grant [of s ops s' gs k' a] by simp

end

text \<open>
  The contract of a service: a call that meets its condition keeps the invariant. Then every run of such calls does.
\<close>

locale guarded_calls =
  fixes call :: "'c \<Rightarrow> 's \<Rightarrow> 's" and ok :: "'c \<Rightarrow> bool" and inv :: "'s \<Rightarrow> bool"
  assumes call_keeps: "ok c \<Longrightarrow> inv s \<Longrightarrow> inv (call c s)"
begin

lemma calls_keep: "\<forall>c \<in> set cs. ok c \<Longrightarrow> inv s \<Longrightarrow> inv (fold call cs s)"
  by (induction cs arbitrary: s) (simp_all add: call_keeps)

text \<open>The invariant holds at every moment of the run, not only at its end.\<close>

lemma calls_keep_upto: "\<forall>c \<in> set cs. ok c \<Longrightarrow> inv s \<Longrightarrow> inv (fold call (take n cs) s)"
  using calls_keep [of "take n cs"] by (auto dest: in_set_takeD)

end

section \<open>sort.Slice\<close>

text \<open>
  \<open>sort.Slice\<close> sorts by a key and leaves the order of equal elements open. The tie-breaking is an
  argument: a list of picks that permutes the input before a stable sort. Every outcome of an
  unstable sort is the outcome for some picks, and every list of picks gives a sorted permutation.
\<close>

fun shuffle :: "nat list \<Rightarrow> 'a list \<Rightarrow> 'a list" where
  "shuffle ps [] = []"
| "shuffle [] (x # xs) = x # xs"
| "shuffle (p # ps) (x # xs) =
     (let ys = x # xs; i = p mod length ys in ys ! i # shuffle ps (take i ys @ drop (Suc i) ys))"

lemma mset_shuffle [simp]: "mset (shuffle ps xs) = mset xs"
proof (induction ps xs rule: shuffle.induct)
  case (3 p ps x xs)
  let ?ys = "x # xs" let ?i = "p mod length ?ys"
  have "?i < length ?ys" by simp
  then have "?ys = take ?i ?ys @ ?ys ! ?i # drop (Suc ?i) ?ys" by (rule id_take_nth_drop)
  then have "mset ?ys = add_mset (?ys ! ?i) (mset (take ?i ?ys @ drop (Suc ?i) ?ys))"
    by (metis mset.simps(2) mset_append union_mset_add_mset_right)
  then show ?case using 3 by (simp add: Let_def)
qed simp_all

definition sort_slice :: "nat list \<Rightarrow> ('a \<Rightarrow> int) \<Rightarrow> 'a list \<Rightarrow> 'a list" where
  "sort_slice ps key xs = sort_key key (shuffle ps xs)"

lemma mset_sort_slice [simp]: "mset (sort_slice ps key xs) = mset xs"
  by (simp add: sort_slice_def)

lemma set_sort_slice [simp]: "set (sort_slice ps key xs) = set xs"
  by (metis mset_sort_slice set_mset_mset)

lemma length_sort_slice [simp]: "length (sort_slice ps key xs) = length xs"
  by (metis mset_sort_slice size_mset)

lemma sorted_sort_slice: "sorted (map key (sort_slice ps key xs))"
  by (simp add: sort_slice_def)

lemma sort_slice_hd:
  assumes "xs \<noteq> []"
  shows "hd (sort_slice ps key xs) \<in> set xs \<and> (\<forall>x \<in> set xs. key (hd (sort_slice ps key xs)) \<le> key x)"
proof -
  obtain y ys where eq: "sort_slice ps key xs = y # ys"
    using assms by (metis length_sort_slice length_0_conv neq_Nil_conv)
  then have "set xs = insert y (set ys)" by (metis set_sort_slice list.simps(15))
  moreover have "\<forall>x \<in> set ys. key y \<le> key x" using sorted_sort_slice [of key ps xs] by (simp add: eq)
  ultimately show ?thesis by (auto simp: eq)
qed

lemma set_map_filter_iff: "y \<in> set (List.map_filter f xs) \<longleftrightarrow> (\<exists>x \<in> set xs. f x = Some y)"
  by (induction xs) (auto simp: map_filter_simps split: option.splits)

section \<open>Splitting at the last separator, decimal parsing\<close>

definition split_last :: "char \<Rightarrow> string \<Rightarrow> (string \<times> string) option" where
  "split_last c s =
     (if c \<in> set s then
        let suf = rev (takeWhile (\<lambda>d. d \<noteq> c) (rev s)) in Some (take (length s - length suf - 1) s, suf)
      else None)"

lemma split_last_append: "c \<notin> set y \<Longrightarrow> split_last c (x @ c # y) = Some (x, y)"
proof -
  assume c: "c \<notin> set y"
  have "takeWhile (\<lambda>d. d \<noteq> c) (rev y @ c # rev x) = rev y"
    using c by (auto simp: takeWhile_append takeWhile_eq_all_conv)
  then show ?thesis by (simp add: split_last_def)
qed

lemma split_last_Some:
  assumes "split_last c s = Some (x, y)" shows "s = x @ c # y \<and> c \<notin> set y"
proof -
  have "c \<in> set s" using assms by (auto simp: split_last_def split: if_splits)
  then obtain x' y' where s: "s = x' @ c # y'" "c \<notin> set y'" by (metis split_list_last)
  with assms split_last_append [OF s(2), of x'] show ?thesis by simp
qed

text \<open>\<open>strconv.ParseUint(s, 10, bits)\<close>.\<close>

definition parse_uint :: "nat \<Rightarrow> string \<Rightarrow> nat option" where
  "parse_uint bits s =
     (if s = [] \<or> \<not> list_all is_digit s then None
      else let n = read_nat s in if n < 2 ^ bits then Some n else None)"

lemma parse_uint_show_nat: "n < 2 ^ bits \<Longrightarrow> parse_uint bits (show_nat n) = Some n"
  using show_nat_digits [of n] by (simp add: parse_uint_def list_all_iff)

lemma parse_uint_bound: "parse_uint bits s = Some n \<Longrightarrow> n < 2 ^ bits"
  by (auto simp: parse_uint_def Let_def split: if_splits)

end
