(* ===== verification/NetUtil.thy ===== *)
theory NetUtil
  imports Prelude
begin

text \<open>
  The IPv4 helpers of \<open>pkg/inetutil/inetutil.go\<close>, with the parts of Go's \<open>net\<close> and
  \<open>net/netip\<close> packages they call: \<open>ParseIP\<close> (dotted quads and IPv6 literals),
  \<open>IP.To4\<close>, \<open>SplitHostPort\<close> and \<open>ParseCIDR\<close>. Addresses are byte lists, four bytes
  for an IPv4 and sixteen for an IPv6 address; a \<open>uint32\<close> address is a 32-bit word.
  The lemmas give the print/parse round trip and the injectivity of the dotted form.
\<close>

section \<open>Go's net package\<close>

text \<open>\<open>netip.parseIPv4Fields\<close>: value and number of digits of the field being read, fields done.\<close>

fun ip4_fields :: "string \<Rightarrow> nat \<Rightarrow> nat \<Rightarrow> u8 list \<Rightarrow> u8 list option" where
  "ip4_fields [] val dig acc = (if length acc < 3 then None else Some (acc @ [of_nat val]))"
| "ip4_fields (c # s) val dig acc =
     (if is_digit c then
        (if dig = 1 \<and> val = 0 then None
         else let v = val * 10 + digit_val c in
           if v > 255 then None else ip4_fields s v (Suc dig) acc)
      else if c = CHR ''.'' then
        (if dig = 0 \<or> s = [] then None
         else if length acc = 3 then None
         else ip4_fields s 0 0 (acc @ [of_nat val]))
      else None)"

definition hex_val :: "char \<Rightarrow> nat option" where
  "hex_val c =
     (let n = of_char c :: nat in
      if 48 \<le> n \<and> n \<le> 57 then Some (n - 48)
      else if 97 \<le> n \<and> n \<le> 102 then Some (n - 87)
      else if 65 \<le> n \<and> n \<le> 70 then Some (n - 55)
      else None)"

text \<open>The hexadecimal group at the head of an IPv6 literal: at most four digits.\<close>

fun hex_group :: "string \<Rightarrow> nat \<Rightarrow> nat \<Rightarrow> (nat \<times> nat \<times> string) option" where
  "hex_group [] off acc = Some (off, acc, [])"
| "hex_group (c # s) off acc =
     (case hex_val c of
        None \<Rightarrow> Some (off, acc, c # s)
      | Some d \<Rightarrow> if off > 3 then None else hex_group s (Suc off) (acc * 16 + d))"

text \<open>
  The loop of \<open>netip.parseIPv6\<close>; the fuel counts the sixteen-bit groups left, eight at most. The
  result is the bytes read, the position of the ellipsis and the unread text.
\<close>

fun ip6_groups :: "nat \<Rightarrow> string \<Rightarrow> u8 list \<Rightarrow> nat option \<Rightarrow> (u8 list \<times> nat option \<times> string) option" where
  "ip6_groups 0 s ip ell = Some (ip, ell, s)"
| "ip6_groups (Suc n) s ip ell =
     (case hex_group s 0 0 of
        None \<Rightarrow> None
      | Some (off, acc, rest) \<Rightarrow>
          if off = 0 then None
          else if rest \<noteq> [] \<and> hd rest = CHR ''.'' then
            (if (ell = None \<and> length ip \<noteq> 12) \<or> length ip + 4 > 16 then None
             else case ip4_fields s 0 0 [] of
                    None \<Rightarrow> None
                  | Some b \<Rightarrow> Some (ip @ b, ell, []))
          else
            let ip' = ip @ [of_nat (acc div 256), of_nat (acc mod 256)] in
            (case rest of
               [] \<Rightarrow> Some (ip', ell, [])
             | c # s1 \<Rightarrow>
                 if c \<noteq> CHR '':'' \<or> s1 = [] then None
                 else if hd s1 = CHR '':'' then
                   (if ell \<noteq> None then None
                    else if tl s1 = [] then Some (ip', Some (length ip'), [])
                    else ip6_groups n (tl s1) ip' (Some (length ip')))
                 else ip6_groups n s1 ip' ell))"

definition parse_ip6 :: "string \<Rightarrow> u8 list option" where
  "parse_ip6 s =
     (let lead = has_prefix s ''::''; s0 = (if lead then drop 2 s else s) in
      if lead \<and> s0 = [] then Some (replicate 16 0)
      else case ip6_groups 8 s0 [] (if lead then Some 0 else None) of
          None \<Rightarrow> None
        | Some (ip, ell, rest) \<Rightarrow>
            if rest \<noteq> [] then None
            else if length ip < 16 then
              (case ell of
                 None \<Rightarrow> None
               | Some e \<Rightarrow> Some (take e ip @ replicate (16 - length ip) 0 @ drop e ip))
            else if ell \<noteq> None then None else Some ip)"

text \<open>\<open>net.ParseIP\<close>; a zone (\<open>%eth0\<close>) is refused. The first separator decides the family.\<close>

definition ParseIP :: "string \<Rightarrow> u8 list option" where
  "ParseIP s =
     (case dropWhile (\<lambda>c. c \<notin> {CHR ''.'', CHR '':'', CHR ''%''}) s of
        [] \<Rightarrow> None
      | c # _ \<Rightarrow>
          if c = CHR ''.'' then ip4_fields s 0 0 []
          else if c = CHR '':'' \<and> CHR ''%'' \<notin> set s then parse_ip6 s
          else None)"

definition to4 :: "u8 list \<Rightarrow> u8 list option" where
  "to4 ip =
     (if length ip = 4 then Some ip
      else if length ip = 16 \<and> take 12 ip = replicate 10 0 @ [0xFF, 0xFF] then Some (drop 12 ip)
      else None)"

definition SplitHostPort :: "string \<Rightarrow> (string \<times> string) option" where
  "SplitHostPort hp =
     (if CHR '':'' \<notin> set hp then None
      else let port = rev (takeWhile (\<lambda>c. c \<noteq> CHR '':'') (rev hp));
               pre = take (length hp - length port - 1) hp in
        if hd hp = CHR ''['' then
          (if CHR '']'' \<notin> set hp then None
           else let host = takeWhile (\<lambda>c. c \<noteq> CHR '']'') (tl hp) in
             if Suc (Suc (length host)) \<noteq> length pre then None
             else if CHR ''['' \<in> set (tl hp) \<or> CHR '']'' \<in> set (drop (length host + 2) hp) then None
             else Some (host, port))
        else if CHR '':'' \<in> set pre then None
        else if CHR ''['' \<in> set hp \<or> CHR '']'' \<in> set hp then None
        else Some (pre, port))"

definition ParseCIDR :: "string \<Rightarrow> (u8 list \<times> nat) option" where
  "ParseCIDR s =
     (if CHR ''/'' \<notin> set s then None
      else let addr = takeWhile (\<lambda>c. c \<noteq> CHR ''/'') s; bits = drop (Suc (length addr)) s in
        case ParseIP addr of
          None \<Rightarrow> None
        | Some ip \<Rightarrow>
            if bits = [] \<or> (\<exists>c \<in> set bits. \<not> is_digit c) \<or> read_nat bits > length ip * 8 then None
            else Some (ip, read_nat bits))"

section \<open>pkg/inetutil\<close>

datatype net_error =
    NetInvalidIP
  | NetInvalidIPv4
  | NetNotPrivate string

definition private4 :: "u8 \<Rightarrow> u8 \<Rightarrow> bool" where
  "private4 a b \<longleftrightarrow> a = 10 \<or> (a = 172 \<and> 16 \<le> b \<and> b \<le> 31) \<or> (a = 192 \<and> b = 168)"

definition ParsePrivateIP :: "string \<Rightarrow> net_error + u8 list" where
  "ParsePrivateIP addr =
     (case ParseIP addr of
        None \<Rightarrow> Inl NetInvalidIP
      | Some ip0 \<Rightarrow> (case to4 ip0 of
            None \<Rightarrow> Inl NetInvalidIPv4
          | Some ip \<Rightarrow> if private4 (ip ! 0) (ip ! 1) then Inr ip else Inl (NetNotPrivate addr)))"

definition ParsePrivateAddress :: "string \<Rightarrow> net_error + u8 list" where
  "ParsePrivateAddress addr =
     ParsePrivateIP (case SplitHostPort addr of Some (ip, _) \<Rightarrow> ip | None \<Rightarrow> addr)"

text \<open>\<open>None\<close> is the index panic of \<open>binary.BigEndian.Uint32\<close> on a short slice.\<close>

fun BytesToUint32 :: "u8 list \<Rightarrow> u32 option" where
  "BytesToUint32 (b0 # b1 # b2 # b3 # _) =
     Some (push_bit 24 (ucast b0) OR push_bit 16 (ucast b1) OR push_bit 8 (ucast b2) OR ucast b3)"
| "BytesToUint32 _ = None"

definition Uint32ToBytes :: "u32 \<Rightarrow> u8 list" where
  "Uint32ToBytes v = [ucast (drop_bit 24 v), ucast (drop_bit 16 v), ucast (drop_bit 8 v), ucast v]"

definition show_u8 :: "u8 \<Rightarrow> string" where
  "show_u8 b = show_nat (unat b)"

fun IP4ToString :: "u8 list \<Rightarrow> string" where
  "IP4ToString (b0 # b1 # b2 # b3 # _) =
     show_u8 b0 @ ''.'' @ show_u8 b1 @ ''.'' @ show_u8 b2 @ ''.'' @ show_u8 b3"
| "IP4ToString _ = ''''"

definition Uint32ToIpv4 :: "u32 \<Rightarrow> string" where
  "Uint32ToIpv4 v = IP4ToString (Uint32ToBytes v)"

definition Ipv4ToUint32 :: "string \<Rightarrow> u32" where
  "Ipv4ToUint32 addr =
     (case ParseIP addr of
        None \<Rightarrow> 0
      | Some ip0 \<Rightarrow> (case to4 ip0 of
            None \<Rightarrow> 0
          | Some ip \<Rightarrow> (case BytesToUint32 ip of None \<Rightarrow> 0 | Some v \<Rightarrow> v)))"

section \<open>Round trips\<close>

lemma bytes_of_uint32 [simp]: "BytesToUint32 (Uint32ToBytes v) = Some v"
  unfolding Uint32ToBytes_def BytesToUint32.simps option.inject
proof (rule bit_word_eqI)
  fix n assume "n < LENGTH(32)"
  consider "n < 8" | "8 \<le> n" "n < 16" | "16 \<le> n" "n < 24" | "24 \<le> n" by linarith
  then show "bit (push_bit 24 (ucast (ucast (drop_bit 24 v) :: u8)) OR
      push_bit 16 (ucast (ucast (drop_bit 16 v) :: u8)) OR
      push_bit 8 (ucast (ucast (drop_bit 8 v) :: u8)) OR ucast (ucast v :: u8) :: u32) n = bit v n"
    using \<open>n < LENGTH(32)\<close> by cases (auto simp: bit_simps)
qed

lemma bit_u8_beyond [simp]: "8 \<le> n \<Longrightarrow> \<not> bit (b :: u8) n"
  using bit_imp_le_length [of b n] by auto

lemma uint32_of_bytes:
  "BytesToUint32 [a, b, c, d] = Some v \<Longrightarrow> Uint32ToBytes v = [a, b, c, d]"
  unfolding Uint32ToBytes_def BytesToUint32.simps option.inject
  by (auto intro!: bit_word_eqI simp: bit_simps)

lemma length_Uint32ToBytes [simp]: "length (Uint32ToBytes v) = 4"
  by (simp add: Uint32ToBytes_def)

lemma ip4_fields_length: "ip4_fields s v d acc = Some ip \<Longrightarrow> length acc \<le> 3 \<Longrightarrow> length ip = 4"
  by (induction s v d acc rule: ip4_fields.induct) (auto split: if_splits simp: Let_def)

lemma ip4_fields_show_nat:
  "n \<le> 255 \<Longrightarrow> ip4_fields (show_nat n @ s) 0 0 acc = ip4_fields s n (length (show_nat n)) acc"
proof (induction n arbitrary: s rule: show_nat.induct)
  case (1 n)
  show ?case
  proof (cases "n < 10")
    case True
    then show ?thesis by (simp add: show_nat.simps [of n] Let_def)
  next
    case False
    then have div: "n div 10 \<noteq> 0" "n div 10 * 10 + n mod 10 = n" by auto
    have "ip4_fields (show_nat n @ s) 0 0 acc =
        ip4_fields (digit_char (n mod 10) # s) (n div 10) (length (show_nat (n div 10))) acc"
      using 1 False by (simp add: show_nat.simps [of n])
    also have "\<dots> = ip4_fields s n (Suc (length (show_nat (n div 10)))) acc"
      using 1(2) div by (simp add: Let_def)
    finally show ?thesis using False by (simp add: show_nat.simps [of n])
  qed
qed

lemma ip4_fields_show_u8:
  "ip4_fields (show_u8 b @ s) 0 0 acc = ip4_fields s (unat b) (length (show_u8 b)) acc"
proof -
  have "unat b < 2 ^ LENGTH(8)" by (rule unsigned_less)
  then have "unat b \<le> 255" by simp
  then show ?thesis by (simp add: show_u8_def ip4_fields_show_nat)
qed

lemma show_u8_nonempty [simp]: "show_u8 b \<noteq> []"
  by (simp add: show_u8_def)

lemma show_u8_inj [simp]: "show_u8 a = show_u8 b \<longleftrightarrow> a = b"
  by (simp add: show_u8_def word_unat_eq_iff)

lemma dot_not_digit [simp]: "\<not> is_digit CHR ''.''"
  by (simp add: is_digit_def)

lemma ip4_fields_dot:
  "length acc < 3 \<Longrightarrow> d \<noteq> 0 \<Longrightarrow> s \<noteq> [] \<Longrightarrow> ip4_fields (CHR ''.'' # s) v d acc = ip4_fields s 0 0 (acc @ [of_nat v])"
  by simp

lemma ip4_fields_quad:
  "ip4_fields (IP4ToString [a, b, c, d]) 0 0 [] = Some [a, b, c, d]"
  using ip4_fields_show_u8 [of d "[]"] by (simp add: ip4_fields_show_u8 ip4_fields_dot)

lemma show_u8_first_sep:
  "dropWhile (\<lambda>x. x \<notin> {CHR ''.'', CHR '':'', CHR ''%''}) (show_u8 b @ CHR ''.'' # s) = CHR ''.'' # s"
proof -
  have "\<forall>x \<in> set (show_u8 b). x \<notin> {CHR ''.'', CHR '':'', CHR ''%''}"
    using show_nat_digits [of "unat b"] by (auto simp: show_u8_def is_digit_def)
  then show ?thesis by (subst dropWhile_append2) auto
qed

lemma ParseIP_quad: "ParseIP (IP4ToString [a, b, c, d]) = Some [a, b, c, d]"
  using show_u8_first_sep [of a] ip4_fields_quad [of a b c d] by (simp add: ParseIP_def)

lemma ParseIP_Uint32ToIpv4: "ParseIP (Uint32ToIpv4 v) = Some (Uint32ToBytes v)"
  by (simp add: Uint32ToIpv4_def Uint32ToBytes_def ParseIP_quad del: IP4ToString.simps)

text \<open>Printing a 32-bit address and parsing it gives the address back.\<close>

lemma Ipv4ToUint32_Uint32ToIpv4 [simp]: "Ipv4ToUint32 (Uint32ToIpv4 v) = v"
  by (simp add: Ipv4ToUint32_def ParseIP_Uint32ToIpv4 to4_def)

lemma Uint32ToIpv4_inj [simp]: "Uint32ToIpv4 v = Uint32ToIpv4 w \<longleftrightarrow> v = w"
  by (metis Ipv4ToUint32_Uint32ToIpv4)

lemma Uint32ToIpv4_nonempty [simp]: "Uint32ToIpv4 v \<noteq> ''''"
  by (simp add: Uint32ToIpv4_def Uint32ToBytes_def)

lemma ParsePrivateIP_Inr:
  assumes "ParsePrivateIP addr = Inr ip"
  shows "length ip = 4 \<and> private4 (ip ! 0) (ip ! 1)"
  using assms by (auto simp: ParsePrivateIP_def to4_def split: option.splits if_splits)

lemma ParsePrivateIP_quad:
  "ParsePrivateIP (IP4ToString [a, b, c, d]) =
     (if private4 a b then Inr [a, b, c, d] else Inl (NetNotPrivate (IP4ToString [a, b, c, d])))"
  by (simp add: ParsePrivateIP_def ParseIP_quad to4_def del: IP4ToString.simps)

end
