(* ===== verification/KvStore.thy ===== *)
theory KvStore
  imports Prelude
begin

text \<open>
  The interface of the key-value store (\<open>kvgo\<close>, a third-party package) as the sources use it:
  \<open>NewReader\<close>, \<open>NewWriter\<close> with \<open>SetPrevVersion\<close>, \<open>SetCreateOnly\<close> and \<open>SetTTL\<close>,
  \<open>NewDeleter\<close> and \<open>NewRanger\<close> with \<open>SetLimit\<close> and \<open>SetRevert\<close>. A component takes the
  four operations as a record \<open>kvgo\<close> over a database type and a value type; a stored value that
  does not unmarshal is read as \<open>None\<close>. What the components rely on is the predicate
  \<open>kv_lawful\<close>; an in-memory store that satisfies it shows that it can hold.
\<close>

record kv_meta =
  m_version :: nat
  m_updated :: int

datatype 'v kv_read = KvFound kv_meta "'v option" | KvNotFound | KvReadErr string

record kv_wopt =
  wo_prev :: "nat option"
  wo_create :: bool
  wo_ttl :: int

definition plain_put :: kv_wopt where
  "plain_put = \<lparr>wo_prev = None, wo_create = False, wo_ttl = 0\<rparr>"

datatype kv_wr = KvWritten kv_meta | KvWriteErr string

datatype kv_dr = KvDeleted | KvDelNotFound | KvDelErr string

record 'v kv_item =
  it_key :: string
  it_meta :: kv_meta
  it_val :: "'v option"

datatype 'v kv_rr = KvItems "'v kv_item list" bool | KvRangeErr string

record ('db, 'v) kvgo =
  kv_get :: "'db \<Rightarrow> string \<Rightarrow> 'v kv_read"
  kv_put :: "'db \<Rightarrow> string \<Rightarrow> kv_wopt \<Rightarrow> 'v \<Rightarrow> 'db \<times> kv_wr"
  kv_del :: "'db \<Rightarrow> string \<Rightarrow> 'db \<times> kv_dr"
  kv_range :: "'db \<Rightarrow> string \<Rightarrow> string \<Rightarrow> nat \<Rightarrow> bool \<Rightarrow> 'v kv_rr"

definition kv_version_at :: "('db, 'v) kvgo \<Rightarrow> 'db \<Rightarrow> string \<Rightarrow> nat option" where
  "kv_version_at K db k = (case kv_get K db k of KvFound m _ \<Rightarrow> Some (m_version m) | _ \<Rightarrow> None)"

text \<open>
  The documented behaviour the components rely on: a write that succeeds is read back, touches no
  other key, moves the version forward and respects the previous-version and create-only guards; a
  write that fails changes nothing; a successful delete removes the key and only it.
\<close>

definition kv_lawful :: "('db, 'v) kvgo \<Rightarrow> bool" where
  "kv_lawful K \<longleftrightarrow>
     (\<forall>db k opt v db' m. kv_put K db k opt v = (db', KvWritten m) \<longrightarrow>
        kv_get K db' k = KvFound m (Some v) \<and>
        (\<forall>k'. k' \<noteq> k \<longrightarrow> kv_get K db' k' = kv_get K db k') \<and>
        (\<forall>n. kv_version_at K db k = Some n \<longrightarrow> n < m_version m) \<and>
        (\<forall>p. wo_prev opt = Some p \<and> p \<noteq> 0 \<longrightarrow> kv_version_at K db k = Some p) \<and>
        (wo_create opt \<longrightarrow> kv_version_at K db k = None)) \<and>
     (\<forall>db k opt v db' e. kv_put K db k opt v = (db', KvWriteErr e) \<longrightarrow>
        (\<forall>k'. kv_get K db' k' = kv_get K db k')) \<and>
     (\<forall>db k db'. kv_del K db k = (db', KvDeleted) \<longrightarrow>
        kv_get K db' k = KvNotFound \<and> (\<forall>k'. k' \<noteq> k \<longrightarrow> kv_get K db' k' = kv_get K db k'))"

text \<open>A store that takes every unconditional write.\<close>

definition kv_accepts :: "('db, 'v) kvgo \<Rightarrow> bool" where
  "kv_accepts K \<longleftrightarrow> (\<forall>db k ttl v. \<exists>db' m. kv_put K db k (plain_put\<lparr>wo_ttl := ttl\<rparr>) v = (db', KvWritten m))"

text \<open>A delete that reports an error or a missing row changes nothing; a store that takes every delete of a stored row.\<close>

definition kv_del_quiet :: "('db, 'v) kvgo \<Rightarrow> bool" where
  "kv_del_quiet K \<longleftrightarrow>
     (\<forall>db k db' d. kv_del K db k = (db', d) \<and> d \<noteq> KvDeleted \<longrightarrow> (\<forall>k'. kv_get K db' k' = kv_get K db k'))"

definition kv_deletes :: "('db, 'v) kvgo \<Rightarrow> bool" where
  "kv_deletes K \<longleftrightarrow> (\<forall>db k m v. kv_get K db k = KvFound m v \<longrightarrow> snd (kv_del K db k) = KvDeleted)"

lemma kv_put_read:
  "kv_lawful K \<Longrightarrow> kv_put K db k opt v = (db', KvWritten m) \<Longrightarrow> kv_get K db' k = KvFound m (Some v)"
  unfolding kv_lawful_def by blast

lemma kv_put_other:
  "kv_lawful K \<Longrightarrow> kv_put K db k opt v = (db', KvWritten m) \<Longrightarrow> k' \<noteq> k \<Longrightarrow> kv_get K db' k' = kv_get K db k'"
  unfolding kv_lawful_def by blast

lemma kv_put_newer:
  "kv_lawful K \<Longrightarrow> kv_put K db k opt v = (db', KvWritten m) \<Longrightarrow> kv_version_at K db k = Some n \<Longrightarrow> n < m_version m"
  unfolding kv_lawful_def by blast

lemma kv_put_prev:
  "kv_lawful K \<Longrightarrow> kv_put K db k opt v = (db', KvWritten m) \<Longrightarrow> wo_prev opt = Some p \<Longrightarrow> p \<noteq> 0
    \<Longrightarrow> kv_version_at K db k = Some p"
  unfolding kv_lawful_def by blast

lemma kv_put_create:
  "kv_lawful K \<Longrightarrow> kv_put K db k opt v = (db', KvWritten m) \<Longrightarrow> wo_create opt
    \<Longrightarrow> kv_version_at K db k = None"
  unfolding kv_lawful_def by blast

lemma kv_put_fail:
  "kv_lawful K \<Longrightarrow> kv_put K db k opt v = (db', KvWriteErr e) \<Longrightarrow> kv_get K db' k' = kv_get K db k'"
  unfolding kv_lawful_def by blast

lemma kv_del_gone:
  "kv_lawful K \<Longrightarrow> kv_del K db k = (db', KvDeleted) \<Longrightarrow> kv_get K db' k = KvNotFound"
  unfolding kv_lawful_def by blast

lemma kv_del_other:
  "kv_lawful K \<Longrightarrow> kv_del K db k = (db', KvDeleted) \<Longrightarrow> k' \<noteq> k \<Longrightarrow> kv_get K db' k' = kv_get K db k'"
  unfolding kv_lawful_def by blast

lemmas kv_put_laws = kv_put_read kv_put_other kv_put_newer kv_put_prev kv_put_create kv_put_fail

section \<open>Range scans\<close>

text \<open>Keys are ordered bytewise. A range is open below and closed above.\<close>

fun str_le :: "string \<Rightarrow> string \<Rightarrow> bool" where
  "str_le [] _ = True"
| "str_le (_ # _) [] = False"
| "str_le (a # s) (b # t) \<longleftrightarrow>
     (of_char a :: nat) < of_char b \<or> (a = b \<and> str_le s t)"

definition str_lt :: "string \<Rightarrow> string \<Rightarrow> bool" where
  "str_lt a b \<longleftrightarrow> str_le a b \<and> a \<noteq> b"

definition in_range :: "string \<Rightarrow> string \<Rightarrow> string \<Rightarrow> bool" where
  "in_range lo hi k \<longleftrightarrow> str_lt lo k \<and> str_le k hi"

lemma str_le_refl [simp]: "str_le a a"
  by (induction a) auto

lemma str_le_antisym: "str_le a b \<Longrightarrow> str_le b a \<Longrightarrow> a = b"
  by (induction a b rule: str_le.induct) (auto elim: str_le.elims)

lemma str_le_trans: "str_le a b \<Longrightarrow> str_le b c \<Longrightarrow> str_le a c"
proof (induction a b arbitrary: c rule: str_le.induct)
  case (3 x s y t) then show ?case by (cases c) auto
qed auto

lemma str_lt_trans: "str_lt a b \<Longrightarrow> str_lt b c \<Longrightarrow> str_lt a c"
  unfolding str_lt_def using str_le_trans str_le_antisym by blast

lemma str_lt_le_trans: "str_lt a b \<Longrightarrow> str_le b c \<Longrightarrow> str_lt a c"
  unfolding str_lt_def using str_le_trans str_le_antisym by blast

lemma str_lt_asym: "str_lt a b \<Longrightarrow> \<not> str_lt b a"
  unfolding str_lt_def using str_le_antisym by blast

text \<open>The rows of a range: every key of the range that can be read, in key order, with what reading it gives.\<close>

definition kv_listing :: "('db, 'v) kvgo \<Rightarrow> 'db \<Rightarrow> string \<Rightarrow> string \<Rightarrow> 'v kv_item list \<Rightarrow> bool" where
  "kv_listing K db lo hi all \<longleftrightarrow>
     sorted_wrt str_lt (map it_key all) \<and>
     (\<forall>it \<in> set all. in_range lo hi (it_key it) \<and> kv_get K db (it_key it) = KvFound (it_meta it) (it_val it)) \<and>
     (\<forall>k m v. in_range lo hi k \<and> kv_get K db k = KvFound m v \<longrightarrow> k \<in> it_key ` set all)"

text \<open>
  The documented behaviour of a forward range scan with a positive limit: it answers, and the page is the
  start of the rows of the range. A page may be short, but it is empty only when the range is.
\<close>

definition kv_ranged :: "('db, 'v) kvgo \<Rightarrow> 'db \<Rightarrow> bool" where
  "kv_ranged K db \<longleftrightarrow>
     (\<forall>lo hi n. n > 0 \<longrightarrow>
        (\<exists>its more rest. kv_range K db lo hi n False = KvItems its more \<and> kv_listing K db lo hi (its @ rest)
           \<and> (its = [] \<longrightarrow> rest = []) \<and> length its \<le> n))"

lemma sorted_wrt_unique:
  "sorted_wrt str_lt xs \<Longrightarrow> sorted_wrt str_lt ys \<Longrightarrow> set xs = set ys \<Longrightarrow> xs = ys"
proof (induction xs arbitrary: ys)
  case (Cons x xs)
  then obtain y ys' where ys: "ys = y # ys'" by (cases ys) auto
  have "x = y" using Cons.prems str_lt_asym unfolding ys by (metis insert_iff list.simps(15) sorted_wrt.simps(2))
  moreover have "x \<notin> set xs" "y \<notin> set ys'"
    using Cons.prems(1,2) str_lt_asym unfolding ys by auto
  moreover have "set xs = set ys'" using Cons.prems(3) calculation unfolding ys by (metis insert_ident list.simps(15))
  ultimately show ?case using Cons.IH [of ys'] Cons.prems unfolding ys by auto
qed simp

lemma kv_listing_unique:
  assumes "kv_listing K db lo hi xs" "kv_listing K db lo hi ys"
  shows "xs = ys"
proof -
  have set_key: "it_key ` set zs = {k. in_range lo hi k \<and> (\<exists>m v. kv_get K db k = KvFound m v)}"
    if "kv_listing K db lo hi zs" for zs
    using that unfolding kv_listing_def by blast
  have keys: "map it_key xs = map it_key ys"
    using assms set_key [OF assms(1)] set_key [OF assms(2)]
    by (intro sorted_wrt_unique) (auto simp: kv_listing_def)
  have "x = y" if "x \<in> set xs" "y \<in> set ys" "it_key x = it_key y" for x y
    using that assms unfolding kv_listing_def by (metis kv_item.equality kv_read.inject(1) unit.exhaust)
  then show ?thesis using keys by (metis list.inj_map_strong)
qed

lemma kv_listing_drop:
  assumes "kv_listing K db lo hi (xs @ ys)" "xs \<noteq> []"
  shows "kv_listing K db (it_key (last xs)) hi ys"
proof -
  let ?l = "it_key (last xs)"
  have l: "last xs \<in> set xs" using assms(2) by simp
  have srt: "sorted_wrt str_lt (map it_key xs)" "\<forall>x \<in> set xs. \<forall>y \<in> set ys. str_lt (it_key x) (it_key y)"
    using assms(1) by (auto simp: kv_listing_def sorted_wrt_append)
  have lt: "str_lt ?l (it_key y)" if "y \<in> set ys" for y using srt(2) l that by blast
  have below: "\<not> str_lt ?l (it_key x)" if "x \<in> set xs" for x
  proof -
    obtain us where us: "xs = us @ [last xs]" using assms(2) by (metis append_butlast_last_id)
    have "x = last xs \<or> str_lt (it_key x) ?l"
      using srt(1) that by (subst (asm) us, subst (asm) (2) us) (auto simp: sorted_wrt_append)
    then show ?thesis using str_lt_asym by (auto simp: str_lt_def)
  qed
  have ll: "in_range lo hi ?l" using assms(1) l by (auto simp: kv_listing_def)
  show ?thesis unfolding kv_listing_def
  proof (intro conjI ballI allI impI)
    show "sorted_wrt str_lt (map it_key ys)" using assms(1) by (simp add: kv_listing_def sorted_wrt_append)
    show "in_range ?l hi (it_key y)" if "y \<in> set ys" for y
      using lt [OF that] assms(1) that by (auto simp: kv_listing_def in_range_def)
    show "kv_get K db (it_key y) = KvFound (it_meta y) (it_val y)" if "y \<in> set ys" for y
      using assms(1) that by (auto simp: kv_listing_def)
    show "k \<in> it_key ` set ys" if "in_range ?l hi k \<and> kv_get K db k = KvFound m v" for k m v
    proof -
      have "in_range lo hi k" using that ll str_lt_trans by (auto simp: in_range_def)
      then have "k \<in> it_key ` set (xs @ ys)" using assms(1) that unfolding kv_listing_def by blast
      then show ?thesis using below that by (auto simp: in_range_def)
    qed
  qed
qed

text \<open>
  The scan loop the listings share: read a page, keep the rows the filter selects until one more than
  wanted matches, and follow the last key of the page. The fuel bounds the number of pages.
\<close>

fun scan_page :: "('v kv_item \<Rightarrow> 'a option) \<Rightarrow> nat \<Rightarrow> 'v kv_item list \<Rightarrow> 'a list \<Rightarrow> 'a list \<times> bool" where
  "scan_page sel n [] acc = (acc, False)"
| "scan_page sel n (it # its) acc =
     (case sel it of
        None \<Rightarrow> scan_page sel n its acc
      | Some a \<Rightarrow> if length acc \<ge> n then (acc, True) else scan_page sel n its (acc @ [a]))"

fun scan_pages ::
  "nat \<Rightarrow> ('db, 'v) kvgo \<Rightarrow> 'db \<Rightarrow> ('v kv_item \<Rightarrow> 'a option) \<Rightarrow> nat \<Rightarrow> nat \<Rightarrow> string \<Rightarrow> string \<Rightarrow> 'a list
     \<Rightarrow> (string + 'a list \<times> bool) option" where
  "scan_pages 0 K db sel limit n lower upper acc = None"
| "scan_pages (Suc fuel) K db sel limit n lower upper acc =
     (case kv_range K db lower upper limit False of
        KvRangeErr e \<Rightarrow> Some (Inl e)
      | KvItems [] _ \<Rightarrow> Some (Inr (acc, False))
      | KvItems (i # r) _ \<Rightarrow>
          (case scan_page sel n (i # r) acc of
             (acc', True) \<Rightarrow> Some (Inr (acc', True))
           | (acc', False) \<Rightarrow> scan_pages fuel K db sel limit n (it_key (last (i # r))) upper acc'))"

lemma scan_page_eq:
  "length acc \<le> n \<Longrightarrow>
     scan_page sel n its acc =
       (take n (acc @ List.map_filter sel its), length (acc @ List.map_filter sel its) > n)"
  by (induction its arbitrary: acc) (auto simp: map_filter_simps take_Cons' split: option.splits)

text \<open>The paged scan computes what one unbounded scan would: fuel above the number of rows is enough.\<close>

lemma scan_pages_eq:
  assumes "kv_ranged K db" "limit > 0"
  shows "kv_listing K db lower upper all \<Longrightarrow> length all < fuel \<Longrightarrow> length acc \<le> n \<Longrightarrow>
     scan_pages fuel K db sel limit n lower upper acc =
       Some (Inr (take n (acc @ List.map_filter sel all), length (acc @ List.map_filter sel all) > n))"
proof (induction fuel arbitrary: lower all acc)
  case (Suc fuel)
  obtain its more rest where r: "kv_range K db lower upper limit False = KvItems its more"
      "kv_listing K db lower upper (its @ rest)" "its = [] \<longrightarrow> rest = []"
    using assms unfolding kv_ranged_def by blast
  have all: "all = its @ rest" by (rule kv_listing_unique [OF Suc.prems(1) r(2)])
  show ?case
  proof (cases its)
    case Nil then show ?thesis using r all Suc.prems by simp
  next
    case (Cons i r')
    let ?acc = "take n (acc @ List.map_filter sel its)"
    note page = scan_page_eq [OF Suc.prems(3), of sel its]
    have step: "scan_pages (Suc fuel) K db sel limit n lower upper acc =
        (if length (acc @ List.map_filter sel its) > n then Some (Inr (?acc, True))
         else scan_pages fuel K db sel limit n (it_key (last its)) upper ?acc)"
      using r(1) page unfolding Cons by (simp del: scan_page.simps add: map_filter_simps split: bool.splits)
    show ?thesis
    proof (cases "length (acc @ List.map_filter sel its) > n")
      case True
      then show ?thesis unfolding step all by (simp add: map_filter_append)
    next
      case False
      have "scan_pages fuel K db sel limit n (it_key (last its)) upper ?acc =
          Some (Inr (take n (?acc @ List.map_filter sel rest), length (?acc @ List.map_filter sel rest) > n))"
        by (rule Suc.IH [OF kv_listing_drop [OF r(2)]]) (use Suc.prems(2) all Cons in auto)
      then show ?thesis using False unfolding step all by (simp add: map_filter_append)
    qed
  qed
qed simp

section \<open>Hexadecimal keys\<close>

text \<open>\<open>fmt\<close>'s \<open>%0wx\<close> of a number that is not negative: at least \<open>w\<close> digits.\<close>

definition hex_char :: "nat \<Rightarrow> char" where
  "hex_char d = ''0123456789abcdef'' ! d"

fun show_hex :: "nat \<Rightarrow> nat \<Rightarrow> string" where
  "show_hex 0 n = (if n = 0 then [] else show_hex 0 (n div 16) @ [hex_char (n mod 16)])"
| "show_hex (Suc w) n = show_hex w (n div 16) @ [hex_char (n mod 16)]"

lemma hex_char_code: "d < 16 \<Longrightarrow> (of_char (hex_char d) :: nat) = (if d < 10 then 48 + d else 87 + d)"
proof -
  have "\<forall>d \<in> {0 ..< 16}. (of_char (hex_char d) :: nat) = (if d < 10 then 48 + d else 87 + d)" by code_simp
  then show "d < 16 \<Longrightarrow> (of_char (hex_char d) :: nat) = (if d < 10 then 48 + d else 87 + d)" by simp
qed

lemma show_hex_length: "n < 16 ^ w \<Longrightarrow> length (show_hex w n) = w"
  by (induction w arbitrary: n) (auto simp: less_mult_imp_div_less)

lemma str_lt_append: "length a = length b \<Longrightarrow> str_lt a b \<Longrightarrow> str_lt (a @ x) (b @ y)"
  by (induction a b rule: list_induct2) (auto simp: str_lt_def)

lemma str_lt_prefix: "str_lt (p @ a) (p @ b) \<longleftrightarrow> str_lt a b"
  by (induction p) (auto simp: str_lt_def)

lemma str_le_prefix: "str_le (p @ a) (p @ b) \<longleftrightarrow> str_le a b"
  by (induction p) auto

text \<open>The order of the keys is the order of the numbers.\<close>

lemma show_hex_less: "m < n \<Longrightarrow> n < 16 ^ w \<Longrightarrow> str_lt (show_hex w m) (show_hex w n)"
proof (induction w arbitrary: m n)
  case (Suc w)
  have d: "n div 16 < 16 ^ w" "m div 16 < 16 ^ w" using Suc.prems by (auto simp: less_mult_imp_div_less)
  show ?case
  proof (cases "m div 16 = n div 16")
    case True
    then have "m mod 16 < n mod 16" using Suc.prems(1) by (metis div_mult_mod_eq nat_add_left_cancel_less)
    then have "str_lt [hex_char (m mod 16)] [hex_char (n mod 16)]" using hex_char_code [of "m mod 16"] hex_char_code [of "n mod 16"]
      by (auto simp: str_lt_def split: if_splits)
    then show ?thesis using True by (simp add: str_lt_prefix)
  next
    case False
    then have "m div 16 < n div 16" using Suc.prems(1) by (simp add: div_le_mono order.not_eq_order_implies_strict)
    from Suc.IH [OF this d(1)] show ?thesis using d by (simp add: str_lt_append show_hex_length)
  qed
qed simp

section \<open>An in-memory store\<close>

text \<open>
  The latest version is a counter of the database; the entries are kept in key order, so that a range
  scan is a filter. Writes never expire here.
\<close>

type_synonym 'v mem_db = "nat \<times> (string \<times> nat \<times> 'v) list"

fun mem_lookup :: "(string \<times> 'a) list \<Rightarrow> string \<Rightarrow> 'a option" where
  "mem_lookup [] k = None"
| "mem_lookup ((k', v) # es) k = (if k' = k then Some v else mem_lookup es k)"

fun mem_insert :: "string \<Rightarrow> 'a \<Rightarrow> (string \<times> 'a) list \<Rightarrow> (string \<times> 'a) list" where
  "mem_insert k v [] = [(k, v)]"
| "mem_insert k v ((k', v') # es) =
     (if k' = k then (k, v) # es
      else if str_le k k' then (k, v) # (k', v') # es
      else (k', v') # mem_insert k v es)"

definition mem_get :: "'v mem_db \<Rightarrow> string \<Rightarrow> 'v kv_read" where
  "mem_get db k = (case mem_lookup (snd db) k of
       None \<Rightarrow> KvNotFound
     | Some (n, v) \<Rightarrow> KvFound \<lparr>m_version = n, m_updated = 0\<rparr> (Some v))"

definition mem_put :: "'v mem_db \<Rightarrow> string \<Rightarrow> kv_wopt \<Rightarrow> 'v \<Rightarrow> 'v mem_db \<times> kv_wr" where
  "mem_put db k opt v =
     (let cur = map_option fst (mem_lookup (snd db) k); n = Suc (fst db + (case cur of None \<Rightarrow> 0 | Some c \<Rightarrow> c)) in
      if (case wo_prev opt of None \<Rightarrow> False | Some p \<Rightarrow> p \<noteq> 0 \<and> cur \<noteq> Some p) \<or> (wo_create opt \<and> cur \<noteq> None)
      then (db, KvWriteErr ''conflict'')
      else ((n, mem_insert k (n, v) (snd db)), KvWritten \<lparr>m_version = n, m_updated = 0\<rparr>))"

definition mem_del :: "'v mem_db \<Rightarrow> string \<Rightarrow> 'v mem_db \<times> kv_dr" where
  "mem_del db k =
     (if mem_lookup (snd db) k = None then (db, KvDelNotFound)
      else ((fst db, filter (\<lambda>e. fst e \<noteq> k) (snd db)), KvDeleted))"

definition mem_range :: "'v mem_db \<Rightarrow> string \<Rightarrow> string \<Rightarrow> nat \<Rightarrow> bool \<Rightarrow> 'v kv_rr" where
  "mem_range db lo hi limit revert =
     (let es = filter (\<lambda>e. in_range lo hi (fst e)) (snd db);
          its = map (\<lambda>(k, n, v). \<lparr>it_key = k, it_meta = \<lparr>m_version = n, m_updated = 0\<rparr>, it_val = Some v\<rparr>)
                  (if revert then rev es else es)
      in KvItems (take limit its) (length its > limit))"

definition mem_kv :: "('v mem_db, 'v) kvgo" where
  "mem_kv = \<lparr>kv_get = mem_get, kv_put = mem_put, kv_del = mem_del, kv_range = mem_range\<rparr>"

lemma mem_lookup_insert:
  "mem_lookup (mem_insert k v es) k' = (if k' = k then Some v else mem_lookup es k')"
  by (induction k v es rule: mem_insert.induct) auto

lemma mem_lookup_filter:
  "mem_lookup (filter (\<lambda>e. fst e \<noteq> k) es) k' = (if k' = k then None else mem_lookup es k')"
  by (induction es) auto

lemma mem_kv_lawful: "kv_lawful mem_kv"
  unfolding kv_lawful_def
  by (auto simp: mem_kv_def mem_get_def mem_put_def mem_del_def kv_version_at_def mem_lookup_insert
      mem_lookup_filter Let_def split: if_splits option.splits)

lemma mem_kv_accepts: "kv_accepts mem_kv"
  by (simp add: kv_accepts_def mem_kv_def mem_put_def plain_put_def split: prod.split)

lemma mem_del_quiet: "kv_del_quiet mem_kv"
  by (auto simp: kv_del_quiet_def mem_kv_def mem_del_def split: if_splits)

lemma mem_kv_deletes: "kv_deletes mem_kv"
  by (auto simp: kv_deletes_def mem_kv_def mem_get_def mem_del_def split: option.splits)

lemma mem_lookup_sorted:
  "sorted_wrt str_lt (map fst es) \<Longrightarrow> (k, v) \<in> set es \<Longrightarrow> mem_lookup es k = Some v"
proof (induction es)
  case (Cons e es) then show ?case by (cases e) (force simp: str_lt_def)
qed simp

lemma mem_lookup_Some: "mem_lookup es k = Some v \<Longrightarrow> (k, v) \<in> set es"
proof (induction es)
  case (Cons e es) then show ?case by (cases e) (auto split: if_splits)
qed simp

definition mem_items :: "(string \<times> nat \<times> 'v) list \<Rightarrow> 'v kv_item list" where
  "mem_items es = map (\<lambda>(k, n, v). \<lparr>it_key = k, it_meta = \<lparr>m_version = n, m_updated = 0\<rparr>, it_val = Some v\<rparr>) es"

lemma mem_items_keys: "map it_key (mem_items es) = map fst es"
  by (induction es) (auto simp: mem_items_def)

lemma mem_listing:
  assumes "sorted_wrt str_lt (map fst (snd db))"
  shows "kv_listing mem_kv db lo hi (mem_items (filter (\<lambda>e. in_range lo hi (fst e)) (snd db)))"
proof -
  let ?es = "filter (\<lambda>e. in_range lo hi (fst e)) (snd db)"
  have "sorted_wrt str_lt (map fst ?es)"
    using assms by (simp add: sorted_wrt_map sorted_wrt_filter)
  moreover have "in_range lo hi (it_key it) \<and> kv_get mem_kv db (it_key it) = KvFound (it_meta it) (it_val it)"
    if "it \<in> set (mem_items ?es)" for it
    using that mem_lookup_sorted [OF assms] by (auto simp: mem_items_def mem_kv_def mem_get_def)
  moreover have "k \<in> it_key ` set (mem_items ?es)" if h: "in_range lo hi k \<and> kv_get mem_kv db k = KvFound m v" for k m v
  proof -
    obtain x where "mem_lookup (snd db) k = Some x" using h by (auto simp: mem_kv_def mem_get_def split: option.splits)
    then have "k \<in> fst ` set ?es" using mem_lookup_Some h by force
    then show ?thesis by (metis list.set_map mem_items_keys)
  qed
  ultimately show ?thesis by (auto simp: kv_listing_def mem_items_keys)
qed

lemma mem_kv_ranged: "sorted_wrt str_lt (map fst (snd db)) \<Longrightarrow> kv_ranged mem_kv db"
  unfolding kv_ranged_def
proof (intro allI impI)
  fix lo hi and n :: nat
  assume srt: "sorted_wrt str_lt (map fst (snd db))" and n: "n > 0"
  let ?its = "mem_items (filter (\<lambda>e. in_range lo hi (fst e)) (snd db))"
  have "kv_range mem_kv db lo hi n False = KvItems (take n ?its) (length ?its > n)"
    by (simp add: mem_kv_def mem_range_def mem_items_def Let_def)
  then show "\<exists>its more rest. kv_range mem_kv db lo hi n False = KvItems its more
      \<and> kv_listing mem_kv db lo hi (its @ rest) \<and> (its = [] \<longrightarrow> rest = []) \<and> length its \<le> n"
    using mem_listing [OF srt, of lo hi] n by (intro exI [of _ "take n ?its"] exI [of _ "length ?its > n"] exI [of _ "drop n ?its"] conjI) auto
qed

end
