(* ===== verification/Ipam.thy ===== *)
theory Ipam
  imports NetUtil KvStore
begin

text \<open>
  The zone network manager, \<open>internal/zonelet/network/ipam.go\<close>: the bridge address and the /24
  instance subnet of every host, the address of every replica, and their persistence. The state
  \<open>net_mgr\<close> has the fields of \<open>NetworkManager\<close>; the hosts map of the code holds pointers to the
  entries of \<open>Map.VpcBridgeHost\<close>, so here it holds the bridge key of the shared entry. The store is
  the parameter \<open>K\<close>, the clock an argument, and \<open>Restore\<close> takes the iteration order of the Go map.
  A nil dereference or a short slice is the outcome \<open>NmPanic\<close>.
\<close>

section \<open>State\<close>

record zn_host =
  zh_id :: string
  zh_peer :: u32
  zh_bridge :: u32
  zh_instance :: u32

record zone_network_map =
  zm_bridge_cidr :: string
  zm_instance_cidr :: string
  zm_domain :: string
  zm_bridge_host :: "u32 \<rightharpoonup> zn_host"
  zm_instance :: "u32 \<rightharpoonup> string"
  zm_updated :: int
  zm_revision :: u64

record net_mgr =
  nm_map :: "zone_network_map option"
  nm_version :: nat
  nm_bridge :: u32
  nm_instance :: u32
  nm_peer_ip :: "string \<rightharpoonup> string"
  nm_hosts :: "string \<rightharpoonup> u32"
  nm_changed :: bool
  nm_zone :: string
  nm_ready :: bool

record host_deploy =
  hd_bridge_ip :: string
  hd_instance_cidr :: string
  hd_port_used :: "u32 list"

datatype nm_error =
    NmInvalidZone
  | NmZoneNotReady
  | NmInvalidCIDR string
  | NmNotPrivate string net_error
  | NmPeerAddr net_error
  | NmUnmarshal
  | NmRead string
  | NmWrite string

datatype 'a nm_res = NmOK 'a | NmErr nm_error | NmPanic

definition VpcAllocMin :: nat where "VpcAllocMin = 3"
definition VpcAllocMax :: nat where "VpcAllocMax = 252"

lemmas vpc_consts = VpcAllocMin_def VpcAllocMax_def

definition empty_network_map :: zone_network_map where
  "empty_network_map = \<lparr>zm_bridge_cidr = '''', zm_instance_cidr = '''', zm_domain = '''',
     zm_bridge_host = Map.empty, zm_instance = Map.empty, zm_updated = 0, zm_revision = 0\<rparr>"

definition NewNetworkManager :: net_mgr where
  "NewNetworkManager = \<lparr>nm_map = None, nm_version = 0, nm_bridge = 0, nm_instance = 0,
     nm_peer_ip = Map.empty, nm_hosts = Map.empty, nm_changed = False, nm_zone = '''', nm_ready = False\<rparr>"

definition NsZoneletNetworkIPAM :: "string \<Rightarrow> string" where
  "NsZoneletNetworkIPAM zone = ''i8k/v2/zone/'' @ zone @ ''/network/ipam''"

section \<open>Operations\<close>

definition nm_flush ::
    "('db, zone_network_map) kvgo \<Rightarrow> int \<Rightarrow> net_mgr \<Rightarrow> 'db \<Rightarrow> net_mgr \<times> 'db \<times> unit nm_res" where
  "nm_flush K now nm db =
     (let m0 = (case nm_map nm of None \<Rightarrow> empty_network_map | Some m \<Rightarrow> m);
          m = m0\<lparr>zm_updated := now, zm_revision := zm_revision m0 + 1\<rparr>;
          nm1 = nm\<lparr>nm_map := Some m\<rparr>
      in case kv_put K db (NsZoneletNetworkIPAM (nm_zone nm)) plain_put m of
           (db', KvWritten meta) \<Rightarrow> (nm1\<lparr>nm_version := m_version meta\<rparr>, db', NmOK ())
         | (db', KvWriteErr e) \<Rightarrow> (nm1, db', NmErr (NmWrite e)))"

text \<open>
  The two CIDR blocks of \<open>ZoneSetup\<close> are the same code on different fields: parse, check that the
  address is private, convert. The printed form of a parsed IPv6 address is no IPv4 address, so
  \<open>ParsePrivateIP\<close> refuses it.
\<close>

definition setup_cidr :: "string \<Rightarrow> u32 nm_res" where
  "setup_cidr cidr =
     (case ParseCIDR cidr of
        None \<Rightarrow> NmErr (NmInvalidCIDR cidr)
      | Some (ip, _) \<Rightarrow> (case to4 ip of
            None \<Rightarrow> NmErr (NmNotPrivate cidr NetInvalidIPv4)
          | Some b \<Rightarrow> (case ParsePrivateIP (IP4ToString b) of
                Inl e \<Rightarrow> NmErr (NmNotPrivate cidr e)
              | Inr _ \<Rightarrow> (case BytesToUint32 b of None \<Rightarrow> NmPanic | Some v \<Rightarrow> NmOK v))))"

definition setup_bridge :: "string \<Rightarrow> zone_network_map \<Rightarrow> net_mgr \<Rightarrow> net_mgr \<times> unit nm_res" where
  "setup_bridge cidr m nm =
     (if cidr = '''' \<or> cidr = zm_bridge_cidr m then (nm, NmOK ())
      else case setup_cidr cidr of
          NmOK v \<Rightarrow> (nm\<lparr>nm_map := Some (m\<lparr>zm_bridge_cidr := cidr\<rparr>), nm_bridge := v, nm_changed := True\<rparr>, NmOK ())
        | NmErr e \<Rightarrow> (nm, NmErr e)
        | NmPanic \<Rightarrow> (nm, NmPanic))"

definition setup_instance :: "string \<Rightarrow> zone_network_map \<Rightarrow> net_mgr \<Rightarrow> net_mgr \<times> unit nm_res" where
  "setup_instance cidr m nm =
     (if cidr = '''' \<or> cidr = zm_instance_cidr m then (nm, NmOK ())
      else case setup_cidr cidr of
          NmOK v \<Rightarrow> (nm\<lparr>nm_map := Some (m\<lparr>zm_instance_cidr := cidr\<rparr>), nm_instance := v, nm_changed := True\<rparr>, NmOK ())
        | NmErr e \<Rightarrow> (nm, NmErr e)
        | NmPanic \<Rightarrow> (nm, NmPanic))"

definition setup_domain :: "string \<Rightarrow> zone_network_map \<Rightarrow> net_mgr \<Rightarrow> net_mgr" where
  "setup_domain domain m nm =
     (if domain \<noteq> '''' \<and> domain \<noteq> zm_domain m
      then nm\<lparr>nm_map := Some (m\<lparr>zm_domain := domain\<rparr>), nm_changed := True\<rparr> else nm)"

definition the_map :: "net_mgr \<Rightarrow> zone_network_map" where
  "the_map nm = (case nm_map nm of None \<Rightarrow> empty_network_map | Some m \<Rightarrow> m)"

definition ZoneSetup ::
    "('db, zone_network_map) kvgo \<Rightarrow> int \<Rightarrow> string \<Rightarrow> string \<Rightarrow> string \<Rightarrow> string \<Rightarrow> net_mgr \<Rightarrow> 'db
      \<Rightarrow> net_mgr \<times> 'db \<times> unit nm_res" where
  "ZoneSetup K now zoneName bridgeCIDR instanceCIDR domain nm db =
     (if zoneName = '''' \<or> bridgeCIDR = '''' \<or> instanceCIDR = '''' then (nm, db, NmOK ())
      else if zoneName \<noteq> nm_zone nm \<and> nm_zone nm \<noteq> '''' then (nm, db, NmErr NmInvalidZone)
      else
        let nm0 = (if zoneName \<noteq> nm_zone nm then nm\<lparr>nm_zone := zoneName, nm_changed := True\<rparr> else nm);
            nm1 = nm0\<lparr>nm_map := Some (the_map nm0)\<rparr>
        in case setup_bridge bridgeCIDR (the_map nm1) nm1 of
          (nm2, NmOK _) \<Rightarrow> (case setup_instance instanceCIDR (the_map nm2) nm2 of
              (nm3, NmOK _) \<Rightarrow>
                (let nm4 = setup_domain domain (the_map nm3) nm3 in
                 if nm_changed nm4 then
                   (case nm_flush K now nm4 db of
                      (nm5, db', NmOK _) \<Rightarrow> (nm5\<lparr>nm_changed := False, nm_ready := True\<rparr>, db', NmOK ())
                    | (nm5, db', r) \<Rightarrow> (nm5, db', r))
                 else (nm4\<lparr>nm_ready := True\<rparr>, db, NmOK ()))
            | (nm3, r) \<Rightarrow> (nm3, db, r))
        | (nm2, r) \<Rightarrow> (nm2, db, r))"

text \<open>The base address of a stored CIDR in \<open>Restore\<close>.\<close>

definition restore_base :: "string \<Rightarrow> u32 \<Rightarrow> u32 nm_res" where
  "restore_base cidr msk =
     (case ParseCIDR cidr of
        None \<Rightarrow> NmErr (NmInvalidCIDR cidr)
      | Some (ip, _) \<Rightarrow> (case to4 ip of
            None \<Rightarrow> NmPanic
          | Some b \<Rightarrow> (case BytesToUint32 b of None \<Rightarrow> NmPanic | Some v \<Rightarrow> NmOK (v AND msk))))"

fun restore_hosts :: "u32 list \<Rightarrow> u32 \<Rightarrow> (u32 \<rightharpoonup> zn_host) \<Rightarrow> (string \<rightharpoonup> u32) \<Rightarrow> (string \<rightharpoonup> u32)" where
  "restore_hosts [] bridge hs acc = acc"
| "restore_hosts (k # ks) bridge hs acc =
     restore_hosts ks bridge hs
       (case hs k of
          None \<Rightarrow> acc
        | Some h \<Rightarrow> if k AND 0xFFFFFF00 \<noteq> bridge then acc
            else if zh_bridge h = k then acc(zh_id h \<mapsto> k) else acc)"

definition keep_net :: "u32 \<Rightarrow> u32 \<Rightarrow> (u32 \<rightharpoonup> 'a) \<Rightarrow> (u32 \<rightharpoonup> 'a)" where
  "keep_net msk base mp = (\<lambda>k. if k AND msk \<noteq> base then None else mp k)"

definition Restore ::
    "('db, zone_network_map) kvgo \<Rightarrow> u32 list \<Rightarrow> string \<Rightarrow> net_mgr \<Rightarrow> 'db \<Rightarrow> net_mgr \<times> unit nm_res" where
  "Restore K order zoneName nm db =
     (if zoneName = '''' then (nm, NmErr NmZoneNotReady)
      else
        let nm0 = nm\<lparr>nm_zone := zoneName\<rparr>
        in case kv_get K db (NsZoneletNetworkIPAM zoneName) of
          KvNotFound \<Rightarrow> (nm0, NmOK ())
        | KvReadErr e \<Rightarrow> (nm0, NmErr (NmRead e))
        | KvFound meta val \<Rightarrow>
            if m_version meta \<le> nm_version nm0 then (nm0, NmOK ())
            else (case val of
                None \<Rightarrow> (nm0, NmErr NmUnmarshal)
              | Some st \<Rightarrow>
                  (let nm1 = nm0\<lparr>nm_map := Some st, nm_hosts := Map.empty\<rparr> in
                   case restore_base (zm_bridge_cidr st) 0xFFFFFF00 of
                     NmErr e \<Rightarrow> (nm1, NmErr e) | NmPanic \<Rightarrow> (nm1, NmPanic)
                   | NmOK br \<Rightarrow>
                      (let nm2 = nm1\<lparr>nm_bridge := br\<rparr> in
                       case restore_base (zm_instance_cidr st) 0xFFFF0000 of
                         NmErr e \<Rightarrow> (nm2, NmErr e) | NmPanic \<Rightarrow> (nm2, NmPanic)
                       | NmOK ins \<Rightarrow>
                          (nm2\<lparr>nm_instance := ins,
                               nm_hosts := restore_hosts order br (zm_bridge_host st) Map.empty,
                               nm_map := Some (st\<lparr>
                                 zm_bridge_host := keep_net 0xFFFFFF00 br (zm_bridge_host st),
                                 zm_instance := keep_net 0xFFFF0000 ins (zm_instance st)\<rparr>),
                               nm_version := m_version meta, nm_ready := True\<rparr>, NmOK ())))))"

definition HostPeerIp :: "net_mgr \<Rightarrow> string \<Rightarrow> string option" where
  "HostPeerIp nm hostId = nm_peer_ip nm hostId"

definition HostNetwork :: "net_mgr \<Rightarrow> string \<Rightarrow> zn_host option" where
  "HostNetwork nm hostId =
     (case nm_hosts nm hostId of None \<Rightarrow> None | Some k \<Rightarrow> zm_bridge_host (the_map nm) k)"

text \<open>The slots \<open>base + n\<close> of a subnet, \<open>n\<close> from \<open>VpcAllocMin\<close> to \<open>VpcAllocMax\<close>.\<close>

definition slot :: "u32 \<Rightarrow> nat \<Rightarrow> u32" where
  "slot base n = (base AND 0xFFFFFF00) + of_nat n"

definition find_slot :: "u32 \<Rightarrow> (u32 \<Rightarrow> bool) \<Rightarrow> nat option" where
  "find_slot base P = first_fit (\<lambda>n. P (slot base n)) VpcAllocMin VpcAllocMax"

text \<open>
  The part of \<open>RefreshHostNetwork\<close> after the early return, in three steps: the entry to reuse (the
  host's own, or on a stale bridge address the first slot that carries its id), a fresh entry in the
  first free slot, and the update of the host's deploy fields and of the peer address.
\<close>

definition refresh_reuse :: "string \<Rightarrow> host_deploy \<Rightarrow> net_mgr \<Rightarrow> u32 option" where
  "refresh_reuse hostId d nm =
     (case HostNetwork nm hostId of
        None \<Rightarrow> None
      | Some h \<Rightarrow>
          if Uint32ToIpv4 (zh_bridge h) \<noteq> hd_bridge_ip d then
            map_option (slot (nm_bridge nm))
              (find_slot (nm_bridge nm) (\<lambda>a. case zm_bridge_host (the_map nm) a of
                 Some v \<Rightarrow> zh_id v = hostId | None \<Rightarrow> False))
          else nm_hosts nm hostId)"

definition refresh_alloc :: "string \<Rightarrow> net_mgr \<Rightarrow> (u32 \<times> net_mgr) option" where
  "refresh_alloc hostId nm =
     (case find_slot (nm_bridge nm) (\<lambda>a. zm_bridge_host (the_map nm) a = None) of
        None \<Rightarrow> None
      | Some n \<Rightarrow>
          (let m = the_map nm;
               bn = slot (nm_bridge nm) n;
               h = \<lparr>zh_id = hostId, zh_peer = 0, zh_bridge = bn,
                    zh_instance = (nm_instance nm AND 0xFFFF0000) + push_bit 8 (of_nat n)\<rparr>
           in Some (bn, nm\<lparr>nm_map := Some (m\<lparr>zm_bridge_host := (zm_bridge_host m)(bn \<mapsto> h)\<rparr>),
                           nm_hosts := (nm_hosts nm)(hostId \<mapsto> bn)\<rparr>)))"

definition refresh_commit ::
    "('db, zone_network_map) kvgo \<Rightarrow> int \<Rightarrow> host_deploy \<Rightarrow> u32 \<Rightarrow> u32 \<Rightarrow> net_mgr \<Rightarrow> 'db
      \<Rightarrow> net_mgr \<times> 'db \<times> host_deploy option \<times> bool nm_res" where
  "refresh_commit K now d peer k nm db =
     (case zm_bridge_host (the_map nm) k of
        None \<Rightarrow> (nm, db, Some d, NmPanic)
      | Some h \<Rightarrow>
          (let d' = d\<lparr>hd_bridge_ip := Uint32ToIpv4 (zh_bridge h),
                     hd_instance_cidr := Uint32ToIpv4 (zh_instance h) @ ''/24''\<rparr>;
               m = the_map nm;
               nm1 = nm\<lparr>nm_map := Some (m\<lparr>zm_bridge_host := (zm_bridge_host m)(k \<mapsto> h\<lparr>zh_peer := peer\<rparr>)\<rparr>)\<rparr>
           in case nm_flush K now nm1 db of
                (nm2, db', NmOK _) \<Rightarrow> (nm2, db', Some d', NmOK True)
              | (nm2, db', NmErr e) \<Rightarrow> (nm2, db', Some d', NmErr e)
              | (nm2, db', NmPanic) \<Rightarrow> (nm2, db', Some d', NmPanic)))"

definition refresh_current :: "string \<Rightarrow> host_deploy \<Rightarrow> u32 \<Rightarrow> net_mgr \<Rightarrow> bool" where
  "refresh_current hostId d peer nm =
     (case HostNetwork nm hostId of
        None \<Rightarrow> False
      | Some h \<Rightarrow> Uint32ToIpv4 (zh_bridge h) = hd_bridge_ip d \<and> zh_peer h = peer)"

definition RefreshHostNetwork ::
    "('db, zone_network_map) kvgo \<Rightarrow> int \<Rightarrow> string \<Rightarrow> string \<Rightarrow> host_deploy option \<Rightarrow> net_mgr \<Rightarrow> 'db
      \<Rightarrow> net_mgr \<times> 'db \<times> host_deploy option \<times> bool nm_res" where
  "RefreshHostNetwork K now hostId peerAddr deploy nm db =
     (case deploy of
        None \<Rightarrow> (nm, db, deploy, NmOK False)
      | Some d \<Rightarrow>
        if peerAddr = '''' then (nm, db, deploy, NmOK False)
        else case ParsePrivateAddress peerAddr of
          Inl e \<Rightarrow> (nm, db, deploy, NmErr (NmPeerAddr e))
        | Inr ip \<Rightarrow> (case BytesToUint32 ip of
            None \<Rightarrow> (nm, db, deploy, NmPanic)
          | Some peer \<Rightarrow>
            let nm1 = nm\<lparr>nm_peer_ip := (nm_peer_ip nm)(hostId \<mapsto> IP4ToString ip)\<rparr> in
            if \<not> nm_ready nm then (nm1, db, deploy, NmOK False)
            else if nm_map nm1 = None then (nm1, db, deploy, NmPanic)
            else if refresh_current hostId d peer nm1 then (nm1, db, deploy, NmOK False)
            else case refresh_reuse hostId d nm1 of
                Some k \<Rightarrow> refresh_commit K now d peer k nm1 db
              | None \<Rightarrow> (case refresh_alloc hostId nm1 of
                    None \<Rightarrow> (nm1, db, deploy, NmOK False)
                  | Some (k, nm2) \<Rightarrow> refresh_commit K now d peer k nm2 db)))"

definition VpcInstance :: "net_mgr \<Rightarrow> string \<Rightarrow> string" where
  "VpcInstance nm ipv4 =
     (case zm_instance (the_map nm) (Ipv4ToUint32 ipv4) of Some i \<Rightarrow> i | None \<Rightarrow> '''')"

definition ins_rep_id :: "string \<Rightarrow> u32 \<Rightarrow> string" where
  "ins_rep_id name rep = name @ ''_'' @ show_nat (unat rep)"

definition AllocHostSubNetwork ::
    "('db, zone_network_map) kvgo \<Rightarrow> int \<Rightarrow> string \<Rightarrow> string \<Rightarrow> u32 \<Rightarrow> net_mgr \<Rightarrow> 'db
      \<Rightarrow> net_mgr \<times> 'db \<times> string nm_res" where
  "AllocHostSubNetwork K now hostId instanceName repId nm db =
     (let rid = ins_rep_id instanceName repId in
      if \<not> nm_ready nm then (nm, db, NmOK '''')
      else case nm_map nm of
        None \<Rightarrow> (nm, db, NmPanic)
      | Some m \<Rightarrow>
        (case HostNetwork nm hostId of
           None \<Rightarrow> (nm, db, NmOK '''')
         | Some host \<Rightarrow>
           (case find_slot (zh_instance host) (\<lambda>a. zm_instance m a = Some rid) of
              Some n \<Rightarrow> (nm, db, NmOK (Uint32ToIpv4 (slot (zh_instance host) n)))
            | None \<Rightarrow>
              (case find_slot (zh_instance host) (\<lambda>a. zm_instance m a = None) of
                 None \<Rightarrow> (nm, db, NmOK '''')
               | Some n \<Rightarrow>
                   (let ipn = slot (zh_instance host) n;
                        nm1 = nm\<lparr>nm_map := Some (m\<lparr>zm_instance := (zm_instance m)(ipn \<mapsto> rid)\<rparr>)\<rparr>
                    in case nm_flush K now nm1 db of
                         (nm2, db', NmOK _) \<Rightarrow> (nm2, db', NmOK (Uint32ToIpv4 ipn))
                       | (nm2, db', _) \<Rightarrow> (nm2, db', NmOK ''''))))))"

section \<open>Addresses\<close>

definition octet :: "u32 \<Rightarrow> nat" where
  "octet a = unat a mod 256"

definition subnet_octet :: "u32 \<Rightarrow> nat" where
  "subnet_octet a = unat a div 256 mod 256"

definition allocatable :: "nat \<Rightarrow> bool" where
  "allocatable n \<longleftrightarrow> VpcAllocMin \<le> n \<and> n \<le> VpcAllocMax"

lemma allocatable_lt: "allocatable n \<Longrightarrow> n < 256"
  by (simp add: allocatable_def vpc_consts)

lemma octet_slot [simp]: "n < 256 \<Longrightarrow> octet (slot base n) = n"
  by (simp add: octet_def slot_def unat_net8_add)

lemma slot_inj: "m < 256 \<Longrightarrow> n < 256 \<Longrightarrow> slot base m = slot base n \<longleftrightarrow> m = n"
  by (metis octet_slot)

lemma slot_net: "n < 256 \<Longrightarrow> slot base n AND 0xFFFFFF00 = base AND 0xFFFFFF00"
  by (simp add: word_unat_eq_iff unat_net8 slot_def unat_net8_add)

lemma unat_instance_net:
  assumes "n < 256"
  shows "unat (((x :: u32) AND 0xFFFF0000) + push_bit 8 (of_nat n)) = unat x div 65536 * 65536 + n * 256"
proof -
  have "unat x div 65536 < 65536"
    using unat_lt_32 [of x] by (intro less_mult_imp_div_less) simp
  with assms have lt: "unat x div 65536 * 65536 + n * 256 < 4294967296" by linarith
  have "(push_bit 8 (of_nat n) :: u32) = of_nat (n * 256)"
    by (simp add: push_bit_eq_mult mult.commute)
  then have "unat (push_bit 8 (of_nat n) :: u32) = n * 256"
    using assms by (simp only: unat_of_nat) simp
  then show ?thesis using lt by (simp add: unat_word_ariths unat_net16)
qed

lemma subnet_octet_instance:
  "n < 256 \<Longrightarrow> subnet_octet ((x AND 0xFFFF0000) + push_bit 8 (of_nat n)) = n"
proof -
  assume n: "n < 256"
  have "(unat x div 65536 * 65536 + n * 256) div 256 = unat x div 65536 * 256 + n" by simp
  then show ?thesis using n by (simp add: subnet_octet_def unat_instance_net)
qed

lemma octet_instance: "n < 256 \<Longrightarrow> octet ((x AND 0xFFFF0000) + push_bit 8 (of_nat n)) = 0"
proof -
  assume n: "n < 256"
  have "unat x div 65536 * 65536 + n * 256 = 256 * (unat x div 65536 * 256 + n)" by simp
  then show ?thesis using n by (simp add: octet_def unat_instance_net)
qed

lemma find_slot_Some:
  "find_slot base P = Some n \<Longrightarrow> P (slot base n) \<and> allocatable n"
  by (auto simp: find_slot_def allocatable_def)

lemma find_slot_None:
  "find_slot base P = None \<longleftrightarrow> (\<forall>n. allocatable n \<longrightarrow> \<not> P (slot base n))"
  by (auto simp: find_slot_def allocatable_def first_fit_None)

lemma ins_rep_id_inj [simp]: "ins_rep_id n r = ins_rep_id n' r' \<longleftrightarrow> n = n' \<and> r = r'"
proof
  assume "ins_rep_id n r = ins_rep_id n' r'"
  then have "n @ CHR ''_'' # show_nat (unat r) = n' @ CHR ''_'' # show_nat (unat r')"
    by (simp add: ins_rep_id_def)
  then have "n = n' \<and> show_nat (unat r) = show_nat (unat r')"
    by (intro append_sep_inj_last) (auto intro!: show_nat_no_sep simp: is_digit_def)
  then show "n = n' \<and> r = r'" by (simp add: word_unat_eq_iff)
qed simp

section \<open>Invariant\<close>

text \<open>
  A stored map is well formed: an entry is filed under its own bridge address, its last octet is
  allocatable and is the third octet of the entry's instance subnet, every replica address has an
  allocatable octet, and the CIDRs, once set, are private IPv4 ranges.
\<close>

definition cidr_ok :: "string \<Rightarrow> bool" where
  "cidr_ok c \<longleftrightarrow> c = '''' \<or> (\<exists>v. setup_cidr c = NmOK v)"

definition map_inv :: "zone_network_map \<Rightarrow> bool" where
  "map_inv m \<longleftrightarrow>
     (\<forall>k h. zm_bridge_host m k = Some h \<longrightarrow>
        zh_bridge h = k \<and> allocatable (octet k) \<and> octet (zh_instance h) = 0 \<and> subnet_octet (zh_instance h) = octet k) \<and>
     (\<forall>a i. zm_instance m a = Some i \<longrightarrow> allocatable (octet a)) \<and>
     cidr_ok (zm_bridge_cidr m) \<and> cidr_ok (zm_instance_cidr m)"

text \<open>Every pointer of the hosts map is to an entry of the shared map that carries the same id.\<close>

definition hosts_inv :: "net_mgr \<Rightarrow> bool" where
  "hosts_inv nm \<longleftrightarrow>
     (\<forall>i k. nm_hosts nm i = Some k \<longrightarrow> (\<exists>h. zm_bridge_host (the_map nm) k = Some h \<and> zh_id h = i))"

definition nm_inv :: "net_mgr \<Rightarrow> bool" where
  "nm_inv nm \<longleftrightarrow> (nm_ready nm \<longrightarrow> nm_map nm \<noteq> None) \<and> map_inv (the_map nm) \<and> hosts_inv nm"

definition db_inv :: "('db, zone_network_map) kvgo \<Rightarrow> 'db \<Rightarrow> bool" where
  "db_inv K db \<longleftrightarrow>
     (\<forall>z meta m. kv_get K db (NsZoneletNetworkIPAM z) = KvFound meta (Some m) \<longrightarrow> map_inv m)"

lemma map_inv_empty [simp]: "map_inv empty_network_map"
  by (simp add: map_inv_def empty_network_map_def cidr_ok_def)

lemma nm_inv_New: "nm_inv NewNetworkManager"
  by (simp add: nm_inv_def NewNetworkManager_def the_map_def hosts_inv_def)

lemma Ns_ipam_inj [simp]: "NsZoneletNetworkIPAM z = NsZoneletNetworkIPAM z' \<longleftrightarrow> z = z'"
  by (simp add: NsZoneletNetworkIPAM_def)

lemma map_inv_cong:
  "zm_bridge_host m' = zm_bridge_host m \<Longrightarrow> zm_instance m' = zm_instance m \<Longrightarrow>
   zm_bridge_cidr m' = zm_bridge_cidr m \<Longrightarrow> zm_instance_cidr m' = zm_instance_cidr m \<Longrightarrow> map_inv m' = map_inv m"
  by (simp add: map_inv_def)

text \<open>What \<open>flush\<close> leaves as it is, and that it only writes a well-formed map.\<close>

lemma nm_flush_frame:
  assumes "nm_flush K now nm db = (nm', db', r)"
  shows "zm_bridge_host (the_map nm') = zm_bridge_host (the_map nm)"
    "zm_instance (the_map nm') = zm_instance (the_map nm)"
    "zm_bridge_cidr (the_map nm') = zm_bridge_cidr (the_map nm)"
    "zm_instance_cidr (the_map nm') = zm_instance_cidr (the_map nm)"
    "nm_hosts nm' = nm_hosts nm" "nm_ready nm' = nm_ready nm" "nm_map nm' = Some (the_map nm')"
    "nm_bridge nm' = nm_bridge nm" "nm_instance nm' = nm_instance nm" "nm_zone nm' = nm_zone nm"
    "r \<noteq> NmPanic"
  using assms by (auto simp: nm_flush_def the_map_def Let_def split: prod.splits kv_wr.splits option.splits)

lemma nm_flush_inv:
  assumes "nm_flush K now nm db = (nm', db', r)" "nm_inv nm"
  shows "nm_inv nm'"
proof -
  note frame = nm_flush_frame [OF assms(1)]
  have "map_inv (the_map nm') = map_inv (the_map nm)" by (rule map_inv_cong) (simp_all add: frame)
  then show ?thesis using assms(2) frame(7) by (simp add: nm_inv_def hosts_inv_def frame)
qed

lemma nm_flush_writes:
  assumes "nm_flush K now nm db = (nm', db', r)"
  shows "\<exists>wr. kv_put K db (NsZoneletNetworkIPAM (nm_zone nm)) plain_put (the_map nm') = (db', wr)"
  using assms by (auto simp: nm_flush_def the_map_def Let_def split: prod.splits kv_wr.splits)

lemma kv_put_db_inv:
  assumes "kv_lawful K" "kv_put K db (NsZoneletNetworkIPAM z) opt m = (db', wr)" "map_inv m" "db_inv K db"
  shows "db_inv K db'"
proof (cases wr)
  case (KvWritten meta)
  then have "kv_get K db' (NsZoneletNetworkIPAM z') =
      (if z' = z then KvFound meta (Some m) else kv_get K db (NsZoneletNetworkIPAM z'))" for z'
    using kv_put_read [OF assms(1)] kv_put_other [OF assms(1)] assms(2) by simp
  then show ?thesis using assms(3,4) by (auto simp: db_inv_def)
next
  case (KvWriteErr e)
  then show ?thesis using kv_put_fail [OF assms(1)] assms(2,4) by (simp add: db_inv_def)
qed

lemma nm_flush_db_inv:
  assumes "nm_flush K now nm db = (nm', db', r)" "nm_inv nm"
  shows "kv_lawful K \<longrightarrow> db_inv K db \<longrightarrow> db_inv K db'"
proof -
  obtain wr where "kv_put K db (NsZoneletNetworkIPAM (nm_zone nm)) plain_put (the_map nm') = (db', wr)"
    using nm_flush_writes [OF assms(1)] by blast
  moreover have "map_inv (the_map nm')" using nm_flush_inv [OF assms] by (simp add: nm_inv_def)
  ultimately show ?thesis using kv_put_db_inv [of K db] by blast
qed

section \<open>The operations keep the invariant\<close>

text \<open>Updates of the manager's map that keep it well formed.\<close>

lemma map_inv_instance:
  "map_inv m \<Longrightarrow> allocatable (octet a) \<Longrightarrow> map_inv (m\<lparr>zm_instance := (zm_instance m)(a \<mapsto> i)\<rparr>)"
  by (auto simp: map_inv_def)

lemma map_inv_bridge_host:
  assumes "map_inv m" "zh_bridge h = k" "allocatable (octet k)" "octet (zh_instance h) = 0"
    "subnet_octet (zh_instance h) = octet k"
  shows "map_inv (m\<lparr>zm_bridge_host := (zm_bridge_host m)(k \<mapsto> h)\<rparr>)"
  using assms by (auto simp: map_inv_def)

lemma map_inv_keep_net:
  "map_inv m \<Longrightarrow> map_inv (m\<lparr>zm_bridge_host := keep_net a b (zm_bridge_host m), zm_instance := keep_net c d (zm_instance m)\<rparr>)"
  by (auto simp: map_inv_def keep_net_def)

lemma the_map_update [simp]: "the_map (nm\<lparr>nm_map := Some m\<rparr>) = m"
  by (simp add: the_map_def)

lemma the_map_fields [simp]:
  "the_map (nm\<lparr>nm_changed := c\<rparr>) = the_map nm" "the_map (nm\<lparr>nm_bridge := u\<rparr>) = the_map nm"
  "the_map (nm\<lparr>nm_instance := u\<rparr>) = the_map nm" "the_map (nm\<lparr>nm_ready := c\<rparr>) = the_map nm"
  "the_map (nm\<lparr>nm_hosts := hs\<rparr>) = the_map nm" "the_map (nm\<lparr>nm_version := v\<rparr>) = the_map nm"
  "the_map (nm\<lparr>nm_peer_ip := p\<rparr>) = the_map nm" "the_map (nm\<lparr>nm_zone := z\<rparr>) = the_map nm"
  by (simp_all add: the_map_def)

text \<open>The fields of the manager the invariant reads.\<close>

lemma nm_inv_fields:
  "nm_map nm' = nm_map nm \<Longrightarrow> nm_hosts nm' = nm_hosts nm \<Longrightarrow> nm_ready nm' = nm_ready nm \<Longrightarrow> nm_inv nm' = nm_inv nm"
  by (simp add: nm_inv_def hosts_inv_def the_map_def)

lemma nm_inv_set_map:
  assumes "nm_inv nm" "nm_map nm' \<noteq> None" "map_inv (the_map nm')"
    "zm_bridge_host (the_map nm') = zm_bridge_host (the_map nm)" "nm_hosts nm' = nm_hosts nm"
  shows "nm_inv nm'"
  using assms by (auto simp: nm_inv_def hosts_inv_def)

lemma nm_inv_map: "nm_inv nm \<Longrightarrow> map_inv (the_map nm)"
  by (simp add: nm_inv_def)

lemma map_inv_cidr:
  "map_inv m \<Longrightarrow> setup_cidr c = NmOK v \<Longrightarrow> map_inv (m\<lparr>zm_bridge_cidr := c\<rparr>)"
  "map_inv m \<Longrightarrow> setup_cidr c = NmOK v \<Longrightarrow> map_inv (m\<lparr>zm_instance_cidr := c\<rparr>)"
  by (simp_all add: map_inv_def cidr_ok_def)

lemma map_inv_domain [simp]: "map_inv (m\<lparr>zm_domain := d\<rparr>) = map_inv m"
  by (simp add: map_inv_def)

lemma setup_bridge_inv:
  "setup_bridge c (the_map nm) nm = (nm', r) \<Longrightarrow> nm_inv nm \<Longrightarrow> nm_inv nm' \<and> (nm_map nm \<noteq> None \<longrightarrow> nm_map nm' \<noteq> None)"
  using nm_inv_map [of nm]
  by (auto simp: setup_bridge_def map_inv_cidr split: if_splits nm_res.splits intro!: nm_inv_set_map [of nm])

lemma setup_instance_inv:
  "setup_instance c (the_map nm) nm = (nm', r) \<Longrightarrow> nm_inv nm \<Longrightarrow> nm_inv nm' \<and> (nm_map nm \<noteq> None \<longrightarrow> nm_map nm' \<noteq> None)"
  using nm_inv_map [of nm]
  by (auto simp: setup_instance_def map_inv_cidr split: if_splits nm_res.splits intro!: nm_inv_set_map [of nm])

lemma setup_domain_inv: "nm_inv nm \<Longrightarrow> nm_inv (setup_domain d (the_map nm) nm)"
  using nm_inv_map [of nm] by (auto simp: setup_domain_def intro!: nm_inv_set_map [of nm])

lemma setup_domain_map: "nm_map nm \<noteq> None \<Longrightarrow> nm_map (setup_domain d m nm) \<noteq> None"
  by (simp add: setup_domain_def)

lemma nm_inv_ready: "nm_inv nm \<Longrightarrow> nm_map nm \<noteq> None \<Longrightarrow> nm_inv (nm\<lparr>nm_ready := b\<rparr>)"
  by (simp add: nm_inv_def hosts_inv_def the_map_def)

lemma ZoneSetup_inv:
  assumes "ZoneSetup K now z b i d nm db = (nm', db', r)" "nm_inv nm"
  shows "nm_inv nm' \<and> (kv_lawful K \<longrightarrow> db_inv K db \<longrightarrow> db_inv K db')"
proof (cases "z = '''' \<or> b = '''' \<or> i = '''' \<or> (z \<noteq> nm_zone nm \<and> nm_zone nm \<noteq> '''')")
  case True
  then show ?thesis using assms by (auto simp: ZoneSetup_def split: if_splits)
next
  case False
  define nm0 where "nm0 = (if z \<noteq> nm_zone nm then nm\<lparr>nm_zone := z, nm_changed := True\<rparr> else nm)"
  define nm1 where "nm1 = nm0\<lparr>nm_map := Some (the_map nm0)\<rparr>"
  have inv0: "nm_inv nm0" using assms(2) nm_inv_fields [of nm0 nm] by (auto simp: nm0_def)
  then have inv1: "nm_inv nm1" by (rule nm_inv_set_map) (use inv0 in \<open>simp_all add: nm1_def nm_inv_def\<close>)
  obtain nm2 r2 where e2: "setup_bridge b (the_map nm1) nm1 = (nm2, r2)" by fastforce
  have inv2: "nm_inv nm2" "nm_map nm2 \<noteq> None"
    using setup_bridge_inv [OF e2 inv1] by (simp_all add: nm1_def)
  obtain nm3 r3 where e3: "setup_instance i (the_map nm2) nm2 = (nm3, r3)" by fastforce
  have inv3: "nm_inv nm3" "nm_map nm3 \<noteq> None" using setup_instance_inv [OF e3 inv2(1)] inv2(2) by auto
  define nm4 where "nm4 = setup_domain d (the_map nm3) nm3"
  have inv4: "nm_inv nm4" "nm_map nm4 \<noteq> None"
    using setup_domain_inv inv3 setup_domain_map by (auto simp: nm4_def)
  obtain nm5 db5 r5 where e5: "nm_flush K now nm4 db = (nm5, db5, r5)" by (cases "nm_flush K now nm4 db") auto
  have inv5: "nm_inv nm5" "nm_map nm5 \<noteq> None" "kv_lawful K \<longrightarrow> db_inv K db \<longrightarrow> db_inv K db5"
    using nm_flush_inv [OF e5 inv4(1)] nm_flush_frame(7) [OF e5] nm_flush_db_inv [OF e5 inv4(1)]
    by auto
  have "ZoneSetup K now z b i d nm db =
      (case r2 of NmOK _ \<Rightarrow> (case r3 of NmOK _ \<Rightarrow>
           (if nm_changed nm4 then (case r5 of NmOK _ \<Rightarrow> (nm5\<lparr>nm_changed := False, nm_ready := True\<rparr>, db5, NmOK ())
              | r \<Rightarrow> (nm5, db5, r))
            else (nm4\<lparr>nm_ready := True\<rparr>, db, NmOK ())) | r \<Rightarrow> (nm3, db, r)) | r \<Rightarrow> (nm2, db, r))"
    using False e2 e3 e5 unfolding ZoneSetup_def nm0_def [symmetric] Let_def nm1_def [symmetric]
    by (auto simp: nm4_def split: nm_res.splits)
  moreover have "nm_inv (nm5\<lparr>nm_changed := False, nm_ready := True\<rparr>)"
    using nm_inv_ready [of "nm5\<lparr>nm_changed := False\<rparr>"] inv5 nm_inv_fields [of "nm5\<lparr>nm_changed := False\<rparr>" nm5] by simp
  ultimately show ?thesis
    using assms(1) inv2 inv3 inv5 nm_inv_ready [OF inv4] by (auto split: nm_res.splits if_splits)
qed

lemma keep_net_in: "k AND msk = base \<Longrightarrow> keep_net msk base f k = f k"
  by (simp add: keep_net_def)

lemma restore_hosts_alias:
  assumes "\<forall>i k. acc i = Some k \<longrightarrow> (\<exists>h. keep_net 0xFFFFFF00 br hs k = Some h \<and> zh_id h = i)"
  shows "\<forall>i k. restore_hosts order br hs acc i = Some k
      \<longrightarrow> (\<exists>h. keep_net 0xFFFFFF00 br hs k = Some h \<and> zh_id h = i)"
  using assms
proof (induction order arbitrary: acc)
  case (Cons k ks)
  let ?acc = "case hs k of None \<Rightarrow> acc | Some h \<Rightarrow> if k AND 0xFFFFFF00 \<noteq> br then acc
      else if zh_bridge h = k then acc(zh_id h \<mapsto> k) else acc"
  have "\<forall>i k'. ?acc i = Some k' \<longrightarrow> (\<exists>h. keep_net 0xFFFFFF00 br hs k' = Some h \<and> zh_id h = i)"
    using Cons.prems by (simp add: keep_net_in split: option.splits)
  from Cons.IH [OF this] show ?case by simp
qed simp

lemma restore_base_no_panic:
  assumes "cidr_ok c" shows "restore_base c msk \<noteq> NmPanic"
proof (cases "c = ''''")
  case True then show ?thesis by (simp add: restore_base_def ParseCIDR_def)
next
  case False
  then obtain v where "setup_cidr c = NmOK v" using assms by (auto simp: cidr_ok_def)
  then show ?thesis
    by (auto simp: restore_base_def setup_cidr_def split: option.splits prod.splits sum.splits)
qed

lemma Restore_inv:
  assumes "Restore K order z nm db = (nm', r)" "nm_inv nm" "db_inv K db"
  shows "nm_inv nm' \<and> r \<noteq> NmPanic"
proof (cases "z \<noteq> '''' \<and> (\<exists>meta st. kv_get K db (NsZoneletNetworkIPAM z) = KvFound meta (Some st)
    \<and> \<not> m_version meta \<le> nm_version nm)")
  case False
  then show ?thesis
    using assms nm_inv_fields [of nm' nm]
    by (auto simp: Restore_def Let_def split: if_splits kv_read.splits option.splits)
next
  case True
  then obtain meta st where get: "kv_get K db (NsZoneletNetworkIPAM z) = KvFound meta (Some st)"
    and new: "\<not> m_version meta \<le> nm_version nm" and z: "z \<noteq> ''''" by blast
  have st: "map_inv st" using assms(3) get by (auto simp: db_inv_def)
  have np: "restore_base (zm_bridge_cidr st) msk \<noteq> NmPanic" "restore_base (zm_instance_cidr st) msk \<noteq> NmPanic" for msk
    using st restore_base_no_panic by (auto simp: map_inv_def)
  let ?nm = "\<lambda>br. nm\<lparr>nm_zone := z, nm_map := Some st, nm_hosts := Map.empty, nm_bridge := br\<rparr>"
  have fresh: "nm_inv (nm\<lparr>nm_zone := z, nm_map := Some st, nm_hosts := Map.empty\<rparr>)" "nm_inv (?nm br)" for br
    using st by (simp_all add: nm_inv_def hosts_inv_def the_map_def)
  have full: "nm_inv (?nm br\<lparr>nm_instance := ins, nm_hosts := restore_hosts order br (zm_bridge_host st) Map.empty,
      nm_map := Some (st\<lparr>zm_bridge_host := keep_net 0xFFFFFF00 br (zm_bridge_host st),
        zm_instance := keep_net 0xFFFF0000 ins (zm_instance st)\<rparr>), nm_version := v, nm_ready := True\<rparr>)" for br ins v
    using map_inv_keep_net [OF st] restore_hosts_alias [of Map.empty br "zm_bridge_host st" order]
    by (simp add: nm_inv_def hosts_inv_def the_map_def)
  show ?thesis
    using assms(1) get new z np fresh full by (auto simp: Restore_def Let_def split: nm_res.splits)
qed

lemma hosts_invD: "hosts_inv nm \<Longrightarrow> nm_hosts nm i = Some k \<Longrightarrow> \<exists>h. zm_bridge_host (the_map nm) k = Some h \<and> zh_id h = i"
  by (simp add: hosts_inv_def)

lemma HostNetwork_Some:
  "hosts_inv nm \<Longrightarrow> nm_hosts nm i = Some k \<Longrightarrow> \<exists>h. HostNetwork nm i = Some h \<and> zm_bridge_host (the_map nm) k = Some h \<and> zh_id h = i"
  by (auto simp: HostNetwork_def hosts_inv_def)

lemma refresh_reuse_Some:
  assumes "refresh_reuse i d nm = Some k" "hosts_inv nm"
  shows "\<exists>h. zm_bridge_host (the_map nm) k = Some h \<and> zh_id h = i"
  using assms HostNetwork_Some [OF assms(2)]
  by (fastforce simp: refresh_reuse_def HostNetwork_def split: option.splits if_splits dest!: find_slot_Some)

lemma refresh_alloc_Some:
  assumes "refresh_alloc i nm = Some (k, nm')" "nm_inv nm"
  shows "nm_inv nm' \<and> nm_map nm' \<noteq> None \<and> zm_bridge_host (the_map nm) k = None \<and>
    (\<exists>h. zm_bridge_host (the_map nm') k = Some h \<and> zh_id h = i \<and>
      zm_bridge_host (the_map nm') = (zm_bridge_host (the_map nm))(k \<mapsto> h)) \<and>
    zm_instance (the_map nm') = zm_instance (the_map nm) \<and>
    nm_ready nm' = nm_ready nm \<and> nm_hosts nm' = (nm_hosts nm)(i \<mapsto> k)"
proof -
  obtain n where n: "find_slot (nm_bridge nm) (\<lambda>a. zm_bridge_host (the_map nm) a = None) = Some n"
    using assms(1) by (auto simp: refresh_alloc_def split: option.splits)
  define h where "h = \<lparr>zh_id = i, zh_peer = 0, zh_bridge = k,
      zh_instance = (nm_instance nm AND 0xFFFF0000) + push_bit 8 (of_nat n)\<rparr>"
  have k: "k = slot (nm_bridge nm) n" and nm': "nm' = nm\<lparr>nm_map := Some (the_map nm\<lparr>zm_bridge_host :=
      (zm_bridge_host (the_map nm))(k \<mapsto> h)\<rparr>), nm_hosts := (nm_hosts nm)(i \<mapsto> k)\<rparr>"
    using assms(1) n by (auto simp: refresh_alloc_def h_def Let_def)
  note slot_n = find_slot_Some [OF n]
  then have "n < 256" by (simp add: allocatable_lt)
  then have "map_inv (the_map nm\<lparr>zm_bridge_host := (zm_bridge_host (the_map nm))(k \<mapsto> h)\<rparr>)"
    using assms(2) slot_n k
    by (intro map_inv_bridge_host) (simp_all add: nm_inv_def h_def octet_instance subnet_octet_instance)
  moreover have "hosts_inv nm'"
    using hosts_invD [of nm] assms(2) slot_n k by (fastforce simp: nm' nm_inv_def hosts_inv_def [of "nm\<lparr>nm_map := mm, nm_hosts := hh\<rparr>" for mm hh] h_def)
  ultimately show ?thesis using slot_n k by (auto simp: nm' nm_inv_def h_def)
qed

lemma refresh_commit_inv:
  assumes "refresh_commit K now d peer k nm db = (nm', db', d', r)" "nm_inv nm"
    "zm_bridge_host (the_map nm) k = Some h"
  shows "nm_inv nm' \<and> (kv_lawful K \<longrightarrow> db_inv K db \<longrightarrow> db_inv K db') \<and> r \<noteq> NmPanic"
proof -
  define nm1 where "nm1 = nm\<lparr>nm_map := Some (the_map nm\<lparr>zm_bridge_host :=
      (zm_bridge_host (the_map nm))(k \<mapsto> h\<lparr>zh_peer := peer\<rparr>)\<rparr>)\<rparr>"
  have "map_inv (the_map nm1)"
    using assms(2,3) unfolding nm1_def the_map_update
    by (intro map_inv_bridge_host) (auto simp: nm_inv_def map_inv_def)
  moreover have "hosts_inv nm1"
    using hosts_invD [of nm] assms(2,3) by (fastforce simp: nm1_def nm_inv_def hosts_inv_def [of "nm\<lparr>nm_map := mm\<rparr>" for mm])
  ultimately have inv1: "nm_inv nm1" by (simp add: nm_inv_def) (simp add: nm1_def)
  obtain nm2 db2 r2 where fl: "nm_flush K now nm1 db = (nm2, db2, r2)" by (cases "nm_flush K now nm1 db") auto
  have "(nm', db') = (nm2, db2) \<and> r \<noteq> NmPanic"
    using assms(1,3) fl nm_flush_frame(11) [OF fl]
    by (auto simp: refresh_commit_def Let_def nm1_def split: nm_res.splits)
  then show ?thesis using nm_flush_inv [OF fl inv1] nm_flush_db_inv [OF fl inv1] by simp
qed

text \<open>
  A call either changes nothing but the peer table, or commits an entry that carries the host's id:
  one that was there, or a new one in a free slot.
\<close>

lemma RefreshHostNetwork_cases:
  assumes "RefreshHostNetwork K now i peerAddr deploy nm db = (nm', db', d', r)" "nm_inv nm"
  obtains (quiet) "nm_map nm' = nm_map nm" "nm_hosts nm' = nm_hosts nm" "nm_ready nm' = nm_ready nm"
      "db' = db" "r \<noteq> NmPanic" "r \<noteq> NmOK True"
  | (commit) d peer k nm2 h where "refresh_commit K now d peer k nm2 db = (nm', db', d', r)" "nm_inv nm2"
      "nm_map nm2 \<noteq> None" "zm_bridge_host (the_map nm2) k = Some h" "zh_id h = i"
      "zm_instance (the_map nm2) = zm_instance (the_map nm)"
      "zm_bridge_host (the_map nm) \<subseteq>\<^sub>m zm_bridge_host (the_map nm2)"
proof (cases "deploy = None \<or> peerAddr = '''' \<or> (\<exists>e. ParsePrivateAddress peerAddr = Inl e)")
  case True
  then have "(nm', db') = (nm, db) \<and> r \<noteq> NmPanic \<and> r \<noteq> NmOK True"
    using assms(1) by (elim disjE exE) (auto simp: RefreshHostNetwork_def split: option.splits if_splits)
  then show ?thesis using quiet by simp
next
  case False
  then obtain d ip where d: "deploy = Some d" and ip: "ParsePrivateAddress peerAddr = Inr ip" and ne: "peerAddr \<noteq> ''''"
    by (cases "ParsePrivateAddress peerAddr") auto
  have "length ip = 4" using ip ParsePrivateIP_Inr by (auto simp: ParsePrivateAddress_def)
  then obtain peer where peer: "BytesToUint32 ip = Some peer" by (cases ip rule: BytesToUint32.cases) auto
  define nm1 where "nm1 = nm\<lparr>nm_peer_ip := (nm_peer_ip nm)(i \<mapsto> IP4ToString ip)\<rparr>"
  have inv1: "nm_inv nm1" using assms(2) nm_inv_fields [of nm1 nm] by (simp add: nm1_def)
  have same1: "nm_map nm1 = nm_map nm" "nm_hosts nm1 = nm_hosts nm" "nm_ready nm1 = nm_ready nm" "the_map nm1 = the_map nm"
    by (simp_all add: nm1_def)
  have mapped: "nm_ready nm \<Longrightarrow> nm_map nm1 \<noteq> None" using inv1 by (simp add: nm_inv_def nm1_def)
  have "RefreshHostNetwork K now i peerAddr deploy nm db = (if \<not> nm_ready nm then (nm1, db, deploy, NmOK False)
       else if nm_map nm1 = None then (nm1, db, deploy, NmPanic)
       else if refresh_current i d peer nm1 then (nm1, db, deploy, NmOK False)
       else case refresh_reuse i d nm1 of
           Some k \<Rightarrow> refresh_commit K now d peer k nm1 db
         | None \<Rightarrow> (case refresh_alloc i nm1 of None \<Rightarrow> (nm1, db, deploy, NmOK False)
             | Some (k, nm2) \<Rightarrow> refresh_commit K now d peer k nm2 db))"
    using d ip ne peer
    by (auto simp: RefreshHostNetwork_def Let_def simp flip: nm1_def split: option.split)
  note run = assms(1) [unfolded this]
  consider "nm' = nm1" "db' = db" "r = NmOK False"
    | k where "refresh_reuse i d nm1 = Some k" "refresh_commit K now d peer k nm1 db = (nm', db', d', r)" "nm_ready nm"
    | k nm2 where "refresh_alloc i nm1 = Some (k, nm2)" "refresh_commit K now d peer k nm2 db = (nm', db', d', r)"
    using run mapped by (auto split: if_splits option.splits)
  then show ?thesis
  proof cases
    case 1 then show ?thesis using quiet same1 by simp
  next
    case 2
    then obtain h where "zm_bridge_host (the_map nm1) k = Some h" "zh_id h = i"
      using refresh_reuse_Some inv1 nm_inv_def by blast
    then show ?thesis using commit 2 inv1 mapped same1 by simp
  next
    case 3
    note al = refresh_alloc_Some [OF 3(1) inv1, unfolded same1]
    then obtain h where h: "zm_bridge_host (the_map nm2) k = Some h" "zh_id h = i"
      "zm_bridge_host (the_map nm2) = (zm_bridge_host (the_map nm))(k \<mapsto> h)" by blast
    then have "zm_bridge_host (the_map nm) \<subseteq>\<^sub>m zm_bridge_host (the_map nm2)"
      using al by (auto simp: map_le_def)
    then show ?thesis using commit [OF 3(2)] al h by blast
  qed
qed

lemma RefreshHostNetwork_inv:
  assumes "RefreshHostNetwork K now i peerAddr deploy nm db = (nm', db', d', r)" "nm_inv nm"
  shows "nm_inv nm' \<and> (kv_lawful K \<longrightarrow> db_inv K db \<longrightarrow> db_inv K db') \<and> r \<noteq> NmPanic"
  using assms
proof (cases rule: RefreshHostNetwork_cases)
  case quiet then show ?thesis using assms(2) nm_inv_fields [of nm' nm] by simp
next
  case (commit d peer k nm2 h)
  from refresh_commit_inv [OF commit(1,2,4)] show ?thesis .
qed

lemma AllocHostSubNetwork_cases:
  assumes "AllocHostSubNetwork K now hid name rep nm db = (nm', db', r)"
  obtains (no_map) "nm_ready nm" "nm_map nm = None" "r = NmPanic" "nm' = nm" "db' = db"
  | (refused) "nm' = nm" "db' = db" "r = NmOK ''''"
      "\<not> nm_ready nm \<or> HostNetwork nm hid = None \<or> (\<exists>h. HostNetwork nm hid = Some h \<and>
         (\<forall>n. allocatable n \<longrightarrow> zm_instance (the_map nm) (slot (zh_instance h) n) \<noteq> None))"
  | (known) h n where "HostNetwork nm hid = Some h" "nm' = nm" "db' = db" "allocatable n" "nm_ready nm"
      "nm_map nm = Some (the_map nm)"
      "find_slot (zh_instance h) (\<lambda>a. zm_instance (the_map nm) a = Some (ins_rep_id name rep)) = Some n"
      "zm_instance (the_map nm) (slot (zh_instance h) n) = Some (ins_rep_id name rep)"
      "r = NmOK (Uint32ToIpv4 (slot (zh_instance h) n))"
  | (fresh) h n nm1 r1 where "HostNetwork nm hid = Some h" "allocatable n" "nm_ready nm"
      "zm_instance (the_map nm) (slot (zh_instance h) n) = None"
      "\<forall>n'. allocatable n' \<longrightarrow> zm_instance (the_map nm) (slot (zh_instance h) n') \<noteq> Some (ins_rep_id name rep)"
      "nm1 = nm\<lparr>nm_map := Some (the_map nm\<lparr>zm_instance := (zm_instance (the_map nm))
          (slot (zh_instance h) n \<mapsto> ins_rep_id name rep)\<rparr>)\<rparr>"
      "nm_flush K now nm1 db = (nm', db', r1)"
      "r = (if r1 = NmOK () then NmOK (Uint32ToIpv4 (slot (zh_instance h) n)) else NmOK '''')"
proof (cases "nm_ready nm \<and> nm_map nm \<noteq> None \<and> HostNetwork nm hid \<noteq> None")
  case False
  then show ?thesis using assms no_map refused
    by (auto simp: AllocHostSubNetwork_def Let_def split: if_splits option.splits)
next
  case True
  then obtain m h where m: "nm_map nm = Some m" and h: "HostNetwork nm hid = Some h" and rdy: "nm_ready nm" by blast
  have tm: "the_map nm = m" by (simp add: the_map_def m)
  let ?mine = "find_slot (zh_instance h) (\<lambda>a. zm_instance m a = Some (ins_rep_id name rep))"
  let ?free = "find_slot (zh_instance h) (\<lambda>a. zm_instance m a = None)"
  consider n where "?mine = Some n" | "?mine = None" "?free = None" | n where "?mine = None" "?free = Some n" by fastforce
  then show ?thesis
  proof cases
    case (1 n)
    show ?thesis
      by (rule known [OF h, of n]) (use 1 find_slot_Some [OF 1] assms m h rdy tm in \<open>simp_all add: AllocHostSubNetwork_def\<close>)
  next
    case 2
    then have "(nm', db', r) = (nm, db, NmOK [])" using assms m h rdy by (simp add: AllocHostSubNetwork_def)
    moreover have "\<forall>n. allocatable n \<longrightarrow> zm_instance (the_map nm) (slot (zh_instance h) n) \<noteq> None"
      using 2(2) tm by (simp add: find_slot_None)
    ultimately show ?thesis using refused h by blast
  next
    case (3 n)
    obtain nm2 db2 r2 where fl: "nm_flush K now (nm\<lparr>nm_map := Some (m\<lparr>zm_instance := (zm_instance m)
          (slot (zh_instance h) n \<mapsto> ins_rep_id name rep)\<rparr>)\<rparr>) db = (nm2, db2, r2)" by (metis prod_cases3)
    then have "(nm', db', r) = (nm2, db2, if r2 = NmOK () then NmOK (Uint32ToIpv4 (slot (zh_instance h) n)) else NmOK [])"
      using assms m h rdy 3 by (cases r2) (simp_all add: AllocHostSubNetwork_def)
    then show ?thesis
      by (intro fresh [OF h _ rdy _ _ refl, of n r2])
        (use find_slot_Some [OF 3(2)] 3(1) tm fl in \<open>simp_all add: find_slot_None\<close>)
  qed
qed

lemma AllocHostSubNetwork_inv:
  assumes "AllocHostSubNetwork K now hid name rep nm db = (nm', db', r)" "nm_inv nm"
  shows "nm_inv nm' \<and> (kv_lawful K \<longrightarrow> db_inv K db \<longrightarrow> db_inv K db') \<and> r \<noteq> NmPanic"
  using assms(1)
proof (cases rule: AllocHostSubNetwork_cases)
  case (fresh h n nm1 r1)
  have "nm_inv nm1" unfolding fresh(6)
    by (rule nm_inv_set_map [OF assms(2)])
      (use fresh(2) allocatable_lt in \<open>auto intro!: map_inv_instance nm_inv_map assms(2)\<close>)
  then show ?thesis
    using nm_flush_inv [OF fresh(7)] nm_flush_db_inv [OF fresh(7)] fresh(8) by auto
qed (use assms nm_inv_def in auto)

section \<open>Reachable states\<close>

text \<open>
  The manager and its store under any sequence of operations, of restarts of the process and of
  writes by other parts of the program to other keys.
\<close>

inductive ipam_reach :: "('db, zone_network_map) kvgo \<Rightarrow> net_mgr \<times> 'db \<Rightarrow> bool" for K where
  init: "(\<forall>z. kv_get K db (NsZoneletNetworkIPAM z) = KvNotFound) \<Longrightarrow> ipam_reach K (NewNetworkManager, db)"
| restart: "ipam_reach K (nm, db) \<Longrightarrow> ipam_reach K (NewNetworkManager, db)"
| other: "ipam_reach K (nm, db) \<Longrightarrow>
    (\<forall>z. kv_get K db' (NsZoneletNetworkIPAM z) = kv_get K db (NsZoneletNetworkIPAM z)) \<Longrightarrow> ipam_reach K (nm, db')"
| zone_setup: "ipam_reach K (nm, db) \<Longrightarrow> ZoneSetup K now z b i d nm db = (nm', db', r) \<Longrightarrow> ipam_reach K (nm', db')"
| restore: "ipam_reach K (nm, db) \<Longrightarrow> Restore K order z nm db = (nm', r') \<Longrightarrow> ipam_reach K (nm', db)"
| refresh: "ipam_reach K (nm, db) \<Longrightarrow> RefreshHostNetwork K now hid pa dep nm db = (nm', db', dep', rb)
    \<Longrightarrow> ipam_reach K (nm', db')"
| alloc: "ipam_reach K (nm, db) \<Longrightarrow> AllocHostSubNetwork K now hid name rep nm db = (nm', db', rs)
    \<Longrightarrow> ipam_reach K (nm', db')"

definition ipam_inv :: "('db, zone_network_map) kvgo \<Rightarrow> net_mgr \<times> 'db \<Rightarrow> bool" where
  "ipam_inv K s \<longleftrightarrow> nm_inv (fst s) \<and> db_inv K (snd s)"

lemma ipam_reach_inv:
  assumes "kv_lawful K" "ipam_reach K s" shows "ipam_inv K s"
  using assms(2)
proof (induction rule: ipam_reach.induct)
  case (init db)
  then show ?case by (simp add: ipam_inv_def nm_inv_New db_inv_def)
next
  case (zone_setup nm db now z b i d nm' db' r)
  then show ?case using ZoneSetup_inv assms(1) by (force simp: ipam_inv_def)
next
  case (restore nm db order z nm' r')
  then show ?case using Restore_inv by (force simp: ipam_inv_def)
next
  case (refresh nm db now hid pa dep nm' db' dep' rb)
  then show ?case using RefreshHostNetwork_inv assms(1) by (force simp: ipam_inv_def)
next
  case (alloc nm db now hid name rep nm' db' rs)
  then show ?case using AllocHostSubNetwork_inv assms(1) by (force simp: ipam_inv_def)
qed (simp_all add: ipam_inv_def nm_inv_New db_inv_def)

section \<open>Exclusive addresses\<close>

datatype ipam_op =
    IpSetup int string string string string
  | IpRefresh int string string "host_deploy option"
  | IpAlloc int string string u32

text \<open>The address an operation hands to a replica, and the owner the manager records for it.\<close>

fun ipam_step ::
    "('db, zone_network_map) kvgo \<Rightarrow> net_mgr \<times> 'db \<Rightarrow> ipam_op \<Rightarrow> (net_mgr \<times> 'db) \<times> (string \<times> string) option" where
  "ipam_step K (nm, db) (IpSetup now z b i d) =
     (case ZoneSetup K now z b i d nm db of (nm', db', _) \<Rightarrow> ((nm', db'), None))"
| "ipam_step K (nm, db) (IpRefresh now hid pa dep) =
     (case RefreshHostNetwork K now hid pa dep nm db of (nm', db', _, _) \<Rightarrow> ((nm', db'), None))"
| "ipam_step K (nm, db) (IpAlloc now hid name rep) =
     (case AllocHostSubNetwork K now hid name rep nm db of
        (nm', db', NmOK ip) \<Rightarrow> ((nm', db'), if ip = '''' then None else Some (ins_rep_id name rep, ip))
      | (nm', db', _) \<Rightarrow> ((nm', db'), None))"

definition ip_owner :: "net_mgr \<times> 'db \<Rightarrow> string \<Rightarrow> string option" where
  "ip_owner s ip = zm_instance (the_map (fst s)) (Ipv4ToUint32 ip)"

lemma setup_keeps_instances:
  assumes "ZoneSetup K now z b i d nm db = (nm', db', r)"
  shows "zm_instance (the_map nm') = zm_instance (the_map nm)"
proof -
  have b: "setup_bridge c m n = (n', q) \<Longrightarrow> zm_instance (the_map n') \<in> {zm_instance m, zm_instance (the_map n)}" for c m n n' q
    by (auto simp: setup_bridge_def split: if_splits nm_res.splits)
  have i: "setup_instance c m n = (n', q) \<Longrightarrow> zm_instance (the_map n') \<in> {zm_instance m, zm_instance (the_map n)}" for c m n n' q
    by (auto simp: setup_instance_def split: if_splits nm_res.splits)
  have d: "zm_instance (the_map (setup_domain c (the_map n) n)) = zm_instance (the_map n)" for c n
    by (auto simp: setup_domain_def)
  show ?thesis using assms
    by (auto simp: ZoneSetup_def Let_def d dest!: b i nm_flush_frame(2)
        split: if_splits prod.splits nm_res.splits)
qed

lemma refresh_keeps_instances:
  assumes "RefreshHostNetwork K now hid pa dep nm db = (nm', db', dep', r)" "nm_inv nm"
  shows "zm_instance (the_map nm') = zm_instance (the_map nm)"
  using assms
proof (cases rule: RefreshHostNetwork_cases)
  case quiet then show ?thesis by (simp add: the_map_def)
next
  case (commit d peer k nm2 h)
  then show ?thesis
    by (auto simp: refresh_commit_def Let_def dest!: nm_flush_frame(2) split: prod.splits nm_res.splits)
qed

lemma alloc_instances:
  assumes "AllocHostSubNetwork K now hid name rep nm db = (nm', db', r)"
  shows "zm_instance (the_map nm) \<subseteq>\<^sub>m zm_instance (the_map nm')"
    and "r = NmOK ip \<Longrightarrow> ip \<noteq> '''' \<Longrightarrow> zm_instance (the_map nm') (Ipv4ToUint32 ip) = Some (ins_rep_id name rep)"
  using assms
  by (cases rule: AllocHostSubNetwork_cases;
      auto simp: map_le_def dest!: nm_flush_frame(2) split: if_splits)+

lemma ipam_step_cases:
  assumes "ipam_step K (nm, db) op = (s', g)"
  obtains (setup_op) now z b i d r where "ZoneSetup K now z b i d nm db = (fst s', snd s', r)" "g = None"
  | (refresh_op) now hid pa dep dep' r where "RefreshHostNetwork K now hid pa dep nm db = (fst s', snd s', dep', r)" "g = None"
  | (alloc_op) now hid name rep r where "AllocHostSubNetwork K now hid name rep nm db = (fst s', snd s', r)"
      "\<And>k ip. g = Some (k, ip) \<Longrightarrow> r = NmOK ip \<and> ip \<noteq> '''' \<and> k = ins_rep_id name rep"
  using assms by (cases op) (auto split: prod.splits nm_res.splits if_splits)

interpretation ipam: exclusive_grants "ipam_step K" ip_owner "\<lambda>s. nm_inv (fst s)" for K
proof
  fix s s' :: "net_mgr \<times> 'a" and op g
  assume inv: "nm_inv (fst s)" and st: "ipam_step K s op = (s', g)"
  obtain nm db where s: "s = (nm, db)" by fastforce
  show "nm_inv (fst s')"
    using st inv unfolding s
    by (cases rule: ipam_step_cases)
      (use ZoneSetup_inv RefreshHostNetwork_inv AllocHostSubNetwork_inv in fastforce)+
next
  fix s s' :: "net_mgr \<times> 'a" and op k a
  assume st: "ipam_step K s op = (s', Some (k, a))"
  obtain nm db where s: "s = (nm, db)" by fastforce
  show "ip_owner s' a = Some k"
    using st unfolding s by (cases rule: ipam_step_cases) (auto simp: ip_owner_def intro: alloc_instances(2) [OF _ refl])
next
  fix s s' :: "net_mgr \<times> 'a" and op g a k
  assume inv: "nm_inv (fst s)" and st: "ipam_step K s op = (s', g)" and own: "ip_owner s a = Some k"
  obtain nm db where s: "s = (nm, db)" by fastforce
  show "ip_owner s' a = Some k"
    using st inv own unfolding s
    by (cases rule: ipam_step_cases)
      (auto simp: ip_owner_def setup_keeps_instances refresh_keeps_instances
        dest!: alloc_instances(1) dest: map_le_Some)
qed

lemma hosts_disjoint:
  assumes "nm_inv nm" "HostNetwork nm i = Some h" "HostNetwork nm j = Some g" "i \<noteq> j"
  shows "zh_id h = i \<and> zh_bridge h \<noteq> zh_bridge g \<and>
    (zh_bridge h AND 0xFFFFFF00 = zh_bridge g AND 0xFFFFFF00 \<longrightarrow>
     zh_instance h AND 0xFFFFFF00 \<noteq> zh_instance g AND 0xFFFFFF00)"
proof -
  obtain k l where kl: "nm_hosts nm i = Some k" "nm_hosts nm j = Some l"
      "zm_bridge_host (the_map nm) k = Some h" "zm_bridge_host (the_map nm) l = Some g"
    using assms(2,3) by (auto simp: HostNetwork_def split: option.splits)
  have ids: "zh_id h = i" "zh_id g = j"
    using kl hosts_invD [of nm] assms(1) by (fastforce simp: nm_inv_def)+
  have ent: "zh_bridge h = k" "zh_bridge g = l" "subnet_octet (zh_instance h) = octet k" "subnet_octet (zh_instance g) = octet l"
    using kl(3,4) assms(1) by (auto simp: nm_inv_def map_inv_def)
  have ne: "k \<noteq> l" using kl ids assms(4) by auto
  have "zh_instance h AND 0xFFFFFF00 \<noteq> zh_instance g AND 0xFFFFFF00" if net: "k AND 0xFFFFFF00 = l AND 0xFFFFFF00"
  proof
    assume "zh_instance h AND 0xFFFFFF00 = zh_instance g AND 0xFFFFFF00"
    then have "unat (zh_instance h) div 256 = unat (zh_instance g) div 256"
      by (metis unat_net8 mult_right_cancel zero_neq_numeral)
    then have "octet k = octet l" using ent by (simp add: subnet_octet_def)
    moreover have "unat k div 256 = unat l div 256" using net
      by (metis unat_net8 mult_right_cancel zero_neq_numeral)
    ultimately show False using ne by (metis octet_def word_unat_eq_iff div_mult_mod_eq)
  qed
  then show ?thesis using ids ent ne by simp
qed

section \<open>Properties\<close>


definition demo_ops :: "ipam_op list" where
  "demo_ops = [IpSetup 1 ''z'' ''192.168.10.0/24'' ''10.10.0.0/16'' '''',
     IpRefresh 2 ''h1'' ''10.0.0.5:9500'' (Some \<lparr>hd_bridge_ip = '''', hd_instance_cidr = '''', hd_port_used = []\<rparr>),
     IpAlloc 3 ''h1'' ''web'' 0, IpAlloc 4 ''h1'' ''web'' 1]"

lemma demo_grants:
  "snd (run_ops (ipam_step mem_kv) (NewNetworkManager, (0, [])) demo_ops) =
     [None, None, Some (''web_0'', ''10.10.3.3''), Some (''web_1'', ''10.10.3.4'')]"
  by code_simp

lemma demo_reach: "ipam_reach mem_kv (NewNetworkManager, (0, []))"
  by (rule ipam_reach.init) (simp add: mem_kv_def mem_get_def)

lemma demo_id: "ins_rep_id ''web'' 0 = ''web_0''" "ins_rep_id ''web'' 1 = ''web_1''"
  by code_simp+


text \<open>
  The slot behind a granted address: after the call it is the first slot of the subnet that holds the
  replica's id.
\<close>

lemma HostNetwork_cong:
  "nm_hosts nm' = nm_hosts nm \<Longrightarrow> zm_bridge_host (the_map nm') = zm_bridge_host (the_map nm) \<Longrightarrow> HostNetwork nm' = HostNetwork nm"
  by (rule ext) (simp add: HostNetwork_def split: option.split)

lemma find_slot_inserted:
  assumes "allocatable n" "\<forall>n'. allocatable n' \<longrightarrow> f (slot base n') \<noteq> Some i"
  shows "find_slot base (\<lambda>a. (f(slot base n \<mapsto> i)) a = Some i) = Some n"
  unfolding find_slot_def
proof (rule first_fit_eqI)
  fix m assume m: "VpcAllocMin \<le> m" "m < n"
  then have "allocatable m" using assms(1) by (simp add: allocatable_def)
  moreover have "slot base m \<noteq> slot base n"
    using m slot_inj [of m n base] allocatable_lt assms(1) \<open>allocatable m\<close> by simp
  ultimately show "\<not> (f(slot base n \<mapsto> i)) (slot base m) = Some i" using assms(2) by simp
qed (use assms(1) in \<open>auto simp: allocatable_def\<close>)

lemma alloc_replica_slot:
  assumes "AllocHostSubNetwork K now hid name rep nm db = (nm', db', NmOK ip)" "ip \<noteq> ''''"
  shows "\<exists>h n. HostNetwork nm' hid = Some h \<and> ip = Uint32ToIpv4 (slot (zh_instance h) n) \<and>
    nm_ready nm' \<and> nm_map nm' = Some (the_map nm') \<and> allocatable n \<and>
    find_slot (zh_instance h) (\<lambda>a. zm_instance (the_map nm') a = Some (ins_rep_id name rep)) = Some n"
  using assms(1)
proof (cases rule: AllocHostSubNetwork_cases)
  case (known h n)
  then show ?thesis by auto
next
  case (fresh h n nm1 r1)
  note frame = nm_flush_frame [OF fresh(7)]
  have "HostNetwork nm' = HostNetwork nm" using frame fresh(6) by (intro HostNetwork_cong) simp_all
  moreover have "find_slot (zh_instance h) (\<lambda>a. zm_instance (the_map nm') a = Some (ins_rep_id name rep)) = Some n"
    using find_slot_inserted [OF fresh(2,5)] frame(2) fresh(6) by simp
  ultimately show ?thesis using fresh frame assms(2) by (auto split: if_splits)
qed (use assms in auto)

text \<open>
  C21: an address handed to a replica lies in the /24 subnet of its host with a last octet from
  3 to 252, the reverse lookup names the replica, and asking again returns the same address without
  touching the manager or the store.
\<close>

theorem replica_address_correct:
  assumes "AllocHostSubNetwork K now hid name rep nm db = (nm', db', NmOK ip)" "ip \<noteq> ''''"
  shows "\<exists>h n. HostNetwork nm' hid = Some h \<and> 3 \<le> n \<and> n \<le> 252 \<and> ip = Uint32ToIpv4 (slot (zh_instance h) n) \<and>
    slot (zh_instance h) n AND 0xFFFFFF00 = zh_instance h AND 0xFFFFFF00 \<and>
    VpcInstance nm' ip = ins_rep_id name rep \<and>
    AllocHostSubNetwork K now' hid name rep nm' db' = (nm', db', NmOK ip)"
proof -
  obtain h n where hn: "HostNetwork nm' hid = Some h" "ip = Uint32ToIpv4 (slot (zh_instance h) n)"
      "nm_ready nm'" "nm_map nm' = Some (the_map nm')" "allocatable n"
      "find_slot (zh_instance h) (\<lambda>a. zm_instance (the_map nm') a = Some (ins_rep_id name rep)) = Some n"
    using alloc_replica_slot [OF assms] by blast
  then have "AllocHostSubNetwork K now' hid name rep nm' db' = (nm', db', NmOK ip)"
    by (simp add: AllocHostSubNetwork_def)
  moreover have "n < 256" using hn(5) by (rule allocatable_lt)
  moreover have "VpcInstance nm' ip = ins_rep_id name rep"
    using alloc_instances(2) [OF assms(1) refl assms(2)] by (simp add: VpcInstance_def)
  ultimately show ?thesis
    using hn by (intro exI [of _ h] exI [of _ n]) (auto simp: allocatable_def vpc_consts slot_net)
qed

definition demo_state :: "net_mgr \<times> zone_network_map mem_db" where
  "demo_state = fst (run_ops (ipam_step mem_kv) (NewNetworkManager, (0, [])) (take 2 demo_ops))"

lemma demo_alloc:
  "snd (snd (AllocHostSubNetwork mem_kv 9 ''h1'' ''db'' 7 (fst demo_state) (snd demo_state))) = NmOK ''10.10.3.3''"
  by code_simp

theorem replica_address_correct_witness:
  "VpcInstance (fst (AllocHostSubNetwork mem_kv 9 ''h1'' ''db'' 7 (fst demo_state) (snd demo_state))) ''10.10.3.3''
     = ins_rep_id ''db'' 7"
  using replica_address_correct [of mem_kv 9 "''h1''" "''db''" 7 "fst demo_state" "snd demo_state" _ _ "''10.10.3.3''"] demo_alloc
  by (cases "AllocHostSubNetwork mem_kv 9 ''h1'' ''db'' 7 (fst demo_state) (snd demo_state)") auto

text \<open>
  A known host of a ready manager is refused an address only when every slot of its subnet
  belongs to another replica, or when the store did not accept the write.
\<close>

theorem replica_address_refused:
  assumes "AllocHostSubNetwork K now hid name rep nm db = (nm', db', NmOK '''')"
    and "nm_ready nm" "nm_map nm = Some m" "HostNetwork nm hid = Some h"
  shows "(\<forall>n. 3 \<le> n \<and> n \<le> 252 \<longrightarrow>
      (\<exists>other. zm_instance m (slot (zh_instance h) n) = Some other \<and> other \<noteq> ins_rep_id name rep)) \<or>
    (\<exists>m' e. kv_put K db (NsZoneletNetworkIPAM (nm_zone nm)) plain_put m' = (db', KvWriteErr e))"
proof -
  let ?mine = "find_slot (zh_instance h) (\<lambda>a. zm_instance m a = Some (ins_rep_id name rep))"
  let ?free = "find_slot (zh_instance h) (\<lambda>a. zm_instance m a = None)"
  have mine: "?mine = None"
    using assms by (cases ?mine) (auto simp: AllocHostSubNetwork_def)
  show ?thesis
  proof (cases ?free)
    case None
    have "\<exists>other. zm_instance m (slot (zh_instance h) n) = Some other \<and> other \<noteq> ins_rep_id name rep"
      if "3 \<le> n \<and> n \<le> 252" for n
      using mine None that by (force simp: find_slot_None allocatable_def vpc_consts)
    then show ?thesis by blast
  next
    case (Some n)
    then show ?thesis using assms mine
      by (auto simp: AllocHostSubNetwork_def nm_flush_def Let_def split: prod.splits kv_wr.splits)
  qed
qed

definition failing_kv :: "('v mem_db, 'v) kvgo" where
  "failing_kv = mem_kv\<lparr>kv_put := \<lambda>db k opt v. (db, KvWriteErr ''io'')\<rparr>"

lemma demo_refused:
  "snd (snd (AllocHostSubNetwork failing_kv 9 ''h1'' ''db'' 7 (fst demo_state) (snd demo_state))) = NmOK ''''"
  "nm_ready (fst demo_state)" "nm_map (fst demo_state) \<noteq> None" "HostNetwork (fst demo_state) ''h1'' \<noteq> None"
  by code_simp+

theorem replica_address_refused_witness:
  "\<exists>m h db'. nm_map (fst demo_state) = Some m \<and> HostNetwork (fst demo_state) ''h1'' = Some h \<and>
    ((\<forall>n. 3 \<le> n \<and> n \<le> 252 \<longrightarrow>
      (\<exists>other. zm_instance m (slot (zh_instance h) n) = Some other \<and> other \<noteq> ins_rep_id ''db'' 7)) \<or>
    (\<exists>m' e. kv_put failing_kv (snd demo_state) (NsZoneletNetworkIPAM (nm_zone (fst demo_state))) plain_put m'
      = (db', KvWriteErr e)))"
proof -
  obtain nm' db' where
    "AllocHostSubNetwork failing_kv 9 ''h1'' ''db'' 7 (fst demo_state) (snd demo_state) = (nm', db', NmOK '''')"
    using demo_refused(1) by (metis prod.collapse)
  from replica_address_refused [OF this demo_refused(2)] show ?thesis using demo_refused(3,4) by blast
qed



text \<open>
  When the store refuses the write, the call reports no address, yet the manager keeps the
  assignment in memory: the next call for the replica returns an address and writes nothing, so the
  assignment is not in the store.
\<close>

theorem failed_write_keeps_assignment:
  assumes "AllocHostSubNetwork K now hid name rep nm db = (nm', db', NmOK '''')" "HostNetwork nm hid = Some h"
    and "nm_ready nm" "nm_map nm = Some m" "allocatable n" "zm_instance m (slot (zh_instance h) n) = None"
  shows "\<exists>ip. ip \<noteq> '''' \<and> AllocHostSubNetwork K now' hid name rep nm' db' = (nm', db', NmOK ip)"
  using assms(1)
proof (cases rule: AllocHostSubNetwork_cases)
  case refused
  then show ?thesis using assms by (auto simp: the_map_def)
next
  case (fresh g k nm1 r1)
  note frame = nm_flush_frame [OF fresh(7)]
  have "HostNetwork nm' = HostNetwork nm" using frame fresh(6) by (intro HostNetwork_cong) simp_all
  moreover have "find_slot (zh_instance g) (\<lambda>a. zm_instance (the_map nm') a = Some (ins_rep_id name rep)) = Some k"
    using find_slot_inserted [OF fresh(2,5)] frame(2) fresh(6) by simp
  moreover have "nm_ready nm'" using frame(6) fresh(3,6) by simp
  ultimately show ?thesis using fresh(1) frame(7) by (auto simp: AllocHostSubNetwork_def)
qed (use assms(4) in \<open>auto simp: eq_commute [of "[]"]\<close>)

lemma demo_slot_free:
  "(case HostNetwork (fst demo_state) ''h1'' of Some h \<Rightarrow>
      (case nm_map (fst demo_state) of Some m \<Rightarrow> zm_instance m (slot (zh_instance h) 3) = None | None \<Rightarrow> False)
    | None \<Rightarrow> False)"
  by code_simp

theorem failed_write_keeps_assignment_witness:
  "\<exists>nm' db' ip. AllocHostSubNetwork failing_kv 9 ''h1'' ''db'' 7 (fst demo_state) (snd demo_state) = (nm', db', NmOK '''')
    \<and> ip \<noteq> '''' \<and> AllocHostSubNetwork failing_kv 10 ''h1'' ''db'' 7 nm' db' = (nm', db', NmOK ip)"
proof -
  obtain nm' db' where al:
    "AllocHostSubNetwork failing_kv 9 ''h1'' ''db'' 7 (fst demo_state) (snd demo_state) = (nm', db', NmOK '''')"
    using demo_refused(1) by (metis prod.collapse)
  obtain h m where hm: "HostNetwork (fst demo_state) ''h1'' = Some h" "nm_map (fst demo_state) = Some m"
      "zm_instance m (slot (zh_instance h) 3) = None"
    using demo_slot_free by (auto split: option.splits)
  have "allocatable 3" by (simp add: allocatable_def vpc_consts)
  from failed_write_keeps_assignment [OF al hm(1) demo_refused(2) hm(2) this hm(3)] al show ?thesis by blast
qed

end
