(* ===== verification/HostPort.thy ===== *)
theory HostPort
  imports Prelude
begin

text \<open>
  The host port allocator, \<open>internal/zonelet/network/host_port.go\<close>. The ten values of
  \<open>rand.Uint32()\<close> a call draws are an argument. The scan loops run over \<open>uint32\<close> counters that
  stay below the wrap-around, so they are first-fit scans over the natural numbers of the words.
\<close>

definition HostPortMin :: u32 where "HostPortMin = 20000"
definition HostPortMax :: u32 where "HostPortMax = 30000"
definition HostPortLimit :: nat where "HostPortLimit = 10001"

lemmas port_consts = HostPortMin_def HostPortMax_def HostPortLimit_def

text \<open>\<open>for p := lo; p <= hi; p++\<close> over ports that are not in use.\<close>

definition port_scan :: "u32 list \<Rightarrow> nat \<Rightarrow> nat \<Rightarrow> u32 option" where
  "port_scan used lo hi = map_option of_nat (first_fit (\<lambda>n. (of_nat n :: u32) \<notin> set used) lo hi)"

definition port_offset :: "u32 list \<Rightarrow> u32" where
  "port_offset used =
     (if used \<noteq> [] \<and> last used + 1 > HostPortMin then last used + 1 else HostPortMin)"

definition HostPortAlloc :: "u32 list \<Rightarrow> u32 \<Rightarrow> u32 list \<Rightarrow> u32" where
  "HostPortAlloc used port rands =
     (if port > 0 then (if port \<in> set used then 0 else port)
      else if length used \<ge> HostPortLimit then 0
      else
        let rn = HostPortMax - HostPortMin;
            tries = map (\<lambda>r. HostPortMin + r mod rn) (take 10 rands);
            offset = port_offset used
        in (case find (\<lambda>p. p \<notin> set used) tries of
              Some p \<Rightarrow> p
            | None \<Rightarrow> (case port_scan used (unat offset) (unat HostPortMax) of
                  Some p \<Rightarrow> p
                | None \<Rightarrow> (case port_scan used (unat HostPortMin) (unat offset - 1) of
                      Some p \<Rightarrow> p
                    | None \<Rightarrow> 0))))"

section \<open>Lemmas\<close>

lemma port_scan_Some:
  assumes "port_scan used lo hi = Some p" "hi < 2 ^ 32"
  shows "p \<notin> set used \<and> lo \<le> unat p \<and> unat p \<le> hi"
  using assms
  by (auto simp: port_scan_def unat_of_nat dest!: first_fit_SomeD)

lemma port_scan_None:
  assumes "port_scan used lo hi = None" "lo \<le> unat p" "unat p \<le> hi"
  shows "p \<in> set used"
  using assms by (auto simp: port_scan_def first_fit_None)

lemma rand_port_in_range:
  "20000 \<le> unat (HostPortMin + r mod (HostPortMax - HostPortMin)) \<and>
   unat (HostPortMin + r mod (HostPortMax - HostPortMin)) < 30000"
proof -
  have "unat (r mod 10000) < 10000" by (simp add: unat_mod)
  then show ?thesis by (simp add: port_consts unat_word_ariths)
qed

lemma port_offset_ge: "20000 \<le> unat (port_offset used)"
  by (auto simp: port_offset_def port_consts word_less_nat_alt)

lemma port_offset_lt: "unat (port_offset used) - 1 < 2 ^ 32"
  using unat_lt_32 [of "port_offset used"] by simp

lemma free_port_exists:
  assumes "length used < HostPortLimit"
  shows "\<exists>p :: u32. 20000 \<le> unat p \<and> unat p \<le> 30000 \<and> p \<notin> set used"
proof -
  obtain n where n: "20000 \<le> n" "n \<le> 30000" "n \<notin> set (map unat used)"
    using range_has_free [of "map unat used" 30000 20000] assms by (auto simp: port_consts)
  then have "unat (of_nat n :: u32) = n" by (simp add: unat_of_nat)
  with n show ?thesis by (metis image_eqI list.set_map)
qed

text \<open>The three phases of the automatic search, in the order in which they are tried.\<close>

lemma HostPortAlloc_auto_cases:
  assumes "length used < HostPortLimit"
  obtains (random) r where "HostPortAlloc used 0 rands = HostPortMin + r mod (HostPortMax - HostPortMin)"
      "HostPortAlloc used 0 rands \<notin> set used"
  | (forward) p where "HostPortAlloc used 0 rands = p" "port_scan used (unat (port_offset used)) 30000 = Some p"
  | (wrapped) p where "HostPortAlloc used 0 rands = p"
      "port_scan used (unat (port_offset used)) 30000 = None"
      "port_scan used 20000 (unat (port_offset used) - 1) = Some p"
proof (cases "find (\<lambda>p. p \<notin> set used) (map (\<lambda>r. HostPortMin + r mod (HostPortMax - HostPortMin)) (take 10 rands))")
  case (Some p)
  note found = find_SomeD [OF Some]
  then obtain r where "p = HostPortMin + r mod (HostPortMax - HostPortMin)"
    by auto
  moreover from found have "p \<notin> set used" by blast
  moreover have "HostPortAlloc used 0 rands = p" using Some assms by (simp add: HostPortAlloc_def)
  ultimately show ?thesis by (intro random [of r]) simp_all
next
  case None
  have min: "unat HostPortMin = 20000" and max: "unat HostPortMax = 30000" by (simp_all add: port_consts)
  show ?thesis
  proof (cases "port_scan used (unat (port_offset used)) 30000")
    case (Some p)
    then have "HostPortAlloc used 0 rands = p" using None assms max by (simp add: HostPortAlloc_def)
    then show ?thesis by (rule forward [OF _ Some])
  next
    case scan: None
    obtain p where free: "20000 \<le> unat p" "unat p \<le> 30000" "p \<notin> set used"
      using free_port_exists [OF assms] by blast
    then have "\<not> unat (port_offset used) \<le> unat p" using port_scan_None [OF scan] by blast
    then have below: "unat p \<le> unat (port_offset used) - 1" by simp
    have "port_scan used 20000 (unat (port_offset used) - 1) \<noteq> None"
    proof
      assume "port_scan used 20000 (unat (port_offset used) - 1) = None"
      from port_scan_None [OF this free(1) below] free(3) show False by blast
    qed
    then obtain q where q: "port_scan used 20000 (unat (port_offset used) - 1) = Some q" by blast
    then have "HostPortAlloc used 0 rands = q"
      using None scan assms min max by (simp add: HostPortAlloc_def)
    then show ?thesis by (rule wrapped [OF _ scan q])
  qed
qed

lemma wrapped_in_range:
  assumes "length used < HostPortLimit" "port_scan used (unat (port_offset used)) 30000 = None"
    "port_scan used 20000 (unat (port_offset used) - 1) = Some p"
  shows "unat p \<le> 30000"
proof -
  obtain q where q: "20000 \<le> unat q" "unat q \<le> 30000" "q \<notin> set used"
    using free_port_exists [OF assms(1)] by blast
  obtain n where n: "first_fit (\<lambda>n. (of_nat n :: u32) \<notin> set used) 20000 (unat (port_offset used) - 1) = Some n"
      "p = of_nat n"
    using assms(3) by (auto simp: port_scan_def)
  have "n \<le> unat q"
  proof (rule ccontr)
    assume "\<not> n \<le> unat q"
    then have "\<not> (of_nat (unat q) :: u32) \<notin> set used"
      using first_fit_Some [OF n(1)] q(1) by (meson not_le)
    with q(3) show False by simp
  qed
  then show ?thesis using q(2) n(2) by (simp add: unat_of_nat)
qed

lemma HostPortAlloc_auto_free:
  assumes "length used < HostPortLimit"
  shows "HostPortAlloc used 0 rands \<notin> set used \<and>
    HostPortMin \<le> HostPortAlloc used 0 rands \<and> HostPortAlloc used 0 rands \<le> HostPortMax"
  using assms
proof (cases rule: HostPortAlloc_auto_cases [where rands = rands])
  case (random r)
  then show ?thesis using rand_port_in_range [of r]
    by (simp add: port_consts word_le_nat_alt)
next
  case (forward p)
  then show ?thesis using port_scan_Some [OF forward(2)] port_offset_ge [of used]
    by (simp add: port_consts word_le_nat_alt)
next
  case (wrapped p)
  then show ?thesis using port_scan_Some [OF wrapped(3) port_offset_lt] wrapped_in_range [OF assms wrapped(2,3)]
    by (simp add: port_consts word_le_nat_alt)
qed

section \<open>Properties\<close>

text \<open>
  C19: the automatic search for a host port, on any list of used ports below the limit and for
  any random numbers, ends with a port of the range 20000 to 30000 that is not in use; the explicit
  request of a port returns it when it is free and 0 when it is taken.
\<close>

theorem host_port_alloc_sound:
  "(length used < HostPortLimit \<longrightarrow>
      HostPortAlloc used 0 rands \<notin> set used \<and> 20000 \<le> HostPortAlloc used 0 rands \<and> HostPortAlloc used 0 rands \<le> 30000) \<and>
   (0 < port \<longrightarrow> HostPortAlloc used port rands = (if port \<in> set used then 0 else port))"
  using HostPortAlloc_auto_free [of used rands] by (auto simp: HostPortAlloc_def HostPortMin_def HostPortMax_def)

theorem host_port_alloc_sound_witness:
  "HostPortAlloc [20000, 20001] 0 [0, 1] \<notin> set [20000, 20001 :: u32]"
  using host_port_alloc_sound [of "[20000, 20001]" "[0, 1]" 0] by (simp add: HostPortLimit_def)

end
