(* ===== verification/Float64.thy ===== *)
theory Float64
  imports Prelude
begin

text \<open>
  The \<open>float64\<close> arithmetic the sources use on sizes: the conversion of an integer and the product with
  a constant round to 53 significant bits, half to even; the conversion back to \<open>int64\<close> truncates.
\<close>

function bitlen :: "int \<Rightarrow> nat" where
  "bitlen n = (if n \<le> 0 then 0 else Suc (bitlen (n div 2)))"
  by auto
termination by (relation "measure nat") auto

declare bitlen.simps [simp del]

definition rnd53n :: "int \<Rightarrow> int" where
  "rnd53n n =
     (let e = bitlen n - 53; q = n div 2 ^ e; r = n mod 2 ^ e in
      if 2 * r < 2 ^ e \<or> (2 * r = 2 ^ e \<and> even q) then q * 2 ^ e else (q + 1) * 2 ^ e)"

definition rnd53 :: "int \<Rightarrow> int" where
  "rnd53 x = (if x < 0 then - rnd53n (- x) else rnd53n x)"

text \<open>Conversion of an integral float to \<open>int64\<close>; out of range it is the smallest value (amd64).\<close>

definition f2i :: "int \<Rightarrow> int" where
  "f2i x = (if in_i64 x then x else - (2 ^ 63))"

lemma bitlen_le: "n < 2 ^ k \<Longrightarrow> bitlen n \<le> k"
proof (induction k arbitrary: n)
  case 0 then show ?case by (simp add: bitlen.simps)
next
  case (Suc k)
  then have "bitlen (n div 2) \<le> k" by (intro Suc.IH) auto
  then show ?case by (subst bitlen.simps) simp
qed

lemma rnd53_exact: "0 \<le> x \<Longrightarrow> x < 2 ^ 53 \<Longrightarrow> rnd53 x = x"
  using bitlen_le [of x 53] by (simp add: rnd53_def rnd53n_def Let_def)

end
