(* ===== verification/Sched.thy ===== *)
theory Sched
  imports Float64
begin

text \<open>
  The host scheduler, \<open>internal/zonelet/scheduler\<close>: the data of \<open>api.go\<close> and \<open>host.go\<close>, the
  fit filter and the hit of \<open>scheduler.go\<close>, the priorities of \<open>priorities.go\<close>. Sizes are
  \<open>int64\<close> with wrap-around; the over-allocation factors are \<open>float64\<close> products, computed here
  exactly (a product rounded to 53 significant bits, half to even, then truncated). The picks of the
  two \<open>sort.Slice\<close> calls are arguments. \<open>findHostListThatFit\<close> sorts the volumes of a host in place,
  so it returns the hosts as well.
\<close>

section \<open>Over-allocation limits\<close>

text \<open>\<open>float64(3.0)\<close> is 3, \<open>float64(1.1)\<close> is 4953959590107546 / 2^52.\<close>

definition cpuCap :: "int \<Rightarrow> int" where
  "cpuCap tot = f2i (rnd53 (rnd53 tot * 3))"

definition memCap :: "int \<Rightarrow> int" where
  "memCap tot = f2i (godiv (rnd53 (rnd53 tot * 4953959590107546)) (2 ^ 52))"

section \<open>Data\<close>

record sched_replica =
  sr_cpu :: int
  sr_mem :: int
  sr_vol :: int

record sched_volume =
  sv_name :: string
  sv_total :: int
  sv_used :: int
  sv_alloc :: int

record sched_host =
  sh_id :: string
  sh_op_action :: "string list"
  sh_cpu_total :: int
  sh_cpu_used :: int
  sh_cpu_alloc :: int
  sh_mem_total :: int
  sh_mem_used :: int
  sh_mem_alloc :: int
  sh_volumes :: "sched_volume list"

record host_fit =
  hf_id :: string
  hf_cpu_alloc :: int
  hf_cpu_total :: int
  hf_cpu_used :: int
  hf_mem_alloc :: int
  hf_mem_total :: int
  hf_mem_used :: int
  hf_volume :: string

record host_priority =
  hp_id :: string
  hp_score :: int
  hp_volume :: string

record sched_hit =
  hit_host_id :: string
  hit_host :: sched_host
  hit_volumes :: "(string \<times> int) list"

datatype sched_error = ErrBadArgument | ErrNoHostFound | ErrNoHostScheduled | ErrNoResourceFit

definition HostSetupStart :: string where "HostSetupStart = ''start''"

section \<open>Priorities\<close>

definition calculatePercentage :: "int \<Rightarrow> int \<Rightarrow> int" where
  "calculatePercentage num den = (if den \<le> 0 then 0 else godiv (i64 (num * 100)) den)"

definition calculateOccupancy :: "host_fit \<Rightarrow> host_priority" where
  "calculateOccupancy h =
     (let c = calculatePercentage (max (hf_cpu_alloc h) (hf_cpu_used h)) (hf_cpu_total h);
          m = calculatePercentage (max (hf_mem_alloc h) (hf_mem_used h)) (hf_mem_total h)
      in \<lparr>hp_id = hf_id h, hp_score = godiv (i64 (c + m)) 2, hp_volume = hf_volume h\<rparr>)"

definition prioritizer :: "nat list \<Rightarrow> host_fit list \<Rightarrow> sched_error + host_priority list" where
  "prioritizer picks hosts =
     (if hosts = [] then Inl ErrNoHostFound
      else Inr (sort_slice picks hp_score (map calculateOccupancy hosts)))"

section \<open>Scheduler\<close>

definition cpu_mem_fit :: "sched_replica \<Rightarrow> sched_host \<Rightarrow> bool" where
  "cpu_mem_fit rep v \<longleftrightarrow>
     \<not> (i64 (sr_cpu rep + max (sh_cpu_used v) (sh_cpu_alloc v)) > cpuCap (sh_cpu_total v) \<or>
        i64 (sr_mem rep + max (sh_mem_used v) (sh_mem_alloc v)) > memCap (sh_mem_total v))"

definition vol_free :: "sched_volume \<Rightarrow> int" where
  "vol_free vp = i64 (sv_total vp - max (sv_used vp) (sv_alloc vp))"

definition vol_fits :: "sched_replica \<Rightarrow> sched_volume \<Rightarrow> bool" where
  "vol_fits rep vp \<longleftrightarrow> i64 (max (sv_used vp) (sv_alloc vp) + sr_vol rep) \<le> sv_total vp"

text \<open>One round of the loop: the host afterwards, and the entry appended for it.\<close>

definition fit_host ::
    "(string \<Rightarrow> nat list) \<Rightarrow> sched_replica \<Rightarrow> string list \<Rightarrow> sched_host \<Rightarrow> sched_host \<times> host_fit option" where
  "fit_host picks rep excludes v =
     (if HostSetupStart \<notin> set (sh_op_action v) \<or> sh_volumes v = [] then (v, None)
      else if sh_id v \<in> set excludes then (v, None)
      else if \<not> cpu_mem_fit rep v then (v, None)
      else
        let vols = sort_slice (picks (sh_id v)) (\<lambda>vp. - vol_free vp) (sh_volumes v);
            v' = v\<lparr>sh_volumes := vols\<rparr>;
            volFit = (case find (vol_fits rep) vols of None \<Rightarrow> '''' | Some vp \<Rightarrow> sv_name vp)
        in if volFit = '''' then (v', None)
           else (v', Some \<lparr>hf_id = sh_id v, hf_cpu_alloc = sh_cpu_alloc v, hf_cpu_total = cpuCap (sh_cpu_total v),
                  hf_cpu_used = sh_cpu_used v, hf_mem_alloc = sh_mem_alloc v, hf_mem_total = memCap (sh_mem_total v),
                  hf_mem_used = sh_mem_used v, hf_volume = volFit\<rparr>))"

definition findHostListThatFit ::
    "(string \<Rightarrow> nat list) \<Rightarrow> sched_replica \<Rightarrow> sched_host list \<Rightarrow> string list \<Rightarrow> sched_host list \<times> host_fit list" where
  "findHostListThatFit picks rep hosts excludes =
     (let rs = map (fit_host picks rep excludes) hosts
      in (map fst rs, List.map_filter snd rs))"

definition ScheduleHost ::
    "(string \<Rightarrow> nat list) \<Rightarrow> nat list \<Rightarrow> sched_replica option \<Rightarrow> sched_host list \<Rightarrow> string list
      \<Rightarrow> sched_error + sched_hit" where
  "ScheduleHost picks ppicks rep_opt hosts excludes =
     (case rep_opt of
        None \<Rightarrow> Inl ErrBadArgument
      | Some rep \<Rightarrow>
        if hosts = [] then Inl ErrBadArgument
        else case findHostListThatFit picks rep hosts excludes of (hosts', fits) \<Rightarrow>
          (case prioritizer ppicks fits of
             Inl e \<Rightarrow> Inl e
           | Inr [] \<Rightarrow> Inl ErrNoHostScheduled
           | Inr (p # _) \<Rightarrow>
               (case find (\<lambda>v. sh_id v = hp_id p) hosts' of
                  None \<Rightarrow> Inl ErrNoHostScheduled
                | Some v \<Rightarrow> Inr \<lparr>hit_host_id = sh_id v, hit_host = v,
                                 hit_volumes = [(hp_volume p, sr_vol rep)]\<rparr>)))"

definition ScheduleHostValid :: "sched_host \<Rightarrow> sched_replica \<Rightarrow> sched_error option" where
  "ScheduleHostValid host entry =
     (if i64 (sr_cpu entry + max (sh_cpu_used host) (sh_cpu_alloc host)) > cpuCap (sh_cpu_total host) \<or>
         i64 (sr_mem entry + max (sh_mem_used host) (sh_mem_alloc host)) > memCap (sh_mem_total host)
      then Some ErrNoResourceFit else None)"

section \<open>Lemmas\<close>

lemma fit_host_frame:
  assumes "fit_host picks rep ex v = (v', r)"
  shows "v' = v\<lparr>sh_volumes := sh_volumes v'\<rparr> \<and> mset (sh_volumes v') = mset (sh_volumes v)"
  using assms by (auto simp: fit_host_def Let_def split: if_splits option.splits)

text \<open>A host enters the fit list iff it is usable, and the entry names a volume that fits.\<close>

definition usable :: "sched_replica \<Rightarrow> string list \<Rightarrow> sched_host \<Rightarrow> bool" where
  "usable rep ex v \<longleftrightarrow> HostSetupStart \<in> set (sh_op_action v) \<and> sh_id v \<notin> set ex \<and> cpu_mem_fit rep v \<and>
     (\<exists>vp \<in> set (sh_volumes v). vol_fits rep vp)"

lemma fit_host_Some:
  assumes "fit_host picks rep ex v = (v', Some f)"
  shows "usable rep ex v" "hf_id f = sh_id v"
    "\<exists>vp \<in> set (sh_volumes v). vol_fits rep vp \<and> sv_name vp = hf_volume f"
  using assms find_SomeD [of "vol_fits rep" "sort_slice (picks (sh_id v)) (\<lambda>vp. - vol_free vp) (sh_volumes v)"]
  by (auto simp: fit_host_def usable_def Let_def split: if_splits option.splits)

lemma fit_host_None:
  assumes "fit_host picks rep ex v = (v', None)" "\<forall>vp \<in> set (sh_volumes v). sv_name vp \<noteq> ''''"
  shows "\<not> usable rep ex v"
proof -
  let ?vols = "sort_slice (picks (sh_id v)) (\<lambda>vp. - vol_free vp) (sh_volumes v)"
  have "find (vol_fits rep) ?vols = Some vp \<Longrightarrow> sv_name vp \<noteq> ''''" for vp
    using assms(2) find_SomeD [of "vol_fits rep" ?vols vp] by auto
  moreover have "find (vol_fits rep) ?vols = None \<Longrightarrow> \<forall>vp \<in> set (sh_volumes v). \<not> vol_fits rep vp"
    by (metis find_None_iff set_sort_slice)
  ultimately show ?thesis
    using assms(1) by (auto simp: fit_host_def usable_def Let_def split: if_splits option.splits)
qed

lemma find_fits:
  assumes "findHostListThatFit picks rep hosts ex = (hosts', fits)"
  shows "hosts' = map (fst \<circ> fit_host picks rep ex) hosts"
    "set fits = {f. \<exists>v \<in> set hosts. snd (fit_host picks rep ex v) = Some f}"
  using assms by (auto simp: findHostListThatFit_def Let_def set_map_filter_iff)

lemma fit_host_id: "sh_id (fst (fit_host picks rep ex v)) = sh_id v"
  by (auto simp: fit_host_def Let_def)

section \<open>The over-allocation limits\<close>

text \<open>For any realistic number of millicores the cpu limit is exactly three times the total.\<close>

lemma cpu_cap_exact: "0 \<le> x \<Longrightarrow> x < 2 ^ 51 \<Longrightarrow> cpuCap x = 3 * x"
  by (simp add: cpuCap_def rnd53_exact f2i_def in_i64_def)

section \<open>Properties\<close>

text \<open>A hit, unfolded: the chosen priority entry is minimal and its host is found by id.\<close>

lemma ScheduleHost_hit:
  assumes "ScheduleHost picks pp (Some rep) hosts ex = Inr hit"
  obtains f v where "v \<in> set hosts" "fit_host picks rep ex v = (fst (fit_host picks rep ex v), Some f)"
    "\<forall>u \<in> set hosts. \<forall>g. snd (fit_host picks rep ex u) = Some g
       \<longrightarrow> hp_score (calculateOccupancy f) \<le> hp_score (calculateOccupancy g)"
    "hit_volumes hit = [(hf_volume f, sr_vol rep)]" "hit_host_id hit = sh_id v"
    "sh_id (hit_host hit) = sh_id v" "hit_host hit \<in> set (map (fst \<circ> fit_host picks rep ex) hosts)"
proof -
  obtain hosts' fits where ff: "findHostListThatFit picks rep hosts ex = (hosts', fits)" by fastforce
  obtain p ps where pr: "prioritizer pp fits = Inr (p # ps)"
    using assms ff by (auto simp: ScheduleHost_def split: if_splits sum.splits list.splits)
  obtain w where w: "find (\<lambda>v. sh_id v = hp_id p) hosts' = Some w"
    and hit: "hit = \<lparr>hit_host_id = sh_id w, hit_host = w, hit_volumes = [(hp_volume p, sr_vol rep)]\<rparr>"
    using assms ff pr by (auto simp: ScheduleHost_def split: if_splits option.splits)
  have ne: "map calculateOccupancy fits \<noteq> []"
    and srt: "p = hd (sort_slice pp hp_score (map calculateOccupancy fits))"
    using pr by (auto simp: prioritizer_def split: if_splits)
  obtain f where f: "f \<in> set fits" "p = calculateOccupancy f"
    "\<forall>g \<in> set fits. hp_score (calculateOccupancy f) \<le> hp_score (calculateOccupancy g)"
    using sort_slice_hd [OF ne, of pp hp_score] srt by auto
  obtain v where v: "v \<in> set hosts" "snd (fit_host picks rep ex v) = Some f" using f(1) find_fits(2) [OF ff] by auto
  have id: "hp_id p = sh_id v" "hp_volume p = hf_volume f"
    using f(2) fit_host_Some(2) [of picks rep ex v] v(2) by (simp_all add: calculateOccupancy_def Let_def prod_eq_iff)
  show ?thesis
    using that [OF v(1), of f] v(2) f(3) id find_SomeD [OF w] hit find_fits [OF ff]
    by (auto simp: prod_eq_iff)
qed

text \<open>
  C1: when host ids are distinct, a hit names a host of the list that is open for work, not
  excluded, has room for the replica's cpu and memory under the over-allocation limits and passes
  \<open>ScheduleHostValid\<close>, together with one of its volumes that has room; no other host that qualifies
  has a lower occupancy score.
\<close>

theorem schedule_host_sound:
  assumes "ScheduleHost picks pp (Some rep) hosts ex = Inr hit" "distinct (map sh_id hosts)"
  shows "\<exists>v f. v \<in> set hosts \<and> hit_host_id hit = sh_id v \<and> usable rep ex v \<and>
    ScheduleHostValid (hit_host hit) rep = None \<and>
    hit_host hit = v\<lparr>sh_volumes := sh_volumes (hit_host hit)\<rparr> \<and> mset (sh_volumes (hit_host hit)) = mset (sh_volumes v) \<and>
    (\<exists>vp \<in> set (sh_volumes v). vol_fits rep vp \<and> hit_volumes hit = [(sv_name vp, sr_vol rep)]) \<and>
    snd (fit_host picks rep ex v) = Some f \<and>
    (\<forall>u \<in> set hosts. \<forall>g. snd (fit_host picks rep ex u) = Some g
      \<longrightarrow> hp_score (calculateOccupancy f) \<le> hp_score (calculateOccupancy g))"
  using assms(1)
proof (rule ScheduleHost_hit)
  fix f v
  assume v: "v \<in> set hosts" "fit_host picks rep ex v = (fst (fit_host picks rep ex v), Some f)"
    and mini: "\<forall>u \<in> set hosts. \<forall>g. snd (fit_host picks rep ex u) = Some g
       \<longrightarrow> hp_score (calculateOccupancy f) \<le> hp_score (calculateOccupancy g)"
    and hit: "hit_volumes hit = [(hf_volume f, sr_vol rep)]" "hit_host_id hit = sh_id v"
      "sh_id (hit_host hit) = sh_id v" "hit_host hit \<in> set (map (fst \<circ> fit_host picks rep ex) hosts)"
  obtain u where u: "u \<in> set hosts" "hit_host hit = fst (fit_host picks rep ex u)" using hit(4) by auto
  then have "u = v" using assms(2) v(1) hit(3) by (auto simp: fit_host_id distinct_map inj_on_def)
  then have host: "hit_host hit = v\<lparr>sh_volumes := sh_volumes (hit_host hit)\<rparr>"
    "mset (sh_volumes (hit_host hit)) = mset (sh_volumes v)"
    using fit_host_frame [OF v(2)] u(2) by auto
  note us = fit_host_Some [OF v(2)]
  have "ScheduleHostValid (hit_host hit) rep = None"
    using us(1) by (subst host(1)) (simp add: ScheduleHostValid_def usable_def cpu_mem_fit_def)
  then show ?thesis
    using v hit mini us host by (intro exI [of _ v] exI [of _ f]) (auto simp: prod_eq_iff)
qed

definition demo_hosts :: "sched_host list" where
  "demo_hosts =
     [\<lparr>sh_id = ''a'', sh_op_action = [''start''], sh_cpu_total = 4000, sh_cpu_used = 100, sh_cpu_alloc = 8000,
       sh_mem_total = 1000, sh_mem_used = 0, sh_mem_alloc = 900, sh_volumes =
         [\<lparr>sv_name = ''/v1'', sv_total = 50, sv_used = 10, sv_alloc = 0\<rparr>,
          \<lparr>sv_name = ''/v2'', sv_total = 90, sv_used = 10, sv_alloc = 20\<rparr>]\<rparr>,
      \<lparr>sh_id = ''b'', sh_op_action = [''start''], sh_cpu_total = 4000, sh_cpu_used = 100, sh_cpu_alloc = 4000,
       sh_mem_total = 1000, sh_mem_used = 0, sh_mem_alloc = 100, sh_volumes =
         [\<lparr>sv_name = ''/v'', sv_total = 50, sv_used = 10, sv_alloc = 0\<rparr>]\<rparr>]"

definition demo_rep :: sched_replica where
  "demo_rep = \<lparr>sr_cpu = 500, sr_mem = 100, sr_vol = 20\<rparr>"

lemma demo_hit:
  "map_sum id hit_host_id (ScheduleHost (\<lambda>_. []) [] (Some demo_rep) demo_hosts []) = Inr ''b''"
  "distinct (map sh_id demo_hosts)"
  by code_simp+

theorem schedule_host_sound_witness:
  "\<exists>hit. ScheduleHost (\<lambda>_. []) [] (Some demo_rep) demo_hosts [] = Inr hit \<and> hit_host_id hit = ''b'' \<and>
     ScheduleHostValid (hit_host hit) demo_rep = None"
proof -
  obtain hit where hit: "ScheduleHost (\<lambda>_. []) [] (Some demo_rep) demo_hosts [] = Inr hit" "hit_host_id hit = ''b''"
    using demo_hit(1) by (cases "ScheduleHost (\<lambda>_. []) [] (Some demo_rep) demo_hosts []") auto
  from schedule_host_sound [OF hit(1) demo_hit(2)] hit show ?thesis by blast
qed

text \<open>
  C32: the scheduler refuses a replica only when no host is usable: if every volume has a
  name and some host is open, not excluded and has room, there is a hit.
\<close>

theorem schedule_host_complete:
  assumes "v \<in> set hosts" "usable rep ex v" "\<forall>u \<in> set hosts. \<forall>vp \<in> set (sh_volumes u). sv_name vp \<noteq> ''''"
  shows "\<exists>hit. ScheduleHost picks pp (Some rep) hosts ex = Inr hit"
proof -
  obtain hosts' fits where ff: "findHostListThatFit picks rep hosts ex = (hosts', fits)" by fastforce
  obtain f where "snd (fit_host picks rep ex v) = Some f"
    using fit_host_None [of picks rep ex v] assms by (metis not_None_eq prod.collapse)
  then have ne: "map calculateOccupancy fits \<noteq> []" using find_fits(2) [OF ff] assms(1) by auto
  then obtain p ps where pr: "sort_slice pp hp_score (map calculateOccupancy fits) = p # ps"
    by (metis length_sort_slice length_0_conv neq_Nil_conv)
  then obtain g where g: "g \<in> set fits" "p = calculateOccupancy g"
    using sort_slice_hd [OF ne, of pp hp_score] by auto
  then obtain u where u: "u \<in> set hosts" "snd (fit_host picks rep ex u) = Some g" using find_fits(2) [OF ff] by auto
  have "hp_id p = sh_id u"
    using g(2) fit_host_Some(2) [of picks rep ex u] u(2) by (simp add: calculateOccupancy_def Let_def prod_eq_iff)
  then have "find (\<lambda>w. sh_id w = hp_id p) hosts' \<noteq> None"
    using u(1) find_fits(1) [OF ff] by (auto simp: find_None_iff fit_host_id)
  then show ?thesis
    using ff ne pr assms(1) by (auto simp: ScheduleHost_def prioritizer_def)
qed

lemma demo_usable:
  "demo_hosts ! 0 \<in> set demo_hosts" "usable demo_rep [''b''] (demo_hosts ! 0)"
  "\<forall>u \<in> set demo_hosts. \<forall>vp \<in> set (sh_volumes u). sv_name vp \<noteq> []"
  by code_simp+

theorem schedule_host_complete_witness:
  "\<exists>hit. ScheduleHost (\<lambda>_. [1, 0]) [1] (Some demo_rep) demo_hosts [''b''] = Inr hit"
  using schedule_host_complete [of "demo_hosts ! 0" demo_hosts demo_rep "[''b'']" "\<lambda>_. [1, 0]" "[1]"]
    demo_usable by blast

end
