(* ===== verification/Stage.thy ===== *)
theory Stage
  imports Prelude
begin

text \<open>
  The deploy stage tree of an application (\<open>pkg/inapi/app.go\<close>), the code of the zone leader that
  marks, reconciles and merges it (\<open>service_instance.go\<close>, \<open>service_internal.go\<close>) and the stage
  entries a host keeps per replica (\<open>hoststatus.go\<close>). A stage is a header record with a list of
  children; the pointer a Go function returns to a child is modelled by applying the caller's update
  at that child. The clock is an argument, read as often as the code reads it. The container name
  and stage key formats are here too.
\<close>

section \<open>Data\<close>

record stage_hdr =
  st_name :: string
  st_owner :: string
  st_revision :: nat
  st_state :: string
  st_attempt :: int
  st_attrs :: "string \<rightharpoonup> string"
  st_message :: string
  st_created :: int
  st_finished :: int

datatype stage = Stage (hdr: stage_hdr) (kids: "stage list")

definition stage_of :: "string \<Rightarrow> string \<Rightarrow> string \<Rightarrow> (string \<rightharpoonup> string) \<Rightarrow> stage" where
  "stage_of name own state attrs = Stage
     \<lparr>st_name = name, st_owner = own, st_revision = 0, st_state = state, st_attempt = 0, st_attrs = attrs,
      st_message = '''', st_created = 0, st_finished = 0\<rparr> []"

definition AppStageStatePending :: string where "AppStageStatePending = ''pending''"
definition AppStageStateRunning :: string where "AppStageStateRunning = ''running''"
definition AppStageStateSuccess :: string where "AppStageStateSuccess = ''success''"
definition AppStageStateFailed :: string where "AppStageStateFailed = ''failed''"
definition AppStageOwnerZonelet :: string where "AppStageOwnerZonelet = ''zonelet''"
definition AppStageOwnerHostlet :: string where "AppStageOwnerHostlet = ''hostlet''"
definition AppStageOwnerInagent :: string where "AppStageOwnerInagent = ''inagent''"

lemmas stage_states = AppStageStatePending_def AppStageStateRunning_def AppStageStateSuccess_def AppStageStateFailed_def

definition AppDeployStageHostSideNames :: "string list" where
  "AppDeployStageHostSideNames =
     [''host_recv'', ''image_pull'', ''pkg_download'', ''provision'', ''container_create'', ''container_start'',
      ''container_running'', ''container_stop'', ''container_destroy'']"

definition AppDeployStageInagentNames :: "string list" where
  "AppDeployStageInagentNames = [''inagent_boot'', ''spec_load'', ''task_run'']"

definition AppDeployStageRelayedNames :: "string list" where
  "AppDeployStageRelayedNames = AppDeployStageHostSideNames @ AppDeployStageInagentNames"

definition relayed :: "string \<Rightarrow> bool" where
  "relayed name \<longleftrightarrow> name \<in> set AppDeployStageRelayedNames"

section \<open>Stage operations\<close>

abbreviation kid_name :: "stage \<Rightarrow> string" where
  "kid_name s \<equiv> st_name (hdr s)"

definition upd_hdr :: "(stage_hdr \<Rightarrow> stage_hdr) \<Rightarrow> stage \<Rightarrow> stage" where
  "upd_hdr f s = Stage (f (hdr s)) (kids s)"

definition Find :: "string \<Rightarrow> stage \<Rightarrow> stage option" where
  "Find name x = find (\<lambda>s. kid_name s = name) (kids x)"

text \<open>Apply an update to the first child that satisfies a predicate, or to a new child at the end.\<close>

fun upd_first :: "('a \<Rightarrow> bool) \<Rightarrow> 'a \<Rightarrow> ('a \<Rightarrow> 'a) \<Rightarrow> 'a list \<Rightarrow> 'a list" where
  "upd_first P new f [] = [f new]"
| "upd_first P new f (s # ss) = (if P s then f s # ss else s # upd_first P new f ss)"

definition Child :: "string \<Rightarrow> string \<Rightarrow> (stage \<Rightarrow> stage) \<Rightarrow> stage \<Rightarrow> stage" where
  "Child name own f x =
     Stage (hdr x) (upd_first (\<lambda>s. kid_name s = name) (stage_of name own AppStageStatePending Map.empty) f (kids x))"

definition set_msg :: "string \<Rightarrow> stage_hdr \<Rightarrow> stage_hdr" where
  "set_msg msg h = (if msg \<noteq> '''' then h\<lparr>st_message := msg\<rparr> else h)"

definition set_created :: "int \<Rightarrow> stage_hdr \<Rightarrow> stage_hdr" where
  "set_created now h = (if st_created h = 0 then h\<lparr>st_created := now\<rparr> else h)"

definition SetRunning :: "int \<Rightarrow> string \<Rightarrow> stage \<Rightarrow> stage" where
  "SetRunning now msg = upd_hdr (\<lambda>h.
     let h1 = (if st_state h = AppStageStateFailed then h\<lparr>st_attempt := i64 (st_attempt h + 1)\<rparr> else h);
         h2 = set_created now h1
     in set_msg msg (h2\<lparr>st_finished := 0, st_state := AppStageStateRunning\<rparr>))"

definition SetSuccess :: "int \<Rightarrow> int \<Rightarrow> string \<Rightarrow> stage \<Rightarrow> stage" where
  "SetSuccess now1 now2 msg = upd_hdr (\<lambda>h.
     set_msg msg ((set_created now1 h)\<lparr>st_finished := now2, st_state := AppStageStateSuccess\<rparr>))"

definition SetFailed :: "int \<Rightarrow> int \<Rightarrow> string \<Rightarrow> stage \<Rightarrow> stage" where
  "SetFailed now1 now2 msg = upd_hdr (\<lambda>h.
     set_msg msg ((set_created now1 h)\<lparr>st_finished := now2, st_state := AppStageStateFailed\<rparr>))"

definition SetInstant :: "int \<Rightarrow> string \<Rightarrow> stage \<Rightarrow> stage" where
  "SetInstant now msg = upd_hdr (\<lambda>h.
     set_msg msg (h\<lparr>st_created := now, st_finished := now, st_state := AppStageStateSuccess\<rparr>))"

fun SetRevisionDeep :: "nat \<Rightarrow> stage \<Rightarrow> stage" where
  "SetRevisionDeep r (Stage h ss) = Stage (h\<lparr>st_revision := r\<rparr>) (map (SetRevisionDeep r) ss)"

definition is_replica :: "string \<Rightarrow> stage \<Rightarrow> bool" where
  "is_replica want s \<longleftrightarrow> kid_name s = ''replica'' \<and> st_attrs (hdr s) ''rep_id'' = Some want"

definition ReplicaStage :: "nat \<Rightarrow> (stage \<Rightarrow> stage) \<Rightarrow> stage \<Rightarrow> stage" where
  "ReplicaStage repId f x =
     (let want = show_nat repId in
      Stage (hdr x) (upd_first (is_replica want)
        (stage_of ''replica'' AppStageOwnerZonelet AppStageStatePending [''rep_id'' \<mapsto> want]) f (kids x)))"

definition PruneChildren :: "(string \<Rightarrow> bool) \<Rightarrow> stage \<Rightarrow> stage" where
  "PruneChildren keep x = Stage (hdr x) (filter (\<lambda>s. keep (kid_name s)) (kids x))"

section \<open>The zone leader's side\<close>

record app_deploy_stages =
  ad_revision :: nat
  ad_stages :: "stage option"

definition StagesRoot :: "app_deploy_stages \<Rightarrow> stage" where
  "StagesRoot x = (case ad_stages x of Some s \<Rightarrow> s | None \<Rightarrow> stage_of ''deploy'' AppStageOwnerZonelet '''' Map.empty)"

definition set_revision :: "nat \<Rightarrow> stage \<Rightarrow> stage" where
  "set_revision r = upd_hdr (\<lambda>h. h\<lparr>st_revision := r\<rparr>)"

definition appDeployStagesMarkPreHost :: "int \<Rightarrow> int \<Rightarrow> int \<Rightarrow> int \<Rightarrow> app_deploy_stages \<Rightarrow> app_deploy_stages" where
  "appDeployStagesMarkPreHost rpcStartMs now1 now2 now3 d =
     (let cur = ad_revision d;
          r0 = SetRunning now1 '''' (StagesRoot d);
          r1 = Child ''req_validate'' AppStageOwnerZonelet
                 (\<lambda>rv. set_revision cur (SetSuccess now2 now2 '''' (upd_hdr (\<lambda>h. h\<lparr>st_created := rpcStartMs\<rparr>) rv))) r0;
          r2 = Child ''instance_persist'' AppStageOwnerZonelet (\<lambda>ip. set_revision cur (SetInstant now3 '''' ip)) r1
      in d\<lparr>ad_stages := Some r2\<rparr>)"

definition prune_relayed :: "stage \<Rightarrow> stage" where
  "prune_relayed = PruneChildren (\<lambda>name. \<not> relayed name)"

definition appDeployStagesReconcile :: "int \<Rightarrow> app_deploy_stages \<Rightarrow> app_deploy_stages \<times> bool" where
  "appDeployStagesReconcile now d =
     (let curRev = ad_revision d; root = StagesRoot d in
      if st_revision (hdr root) \<ge> curRev then (d\<lparr>ad_stages := Some root\<rparr>, False)
      else
        let r0 = SetRunning now '''' root;
            r1 = Stage (hdr r0) (map (\<lambda>s. if kid_name s = ''replica'' then prune_relayed s else s) (kids r0))
        in (d\<lparr>ad_stages := Some (SetRevisionDeep curRev r1)\<rparr>, True))"

text \<open>The fields a report overwrites in the child of its name.\<close>

definition copy_report :: "stage_hdr \<Rightarrow> stage \<Rightarrow> stage" where
  "copy_report s = upd_hdr (\<lambda>h. h\<lparr>st_state := st_state s, st_attempt := st_attempt s, st_created := st_created s,
     st_finished := st_finished s, st_message := st_message s, st_revision := st_revision s\<rparr>)"

definition report_stale :: "nat \<Rightarrow> stage_hdr \<Rightarrow> bool" where
  "report_stale curRev s \<longleftrightarrow> st_revision s > 0 \<and> curRev > 0 \<and> st_revision s < curRev"

definition apply_report :: "(stage_hdr \<Rightarrow> string) \<Rightarrow> nat \<Rightarrow> stage \<Rightarrow> stage_hdr \<Rightarrow> stage" where
  "apply_report owner_of curRev x s =
     (if st_name s = '''' \<or> report_stale curRev s then x
      else Child (st_name s) (owner_of s) (copy_report s) x)"

definition merge_reports ::
    "(string \<Rightarrow> bool) \<Rightarrow> (stage_hdr \<Rightarrow> string) \<Rightarrow> nat \<Rightarrow> stage_hdr list \<Rightarrow> stage \<Rightarrow> stage" where
  "merge_reports drop_name owner_of curRev stages x =
     foldl (apply_report owner_of curRev) (PruneChildren (\<lambda>n. \<not> drop_name n) x) stages"

text \<open>The replica node of one report, as \<open>mergeHostReplicaStages\<close> rewrites it.\<close>

definition mergeHostReplicaStage :: "nat \<Rightarrow> nat \<Rightarrow> stage_hdr list \<Rightarrow> stage \<Rightarrow> stage" where
  "mergeHostReplicaStage repId curRev stages root =
     ReplicaStage repId (merge_reports relayed st_owner curRev stages) root"

section \<open>The host's stage entries\<close>

record replica_stage_entry =
  rse_stage :: stage
  rse_dirty :: bool
  rse_revision :: nat

definition new_stage_entry :: "nat \<Rightarrow> replica_stage_entry" where
  "new_stage_entry repId = \<lparr>rse_stage = stage_of ''replica'' AppStageOwnerHostlet '''' [''rep_id'' \<mapsto> show_nat repId],
     rse_dirty = False, rse_revision = 0\<rparr>"

definition SyncRevision :: "nat \<Rightarrow> replica_stage_entry \<Rightarrow> replica_stage_entry \<times> bool" where
  "SyncRevision r e =
     (if rse_revision e = r then (e, False)
      else (e\<lparr>rse_revision := r, rse_stage := Stage (hdr (rse_stage e)) [], rse_dirty := True\<rparr>, True))"

definition stageName :: "string \<Rightarrow> (stage \<Rightarrow> stage) \<Rightarrow> replica_stage_entry \<Rightarrow> replica_stage_entry" where
  "stageName name f e = e\<lparr>rse_stage := Child name AppStageOwnerHostlet (\<lambda>s. set_revision (rse_revision e) (f s)) (rse_stage e),
     rse_dirty := True\<rparr>"

definition MergeInagent :: "stage_hdr list \<Rightarrow> replica_stage_entry \<Rightarrow> replica_stage_entry" where
  "MergeInagent stages e = e\<lparr>rse_stage :=
       merge_reports (\<lambda>n. n \<in> set AppDeployStageInagentNames) (\<lambda>_. AppStageOwnerInagent) (rse_revision e) stages (rse_stage e),
     rse_dirty := True\<rparr>"

definition SnapshotIfDirty :: "replica_stage_entry \<Rightarrow> stage list option" where
  "SnapshotIfDirty e = (if \<not> rse_dirty e then None else Some (kids (rse_stage e)))"

definition ClearDirty :: "replica_stage_entry \<Rightarrow> replica_stage_entry" where
  "ClearDirty e = e\<lparr>rse_dirty := False\<rparr>"

section \<open>Names\<close>

definition ContainerName :: "string \<Rightarrow> nat \<Rightarrow> string" where
  "ContainerName instanceName repId = ''i8k_'' @ instanceName @ ''_'' @ show_nat repId"

definition ParseContainerName :: "string \<Rightarrow> (string \<times> nat) option" where
  "ParseContainerName name =
     (if \<not> has_prefix name ''i8k_'' then None
      else case split_last CHR ''_'' name of
          None \<Rightarrow> None
        | Some (pre, suf) \<Rightarrow>
            if length pre < 4 then None
            else case parse_uint 32 suf of
                None \<Rightarrow> None
              | Some r \<Rightarrow>
                  (let inst = drop 4 pre in
                   if inst = '''' \<or> CHR ''_'' \<in> set inst then None else Some (inst, r)))"

definition ReplicaStageKey :: "string \<Rightarrow> nat \<Rightarrow> string" where
  "ReplicaStageKey instanceName repId = instanceName @ ''/'' @ show_nat repId"

definition ParseReplicaStageKey :: "string \<Rightarrow> (string \<times> nat) option" where
  "ParseReplicaStageKey key =
     (case split_last CHR ''/'' key of
        None \<Rightarrow> None
      | Some (pre, suf) \<Rightarrow> map_option (\<lambda>r. (pre, r)) (parse_uint 32 suf))"

text \<open>The legacy resource fields: a (min, max) pair and the deprecated single value.\<close>

definition normLegacyPair :: "string \<Rightarrow> string \<Rightarrow> string \<Rightarrow> string \<times> string \<times> string" where
  "normLegacyPair mn mx legacy =
     (if mn = '''' \<and> mx = '''' \<and> legacy \<noteq> '''' then (legacy, legacy, '''')
      else if mn = '''' \<and> mx \<noteq> '''' then (mx, mx, '''')
      else if mx = '''' \<and> mn \<noteq> '''' then (mn, mn, '''')
      else (mn, mx, ''''))"

section \<open>Children\<close>

lemma hdr_upd_hdr [simp]: "hdr (upd_hdr f s) = f (hdr s)" and kids_upd_hdr [simp]: "kids (upd_hdr f s) = kids s"
  by (simp_all add: upd_hdr_def)

lemma stage_of_sel [simp]:
  "kid_name (stage_of n own st a) = n" "st_attrs (hdr (stage_of n own st a)) = a" "kids (stage_of n own st a) = []"
  "st_revision (hdr (stage_of n own st a)) = 0"
  by (simp_all add: stage_of_def)

lemma hdr_Child [simp]: "hdr (Child n own f x) = hdr x" and hdr_Prune [simp]: "hdr (PruneChildren k x) = hdr x"
  by (simp_all add: Child_def PruneChildren_def)

lemma find_upd_first:
  assumes "\<And>s. P s \<Longrightarrow> P (f s)" "P new"
  shows "find P (upd_first P new f xs) = Some (f (case find P xs of Some s \<Rightarrow> s | None \<Rightarrow> new))"
  using assms by (induction xs) auto

lemma find_upd_first_other:
  assumes "\<And>s. P s \<Longrightarrow> \<not> Q s \<and> \<not> Q (f s)" "P new"
  shows "find Q (upd_first P new f xs) = find Q xs"
  using assms by (induction xs) auto

lemma find_filter: "find P (filter Q xs) = find (\<lambda>x. P x \<and> Q x) xs"
  by (induction xs) auto

lemma Find_Child:
  assumes "\<And>s. kid_name (f s) = kid_name s"
  shows "Find n (Child name own f x) =
    (if n = name then Some (f (case Find n x of Some s \<Rightarrow> s | None \<Rightarrow> stage_of name own AppStageStatePending Map.empty))
     else Find n x)"
proof (cases "n = name")
  case True
  then show ?thesis using assms by (simp add: Find_def Child_def find_upd_first)
next
  case False
  have "find (\<lambda>s. kid_name s = n) (upd_first (\<lambda>s. kid_name s = name)
      (stage_of name own AppStageStatePending Map.empty) f (kids x)) = find (\<lambda>s. kid_name s = n) (kids x)"
    by (rule find_upd_first_other) (use assms False in auto)
  then show ?thesis using False by (simp add: Find_def Child_def)
qed

lemma Find_Prune: "Find n (PruneChildren keep x) = (if keep n then Find n x else None)"
  by (auto simp: Find_def PruneChildren_def find_filter find_None_iff intro!: find_cong)

text \<open>
  A sink for reports that carry a name: a report that is not fresh is ignored, a fresh one sets the
  entry of its name and no other. Then, after any list of reports, the entry of a name is that of the
  last fresh report with this name, or the old one.
\<close>

locale report_sink =
  fixes look :: "'x \<Rightarrow> string \<Rightarrow> 'v option"
    and put :: "'x \<Rightarrow> 'r \<Rightarrow> 'x"
    and rname :: "'r \<Rightarrow> string"
    and fresh :: "'r \<Rightarrow> bool"
    and val :: "'r \<Rightarrow> 'v option \<Rightarrow> 'v"
  assumes put_stale: "\<not> fresh r \<Longrightarrow> put x r = x"
    and put_fresh: "fresh r \<Longrightarrow> look (put x r) n = (if n = rname r then Some (val r (look x n)) else look x n)"
begin

lemma put_all_none:
  "find (\<lambda>r. fresh r \<and> rname r = n) (rev rs) = None \<Longrightarrow> look (foldl put x rs) n = look x n"
proof (induction rs arbitrary: x)
  case (Cons r rs)
  then have "\<not> (fresh r \<and> rname r = n)" "find (\<lambda>r. fresh r \<and> rname r = n) (rev rs) = None"
    by (auto simp: find_None_iff)
  then show ?case using Cons.IH [of "put x r"] put_stale [of r x] put_fresh [of r x n] by (cases "fresh r") auto
qed simp

lemma put_all_last:
  "find (\<lambda>r. fresh r \<and> rname r = n) (rev rs) = Some r \<Longrightarrow> \<exists>old. look (foldl put x rs) n = Some (val r old)"
proof (induction rs rule: rev_induct)
  case (snoc q rs)
  then show ?case using put_stale [of q] put_fresh [of q] by (cases "fresh q") (auto split: if_splits)
qed simp

end

definition fresh_report :: "nat \<Rightarrow> stage_hdr \<Rightarrow> bool" where
  "fresh_report cur s \<longleftrightarrow> st_name s \<noteq> '''' \<and> \<not> report_stale cur s"

lemma kid_name_copy [simp]: "kid_name (copy_report s k) = kid_name k"
  by (simp add: copy_report_def)

interpretation reports: report_sink "\<lambda>x n. Find n x" "apply_report owner_of cur" st_name "fresh_report cur"
  "\<lambda>r old. copy_report r (case old of Some s \<Rightarrow> s | None \<Rightarrow> stage_of (st_name r) (owner_of r) AppStageStatePending Map.empty)"
  for owner_of cur
  by unfold_locales (auto simp: apply_report_def fresh_report_def Find_Child)

section \<open>Properties\<close>

lemma merge_hdr [simp]: "hdr (merge_reports dropn owner_of cur rs x) = hdr x"
proof -
  have "hdr (foldl (apply_report owner_of cur) y rs) = hdr y" for y
    by (induction rs arbitrary: y) (simp_all add: apply_report_def)
  then show ?thesis by (simp add: merge_reports_def)
qed

text \<open>What a merge of reports leaves under each name, for any set of names it replaces.\<close>

lemma merge_reports_find:
  "Find n (merge_reports dropn owner_of cur rs x) =
     (case find (\<lambda>r. fresh_report cur r \<and> st_name r = n) (rev rs) of
        None \<Rightarrow> if dropn n then None else Find n x
      | Some r \<Rightarrow> Find n (merge_reports dropn owner_of cur rs x))"
  using reports.put_all_none [of cur n rs owner_of "PruneChildren (\<lambda>n. \<not> dropn n) x"]
  by (auto simp: merge_reports_def Find_Prune split: option.split)

lemma merge_reports_last:
  assumes "find (\<lambda>r. fresh_report cur r \<and> st_name r = n) (rev rs) = Some r"
  shows "\<exists>s. Find n (merge_reports dropn owner_of cur rs x) = Some s \<and> st_state (hdr s) = st_state r \<and>
    st_attempt (hdr s) = st_attempt r \<and> st_created (hdr s) = st_created r \<and> st_finished (hdr s) = st_finished r \<and>
    st_message (hdr s) = st_message r \<and> st_revision (hdr s) = st_revision r"
  using reports.put_all_last [OF assms, of owner_of "PruneChildren (\<lambda>n. \<not> dropn n) x"]
  by (auto simp: merge_reports_def copy_report_def)

definition replica_node :: "nat \<Rightarrow> stage \<Rightarrow> stage option" where
  "replica_node repId root = find (is_replica (show_nat repId)) (kids root)"

lemma replica_node_ReplicaStage:
  assumes "\<And>s. hdr (f s) = hdr s"
  shows "replica_node i (ReplicaStage j f root) =
    (if i = j then Some (f (case replica_node i root of Some s \<Rightarrow> s
        | None \<Rightarrow> stage_of ''replica'' AppStageOwnerZonelet AppStageStatePending [''rep_id'' \<mapsto> show_nat i]))
     else replica_node i root)"
proof (cases "i = j")
  case True
  show ?thesis unfolding True using assms
    by (simp add: replica_node_def ReplicaStage_def Let_def, subst find_upd_first) (simp_all add: is_replica_def)
next
  case False
  have "find (is_replica (show_nat i)) (upd_first (is_replica (show_nat j))
      (stage_of ''replica'' AppStageOwnerZonelet AppStageStatePending [''rep_id'' \<mapsto> show_nat j]) f (kids root))
    = find (is_replica (show_nat i)) (kids root)"
    by (rule find_upd_first_other) (use assms False in \<open>auto simp: is_replica_def\<close>)
  then show ?thesis using False by (simp add: replica_node_def ReplicaStage_def Let_def)
qed


definition demo_report :: "stage_hdr list" where
  "demo_report =
     [\<lparr>st_name = ''image_pull'', st_owner = ''hostlet'', st_revision = 2, st_state = ''failed'', st_attempt = 0,
       st_attrs = Map.empty, st_message = ''old'', st_created = 1, st_finished = 2\<rparr>,
      \<lparr>st_name = ''host_recv'', st_owner = ''hostlet'', st_revision = 3, st_state = ''success'', st_attempt = 0,
       st_attrs = Map.empty, st_message = '''', st_created = 5, st_finished = 6\<rparr>]"

definition demo_root :: stage where
  "demo_root = ReplicaStage 4 (Child ''image_pull'' ''hostlet'' id \<circ> Child ''schedule'' ''zonelet'' id)
     (stage_of ''deploy'' ''zonelet'' '''' Map.empty)"


text \<open>Every node of a stage tree carries a revision.\<close>

fun all_rev :: "nat \<Rightarrow> stage \<Rightarrow> bool" where
  "all_rev r (Stage h ss) \<longleftrightarrow> st_revision h = r \<and> list_all (all_rev r) ss"

lemma all_rev_SetRevisionDeep: "all_rev r (SetRevisionDeep r s)"
  by (induction s rule: SetRevisionDeep.induct) (simp add: list_all_iff)

lemma SetRevisionDeep_sel [simp]:
  "hdr (SetRevisionDeep r s) = (hdr s)\<lparr>st_revision := r\<rparr>" "kids (SetRevisionDeep r s) = map (SetRevisionDeep r) (kids s)"
  by (cases s; simp)+

lemma SetRunning_hdr:
  "st_name (hdr (SetRunning now msg s)) = st_name (hdr s)" "st_revision (hdr (SetRunning now msg s)) = st_revision (hdr s)"
  "st_state (hdr (SetRunning now msg s)) = AppStageStateRunning" "kids (SetRunning now msg s) = kids s"
  by (auto simp: SetRunning_def Let_def set_msg_def set_created_def)

text \<open>
  C34: a reconcile happens exactly when the stage root is behind the deploy revision. It then leaves the
  whole tree stamped with the deploy revision and the root running, drops exactly the relayed stages
  of the replica nodes and no other stage, and a second reconcile does nothing.
\<close>

theorem reconcile_correct:
  "(snd (appDeployStagesReconcile now d) \<longleftrightarrow> st_revision (hdr (StagesRoot d)) < ad_revision d) \<and>
   (snd (appDeployStagesReconcile now d) \<longrightarrow>
      (let d' = fst (appDeployStagesReconcile now d); root = StagesRoot d; root' = StagesRoot d' in
       all_rev (ad_revision d) root' \<and> st_state (hdr root') = AppStageStateRunning \<and>
       length (kids root') = length (kids root) \<and>
       (\<forall>i < length (kids root). kid_name (kids root' ! i) = kid_name (kids root ! i) \<and>
          map kid_name (kids (kids root' ! i)) =
            filter (\<lambda>n. kid_name (kids root ! i) \<noteq> ''replica'' \<or> \<not> relayed n) (map kid_name (kids (kids root ! i)))) \<and>
       appDeployStagesReconcile now' d' = (d', False)))"
proof (cases "ad_revision d \<le> st_revision (hdr (StagesRoot d))")
  case True
  then show ?thesis by (simp add: appDeployStagesReconcile_def Let_def)
next
  case False
  define r1 where "r1 = Stage (hdr (SetRunning now '''' (StagesRoot d)))
      (map (\<lambda>s. if kid_name s = ''replica'' then prune_relayed s else s) (kids (SetRunning now '''' (StagesRoot d))))"
  define d' where "d' = d\<lparr>ad_stages := Some (SetRevisionDeep (ad_revision d) r1)\<rparr>"
  have rec: "appDeployStagesReconcile now d = (d', True)"
    using False by (simp add: appDeployStagesReconcile_def Let_def r1_def d'_def)
  have root': "StagesRoot d' = SetRevisionDeep (ad_revision d) r1" by (simp add: d'_def StagesRoot_def)
  have "map kid_name (kids (kids (StagesRoot d') ! i)) =
      filter (\<lambda>n. kid_name (kids (StagesRoot d) ! i) \<noteq> ''replica'' \<or> \<not> relayed n) (map kid_name (kids (kids (StagesRoot d) ! i)))"
    if "i < length (kids (StagesRoot d))" for i
    using that by (simp add: root' r1_def SetRunning_hdr prune_relayed_def PruneChildren_def filter_map comp_def)
  moreover have "appDeployStagesReconcile now' d' = (d', False)"
    by (simp add: appDeployStagesReconcile_def root' Let_def) (simp add: d'_def)
  moreover have "all_rev (ad_revision d) (StagesRoot d')" by (simp only: root' all_rev_SetRevisionDeep)
  moreover have "st_state (hdr (StagesRoot d')) = AppStageStateRunning \<and> length (kids (StagesRoot d')) = length (kids (StagesRoot d)) \<and>
      (\<forall>i < length (kids (StagesRoot d)). kid_name (kids (StagesRoot d') ! i) = kid_name (kids (StagesRoot d) ! i))"
    by (auto simp: root' r1_def SetRunning_hdr prune_relayed_def)
  ultimately show ?thesis using False unfolding rec fst_conv snd_conv Let_def by auto
qed

theorem reconcile_correct_witness:
  "let d = \<lparr>ad_revision = 2, ad_stages = Some demo_root\<rparr>; d' = fst (appDeployStagesReconcile 9 d) in
     all_rev 2 (StagesRoot d') \<and> appDeployStagesReconcile 10 d' = (d', False)"
  using reconcile_correct [of 9 "\<lparr>ad_revision = 2, ad_stages = Some demo_root\<rparr>" 10]
  by (simp add: StagesRoot_def demo_root_def ReplicaStage_def Let_def)

section \<open>Stage life cycle\<close>

text \<open>The transitions of one stage, with the clock readings they take.\<close>

datatype stage_ev = EvRunning int string | EvSuccess int int string | EvFailed int int string

fun apply_ev :: "stage_ev \<Rightarrow> stage \<Rightarrow> stage" where
  "apply_ev (EvRunning t msg) = SetRunning t msg"
| "apply_ev (EvSuccess t1 t2 msg) = SetSuccess t1 t2 msg"
| "apply_ev (EvFailed t1 t2 msg) = SetFailed t1 t2 msg"

fun ev_times :: "stage_ev \<Rightarrow> int list" where
  "ev_times (EvRunning t _) = [t]"
| "ev_times (EvSuccess t1 t2 _) = [t1, t2]"
| "ev_times (EvFailed t1 t2 _) = [t1, t2]"

fun ev_state :: "stage_ev \<Rightarrow> string" where
  "ev_state (EvRunning _ _) = AppStageStateRunning"
| "ev_state (EvSuccess _ _ _) = AppStageStateSuccess"
| "ev_state (EvFailed _ _ _) = AppStageStateFailed"

text \<open>The retries in a sequence: the runs that follow a failure.\<close>

fun retries :: "string \<Rightarrow> stage_ev list \<Rightarrow> nat" where
  "retries st [] = 0"
| "retries st (e # es) =
     (if st = AppStageStateFailed \<and> ev_state e = AppStageStateRunning then 1 else 0) + retries (ev_state e) es"

definition life_inv :: "int \<Rightarrow> stage \<Rightarrow> bool" where
  "life_inv t s \<longleftrightarrow> 0 \<le> st_created (hdr s) \<and> st_created (hdr s) \<le> t \<and>
     (st_state (hdr s) = AppStageStateRunning \<longrightarrow> st_finished (hdr s) = 0 \<and> 0 < st_created (hdr s)) \<and>
     (st_state (hdr s) \<in> {AppStageStateSuccess, AppStageStateFailed} \<longrightarrow>
        0 < st_created (hdr s) \<and> st_created (hdr s) \<le> st_finished (hdr s) \<and> st_finished (hdr s) \<le> t)"

lemmas stage_ev_defs = SetRunning_def SetSuccess_def SetFailed_def set_msg_def set_created_def Let_def

lemma apply_ev_state [simp]: "st_state (hdr (apply_ev e s)) = ev_state e"
  by (cases e) (auto simp: stage_ev_defs)

lemma apply_ev_life:
  assumes "life_inv t s" "0 < t" "sorted (t # ev_times e)"
  shows "life_inv (last (t # ev_times e)) (apply_ev e s)"
  using assms by (cases e) (auto simp: life_inv_def stage_ev_defs stage_states)

lemma apply_ev_attempt:
  "in_i64 (st_attempt (hdr s) + 1) \<Longrightarrow> st_attempt (hdr (apply_ev e s)) =
     st_attempt (hdr s) + (if st_state (hdr s) = AppStageStateFailed \<and> ev_state e = AppStageStateRunning then 1 else 0)"
  by (cases e) (auto simp: stage_ev_defs stage_states)

lemma retries_le: "retries st es \<le> length es"
  by (induction es arbitrary: st) (auto simp: le_SucI)

lemma life_run:
  assumes "life_inv t s" "0 < t" "sorted (t # concat (map ev_times es))" "0 \<le> st_attempt (hdr s)"
    "st_attempt (hdr s) + int (length es) < 2 ^ 62"
  shows "\<exists>t'. life_inv t' (fold apply_ev es s) \<and>
    st_attempt (hdr (fold apply_ev es s)) = st_attempt (hdr s) + int (retries (st_state (hdr s)) es)"
  using assms
proof (induction es arbitrary: t s)
  case (Cons e es)
  let ?s = "apply_ev e s" let ?t = "last (t # ev_times e)"
  have att: "st_attempt (hdr ?s) = st_attempt (hdr s) +
      (if st_state (hdr s) = AppStageStateFailed \<and> ev_state e = AppStageStateRunning then 1 else 0)"
    using Cons.prems by (intro apply_ev_attempt) (simp add: in_i64_def)
  have bound: "0 \<le> st_attempt (hdr ?s)" "st_attempt (hdr ?s) + int (length es) < 2 ^ 62"
    using Cons.prems(4,5) att by (auto split: if_splits)
  have srt: "sorted (t # ev_times e)" "sorted (?t # concat (map ev_times es))" "0 < ?t"
    using Cons.prems by (cases e; auto)+
  obtain t' where "life_inv t' (fold apply_ev es ?s)"
      "st_attempt (hdr (fold apply_ev es ?s)) = st_attempt (hdr ?s) + int (retries (st_state (hdr ?s)) es)"
    using Cons.IH [OF apply_ev_life [OF Cons.prems(1,2) srt(1)] srt(3,2) bound] by blast
  then show ?case using att by auto
qed auto

text \<open>
  Over any sequence of transitions of a new stage with a clock that does not run backwards, the
  attempt counter is the number of runs that followed a failure; a running stage has no finish time,
  and a finished one has a finish time not before its creation time.
\<close>

theorem stage_life_cycle:
  assumes "s = stage_of name own AppStageStatePending attrs" "sorted (concat (map ev_times es))"
    "\<forall>t \<in> set (concat (map ev_times es)). 0 < t" "length es < 2 ^ 62"
  shows "let s' = fold apply_ev es s in
    st_attempt (hdr s') = int (retries AppStageStatePending es) \<and>
    (st_state (hdr s') = AppStageStateRunning \<longrightarrow> st_finished (hdr s') = 0) \<and>
    (st_state (hdr s') \<in> {AppStageStateSuccess, AppStageStateFailed} \<longrightarrow>
      0 < st_created (hdr s') \<and> st_created (hdr s') \<le> st_finished (hdr s'))"
proof (cases es)
  case Nil
  then show ?thesis using assms(1) by (simp add: stage_of_def stage_states)
next
  case (Cons e es')
  obtain t ts where t: "concat (map ev_times es) = t # ts" unfolding Cons by (cases e) auto
  then have "0 < t" using assms(3) by simp
  moreover from this have "life_inv t s" using assms(1) by (simp add: life_inv_def stage_of_def stage_states)
  ultimately obtain t' where "life_inv t' (fold apply_ev es s)"
      "st_attempt (hdr (fold apply_ev es s)) = st_attempt (hdr s) + int (retries (st_state (hdr s)) es)"
    using life_run [of t s es] assms(1,2,4) t by (auto simp: stage_of_def)
  then show ?thesis using assms(1) by (simp add: life_inv_def Let_def stage_of_def)
qed

theorem stage_life_cycle_witness:
  "st_attempt (hdr (fold apply_ev [EvRunning 5 '''', EvFailed 6 7 ''x'', EvRunning 8 '''']
     (stage_of ''image_pull'' ''hostlet'' AppStageStatePending Map.empty))) = 1"
  using stage_life_cycle [of _ "''image_pull''" "''hostlet''" Map.empty "[EvRunning 5 '''', EvFailed 6 7 ''x'', EvRunning 8 '''']"]
  by (simp add: Let_def stage_states)

section \<open>Names round trip\<close>

lemma underscore_not_digit: "\<not> is_digit CHR ''_''" "\<not> is_digit CHR ''/''"
  by (simp_all add: is_digit_def)

text \<open>
  A container name built from a non-empty instance name without underscores and a 32-bit replica id
  parses back to them, and so does a stage key; whatever \<open>ParseContainerName\<close> accepts has that form
  up to leading zeros of the id.
\<close>

theorem container_name_roundtrip:
  assumes "name \<noteq> ''''" "CHR ''_'' \<notin> set name" "rep < 2 ^ 32"
  shows "ParseContainerName (ContainerName name rep) = Some (name, rep) \<and>
    ParseReplicaStageKey (ReplicaStageKey name rep) = Some (name, rep) \<and>
    (\<forall>c. ParseContainerName c = Some (name, rep) \<longrightarrow>
       (\<exists>digits. c = ''i8k_'' @ name @ ''_'' @ digits \<and> list_all is_digit digits \<and> read_nat digits = rep))"
proof -
  have "split_last CHR ''_'' ((''i8k_'' @ name) @ CHR ''_'' # show_nat rep) = Some (''i8k_'' @ name, show_nat rep)"
    by (intro split_last_append show_nat_no_sep underscore_not_digit)
  then have "ParseContainerName (ContainerName name rep) = Some (name, rep)"
    using assms parse_uint_show_nat [of rep 32]
    by (simp add: ParseContainerName_def ContainerName_def has_prefix_def)
  moreover have "split_last CHR ''/'' (name @ CHR ''/'' # show_nat rep) = Some (name, show_nat rep)"
    by (intro split_last_append show_nat_no_sep underscore_not_digit)
  then have "ParseReplicaStageKey (ReplicaStageKey name rep) = Some (name, rep)"
    using assms(3) parse_uint_show_nat [of rep 32] by (simp add: ParseReplicaStageKey_def ReplicaStageKey_def)
  moreover have "\<exists>digits. c = ''i8k_'' @ name @ ''_'' @ digits \<and> list_all is_digit digits \<and> read_nat digits = rep"
    if c: "ParseContainerName c = Some (name, rep)" for c
  proof -
    obtain pre suf where sp: "split_last CHR ''_'' c = Some (pre, suf)" and ge: "4 \<le> length pre"
      and nm: "drop 4 pre = name" and pu: "parse_uint 32 suf = Some rep" and pf: "take 4 c = ''i8k_''"
      using c by (auto simp: ParseContainerName_def has_prefix_def Let_def eval_nat_numeral split: if_splits option.splits)
    have cs: "c = pre @ CHR ''_'' # suf" using split_last_Some [OF sp] by simp
    then have "pre = ''i8k_'' @ name" using nm pf ge by (metis append_take_drop_id take_append diff_is_0_eq take0 append_Nil2)
    then show ?thesis using cs pu by (auto simp: parse_uint_def Let_def split: if_splits)
  qed
  ultimately show ?thesis by blast
qed

theorem container_name_roundtrip_witness: "ParseContainerName ''i8k_my-db_12'' = Some (''my-db'', 12)"
proof -
  have "ContainerName ''my-db'' 12 = ''i8k_my-db_12''" by code_simp
  then show ?thesis using container_name_roundtrip [of "''my-db''" 12] by simp
qed

text \<open>The legacy field is always cleared, the pair is both set or both empty, and a second run changes nothing.\<close>

lemma normLegacyPair_idem:
  assumes "normLegacyPair mn mx legacy = (mn', mx', l')"
  shows "l' = '''' \<and> (mn' = '''' \<longleftrightarrow> mx' = '''') \<and> normLegacyPair mn' mx' l' = (mn', mx', l')"
  using assms by (auto simp: normLegacyPair_def split: if_splits)

end
