(* ===== verification/Workflow.thy ===== *)
theory Workflow
  imports Prelude
begin

text \<open>
  The state machine of a replica: \<open>AppStateWorkflow\<close> of \<open>internal/stateflow/stateflow.go\<close> and the
  transitions \<open>taskContainerInit\<close> registers in it (\<open>internal/hostlet/task_container.go\<close>). A command
  is named by the function it stands for.
\<close>

definition OpStateEmpty :: string where "OpStateEmpty = ''''"
definition OpStateStarting :: string where "OpStateStarting = ''starting''"
definition OpStateRunning :: string where "OpStateRunning = ''running''"
definition OpStateStopping :: string where "OpStateStopping = ''stopping''"
definition OpStateStopped :: string where "OpStateStopped = ''stopped''"
definition OpStateDestroying :: string where "OpStateDestroying = ''destroying''"
definition OpStateDestroyed :: string where "OpStateDestroyed = ''destroyed''"
definition OpStateFailed :: string where "OpStateFailed = ''failed''"
definition OpActionStart :: string where "OpActionStart = ''start''"
definition OpActionStop :: string where "OpActionStop = ''stop''"
definition OpActionDestroy :: string where "OpActionDestroy = ''destroy''"
definition OpActionDelete :: string where "OpActionDelete = ''delete''"
definition OpEventSuccess :: string where "OpEventSuccess = ''success''"
definition OpEventFail :: string where "OpEventFail = ''fail''"

lemmas op_consts = OpStateEmpty_def OpStateStarting_def OpStateRunning_def OpStateStopping_def OpStateStopped_def
  OpStateDestroying_def OpStateDestroyed_def OpStateFailed_def OpActionStart_def OpActionStop_def
  OpActionDestroy_def OpActionDelete_def OpEventSuccess_def OpEventFail_def

datatype app_command = CmdStarting | CmdStopping | CmdDestroying

record app_state_entry =
  ase_state :: string
  ase_command :: "app_command option"

type_synonym transitions = "string \<rightharpoonup> (string \<rightharpoonup> app_state_entry)"

definition NextCommand :: "transitions \<Rightarrow> string \<Rightarrow> string \<Rightarrow> app_state_entry option" where
  "NextCommand tr state event = (case tr state of None \<Rightarrow> None | Some m \<Rightarrow> m event)"

definition Register :: "string \<times> string \<times> string \<times> app_command option \<Rightarrow> transitions \<Rightarrow> transitions" where
  "Register r tr =
     (case r of (cur, event, nxt, cmd) \<Rightarrow>
       (let m = (case tr cur of None \<Rightarrow> Map.empty | Some m \<Rightarrow> m)
        in tr(cur \<mapsto> m(event \<mapsto> \<lparr>ase_state = nxt, ase_command = cmd\<rparr>))))"

definition registrations :: "(string \<times> string \<times> string \<times> app_command option) list" where
  "registrations =
     [(OpStateEmpty, OpActionStart, OpStateStarting, Some CmdStarting),
      (OpStateStopped, OpActionStart, OpStateStarting, Some CmdStarting),
      (OpStateFailed, OpActionStart, OpStateStarting, Some CmdStarting),
      (OpStateStarting, OpActionStart, OpStateStarting, Some CmdStarting),
      (OpStateRunning, OpActionStart, OpStateRunning, None),
      (OpStateRunning, OpActionStop, OpStateStopping, Some CmdStopping),
      (OpStateStarting, OpActionStop, OpStateStopping, Some CmdStopping),
      (OpStateStopped, OpActionStop, OpStateStopped, None),
      (OpStateEmpty, OpActionStop, OpStateStopped, None),
      (OpStateRunning, OpActionDestroy, OpStateDestroying, Some CmdDestroying),
      (OpStateStopped, OpActionDestroy, OpStateDestroying, Some CmdDestroying),
      (OpStateStopping, OpActionDestroy, OpStateDestroying, Some CmdDestroying),
      (OpStateFailed, OpActionDestroy, OpStateDestroying, Some CmdDestroying),
      (OpStateDestroyed, OpActionDestroy, OpStateDestroyed, None),
      (OpStateStarting, OpEventSuccess, OpStateRunning, None),
      (OpStateStopping, OpEventSuccess, OpStateStopped, None),
      (OpStateDestroying, OpEventSuccess, OpStateDestroyed, None),
      (OpStateStarting, OpEventFail, OpStateFailed, None),
      (OpStateStopping, OpEventFail, OpStateFailed, None),
      (OpStateDestroying, OpEventFail, OpStateFailed, None)]"

definition AppWorkflow :: transitions where
  "AppWorkflow = fold Register registrations Map.empty"

section \<open>Registration and lookup\<close>

lemma NextCommand_Register:
  "NextCommand (Register (cur, ev, nxt, cmd) tr) s e =
     (if s = cur \<and> e = ev then Some \<lparr>ase_state = nxt, ase_command = cmd\<rparr> else NextCommand tr s e)"
  by (auto simp: NextCommand_def Register_def split: option.splits)

lemma NextCommand_empty [simp]: "NextCommand Map.empty s e = None"
  by (simp add: NextCommand_def)

fun tr_key :: "string \<times> string \<times> string \<times> app_command option \<Rightarrow> string \<times> string" where
  "tr_key (cur, ev, nxt, cmd) = (cur, ev)"

text \<open>A lookup in a workflow that was filled from a list finds the last entry of its pair.\<close>

lemma NextCommand_fold:
  "NextCommand (fold Register rs tr) s e =
     (case find (\<lambda>y. tr_key y = (s, e)) (rev rs) of
        Some (_, _, nxt, cmd) \<Rightarrow> Some \<lparr>ase_state = nxt, ase_command = cmd\<rparr>
      | None \<Rightarrow> NextCommand tr s e)"
proof (induction rs rule: rev_induct)
  case (snoc r rs)
  obtain cur ev nxt cmd where "r = (cur, ev, nxt, cmd)" by (cases r) auto
  then show ?case using snoc by (auto simp: NextCommand_Register)
qed simp

lemma registrations_distinct: "distinct (map tr_key registrations)"
  by (simp add: registrations_def op_consts)

lemma find_distinct_key:
  assumes "distinct (map key xs)" "x \<in> set xs"
  shows "find (\<lambda>y. key y = key x) xs = Some x"
  using assms by (induction xs) (auto simp: image_iff)

text \<open>The workflow holds exactly the registered transitions.\<close>

lemma AppWorkflow_iff:
  "NextCommand AppWorkflow s e = Some c \<longleftrightarrow> (s, e, ase_state c, ase_command c) \<in> set registrations"
proof -
  have d: "distinct (map tr_key (rev registrations))"
    using registrations_distinct by (simp add: rev_map [symmetric])
  show ?thesis
  proof (cases "find (\<lambda>y. tr_key y = (s, e)) (rev registrations)")
    case None
    then have "\<forall>y \<in> set registrations. tr_key y \<noteq> (s, e)" by (auto simp: find_None_iff)
    then show ?thesis using None by (auto simp: AppWorkflow_def NextCommand_fold)
  next
    case (Some r)
    then have r: "r \<in> set registrations" "tr_key r = (s, e)" using find_SomeD [OF Some] by auto
    from r(2) obtain nxt cmd where eq: "r = (s, e, nxt, cmd)" by (cases r rule: tr_key.cases) auto
    have next_cmd: "NextCommand AppWorkflow s e = Some \<lparr>ase_state = nxt, ase_command = cmd\<rparr>"
      using Some eq by (simp add: AppWorkflow_def NextCommand_fold)
    have uniq: "q = r" if "q \<in> set registrations" "tr_key q = (s, e)" for q
      using find_distinct_key [OF d, of q] that Some by simp
    show ?thesis
    proof
      assume "NextCommand AppWorkflow s e = Some c"
      then show "(s, e, ase_state c, ase_command c) \<in> set registrations" using next_cmd r(1) eq by auto
    next
      assume "(s, e, ase_state c, ase_command c) \<in> set registrations"
      from uniq [OF this] eq show "NextCommand AppWorkflow s e = Some c" by (simp add: next_cmd)
    qed
  qed
qed

inductive wf_step :: "string \<Rightarrow> string \<Rightarrow> string \<Rightarrow> bool" where
  "NextCommand AppWorkflow s e = Some c \<Longrightarrow> wf_step s e (ase_state c)"

lemma wf_step_iff: "wf_step s e t \<longleftrightarrow> (\<exists>cmd. (s, e, t, cmd) \<in> set registrations)"
proof
  assume "wf_step s e t" then show "\<exists>cmd. (s, e, t, cmd) \<in> set registrations"
    by (cases rule: wf_step.cases) (auto simp: AppWorkflow_iff)
next
  assume "\<exists>cmd. (s, e, t, cmd) \<in> set registrations"
  then obtain cmd where "NextCommand AppWorkflow s e = Some \<lparr>ase_state = t, ase_command = cmd\<rparr>"
    by (auto simp: AppWorkflow_iff)
  then show "wf_step s e t" using wf_step.intros by fastforce
qed

section \<open>Property\<close>

text \<open>
  The workflow answers exactly the registered pairs. A command is run only towards its
  transient state, the events resolve a transient state to its stable state or to failed, an action
  with no command is one whose target holds already, and there is no transition for a stop of a
  failed replica, a destroy of a starting one or a start of a stopping or destroyed one.
\<close>

theorem workflow_transitions:
  "(\<forall>s e c. NextCommand AppWorkflow s e = Some c \<longleftrightarrow> (s, e, ase_state c, ase_command c) \<in> set registrations) \<and>
   (\<forall>s e c cmd. NextCommand AppWorkflow s e = Some c \<and> ase_command c = Some cmd \<longrightarrow>
      (cmd, e, ase_state c) \<in> {(CmdStarting, OpActionStart, OpStateStarting), (CmdStopping, OpActionStop, OpStateStopping),
        (CmdDestroying, OpActionDestroy, OpStateDestroying)}) \<and>
   (\<forall>s c. NextCommand AppWorkflow s OpEventSuccess = Some c \<longrightarrow>
      (s, ase_state c) \<in> {(OpStateStarting, OpStateRunning), (OpStateStopping, OpStateStopped), (OpStateDestroying, OpStateDestroyed)}) \<and>
   (\<forall>s. s \<in> {OpStateStarting, OpStateStopping, OpStateDestroying} \<longrightarrow>
      (\<exists>c. NextCommand AppWorkflow s OpEventFail = Some c \<and> ase_state c = OpStateFailed)) \<and>
   NextCommand AppWorkflow OpStateFailed OpActionStop = None \<and>
   NextCommand AppWorkflow OpStateStarting OpActionDestroy = None \<and>
   NextCommand AppWorkflow OpStateStopping OpActionStart = None \<and>
   NextCommand AppWorkflow OpStateDestroyed OpActionStart = None"
proof (intro conjI allI impI)
  fix s e c show "NextCommand AppWorkflow s e = Some c \<longleftrightarrow> (s, e, ase_state c, ase_command c) \<in> set registrations"
    by (rule AppWorkflow_iff)
next
  fix s e c cmd assume "NextCommand AppWorkflow s e = Some c \<and> ase_command c = Some cmd"
  then show "(cmd, e, ase_state c) \<in> {(CmdStarting, OpActionStart, OpStateStarting),
      (CmdStopping, OpActionStop, OpStateStopping), (CmdDestroying, OpActionDestroy, OpStateDestroying)}"
    by (auto simp: AppWorkflow_iff registrations_def)
next
  fix s c assume "NextCommand AppWorkflow s OpEventSuccess = Some c"
  then show "(s, ase_state c) \<in> {(OpStateStarting, OpStateRunning), (OpStateStopping, OpStateStopped),
      (OpStateDestroying, OpStateDestroyed)}"
    by (auto simp: AppWorkflow_iff registrations_def op_consts)
next
  fix s assume "s \<in> {OpStateStarting, OpStateStopping, OpStateDestroying}"
  then have "(s, OpEventFail, OpStateFailed, None) \<in> set registrations" by (auto simp: registrations_def)
  then have "NextCommand AppWorkflow s OpEventFail = Some \<lparr>ase_state = OpStateFailed, ase_command = None\<rparr>"
    by (simp add: AppWorkflow_iff)
  then show "\<exists>c. NextCommand AppWorkflow s OpEventFail = Some c \<and> ase_state c = OpStateFailed" by simp
qed (simp_all add: AppWorkflow_def registrations_def NextCommand_Register op_consts)

theorem workflow_transitions_witness:
  "NextCommand AppWorkflow OpStateEmpty OpActionStart = Some \<lparr>ase_state = OpStateStarting, ase_command = Some CmdStarting\<rparr>"
  using workflow_transitions by (simp add: registrations_def)

end
