(* ===== verification/Container.thy ===== *)
theory Container
  imports Workflow Stage Float64
begin

text \<open>
  The container loop of a host, \<open>internal/hostlet/task_container.go\<close>, with the host state of
  \<open>internal/hostlet/hoststatus/hoststatus.go\<close>. What the code does outside its own memory (the
  container engine, the file system, the package store) is a sequence of effects: every call is
  appended to a log, and its reply is a function of the log so far and of the call, which is an
  argument of the model. The state \<open>hostlet\<close> holds the global maps of \<open>hoststatus\<close>; Go map and
  \<open>sync.Map\<close> iteration orders are arguments. The Linux branch is the one modelled, and the stage clock
  is read once per tick.
\<close>

section \<open>State\<close>

record ctr_info =
  ci_state :: string
  ci_image :: string
  ci_cpu :: int
  ci_mem :: int
  ci_ports :: "int \<rightharpoonup> int"
  ci_ip :: string
  ci_binds :: "string list"
  ci_inspected :: int
  ci_restarts :: int
  ci_restart_check :: int

record service_port =
  sp_port :: int
  sp_host_port :: int

record replica =
  rp_id :: nat
  rp_host_id :: string
  rp_state :: string
  rp_vpc_ipv4 :: string
  rp_ports :: "service_port list"

record app_inst =
  ap_id :: string
  ap_name :: string
  ap_action :: string
  ap_revision :: nat
  ap_has_resources :: bool
  ap_image :: string
  ap_cpu_limit :: int
  ap_mem_limit :: int
  ap_spec_ports :: "int list"
  ap_replicas :: "replica list"

record create_opts =
  co_name :: string
  co_image :: string
  co_restart_policy :: string
  co_cpu :: int
  co_mem :: int
  co_ip :: string
  co_ports :: "(int \<times> int) list"

datatype effect =
    EStop string | EStart string | ERemove string | EPolicy string string | EInspect string
  | EImagePull string | EImageList | EPackages string | EProvision string | ECreate create_opts
  | EArchive string | EQuota string | ESave | ESyncFile string | EReadRevision string

datatype reply = ROk | RErr string | RInfo ctr_info | RRevision nat | RImages "string list"

type_synonym env = "effect list \<Rightarrow> effect \<Rightarrow> reply"

record hostlet =
  hl_host_id :: string
  hl_ctrs :: "string \<rightharpoonup> ctr_info"
  hl_images :: "string list"
  hl_applied :: "string \<rightharpoonup> nat"
  hl_deleted :: "string \<rightharpoonup> int"
  hl_orphans :: "string \<rightharpoonup> int"
  hl_des_names :: "string list"
  hl_des_at :: int
  hl_des_ok :: bool
  hl_stages :: "string \<rightharpoonup> replica_stage_entry"
  hl_lxcfs :: bool
  hl_log :: "effect list"

definition eff :: "env \<Rightarrow> effect \<Rightarrow> hostlet \<Rightarrow> hostlet \<times> reply" where
  "eff E e s = (s\<lparr>hl_log := hl_log s @ [e]\<rparr>, E (hl_log s) e)"

fun err_of :: "reply \<Rightarrow> string option" where
  "err_of (RErr e) = Some e"
| "err_of _ = None"

section \<open>HostActiveConfig and the desired snapshot\<close>

definition SetAppliedRevision :: "string \<Rightarrow> nat \<Rightarrow> hostlet \<Rightarrow> hostlet" where
  "SetAppliedRevision name r s = s\<lparr>hl_applied := (hl_applied s)(name \<mapsto> r)\<rparr>"

definition AppInstanceSoftDeleteTTL :: int where
  "AppInstanceSoftDeleteTTL = 7 * 24 * 3600 * 1000"

definition MarkDeleted :: "string \<Rightarrow> int \<Rightarrow> hostlet \<Rightarrow> hostlet" where
  "MarkDeleted instanceId ts s =
     (if instanceId = '''' then s
      else
        let m = (hl_deleted s)(instanceId \<mapsto> ts);
            cutoff = ts - AppInstanceSoftDeleteTTL div 1000 - 24 * 3600
        in s\<lparr>hl_deleted := (if cutoff > 0 then (\<lambda>i. case m i of None \<Rightarrow> None | Some t \<Rightarrow> if t < cutoff then None else Some t) else m)\<rparr>)"

definition DeletedAt :: "hostlet \<Rightarrow> string \<Rightarrow> int option" where
  "DeletedAt s instanceId = hl_deleted s instanceId"

definition MarkOrphan :: "string \<Rightarrow> int \<Rightarrow> hostlet \<Rightarrow> hostlet" where
  "MarkOrphan name ts s =
     (if name = '''' \<or> hl_orphans s name \<noteq> None then s else s\<lparr>hl_orphans := (hl_orphans s)(name \<mapsto> ts)\<rparr>)"

definition ClearOrphan :: "string \<Rightarrow> hostlet \<Rightarrow> hostlet" where
  "ClearOrphan name s = s\<lparr>hl_orphans := (hl_orphans s)(name := None)\<rparr>"

definition DesiredReplace :: "string list \<Rightarrow> int \<Rightarrow> hostlet \<Rightarrow> hostlet" where
  "DesiredReplace names ts s = s\<lparr>hl_des_names := names, hl_des_at := ts, hl_des_ok := True\<rparr>"

definition DesiredSetFailed :: "hostlet \<Rightarrow> hostlet" where
  "DesiredSetFailed s = s\<lparr>hl_des_ok := False\<rparr>"

definition DesiredIsFresh :: "int \<Rightarrow> int \<Rightarrow> hostlet \<Rightarrow> bool" where
  "DesiredIsFresh now staleLimit s \<longleftrightarrow> hl_des_ok s \<and> hl_des_at s > 0 \<and> now - hl_des_at s \<le> staleLimit"

section \<open>Replica stages of the host\<close>

definition stage_entry :: "string \<Rightarrow> nat \<Rightarrow> hostlet \<Rightarrow> replica_stage_entry" where
  "stage_entry name rid s =
     (case hl_stages s (ReplicaStageKey name rid) of Some e \<Rightarrow> e | None \<Rightarrow> new_stage_entry rid)"

definition upd_stage :: "string \<Rightarrow> nat \<Rightarrow> (replica_stage_entry \<Rightarrow> replica_stage_entry) \<Rightarrow> hostlet \<Rightarrow> hostlet" where
  "upd_stage name rid f s =
     s\<lparr>hl_stages := (hl_stages s)(ReplicaStageKey name rid \<mapsto> f (stage_entry name rid s))\<rparr>"

definition stg_run :: "int \<Rightarrow> app_inst \<Rightarrow> replica \<Rightarrow> string \<Rightarrow> string \<Rightarrow> hostlet \<Rightarrow> hostlet" where
  "stg_run ms app rep nm msg = upd_stage (ap_name app) (rp_id rep) (stageName nm (SetRunning ms msg))"

definition stg_ok :: "int \<Rightarrow> app_inst \<Rightarrow> replica \<Rightarrow> string \<Rightarrow> hostlet \<Rightarrow> hostlet" where
  "stg_ok ms app rep nm = upd_stage (ap_name app) (rp_id rep) (stageName nm (SetSuccess ms ms ''''))"

definition stg_fail :: "int \<Rightarrow> app_inst \<Rightarrow> replica \<Rightarrow> string \<Rightarrow> string \<Rightarrow> hostlet \<Rightarrow> hostlet" where
  "stg_fail ms app rep nm msg = upd_stage (ap_name app) (rp_id rep) (stageName nm (SetFailed ms ms msg))"

definition stg_instant :: "int \<Rightarrow> app_inst \<Rightarrow> replica \<Rightarrow> string \<Rightarrow> hostlet \<Rightarrow> hostlet" where
  "stg_instant ms app rep nm = upd_stage (ap_name app) (rp_id rep) (stageName nm (SetInstant ms ''''))"

section \<open>Desired and actual container\<close>

definition ctr_name :: "app_inst \<Rightarrow> replica \<Rightarrow> string" where
  "ctr_name app rep = ContainerName (ap_name app) (rp_id rep)"

definition containerStateSync :: "app_inst \<Rightarrow> replica \<Rightarrow> hostlet \<Rightarrow> replica \<times> string" where
  "containerStateSync app rep s =
     (case hl_ctrs s (ctr_name app rep) of
        None \<Rightarrow> (rep, OpStateEmpty)
      | Some info \<Rightarrow> if ci_state info \<noteq> '''' then (rep\<lparr>rp_state := ci_state info\<rparr>, ci_state info) else (rep, OpStateEmpty))"

definition lxcfsProcEntries :: "string list" where
  "lxcfsProcEntries = [''cpuinfo'', ''diskstats'', ''meminfo'', ''stat'', ''swaps'', ''uptime'', ''slabinfo'']"

text \<open>The second part of \<open>strings.SplitN(bind, ":", 3)\<close>, when there is one.\<close>

definition bind_target :: "string \<Rightarrow> string option" where
  "bind_target bind =
     (case dropWhile (\<lambda>c. c \<noteq> CHR '':'') bind of
        [] \<Rightarrow> None
      | _ # rest \<Rightarrow> Some (takeWhile (\<lambda>c. c \<noteq> CHR '':'') rest))"

definition containerHasLxcfsMounts :: "string list \<Rightarrow> bool" where
  "containerHasLxcfsMounts binds =
     (\<exists>b \<in> set binds. \<exists>e \<in> set lxcfsProcEntries. bind_target b = Some (''/proc/'' @ e))"

text \<open>
  \<open>relDiff(target, current) > 0.01\<close> on \<open>float64\<close>: 0.01 is 5764607523034235 / 2^59 with an odd
  mantissa, so a quotient rounds above it iff it is at least the midpoint to the next value.
\<close>

definition rel_diff_exceeds :: "int \<Rightarrow> int \<Rightarrow> bool" where
  "rel_diff_exceeds tgt cur \<longleftrightarrow>
     tgt > 0 \<and> rnd53 \<bar>i64 (tgt - cur)\<bar> * 2 ^ 60 \<ge> 11529215046068471 * rnd53 tgt"

definition ports_differ :: "service_port list \<Rightarrow> (int \<rightharpoonup> int) \<Rightarrow> bool" where
  "ports_differ ports bound =
     list_ex (\<lambda>sp. \<not> (sp_port sp < 1 \<or> sp_host_port sp < 1) \<and> bound (sp_port sp) \<noteq> Some (sp_host_port sp)) ports"

text \<open>The revision check; it may refresh the cached applied revision from the file on disk.\<close>

definition revision_reset :: "env \<Rightarrow> app_inst \<Rightarrow> replica \<Rightarrow> hostlet \<Rightarrow> hostlet \<times> bool" where
  "revision_reset E app rep s =
     (let name = ctr_name app rep; want = ap_revision app in
      if (case hl_applied s name of None \<Rightarrow> True | Some a \<Rightarrow> want > a) then
        (case eff E (EReadRevision name) s of
           (s1, RRevision d) \<Rightarrow> (SetAppliedRevision name d s1, want > d)
         | (s1, _) \<Rightarrow> (s1, want > (case hl_applied s name of None \<Rightarrow> 0 | Some a \<Rightarrow> a)))
      else (s, False))"

definition refresh_inspect :: "env \<Rightarrow> int \<Rightarrow> string \<Rightarrow> hostlet \<Rightarrow> hostlet" where
  "refresh_inspect E now name s =
     (case hl_ctrs s name of
        None \<Rightarrow> s
      | Some info \<Rightarrow>
          if ci_inspected info + 1800 < now then
            (case eff E (EInspect name) s of
               (s1, RInfo ifo) \<Rightarrow> s1\<lparr>hl_ctrs := (hl_ctrs s1)(name \<mapsto> info\<lparr>ci_cpu := ci_cpu ifo, ci_mem := ci_mem ifo,
                   ci_ports := ci_ports ifo, ci_ip := ci_ip ifo, ci_binds := ci_binds ifo, ci_inspected := now\<rparr>)\<rparr>
             | (s1, _) \<Rightarrow> s1)
          else s)"

definition spec_differs :: "app_inst \<Rightarrow> replica \<Rightarrow> ctr_info \<Rightarrow> bool \<Rightarrow> bool" where
  "spec_differs app rep info lxcfs \<longleftrightarrow>
     (ap_has_resources app \<and> ap_image app \<noteq> '''' \<and> ap_image app \<noteq> ci_image info) \<or>
     rel_diff_exceeds (ap_cpu_limit app) (ci_cpu info) \<or>
     rel_diff_exceeds (ap_mem_limit app) (ci_mem info) \<or>
     ports_differ (rp_ports rep) (ci_ports info) \<or>
     (rp_vpc_ipv4 rep \<noteq> '''' \<and> rp_vpc_ipv4 rep \<noteq> ci_ip info) \<or>
     containerHasLxcfsMounts (ci_binds info) \<noteq> lxcfs"

definition containerSpecReset :: "env \<Rightarrow> int \<Rightarrow> app_inst \<Rightarrow> replica \<Rightarrow> hostlet \<Rightarrow> hostlet \<times> bool" where
  "containerSpecReset E now app rep s =
     (let name = ctr_name app rep in
      if hl_ctrs s name = None then (s, False)
      else case revision_reset E app rep s of
          (s1, True) \<Rightarrow> (s1, True)
        | (s1, False) \<Rightarrow>
            (let s2 = refresh_inspect E now name s1
             in (s2, case hl_ctrs s2 name of None \<Rightarrow> False | Some info \<Rightarrow> spec_differs app rep info (hl_lxcfs s2))))"

section \<open>Creating a container\<close>

definition create_ports :: "app_inst \<Rightarrow> replica \<Rightarrow> (int \<times> int) list" where
  "create_ports app rep =
     (let ps = map (\<lambda>sp. (sp_port sp, sp_host_port sp)) (filter (\<lambda>sp. sp_port sp > 0 \<and> sp_host_port sp > 0) (rp_ports rep))
      in if ps \<noteq> [] then ps else map (\<lambda>p. (p, p)) (filter (\<lambda>p. p > 0 \<and> p < 65536) (ap_spec_ports app)))"

definition create_options :: "app_inst \<Rightarrow> replica \<Rightarrow> create_opts" where
  "create_options app rep = \<lparr>co_name = ctr_name app rep, co_image = ap_image app, co_restart_policy = ''always'',
     co_cpu = ap_cpu_limit app, co_mem = ap_mem_limit app, co_ip = rp_vpc_ipv4 rep, co_ports = create_ports app rep\<rparr>"

definition create_pull :: "env \<Rightarrow> int \<Rightarrow> app_inst \<Rightarrow> replica \<Rightarrow> hostlet \<Rightarrow> hostlet \<times> string option" where
  "create_pull E ms app rep s =
     (if ap_image app \<in> set (hl_images s) then (s, None)
      else case eff E (EImagePull (ap_image app)) (stg_run ms app rep ''image_pull'' (ap_image app) s) of (s1, r) \<Rightarrow>
        (case err_of r of
           Some e \<Rightarrow> (stg_fail ms app rep ''image_pull'' e s1, Some e)
         | None \<Rightarrow> (case eff E EImageList (stg_ok ms app rep ''image_pull'' s1) of
               (s2, RImages is) \<Rightarrow> (s2\<lparr>hl_images := is\<rparr>, None)
             | (s2, _) \<Rightarrow> (s2, None))))"

text \<open>A step that brackets one effect by the running and the final mark of its stage.\<close>

definition staged_eff ::
    "env \<Rightarrow> int \<Rightarrow> app_inst \<Rightarrow> replica \<Rightarrow> string \<Rightarrow> effect \<Rightarrow> hostlet \<Rightarrow> hostlet \<times> (string + reply)" where
  "staged_eff E ms app rep nm e s =
     (case eff E e (stg_run ms app rep nm '''' s) of (s1, r) \<Rightarrow>
        (case err_of r of
           Some m \<Rightarrow> (stg_fail ms app rep nm m s1, Inl m)
         | None \<Rightarrow> (stg_ok ms app rep nm s1, Inr r)))"

definition create_store :: "env \<Rightarrow> app_inst \<Rightarrow> replica \<Rightarrow> reply \<Rightarrow> hostlet \<Rightarrow> hostlet" where
  "create_store E app rep r s =
     (let name = ctr_name app rep;
          s1 = (case r of RInfo i \<Rightarrow> s\<lparr>hl_ctrs := (hl_ctrs s)(name \<mapsto> i)\<rparr> | _ \<Rightarrow> s);
          s2 = SetAppliedRevision name (ap_revision app) s1
      in fst (eff E ESave s2))"

definition containerCreate :: "env \<Rightarrow> int \<Rightarrow> app_inst \<Rightarrow> replica \<Rightarrow> hostlet \<Rightarrow> hostlet \<times> string option" where
  "containerCreate E ms app rep s =
     (if \<not> ap_has_resources app then (s, Some ''app spec resources is nil'')
      else case create_pull E ms app rep s of
        (s1, Some e) \<Rightarrow> (s1, Some e)
      | (s1, None) \<Rightarrow> (case staged_eff E ms app rep ''pkg_download'' (EPackages (ap_name app)) s1 of
          (s2, Inl e) \<Rightarrow> (s2, Some e)
        | (s2, Inr _) \<Rightarrow> (case staged_eff E ms app rep ''provision'' (EProvision (ctr_name app rep)) s2 of
            (s3, Inl e) \<Rightarrow> (s3, Some e)
          | (s3, Inr _) \<Rightarrow> (case staged_eff E ms app rep ''container_create'' (ECreate (create_options app rep)) s3 of
              (s4, Inl e) \<Rightarrow> (s4, Some e)
            | (s4, Inr r) \<Rightarrow> (create_store E app rep r s4, None)))))"

section \<open>The three commands\<close>

definition drop_ctr :: "string \<Rightarrow> hostlet \<Rightarrow> hostlet" where
  "drop_ctr name s = s\<lparr>hl_ctrs := (hl_ctrs s)(name := None)\<rparr>"

text \<open>Create a container and start it: the tail of \<open>operateContainerStarting\<close>.\<close>

definition create_and_start :: "env \<Rightarrow> int \<Rightarrow> app_inst \<Rightarrow> replica \<Rightarrow> hostlet \<Rightarrow> hostlet \<times> string \<times> string option" where
  "create_and_start E ms app rep s =
     (case containerCreate E ms app rep s of
        (s1, Some e) \<Rightarrow> (s1, OpStateFailed, Some e)
      | (s1, None) \<Rightarrow> (case staged_eff E ms app rep ''container_start'' (EStart (ctr_name app rep)) s1 of
          (s2, Inl e) \<Rightarrow> (s2, OpStateFailed, Some e)
        | (s2, Inr _) \<Rightarrow> (s2, OpStateRunning, None)))"

definition remove_then_create :: "env \<Rightarrow> int \<Rightarrow> app_inst \<Rightarrow> replica \<Rightarrow> hostlet \<Rightarrow> hostlet \<times> string \<times> string option" where
  "remove_then_create E ms app rep s =
     (let name = ctr_name app rep in
      case eff E (ERemove name) s of (s1, r) \<Rightarrow>
        (case err_of r of
           Some e \<Rightarrow> (s1, OpStateFailed, Some e)
         | None \<Rightarrow> create_and_start E ms app rep (drop_ctr name s1)))"

definition operateContainerStarting ::
    "env \<Rightarrow> int \<Rightarrow> int \<Rightarrow> app_inst \<Rightarrow> replica \<Rightarrow> hostlet \<Rightarrow> hostlet \<times> string \<times> string option" where
  "operateContainerStarting E now ms app rep s =
     (let name = ctr_name app rep in
      case hl_ctrs s name of
        None \<Rightarrow> create_and_start E ms app rep s
      | Some info \<Rightarrow>
        if ci_state info = OpStateRunning then
          (case containerSpecReset E now app rep s of
             (s1, True) \<Rightarrow> remove_then_create E ms app rep s1
           | (s1, False) \<Rightarrow> (s1, OpStateRunning, None))
        else if ci_state info = OpStateStopped then
          (case containerSpecReset E now app rep s of
             (s1, True) \<Rightarrow> remove_then_create E ms app rep s1
           | (s1, False) \<Rightarrow>
             (let s2 = fst (eff E (EProvision name) s1);
                  s3 = stg_run ms app rep ''container_start'' '''' s2
              in case eff E (EStart name) s3 of (s4, r) \<Rightarrow>
                (case err_of r of
                   None \<Rightarrow> (stg_ok ms app rep ''container_start'' s4, OpStateRunning, None)
                 | Some _ \<Rightarrow> (case eff E (ERemove name) s4 of (s5, r2) \<Rightarrow>
                     (case err_of r2 of
                        Some e2 \<Rightarrow> (stg_fail ms app rep ''container_start'' e2 s5, OpStateFailed, Some e2)
                      | None \<Rightarrow> create_and_start E ms app rep (drop_ctr name s5))))))
        else create_and_start E ms app rep s)"

definition operateContainerStopping ::
    "env \<Rightarrow> app_inst \<Rightarrow> replica \<Rightarrow> hostlet \<Rightarrow> hostlet \<times> string \<times> string option" where
  "operateContainerStopping E app rep s =
     (let name = ctr_name app rep in
      case hl_ctrs s name of
        None \<Rightarrow> (s, OpStateStopped, None)
      | Some info \<Rightarrow>
        if ci_state info = OpStateStopped then (s, OpStateStopped, None)
        else case eff E (EStop name) s of (s1, r) \<Rightarrow>
          (case err_of r of
             Some e \<Rightarrow> (s1, OpStateFailed, Some e)
           | None \<Rightarrow> (s1, OpStateStopped, None)))"

definition destroyContainerByName :: "env \<Rightarrow> string \<Rightarrow> hostlet \<Rightarrow> hostlet \<times> string option" where
  "destroyContainerByName E name s =
     (case hl_ctrs s name of
        None \<Rightarrow> (s, None)
      | Some info \<Rightarrow>
          (let s1 = (if ci_state info = OpStateRunning then fst (eff E (EStop name) s) else s)
           in case eff E (ERemove name) s1 of (s2, r) \<Rightarrow>
             (case err_of r of
                Some e \<Rightarrow> (s2, Some e)
              | None \<Rightarrow> (fst (eff E (EQuota name) (drop_ctr name s2)), None))))"

definition operateContainerDestroying ::
    "env \<Rightarrow> app_inst \<Rightarrow> replica \<Rightarrow> hostlet \<Rightarrow> hostlet \<times> string \<times> string option" where
  "operateContainerDestroying E app rep s =
     (case destroyContainerByName E (ctr_name app rep) s of
        (s1, Some e) \<Rightarrow> (s1, OpStateFailed, Some e)
      | (s1, None) \<Rightarrow> (s1, OpStateDestroyed, None))"

section \<open>The control loop\<close>

fun run_command ::
    "env \<Rightarrow> int \<Rightarrow> int \<Rightarrow> app_command \<Rightarrow> app_inst \<Rightarrow> replica \<Rightarrow> hostlet \<Rightarrow> hostlet \<times> string \<times> string option" where
  "run_command E now ms CmdStarting app rep s = operateContainerStarting E now ms app rep s"
| "run_command E now ms CmdStopping app rep s = operateContainerStopping E app rep s"
| "run_command E now ms CmdDestroying app rep s = operateContainerDestroying E app rep s"

definition record_terminal :: "int \<Rightarrow> app_inst \<Rightarrow> replica \<Rightarrow> string \<Rightarrow> hostlet \<Rightarrow> hostlet" where
  "record_terminal ms app rep nextState s =
     (if nextState = OpStateRunning then stg_instant ms app rep ''container_running'' s
      else if nextState = OpStateStopped then stg_instant ms app rep ''container_stop'' s
      else if nextState = OpStateDestroyed then stg_instant ms app rep ''container_destroy'' s
      else s)"

text \<open>The workflow part of one replica's round, from its current state on.\<close>

definition replica_workflow ::
    "env \<Rightarrow> int \<Rightarrow> int \<Rightarrow> string \<Rightarrow> app_inst \<Rightarrow> replica \<Rightarrow> hostlet \<Rightarrow> hostlet \<times> replica" where
  "replica_workflow E now ms currentState app rep s =
     (case NextCommand AppWorkflow currentState (ap_action app) of
        None \<Rightarrow> (s, rep)
      | Some c \<Rightarrow>
        (case ase_command c of
           None \<Rightarrow> (fst (eff E (ESyncFile (ctr_name app rep)) s), rep)
         | Some cmd \<Rightarrow>
             (let rep1 = rep\<lparr>rp_state := ase_state c\<rparr>
              in case run_command E now ms cmd app rep1 s of (s1, nextState, _) \<Rightarrow>
                (record_terminal ms app rep nextState s1,
                 if nextState \<noteq> '''' then rep1\<lparr>rp_state := nextState\<rparr> else rep1))))"

definition mark_received :: "int \<Rightarrow> app_inst \<Rightarrow> replica \<Rightarrow> hostlet \<Rightarrow> hostlet" where
  "mark_received ms app rep s =
     (let s1 = upd_stage (ap_name app) (rp_id rep) (fst \<circ> SyncRevision (ap_revision app)) s
      in if Find ''host_recv'' (rse_stage (stage_entry (ap_name app) (rp_id rep) s1)) = None
         then stg_instant ms app rep ''host_recv'' s1 else s1)"

definition replica_round :: "env \<Rightarrow> int \<Rightarrow> int \<Rightarrow> app_inst \<Rightarrow> replica \<Rightarrow> hostlet \<Rightarrow> hostlet \<times> replica" where
  "replica_round E now ms app rep s =
     (if rp_host_id rep = '''' \<or> rp_host_id rep \<noteq> hl_host_id s then (s, rep)
      else
        let s0 = mark_received ms app rep s
        in case containerStateSync app rep s0 of (rep0, cur0) \<Rightarrow>
          (let rep1 = (if cur0 = '''' then rep0\<lparr>rp_state := OpStateEmpty\<rparr> else rep0)
           in case containerSpecReset E now app rep1 s0 of
                (s1, False) \<Rightarrow> replica_workflow E now ms cur0 app rep1 s1
              | (s1, True) \<Rightarrow>
                  (case operateContainerDestroying E app rep1 s1 of
                     (s2, _, Some _) \<Rightarrow> (s2, rep1)
                   | (s2, _, None) \<Rightarrow>
                       replica_workflow E now ms OpStateEmpty app (rep1\<lparr>rp_state := OpStateEmpty\<rparr>) s2)))"

fun delete_replicas :: "env \<Rightarrow> app_inst \<Rightarrow> replica list \<Rightarrow> bool \<Rightarrow> hostlet \<Rightarrow> hostlet \<times> bool" where
  "delete_replicas E app [] failed s = (s, failed)"
| "delete_replicas E app (rep # reps) failed s =
     (if rp_host_id rep = '''' \<or> rp_host_id rep \<noteq> hl_host_id s then delete_replicas E app reps failed s
      else case operateContainerDestroying E app rep s of
          (s1, _, Some _) \<Rightarrow> delete_replicas E app reps True s1
        | (s1, _, None) \<Rightarrow> delete_replicas E app reps failed (fst (eff E (EArchive (ctr_name app rep)) s1)))"

definition containerDeleteRefresh :: "env \<Rightarrow> int \<Rightarrow> app_inst \<Rightarrow> hostlet \<Rightarrow> hostlet" where
  "containerDeleteRefresh E now app s =
     (if DeletedAt s (ap_id app) \<noteq> None then s
      else case delete_replicas E app (ap_replicas app) False s of
          (s1, True) \<Rightarrow> s1
        | (s1, False) \<Rightarrow> fst (eff E ESave (MarkDeleted (ap_id app) now s1)))"

fun replica_rounds :: "env \<Rightarrow> int \<Rightarrow> int \<Rightarrow> app_inst \<Rightarrow> replica list \<Rightarrow> hostlet \<Rightarrow> hostlet \<times> replica list" where
  "replica_rounds E now ms app [] s = (s, [])"
| "replica_rounds E now ms app (rep # reps) s =
     (case replica_round E now ms app rep s of (s1, rep1) \<Rightarrow>
        (case replica_rounds E now ms app reps s1 of (s2, reps2) \<Rightarrow> (s2, rep1 # reps2)))"

definition app_round :: "env \<Rightarrow> int \<Rightarrow> int \<Rightarrow> app_inst \<Rightarrow> hostlet \<Rightarrow> hostlet \<times> app_inst" where
  "app_round E now ms app s =
     (if ap_action app = OpActionDelete then (containerDeleteRefresh E now app s, app)
      else if \<not> ap_has_resources app \<or> ap_replicas app = [] then (s, app)
      else
        let app1 = (if ap_action app = '''' then app\<lparr>ap_action := OpActionStart\<rparr> else app)
        in case replica_rounds E now ms app1 (ap_replicas app1) s of (s1, reps) \<Rightarrow>
             (s1, app1\<lparr>ap_replicas := reps\<rparr>))"

section \<open>The container cache\<close>

definition alnum :: "char \<Rightarrow> bool" where
  "alnum c \<longleftrightarrow> is_digit c \<or> (97 \<le> (of_char c :: nat) \<and> (of_char c :: nat) \<le> 122)"

text \<open>The regular expression \<open>^i8k_[a-z0-9]([-a-z0-9]*[a-z0-9])?_[0-9]{1,3}$\<close>.\<close>

definition ContainerNameValid :: "string \<Rightarrow> bool" where
  "ContainerNameValid name =
     (has_prefix name ''i8k_'' \<and>
      (case split_last CHR ''_'' name of
         None \<Rightarrow> False
       | Some (pre, suf) \<Rightarrow>
           (let mid = drop 4 pre in
            4 \<le> length pre \<and> mid \<noteq> [] \<and> alnum (hd mid) \<and> alnum (last mid) \<and>
            list_all (\<lambda>c. alnum c \<or> c = CHR ''-'') mid \<and>
            1 \<le> length suf \<and> length suf \<le> 3 \<and> list_all is_digit suf)))"

text \<open>
  The refresh of the container cache from the engine's list: new names are stored, known ones get the
  listed fields. The list is the argument; a failed ping clears the cache.
\<close>

definition refresh_one :: "(string \<rightharpoonup> ctr_info) \<Rightarrow> string \<times> ctr_info \<Rightarrow> (string \<rightharpoonup> ctr_info)" where
  "refresh_one cs kv =
     (case kv of (name, ctr) \<Rightarrow>
        if \<not> ContainerNameValid name then cs
        else case cs name of
            None \<Rightarrow> cs(name \<mapsto> ctr)
          | Some p \<Rightarrow> cs(name \<mapsto> p\<lparr>ci_state := ci_state ctr, ci_image := ci_image ctr, ci_ip := ci_ip ctr\<rparr>))"

definition containerListRefresh :: "(string \<times> ctr_info) list option \<Rightarrow> hostlet \<Rightarrow> hostlet" where
  "containerListRefresh listed s =
     (case listed of
        None \<Rightarrow> s\<lparr>hl_images := [], hl_ctrs := Map.empty\<rparr>
      | Some l \<Rightarrow> s\<lparr>hl_ctrs := foldl refresh_one (hl_ctrs s) l\<rparr>)"

text \<open>One container of \<open>containerRestartRefresh\<close>: a throttled poll of the restart counter.\<close>

definition restartCheckInterval :: int where "restartCheckInterval = 30"

definition restart_poll :: "env \<Rightarrow> int \<Rightarrow> hostlet \<Rightarrow> string \<Rightarrow> hostlet" where
  "restart_poll E tn s name =
     (case hl_ctrs s name of
        None \<Rightarrow> s
      | Some info \<Rightarrow>
          if ci_state info \<noteq> OpStateRunning \<or> ci_restart_check info + restartCheckInterval > tn then s
          else
            let info1 = info\<lparr>ci_restart_check := tn\<rparr>
            in case eff E (EInspect name) s of
                 (s1, RInfo i) \<Rightarrow> s1\<lparr>hl_ctrs := (hl_ctrs s1)(name \<mapsto> info1\<lparr>ci_restarts := ci_restarts i\<rparr>)\<rparr>
               | (s1, _) \<Rightarrow> s1\<lparr>hl_ctrs := (hl_ctrs s1)(name \<mapsto> info1)\<rparr>)"

definition containerRestartRefresh :: "env \<Rightarrow> int \<Rightarrow> string list \<Rightarrow> hostlet \<Rightarrow> hostlet" where
  "containerRestartRefresh E tn order s = foldl (restart_poll E tn) s order"

section \<open>Frame lemmas\<close>

text \<open>Stage marks touch only the stages; an effect only the log.\<close>

lemma upd_stage_frame [simp]:
  "hl_ctrs (upd_stage n r f s) = hl_ctrs s" "hl_log (upd_stage n r f s) = hl_log s"
  "hl_applied (upd_stage n r f s) = hl_applied s" "hl_deleted (upd_stage n r f s) = hl_deleted s"
  "hl_host_id (upd_stage n r f s) = hl_host_id s" "hl_orphans (upd_stage n r f s) = hl_orphans s"
  "hl_lxcfs (upd_stage n r f s) = hl_lxcfs s" "hl_images (upd_stage n r f s) = hl_images s"
  by (simp_all add: upd_stage_def)

lemma stg_frame [simp]:
  "hl_ctrs (stg_run ms a r n m s) = hl_ctrs s" "hl_ctrs (stg_ok ms a r n s) = hl_ctrs s"
  "hl_ctrs (stg_fail ms a r n m s) = hl_ctrs s" "hl_ctrs (stg_instant ms a r n s) = hl_ctrs s"
  "hl_log (stg_run ms a r n m s) = hl_log s" "hl_log (stg_ok ms a r n s) = hl_log s"
  "hl_log (stg_fail ms a r n m s) = hl_log s" "hl_log (stg_instant ms a r n s) = hl_log s"
  "hl_applied (stg_run ms a r n m s) = hl_applied s" "hl_applied (stg_ok ms a r n s) = hl_applied s"
  "hl_applied (stg_fail ms a r n m s) = hl_applied s" "hl_applied (stg_instant ms a r n s) = hl_applied s"
  "hl_lxcfs (stg_instant ms a r n s) = hl_lxcfs s"
  by (simp_all add: stg_run_def stg_ok_def stg_fail_def stg_instant_def)

lemma mark_received_frame [simp]:
  "hl_ctrs (mark_received ms a r s) = hl_ctrs s" "hl_log (mark_received ms a r s) = hl_log s"
  "hl_applied (mark_received ms a r s) = hl_applied s" "hl_lxcfs (mark_received ms a r s) = hl_lxcfs s"
  by (simp_all add: mark_received_def Let_def)

lemma eff_simps [simp]:
  "snd (eff E e s) = E (hl_log s) e" "hl_log (fst (eff E e s)) = hl_log s @ [e]"
  "hl_ctrs (fst (eff E e s)) = hl_ctrs s" "hl_applied (fst (eff E e s)) = hl_applied s"
  "hl_deleted (fst (eff E e s)) = hl_deleted s" "hl_host_id (fst (eff E e s)) = hl_host_id s"
  "hl_orphans (fst (eff E e s)) = hl_orphans s" "hl_des_names (fst (eff E e s)) = hl_des_names s"
  "hl_des_at (fst (eff E e s)) = hl_des_at s" "hl_des_ok (fst (eff E e s)) = hl_des_ok s"
  by (simp_all add: eff_def)

lemma drop_ctr_simps [simp]:
  "hl_ctrs (drop_ctr n s) = (hl_ctrs s)(n := None)" "hl_log (drop_ctr n s) = hl_log s"
  "hl_host_id (drop_ctr n s) = hl_host_id s" "hl_deleted (drop_ctr n s) = hl_deleted s"
  "hl_orphans (drop_ctr n s) = hl_orphans s" "hl_des_names (drop_ctr n s) = hl_des_names s"
  "hl_des_at (drop_ctr n s) = hl_des_at s" "hl_des_ok (drop_ctr n s) = hl_des_ok s"
  by (simp_all add: drop_ctr_def)

section \<open>Destroying\<close>

lemma destroy_cases:
  assumes "destroyContainerByName E name s = (s', r)"
  shows "hl_ctrs s' = (if r = None then (hl_ctrs s)(name := None) else hl_ctrs s) \<and>
    hl_host_id s' = hl_host_id s \<and> hl_deleted s' = hl_deleted s \<and> hl_orphans s' = hl_orphans s \<and>
    hl_des_names s' = hl_des_names s \<and> hl_des_at s' = hl_des_at s \<and> hl_des_ok s' = hl_des_ok s \<and>
    (\<exists>es. hl_log s' = hl_log s @ es \<and> set es \<subseteq> {EStop name, ERemove name, EQuota name})"
  using assms
  by (auto simp: destroyContainerByName_def eff_def drop_ctr_def Let_def fun_upd_idem split: option.splits if_splits)

lemma operateContainerDestroying_result:
  assumes "operateContainerDestroying E app rep s = (s', st, r)"
  shows "destroyContainerByName E (ctr_name app rep) s = (s', r) \<and> st = (if r = None then OpStateDestroyed else OpStateFailed)"
  using assms by (auto simp: operateContainerDestroying_def split: prod.splits option.splits)

text \<open>
  A pass that reports no failure has removed the container of every local replica: a removed name
  is not put back by the rest of the pass.
\<close>

lemma delete_replicas_gone:
  "hl_ctrs s n = None \<Longrightarrow> hl_ctrs (fst (delete_replicas E app reps f s)) n = None"
proof (induction E app reps f s rule: delete_replicas.induct)
  case (2 E app rep reps failed s)
  obtain s1 st r where d: "operateContainerDestroying E app rep s = (s1, st, r)" by (metis prod_cases3)
  have "hl_ctrs s1 n = None"
    using destroy_cases [of E "ctr_name app rep" s s1 r] operateContainerDestroying_result [OF d] 2(4) by auto
  then show ?case using 2 d by (auto split: option.split)
qed simp

lemma delete_replicas_ok:
  assumes "delete_replicas E app reps f s = (s', False)" "rep \<in> set reps" "rp_host_id rep = hl_host_id s" "hl_host_id s \<noteq> ''''"
  shows "hl_ctrs s' (ctr_name app rep) = None"
  using assms
proof (induction reps arbitrary: f s)
  case (Cons r reps)
  show ?case
  proof (cases "rp_host_id r = '''' \<or> rp_host_id r \<noteq> hl_host_id s")
    case True
    then show ?thesis using Cons by auto
  next
    case False
    obtain s1 st e where d: "operateContainerDestroying E app r s = (s1, st, e)" by (metis prod_cases3)
    note res = operateContainerDestroying_result [OF d]
    note dc = destroy_cases [of E "ctr_name app r" s s1 e]
    show ?thesis
    proof (cases e)
      case None
      let ?s2 = "fst (eff E (EArchive (ctr_name app r)) s1)"
      have run: "delete_replicas E app reps f ?s2 = (s', False)" using Cons.prems(1) False d None by simp
      show ?thesis
      proof (cases "rep = r")
        case True
        then show ?thesis using delete_replicas_gone [of ?s2 "ctr_name app r" E app reps f] run dc res None by simp
      next
        case neq: False
        then show ?thesis using Cons.IH [OF run] Cons.prems dc res by simp
      qed
    next
      case (Some m)
      have "delete_replicas E app reps True s1 = (s', False)" using Cons.prems(1) False d Some by simp
      moreover have "snd (delete_replicas E app rs True t)" for rs t
        by (induction rs arbitrary: t) (auto split: prod.splits option.splits)
      ultimately show ?thesis by (metis snd_conv)
    qed
  qed
qed simp

lemma delete_replicas_deleted: "hl_deleted (fst (delete_replicas E app reps f s)) = hl_deleted s"
proof (induction reps arbitrary: f s)
  case (Cons r reps)
  obtain s1 st e where d: "operateContainerDestroying E app r s = (s1, st, e)" by (metis prod_cases3)
  have "hl_deleted s1 = hl_deleted s"
    using destroy_cases [of E "ctr_name app r" s s1 e] operateContainerDestroying_result [OF d] by simp
  then show ?case using Cons d by (auto split: option.split)
qed simp

section \<open>Starting\<close>

text \<open>An environment in which no call fails and a created container is described.\<close>

definition env_ok :: "env \<Rightarrow> bool" where
  "env_ok E \<longleftrightarrow> (\<forall>log e. err_of (E log e) = None) \<and> (\<forall>log co. \<exists>i. E log (ECreate co) = RInfo i)"

lemma env_okD: "env_ok E \<Longrightarrow> err_of (E log e) = None"
  by (simp add: env_ok_def)

lemma staged_eff_ok:
  assumes "env_ok E" shows "\<exists>s1 r. staged_eff E ms app rep nm e s = (s1, Inr r)"
  using env_okD [OF assms] by (simp add: staged_eff_def eff_def)

lemma create_pull_ok:
  assumes "env_ok E" shows "\<exists>s1. create_pull E ms app rep s = (s1, None)"
  using env_okD [OF assms] by (auto simp: create_pull_def eff_def split: reply.split)

lemma create_and_start_ok:
  assumes "env_ok E" "ap_has_resources app"
  shows "\<exists>s1. create_and_start E ms app rep s = (s1, OpStateRunning, None)"
proof -
  obtain s1 where 1: "create_pull E ms app rep s = (s1, None)" using create_pull_ok [OF assms(1)] by blast
  obtain s2 r2 where 2: "staged_eff E ms app rep ''pkg_download'' (EPackages (ap_name app)) s1 = (s2, Inr r2)"
    using staged_eff_ok [OF assms(1)] by blast
  obtain s3 r3 where 3: "staged_eff E ms app rep ''provision'' (EProvision (ctr_name app rep)) s2 = (s3, Inr r3)"
    using staged_eff_ok [OF assms(1)] by blast
  obtain s4 r4 where 4: "staged_eff E ms app rep ''container_create'' (ECreate (create_options app rep)) s3 = (s4, Inr r4)"
    using staged_eff_ok [OF assms(1)] by blast
  obtain s5 r5 where 5: "staged_eff E ms app rep ''container_start'' (EStart (ctr_name app rep)) (create_store E app rep r4 s4) = (s5, Inr r5)"
    using staged_eff_ok [OF assms(1)] by blast
  show ?thesis using assms(2) 1 2 3 4 5 by (simp add: create_and_start_def containerCreate_def)
qed

lemma starting_ok:
  assumes "env_ok E" "ap_has_resources app"
  shows "\<exists>s1. operateContainerStarting E now ms app rep s = (s1, OpStateRunning, None)"
  using env_okD [OF assms(1)] create_and_start_ok [OF assms]
  by (auto simp: operateContainerStarting_def remove_then_create_def eff_def Let_def split: option.split prod.split bool.split)

lemma destroying_ok:
  assumes "env_ok E" shows "\<exists>s1. operateContainerDestroying E app rep s = (s1, OpStateDestroyed, None)"
  using env_okD [OF assms]
  by (auto simp: operateContainerDestroying_def destroyContainerByName_def eff_def Let_def split: option.split)

lemma workflow_start:
  assumes "st \<in> {OpStateEmpty, OpStateStopped, OpStateFailed, OpStateStarting}"
  shows "NextCommand AppWorkflow st OpActionStart = Some \<lparr>ase_state = OpStateStarting, ase_command = Some CmdStarting\<rparr>"
    and "NextCommand AppWorkflow OpStateRunning OpActionStart = Some \<lparr>ase_state = OpStateRunning, ase_command = None\<rparr>"
  using assms by (auto simp: AppWorkflow_iff registrations_def)

lemma replica_workflow_start:
  assumes "env_ok E" "ap_has_resources app" "ap_action app = OpActionStart"
    "st \<in> {OpStateEmpty, OpStateStopped, OpStateFailed, OpStateStarting} \<or> (st = OpStateRunning \<and> rp_state rep = OpStateRunning)"
  shows "rp_state (snd (replica_workflow E now ms st app rep s)) = OpStateRunning"
  using assms(4)
proof
  assume st: "st \<in> {OpStateEmpty, OpStateStopped, OpStateFailed, OpStateStarting}"
  obtain s1 where "operateContainerStarting E now ms app (rep\<lparr>rp_state := OpStateStarting\<rparr>) s = (s1, OpStateRunning, None)"
    using starting_ok [OF assms(1,2)] by blast
  then show ?thesis using workflow_start(1) [OF st] assms(3) by (simp add: replica_workflow_def OpStateRunning_def)
next
  assume "st = OpStateRunning \<and> rp_state rep = OpStateRunning"
  then show ?thesis using workflow_start(2) [of OpStateEmpty] assms(3) by (simp add: replica_workflow_def)
qed

section \<open>Properties\<close>


definition demo_env :: env where
  "demo_env log e = (case e of ECreate co \<Rightarrow>
      RInfo \<lparr>ci_state = ''stopped'', ci_image = co_image co, ci_cpu = co_cpu co, ci_mem = co_mem co, ci_ports = Map.empty,
        ci_ip = co_ip co, ci_binds = [], ci_inspected = 0, ci_restarts = 0, ci_restart_check = 0\<rparr> | _ \<Rightarrow> ROk)"

lemma demo_env_ok: "env_ok demo_env"
  by (auto simp: env_ok_def demo_env_def split: effect.split)

definition demo_app :: app_inst where
  "demo_app = \<lparr>ap_id = ''id1'', ap_name = ''web'', ap_action = ''start'', ap_revision = 3, ap_has_resources = True,
     ap_image = ''img'', ap_cpu_limit = 1000, ap_mem_limit = 1048576, ap_spec_ports = [80], ap_replicas = []\<rparr>"

definition demo_replica :: replica where
  "demo_replica = \<lparr>rp_id = 0, rp_host_id = ''h1'', rp_state = '''', rp_vpc_ipv4 = '''', rp_ports = []\<rparr>"

definition demo_hostlet :: hostlet where
  "demo_hostlet = \<lparr>hl_host_id = ''h1'', hl_ctrs = Map.empty, hl_images = [], hl_applied = Map.empty, hl_deleted = Map.empty,
     hl_orphans = Map.empty, hl_des_names = [], hl_des_at = 0, hl_des_ok = False, hl_stages = Map.empty,
     hl_lxcfs = False, hl_log = []\<rparr>"


lemma steady_round:
  assumes "ap_action app = OpActionStart" "rp_host_id rep = hl_host_id s" "hl_host_id s \<noteq> ''''"
    and "hl_ctrs s (ctr_name app rep) = Some info" "ci_state info = OpStateRunning" "now \<le> ci_inspected info + 1800"
    and "hl_applied s (ctr_name app rep) = Some a" "ap_revision app \<le> a"
    and "\<not> spec_differs app rep info (hl_lxcfs s)"
  shows "(let (s', rep') = replica_round E now ms app rep s in
    hl_log s' = hl_log s @ [ESyncFile (ctr_name app rep)] \<and> hl_ctrs s' = hl_ctrs s \<and> rp_state rep' = OpStateRunning)"
proof -
  let ?rep = "rep\<lparr>rp_state := OpStateRunning\<rparr>"
  let ?s0 = "mark_received ms app rep s"
  have nm: "ctr_name app ?rep = ctr_name app rep" by (simp add: ctr_name_def)
  have sync: "containerStateSync app rep ?s0 = (?rep, OpStateRunning)"
    using assms(4,5) by (simp add: containerStateSync_def OpStateRunning_def)
  have "\<not> spec_differs app ?rep info (hl_lxcfs s)" using assms(9) by (simp add: spec_differs_def)
  then have reset: "containerSpecReset E now app ?rep ?s0 = (?s0, False)"
    using assms(4,6-8) by (simp add: containerSpecReset_def revision_reset_def refresh_inspect_def nm Let_def)
  have "replica_round E now ms app rep s = (fst (eff E (ESyncFile (ctr_name app rep)) ?s0), ?rep)"
    using assms(1-3) sync reset workflow_start(2) [of OpStateEmpty]
    by (simp add: replica_round_def replica_workflow_def ctr_name_def Let_def OpStateRunning_def)
  then show ?thesis by simp
qed

text \<open>
  C36: in the steady state (container running, applied revision not behind the deploy revision,
  recently inspected, specification as desired) a round issues no call to the container engine: the
  cache is unchanged, the replica is running and the only effect is the refresh of its file.
\<close>

theorem steady_state_quiet:
  assumes "ap_action app = OpActionStart" "rp_host_id rep = hl_host_id s" "hl_host_id s \<noteq> ''''"
    and "hl_ctrs s (ctr_name app rep) = Some info" "ci_state info = OpStateRunning" "now \<le> ci_inspected info + 1800"
    and "hl_applied s (ctr_name app rep) = Some a" "ap_revision app \<le> a"
    and "\<not> spec_differs app rep info (hl_lxcfs s)"
  shows "(let (s', rep') = replica_round E now ms app rep s in
    hl_log s' = hl_log s @ [ESyncFile (ctr_name app rep)] \<and> hl_ctrs s' = hl_ctrs s \<and> rp_state rep' = OpStateRunning)"
  using assms by (rule steady_round)

definition demo_info :: ctr_info where
  "demo_info = \<lparr>ci_state = ''running'', ci_image = ''img'', ci_cpu = 1000, ci_mem = 1048576, ci_ports = Map.empty,
     ci_ip = '''', ci_binds = [], ci_inspected = 90, ci_restarts = 0, ci_restart_check = 0\<rparr>"

definition demo_steady :: hostlet where
  "demo_steady = demo_hostlet\<lparr>hl_ctrs := [''i8k_web_0'' \<mapsto> demo_info], hl_applied := [''i8k_web_0'' \<mapsto> 3]\<rparr>"

lemma demo_steady_facts:
  "ctr_name demo_app demo_replica = ''i8k_web_0''" "\<not> spec_differs demo_app demo_replica demo_info False"
  by code_simp+

theorem steady_state_quiet_witness:
  "hl_log (fst (replica_round demo_env 100 100000 demo_app demo_replica demo_steady)) = [ESyncFile ''i8k_web_0'']"
  using steady_state_quiet [of demo_app demo_replica demo_steady demo_info 100 3 demo_env 100000] demo_steady_facts
  by (simp add: demo_app_def demo_replica_def demo_hostlet_def demo_steady_def demo_info_def op_consts split: prod.splits)


definition demo_deleted_app :: app_inst where
  "demo_deleted_app = demo_app\<lparr>ap_action := ''delete'', ap_replicas := [demo_replica]\<rparr>"

lemma demo_delete_facts:
  "\<not> snd (delete_replicas demo_env demo_deleted_app (ap_replicas demo_deleted_app) False demo_steady)"
  "ctr_name demo_deleted_app demo_replica = ''i8k_web_0''"
  by code_simp+


text \<open>
  The cache refresh never drops a container that is missing from the engine's list: its entry
  stays as it was, so a replica whose container was removed from outside is still taken for running
  and a round with action start does not recreate it.
\<close>

theorem vanished_container_not_restarted:
  assumes "name = ctr_name app rep" "name \<notin> fst ` set listed" "ap_action app = OpActionStart"
    and "rp_host_id rep = hl_host_id s" "hl_host_id s \<noteq> ''''"
    and "hl_ctrs s name = Some info" "ci_state info = OpStateRunning" "now \<le> ci_inspected info + 1800"
    and "hl_applied s name = Some (ap_revision app)" "\<not> spec_differs app rep info (hl_lxcfs s)"
  shows "(let s1 = containerListRefresh (Some listed) s in
    hl_ctrs s1 name = Some info \<and>
    hl_log (fst (replica_round E now ms app rep s1)) = hl_log s @ [ESyncFile name] \<and>
    rp_state (snd (replica_round E now ms app rep s1)) = OpStateRunning)"
proof -
  have keep: "name \<notin> fst ` set l \<Longrightarrow> foldl refresh_one cs l name = cs name" for l cs
    by (induction l arbitrary: cs) (auto simp: refresh_one_def split: option.splits)
  define s1 where "s1 = containerListRefresh (Some listed) s"
  have same: "hl_ctrs s1 (ctr_name app rep) = Some info" "hl_host_id s1 = hl_host_id s" "hl_applied s1 = hl_applied s"
      "hl_lxcfs s1 = hl_lxcfs s" "hl_log s1 = hl_log s"
    using keep [of listed "hl_ctrs s"] assms(1,2,6) by (simp_all add: s1_def containerListRefresh_def)
  have "let (s', rep') = replica_round E now ms app rep s1 in
      hl_log s' = hl_log s1 @ [ESyncFile (ctr_name app rep)] \<and> hl_ctrs s' = hl_ctrs s1 \<and> rp_state rep' = OpStateRunning"
    by (rule steady_round [OF assms(3) _ _ same(1) assms(7,8), of "ap_revision app"]) (use assms same in simp_all)
  then show ?thesis using same assms(1) by (simp add: Let_def split: prod.splits flip: s1_def)
qed

theorem vanished_container_not_restarted_witness:
  "hl_log (fst (replica_round demo_env 100 100000 demo_app demo_replica (containerListRefresh (Some []) demo_steady)))
     = [ESyncFile ''i8k_web_0'']"
  using vanished_container_not_restarted [of "''i8k_web_0''" demo_app demo_replica "[]" demo_steady demo_info 100 demo_env 100000]
    demo_steady_facts
  by (simp add: demo_app_def demo_replica_def demo_hostlet_def demo_steady_def demo_info_def op_consts Let_def)

end
