(* ===== verification/Orphan.thy ===== *)
theory Orphan
  imports Container
begin

text \<open>
  The orphan sweep of a host, \<open>containerOrphanSweep\<close> of \<open>internal/hostlet/task_container.go\<close>:
  containers that are not in the fresh desired set are stopped, and removed after a grace period. The
  two iteration orders (of the orphan records and of the container cache) are arguments. The lemmas
  follow the records over any sequence of sweeps, interleaved with new answers of the zone leader and
  with any other activity of the host that leaves the orphan records alone.
\<close>

definition OrphanContainerGracePeriod :: int where "OrphanContainerGracePeriod = 86400"
definition OrphanSyncStaleLimit :: int where "OrphanSyncStaleLimit = 60"

section \<open>The sweep\<close>

definition orphanQuarantine :: "env \<Rightarrow> string \<Rightarrow> hostlet \<Rightarrow> hostlet" where
  "orphanQuarantine E name s = fst (eff E (EStop name) (fst (eff E (EPolicy name ''no'') s)))"

definition orphanRestoreRestartPolicy :: "env \<Rightarrow> string \<Rightarrow> hostlet \<Rightarrow> hostlet" where
  "orphanRestoreRestartPolicy E name s = fst (eff E (EPolicy name ''always'') s)"

definition orphanStop :: "env \<Rightarrow> string \<Rightarrow> hostlet \<Rightarrow> hostlet" where
  "orphanStop E name s = fst (eff E (EStop name) s)"

text \<open>One name of the recovery pass, and one container of the detect and reap pass.\<close>

definition recover_one :: "env \<Rightarrow> hostlet \<times> bool \<Rightarrow> string \<Rightarrow> hostlet \<times> bool" where
  "recover_one E sd name =
     (case sd of (s, dirty) \<Rightarrow>
        if hl_orphans s name \<noteq> None \<and> name \<in> set (hl_des_names s)
        then (ClearOrphan name (orphanRestoreRestartPolicy E name s), True) else (s, dirty))"

definition reap_one :: "env \<Rightarrow> int \<Rightarrow> hostlet \<times> bool \<Rightarrow> string \<Rightarrow> hostlet \<times> bool" where
  "reap_one E now sd name =
     (case sd of (s, dirty) \<Rightarrow>
      (case hl_ctrs s name of
         None \<Rightarrow> (s, dirty)
       | Some info \<Rightarrow>
         if \<not> ContainerNameValid name then (s, dirty)
         else if name \<in> set (hl_des_names s) then (s, dirty)
         else
           let (s1, dirty1, firstSeen) =
                 (case hl_orphans s name of
                    None \<Rightarrow> (orphanQuarantine E name (MarkOrphan name now s), True, now)
                  | Some t \<Rightarrow> (if ci_state info = OpStateRunning then orphanStop E name s else s, dirty, t))
           in if now - firstSeen \<ge> OrphanContainerGracePeriod then
                (case destroyContainerByName E name s1 of
                   (s2, Some _) \<Rightarrow> (s2, dirty1)
                 | (s2, None) \<Rightarrow> (ClearOrphan name (fst (eff E (EArchive name) s2)), True))
              else (s1, dirty1)))"

definition sweep_active :: "int \<Rightarrow> hostlet \<Rightarrow> bool" where
  "sweep_active now s \<longleftrightarrow> DesiredIsFresh now OrphanSyncStaleLimit s \<and> hl_des_names s \<noteq> []"

definition containerOrphanSweep :: "env \<Rightarrow> int \<Rightarrow> string list \<Rightarrow> string list \<Rightarrow> hostlet \<Rightarrow> hostlet" where
  "containerOrphanSweep E now orphanOrder ctrOrder s =
     (if \<not> DesiredIsFresh now OrphanSyncStaleLimit s then s
      else if hl_des_names s = [] then s
      else case foldl (reap_one E now) (foldl (recover_one E) (s, False) orphanOrder) ctrOrder of
        (s1, dirty) \<Rightarrow> if dirty then fst (eff E ESave s1) else s1)"

section \<open>What one step does\<close>

lemma orphan_frames [simp]:
  "hl_orphans (orphanQuarantine E n s) = hl_orphans s" "hl_des_names (orphanQuarantine E n s) = hl_des_names s"
  "hl_orphans (orphanStop E n s) = hl_orphans s" "hl_des_names (orphanStop E n s) = hl_des_names s"
  "hl_des_names (MarkOrphan n t s) = hl_des_names s" "hl_des_names (ClearOrphan n s) = hl_des_names s"
  "hl_des_names (orphanRestoreRestartPolicy E n s) = hl_des_names s"
  "hl_orphans (orphanRestoreRestartPolicy E n s) = hl_orphans s"
  "hl_log (orphanQuarantine E n s) = hl_log s @ [EPolicy n ''no'', EStop n]" "hl_log (orphanStop E n s) = hl_log s @ [EStop n]"
  "hl_log (orphanRestoreRestartPolicy E n s) = hl_log s @ [EPolicy n ''always'']"
  "hl_log (MarkOrphan n t s) = hl_log s" "hl_log (ClearOrphan n s) = hl_log s"
  "hl_orphans (ClearOrphan n s) = (hl_orphans s)(n := None)"
  by (simp_all add: orphanQuarantine_def orphanStop_def orphanRestoreRestartPolicy_def MarkOrphan_def ClearOrphan_def)

lemma valid_name_nonempty: "ContainerNameValid n \<Longrightarrow> n \<noteq> ''''"
  by (auto simp: ContainerNameValid_def has_prefix_def)

text \<open>
  The removal and archiving effects of a reap step happen only for the name of the step, when it is a
  valid, cached, undesired container with a record that is at least the grace period old.
\<close>

definition removes :: "string \<Rightarrow> effect \<Rightarrow> bool" where
  "removes n e \<longleftrightarrow> e = ERemove n \<or> e = EArchive n"

lemma reap_one_effects:
  assumes "reap_one E now (s, d) name = (s', d')"
  shows "hl_des_names s' = hl_des_names s \<and>
    (\<exists>es. hl_log s' = hl_log s @ es \<and>
      (\<forall>e \<in> set es. \<forall>n. removes n e \<longrightarrow> n = name \<and> ContainerNameValid n \<and> n \<notin> set (hl_des_names s) \<and>
         hl_ctrs s n \<noteq> None \<and> (\<exists>t. hl_orphans s n = Some t \<and> now - t \<ge> OrphanContainerGracePeriod)))"
proof (cases "hl_ctrs s name = None \<or> \<not> ContainerNameValid name \<or> name \<in> set (hl_des_names s)")
  case True
  then show ?thesis using assms by (auto simp: reap_one_def split: option.splits if_splits)
next
  case False
  then obtain info where info: "hl_ctrs s name = Some info" "ContainerNameValid name" "name \<notin> set (hl_des_names s)" by auto
  define s1 where "s1 = (case hl_orphans s name of None \<Rightarrow> orphanQuarantine E name (MarkOrphan name now s)
      | Some t \<Rightarrow> if ci_state info = OpStateRunning then orphanStop E name s else s)"
  define t where "t = (case hl_orphans s name of None \<Rightarrow> now | Some t \<Rightarrow> t)"
  have log1: "\<exists>es. hl_log s1 = hl_log s @ es \<and> (\<forall>e \<in> set es. \<forall>n. \<not> removes n e)"
    and des1: "hl_des_names s1 = hl_des_names s"
    by (auto simp: s1_def removes_def split: option.splits)
  obtain s2 r where de: "destroyContainerByName E name s1 = (s2, r)" by fastforce
  have step: "s' = (if now - t \<ge> OrphanContainerGracePeriod then
        (if r = None then ClearOrphan name (fst (eff E (EArchive name) s2)) else s2) else s1)"
    using assms info de by (auto simp: reap_one_def s1_def t_def Let_def split: option.splits if_splits)
  obtain es where es: "hl_log s2 = hl_log s1 @ es" "set es \<subseteq> {EStop name, ERemove name, EQuota name}"
      "hl_des_names s2 = hl_des_names s1"
    using destroy_cases [OF de] by blast
  show ?thesis
  proof (cases "now - t \<ge> OrphanContainerGracePeriod")
    case True
    then have rec: "hl_orphans s name = Some t" by (auto simp: t_def OrphanContainerGracePeriod_def split: option.splits)
    have "\<exists>es. hl_log s' = hl_log s @ es \<and> (\<forall>e \<in> set es. \<forall>n. removes n e \<longrightarrow> n = name)"
      using log1 es step True by (fastforce simp: removes_def)
    then show ?thesis using info rec True es des1 step by (auto simp: step)
  next
    case False
    then show ?thesis using log1 des1 step by auto
  qed
qed

lemma recover_one_effects:
  assumes "recover_one E (s, d) name = (s', d')"
  shows "hl_des_names s' = hl_des_names s \<and> hl_ctrs s' = hl_ctrs s \<and>
    hl_orphans s' = (if name \<in> set (hl_des_names s) then (hl_orphans s)(name := None) else hl_orphans s) \<and>
    (\<exists>es. hl_log s' = hl_log s @ es \<and> (\<forall>e \<in> set es. \<forall>n. \<not> removes n e))"
  using assms
  by (auto simp: recover_one_def removes_def fun_upd_idem orphanRestoreRestartPolicy_def ClearOrphan_def split: if_splits)

text \<open>The record of a name after a reap step: kept, set to now, or cleared after a removal.\<close>

lemma reap_one_orphans:
  assumes "reap_one E now (s, d) name = (s', d')"
  shows "hl_orphans s' n \<in> {hl_orphans s n, None} \<or>
    (n = name \<and> hl_orphans s n = None \<and> hl_orphans s' n = Some now \<and> n \<notin> set (hl_des_names s))"
  using assms valid_name_nonempty [of name]
  by (auto simp: reap_one_def Let_def MarkOrphan_def dest!: destroy_cases split: option.splits if_splits prod.splits)

section \<open>What one sweep does\<close>

lemma fold_recover:
  "foldl (recover_one E) (s, d) ns = (s', d') \<Longrightarrow>
   hl_des_names s' = hl_des_names s \<and>
   (\<forall>n. hl_orphans s' n = (if n \<in> set ns \<and> n \<in> set (hl_des_names s) then None else hl_orphans s n)) \<and>
   (\<exists>es. hl_log s' = hl_log s @ es \<and> (\<forall>e \<in> set es. \<forall>n. \<not> removes n e))"
proof (induction ns arbitrary: s d)
  case (Cons n ns)
  obtain s1 d1 where one: "recover_one E (s, d) n = (s1, d1)" by fastforce
  note r1 = recover_one_effects [OF one]
  have "foldl (recover_one E) (s1, d1) ns = (s', d')" using Cons.prems one by simp
  note r2 = Cons.IH [OF this]
  obtain es1 es2 where "hl_log s1 = hl_log s @ es1" "hl_log s' = hl_log s1 @ es2"
      "\<forall>e \<in> set es1. \<forall>n. \<not> removes n e" "\<forall>e \<in> set es2. \<forall>n. \<not> removes n e"
    using r1 r2 by blast
  then have "\<exists>es. hl_log s' = hl_log s @ es \<and> (\<forall>e \<in> set es. \<forall>n. \<not> removes n e)"
    by (intro exI [of _ "es1 @ es2"]) auto
  then show ?case using r1 r2 by auto
qed simp

definition due :: "int \<Rightarrow> hostlet \<Rightarrow> string \<Rightarrow> bool" where
  "due now s n \<longleftrightarrow> ContainerNameValid n \<and> n \<notin> set (hl_des_names s) \<and>
     (\<exists>t. hl_orphans s n = Some t \<and> now - t \<ge> OrphanContainerGracePeriod)"

lemma due_not_now: "hl_orphans s n = Some now \<Longrightarrow> \<not> due now s n"
  by (simp add: due_def OrphanContainerGracePeriod_def)

lemma fold_reap:
  "foldl (reap_one E now) (s, d) ns = (s', d') \<Longrightarrow>
   hl_des_names s' = hl_des_names s \<and>
   (\<forall>n. hl_orphans s' n \<in> {hl_orphans s n, None} \<or> (hl_orphans s' n = Some now \<and> n \<notin> set (hl_des_names s))) \<and>
   (\<exists>es. hl_log s' = hl_log s @ es \<and> (\<forall>e \<in> set es. \<forall>n. removes n e \<longrightarrow> due now s n))"
proof (induction ns arbitrary: s d)
  case (Cons m ns)
  obtain s1 d1 where one: "reap_one E now (s, d) m = (s1, d1)" by fastforce
  note r1 = reap_one_effects [OF one] and o1 = reap_one_orphans [OF one]
  have "foldl (reap_one E now) (s1, d1) ns = (s', d')" using Cons.prems one by simp
  note r2 = Cons.IH [OF this]
  have des: "hl_des_names s1 = hl_des_names s" using r1 by blast
  have due_back: "due now s n" if "due now s1 n" for n
    using that o1 [of n] due_not_now [of s1 n now] des by (auto simp: due_def)
  obtain es1 es2 where es: "hl_log s1 = hl_log s @ es1" "hl_log s' = hl_log s1 @ es2"
      "\<forall>e \<in> set es1. \<forall>n. removes n e \<longrightarrow> due now s n" "\<forall>e \<in> set es2. \<forall>n. removes n e \<longrightarrow> due now s1 n"
    using r1 r2 unfolding due_def by blast
  then have "\<exists>es. hl_log s' = hl_log s @ es \<and> (\<forall>e \<in> set es. \<forall>n. removes n e \<longrightarrow> due now s n)"
    using due_back by (intro exI [of _ "es1 @ es2"]) auto
  moreover have "hl_orphans s' n \<in> {hl_orphans s n, None} \<or> (hl_orphans s' n = Some now \<and> n \<notin> set (hl_des_names s))" for n
    using o1 [of n] r2 des by (metis insertCI insertE singletonD)
  ultimately show ?case using r2 des by simp
qed simp

lemma sweep_inactive: "\<not> sweep_active now s \<Longrightarrow> containerOrphanSweep E now oo co s = s"
  by (auto simp: containerOrphanSweep_def sweep_active_def)

lemma sweep_effects:
  assumes "sweep_active now s" "dom (hl_orphans s) \<subseteq> set oo" "containerOrphanSweep E now oo co s = s'"
  shows "(\<forall>n. hl_orphans s' n = None \<or> (n \<notin> set (hl_des_names s) \<and> hl_orphans s' n \<in> {hl_orphans s n, Some now})) \<and>
    (\<exists>es. hl_log s' = hl_log s @ es \<and> (\<forall>e \<in> set es. \<forall>n. removes n e \<longrightarrow> due now s n))"
proof -
  obtain s1 d1 where rec: "foldl (recover_one E) (s, False) oo = (s1, d1)" by fastforce
  obtain s2 d2 where reap: "foldl (reap_one E now) (s1, d1) co = (s2, d2)" by fastforce
  have s': "hl_orphans s' = hl_orphans s2" "hl_log s' = hl_log s2 @ (if d2 then [ESave] else [])"
    using assms(1,3) rec reap by (auto simp: containerOrphanSweep_def sweep_active_def)
  note r1 = fold_recover [OF rec] and r2 = fold_reap [OF reap]
  have orph1: "hl_orphans s1 n = (if n \<in> set (hl_des_names s) then None else hl_orphans s n)" for n
    using r1 assms(2) by (auto simp: domIff)
  have "hl_orphans s' n = None \<or> (n \<notin> set (hl_des_names s) \<and> hl_orphans s' n \<in> {hl_orphans s n, Some now})" for n
    using r2 r1 orph1 [of n] s'(1) by (metis insertCI insertE singletonD)
  moreover obtain es1 es2 where "hl_log s1 = hl_log s @ es1" "hl_log s2 = hl_log s1 @ es2"
      "\<forall>e \<in> set es1. \<forall>n. \<not> removes n e" "\<forall>e \<in> set es2. \<forall>n. removes n e \<longrightarrow> due now s1 n"
    using r1 r2 by blast
  moreover have "due now s n" if "due now s1 n" for n using that orph1 r1 by (auto simp: due_def split: if_splits)
  ultimately show ?thesis using s'(2)
    by (intro conjI allI exI [of _ "es1 @ es2 @ (if d2 then [ESave] else [])"]) (auto simp: removes_def split: if_splits)
qed

section \<open>Runs\<close>

text \<open>
  The states of a host under sweeps and any other activity that leaves the orphan records alone (new
  answers or failures of the leader, refreshes of the cache, the control loop), with the history of
  the active sweeps: when they ran and what was desired then.
\<close>

inductive orphan_reach :: "hostlet \<Rightarrow> (int \<times> string list) list \<Rightarrow> bool" where
  start: "hl_orphans s = Map.empty \<Longrightarrow> orphan_reach s []"
| other: "orphan_reach s h \<Longrightarrow> hl_orphans s' = hl_orphans s \<Longrightarrow> orphan_reach s' h"
| sweep: "orphan_reach s h \<Longrightarrow> dom (hl_orphans s) \<subseteq> set oo \<Longrightarrow>
    orphan_reach (containerOrphanSweep E now oo co s) (if sweep_active now s then h @ [(now, hl_des_names s)] else h)"

definition absent_since :: "(int \<times> string list) list \<Rightarrow> string \<Rightarrow> int \<Rightarrow> bool" where
  "absent_since h n t \<longleftrightarrow> (\<exists>h1 names h2. h = h1 @ (t, names) # h2 \<and> n \<notin> set names \<and> (\<forall>x \<in> set h2. n \<notin> set (snd x)))"

lemma absent_since_snoc: "absent_since h n t \<Longrightarrow> n \<notin> set names \<Longrightarrow> absent_since (h @ [(now, names)]) n t"
  unfolding absent_since_def by (elim exE) (rule exI, rule exI, rule_tac x = "h2 @ [(now, names)]" in exI, auto)

lemma absent_since_new: "n \<notin> set names \<Longrightarrow> absent_since (h @ [(now, names)]) n now"
  unfolding absent_since_def by (rule exI [of _ h]) auto

lemma orphan_record: "orphan_reach s h \<Longrightarrow> hl_orphans s n = Some t \<Longrightarrow> absent_since h n t"
proof (induction arbitrary: t rule: orphan_reach.induct)
  case (sweep s h oo E now co)
  show ?case
  proof (cases "sweep_active now s")
    case True
    from sweep_effects [OF True sweep.hyps(2) refl, of E co] sweep.prems
    have "n \<notin> set (hl_des_names s) \<and> (hl_orphans s n = Some t \<or> t = now)" by (auto dest!: spec [of _ n])
    then show ?thesis using True sweep.IH absent_since_snoc absent_since_new by auto
  next
    case False
    then show ?thesis using sweep.IH sweep.prems by (simp add: sweep_inactive)
  qed
qed auto

section \<open>Properties\<close>

text \<open>
  C3: a sweep removes a container or archives its data only when the desired set is fresh and not
  empty and does not contain it, and only after an absence of at least a day: some earlier active
  sweep, at least 86400 seconds before, saw the container undesired, and so did every active sweep since.
\<close>

theorem orphan_removal_safe:
  assumes "orphan_reach s h" "dom (hl_orphans s) \<subseteq> set oo"
    and "hl_log (containerOrphanSweep E now oo co s) = hl_log s @ es"
    and "ERemove n \<in> set es \<or> EArchive n \<in> set es"
  shows "DesiredIsFresh now 60 s \<and> hl_des_names s \<noteq> [] \<and> n \<notin> set (hl_des_names s) \<and> ContainerNameValid n \<and>
    (\<exists>t. now - t \<ge> 86400 \<and> absent_since h n t)"
proof -
  have act: "sweep_active now s"
    using assms(3,4) sweep_inactive [of now s E oo co] by fastforce
  from sweep_effects [OF this assms(2) refl, of E co] assms(3)
  have "\<forall>e \<in> set es. \<forall>n. removes n e \<longrightarrow> due now s n" by auto
  then have "due now s n" using assms(4) by (auto simp: removes_def)
  then show ?thesis
    using act orphan_record [OF assms(1)]
    by (auto simp: due_def sweep_active_def OrphanContainerGracePeriod_def OrphanSyncStaleLimit_def)
qed

definition demo_orphaned :: hostlet where
  "demo_orphaned = demo_hostlet\<lparr>hl_ctrs := [''i8k_old_0'' \<mapsto> demo_info], hl_des_names := [''i8k_web_0''],
     hl_des_at := 90, hl_des_ok := True\<rparr>"

definition demo_day_later :: hostlet where
  "demo_day_later = DesiredReplace [''i8k_web_0''] 86490 (containerOrphanSweep demo_env 100 [] [''i8k_old_0''] demo_orphaned)"

lemma demo_orphan_valid: "ContainerNameValid ''i8k_old_0''"
  by code_simp

lemma demo_orphan_records: "hl_orphans demo_day_later = [''i8k_old_0'' \<mapsto> 100]"
  using demo_orphan_valid
  by (simp add: demo_day_later_def demo_orphaned_def demo_hostlet_def demo_info_def containerOrphanSweep_def
      DesiredIsFresh_def DesiredReplace_def reap_one_def OrphanSyncStaleLimit_def OrphanContainerGracePeriod_def
      orphanQuarantine_def MarkOrphan_def eff_def)

lemma demo_orphan_reach: "orphan_reach demo_day_later [(100, [''i8k_web_0''])]"
proof -
  have "orphan_reach demo_orphaned []" by (rule orphan_reach.start) (simp add: demo_orphaned_def demo_hostlet_def)
  then have "orphan_reach (containerOrphanSweep demo_env 100 [] [''i8k_old_0''] demo_orphaned) [(100, [''i8k_web_0''])]"
    using orphan_reach.sweep [of demo_orphaned "[]" "[]" demo_env 100 "[''i8k_old_0'']"]
    by (simp add: sweep_active_def demo_orphaned_def demo_hostlet_def DesiredIsFresh_def OrphanSyncStaleLimit_def)
  then show ?thesis by (rule orphan_reach.other) (simp add: demo_day_later_def DesiredReplace_def)
qed

lemma demo_orphan_log:
  "drop (length (hl_log demo_day_later)) (hl_log (containerOrphanSweep demo_env 86500 [''i8k_old_0''] [''i8k_old_0''] demo_day_later)) =
     [EStop ''i8k_old_0'', EStop ''i8k_old_0'', ERemove ''i8k_old_0'', EQuota ''i8k_old_0'', EArchive ''i8k_old_0'', ESave]"
  "take (length (hl_log demo_day_later)) (hl_log (containerOrphanSweep demo_env 86500 [''i8k_old_0''] [''i8k_old_0''] demo_day_later)) =
     hl_log demo_day_later"
  by code_simp+

theorem orphan_removal_safe_witness:
  "\<exists>t. 86500 - t \<ge> 86400 \<and> absent_since [(100, [''i8k_web_0''])] ''i8k_old_0'' t"
proof -
  have "hl_log (containerOrphanSweep demo_env 86500 [''i8k_old_0''] [''i8k_old_0''] demo_day_later) = hl_log demo_day_later @
      [EStop ''i8k_old_0'', EStop ''i8k_old_0'', ERemove ''i8k_old_0'', EQuota ''i8k_old_0'', EArchive ''i8k_old_0'', ESave]"
    using demo_orphan_log by (metis append_take_drop_id)
  from orphan_removal_safe [OF demo_orphan_reach _ this, of "''i8k_old_0''"] show ?thesis
    by (simp add: demo_orphan_records)
qed

end
