(* ===== verification/Auth.thy ===== *)
theory Auth
  imports Prelude "HOL-Library.AList"
begin

text \<open>
  Access keys and access tokens (\<open>pkg/inauth\<close>, with the key generator of
  \<open>internal/inutil/id.go\<close>): the scope rules of a key, its exported text form, the registry of keys
  with the cache of consumed nonces, minting, parsing and verifying a token, and the validator a gRPC
  server builds from a request. \<open>encoding/base64\<close> is modelled; \<open>encoding/json\<close> and
  \<open>crypto/hmac\<close> are arguments (records of functions). Every reading of the clock is an argument
  of its own, and so are the random bytes.
\<close>

section \<open>Data\<close>

record access_key =
  ak_id :: string
  ak_secret :: string
  ak_user :: string
  ak_type :: string
  ak_state :: string
  ak_roles :: "string list"
  ak_scopes :: "string list"
  ak_description :: string

record token_header =
  h_alg :: string
  h_typ :: string
  h_kid :: string

record auth_claims =
  c_jti :: string
  c_iat :: int
  c_exp :: int
  c_sub :: string
  c_nonce :: string
  c_state :: string

definition AccessKey_State_Active :: string where
  "AccessKey_State_Active = ''active''"

definition AccessKey_State_Disable :: string where
  "AccessKey_State_Disable = ''disable''"

definition appAuthExp :: int where
  "appAuthExp = 60"

definition tokenReplayRetention :: int where
  "tokenReplayRetention = 2 * appAuthExp + 30"

definition replaySweepInterval :: int where
  "replaySweepInterval = 1024"

datatype auth_err =
    KeyNotFound string
  | KeyDisabled string
  | TokenExpired
  | IatExpired
  | VerifyDenied
  | TokenReplayed
  | SignFailed string
  | InvalidToken
  | InvalidKey string
  | Unauthenticated string
  | NilDereference

section \<open>Scopes\<close>

text \<open>\<open>scopeMatch\<close>: a wildcard, the scope itself, or the write scope of a read scope.\<close>

fun scopeMatch :: "string list \<Rightarrow> string \<Rightarrow> bool" where
  "scopeMatch [] required = False"
| "scopeMatch (g # granted) required =
     (if g = ''*'' then True
      else if g = required then True
      else if has_suffix g '':rw'' \<and> take (length g - 3) g @ '':ro'' = required then True
      else scopeMatch granted required)"

fun allow_loop :: "string list \<Rightarrow> string list \<Rightarrow> bool" where
  "allow_loop granted [] = True"
| "allow_loop granted (scope # scopes) = (if \<not> scopeMatch granted scope then False else allow_loop granted scopes)"

definition key_allow :: "access_key \<Rightarrow> string list \<Rightarrow> bool" where
  "key_allow ak scopes =
     (if length scopes > length (ak_scopes ak) then False else allow_loop (ak_scopes ak) scopes)"

record identity_token =
  idt_roles :: "string list"
  idt_groups :: "string list"
  idt_scopes :: "string list"
  idt_permissions :: "string list"

definition identity_allow :: "identity_token option \<Rightarrow> string \<Rightarrow> string list \<Rightarrow> bool" where
  "identity_allow it user scopes =
     (case it of None \<Rightarrow> False
      | Some i \<Rightarrow>
          if user = [] then False
          else if List.member (idt_groups i) user then True
          else if idt_scopes i \<noteq> [] \<and> scopes \<noteq> [] then
            (if length scopes > length (idt_scopes i) then False else allow_loop (idt_scopes i) scopes)
          else False)"

lemma scopeMatch_iff:
  "scopeMatch granted required \<longleftrightarrow>
     ''*'' \<in> set granted \<or> required \<in> set granted
     \<or> (\<exists>r. required = r @ '':ro'' \<and> r @ '':rw'' \<in> set granted)"
proof (induction granted)
  case (Cons g granted)
  have suf: "has_suffix g '':rw'' \<and> take (length g - 3) g @ '':ro'' = required
      \<longleftrightarrow> (\<exists>r. required = r @ '':ro'' \<and> r @ '':rw'' = g)"
  proof
    assume h: "has_suffix g '':rw'' \<and> take (length g - 3) g @ '':ro'' = required"
    then have "take 3 (rev g) = ''wr:''" by (simp add: has_suffix_def has_prefix_def numeral_3_eq_3)
    then have "drop (length g - 3) g = '':rw''"
      by (metis rev_rev_ident rev_take length_rev rev.simps append.simps)
    then have "g = take (length g - 3) g @ '':rw''" by (metis append_take_drop_id)
    with h show "\<exists>r. required = r @ '':ro'' \<and> r @ '':rw'' = g" by metis
  qed (auto simp: has_suffix_def has_prefix_def)
  show ?case using Cons suf by auto
qed simp

lemma allow_loop_iff: "allow_loop granted scopes \<longleftrightarrow> (\<forall>s \<in> set scopes. scopeMatch granted s)"
  by (induction scopes) auto

section \<open>The exported form of a key\<close>

text \<open>\<open>^[0-9a-f]{12,32}$\<close> and \<open>^[0-9a-zA-Z]{16,64}$\<close>.\<close>

definition char_in :: "nat \<Rightarrow> nat \<Rightarrow> char \<Rightarrow> bool" where
  "char_in lo hi c \<longleftrightarrow> lo \<le> (of_char c :: nat) \<and> (of_char c :: nat) \<le> hi"

definition is_hex_char :: "char \<Rightarrow> bool" where
  "is_hex_char c \<longleftrightarrow> char_in 48 57 c \<or> char_in 97 102 c"

definition is_base62_char :: "char \<Rightarrow> bool" where
  "is_base62_char c \<longleftrightarrow> char_in 48 57 c \<or> char_in 97 122 c \<or> char_in 65 90 c"

definition akIdValid :: "string \<Rightarrow> bool" where
  "akIdValid s \<longleftrightarrow> 12 \<le> length s \<and> length s \<le> 32 \<and> list_all is_hex_char s"

definition akSecretValid :: "string \<Rightarrow> bool" where
  "akSecretValid s \<longleftrightarrow> 16 \<le> length s \<and> length s \<le> 64 \<and> list_all is_base62_char s"

definition empty_key :: access_key where
  "empty_key = \<lparr>ak_id = [], ak_secret = [], ak_user = [], ak_type = [], ak_state = [], ak_roles = [], ak_scopes = [],
     ak_description = []\<rparr>"

definition accessKeyPrefix :: string where
  "accessKeyPrefix = ''ak_''"

definition Export :: "access_key option \<Rightarrow> string" where
  "Export it = (case it of Some ak \<Rightarrow> accessKeyPrefix @ ak_id ak @ ''_'' @ ak_secret ak | None \<Rightarrow> [])"

text \<open>\<open>strings.SplitN(s, sep, 2)\<close>: the parts before and after the first separator.\<close>

definition split_first :: "char \<Rightarrow> string \<Rightarrow> (string \<times> string) option" where
  "split_first c s =
     (if c \<in> set s then let p = takeWhile (\<lambda>d. d \<noteq> c) s in Some (p, drop (Suc (length p)) s) else None)"

definition ParseAccessKey :: "string \<Rightarrow> auth_err + access_key" where
  "ParseAccessKey ak =
     (if \<not> has_prefix ak accessKeyPrefix then Inl (InvalidKey ''invalid access-key format: missing prefix'')
      else case split_first (CHR ''_'') (drop (length accessKeyPrefix) ak) of
        None \<Rightarrow> Inl (InvalidKey ''invalid access-key structure'')
      | Some (p0, p1) \<Rightarrow>
          if \<not> akIdValid p0 \<or> \<not> akSecretValid p1 then Inl (InvalidKey ''invalid access-key id format'')
          else Inr (empty_key\<lparr>ak_id := p0, ak_secret := p1\<rparr>))"

lemma split_first_append: "c \<notin> set x \<Longrightarrow> split_first c (x @ c # y) = Some (x, y)"
proof -
  assume c: "c \<notin> set x"
  then have "takeWhile (\<lambda>d. d \<noteq> c) (x @ c # y) = x" by (auto simp: takeWhile_append takeWhile_eq_all_conv)
  then show ?thesis by (simp add: split_first_def)
qed

lemma split_first_Some: "split_first c s = Some (x, y) \<Longrightarrow> s = x @ c # y \<and> c \<notin> set x"
proof -
  assume a: "split_first c s = Some (x, y)"
  then have "c \<in> set s" by (auto simp: split_first_def split: if_splits)
  then obtain x' y' where s: "s = x' @ c # y'" "c \<notin> set x'" by (metis split_list_first)
  with a split_first_append [OF s(2), of y'] show ?thesis by simp
qed

lemma hex_no_sep: "list_all is_hex_char s \<Longrightarrow> CHR ''_'' \<notin> set s"
  by (auto simp: list_all_iff is_hex_char_def char_in_def)

lemma parse_export_fields:
  "akIdValid i \<Longrightarrow> akSecretValid s \<Longrightarrow>
    ParseAccessKey (accessKeyPrefix @ i @ ''_'' @ s) = Inr (empty_key\<lparr>ak_id := i, ak_secret := s\<rparr>)"
  using split_first_append [OF hex_no_sep, of i s]
  by (simp add: ParseAccessKey_def akIdValid_def)

section \<open>Generating a key\<close>

definition hex_digit :: "nat \<Rightarrow> char" where
  "hex_digit d = ''0123456789abcdef'' ! d"

definition hex_byte :: "u8 \<Rightarrow> string" where
  "hex_byte b = [hex_digit (unat b div 16), hex_digit (unat b mod 16)]"

definition hex_encode :: "u8 list \<Rightarrow> string" where
  "hex_encode bs = concat (map hex_byte bs)"

definition Uint32ToHexString :: "u32 \<Rightarrow> string" where
  "Uint32ToHexString v =
     hex_encode [ucast (drop_bit 24 v), ucast (drop_bit 16 v), ucast (drop_bit 8 v), ucast v]"

text \<open>\<open>RandHexString(n)\<close>: \<open>rnd\<close> is what the random source returned for the n bytes.\<close>

definition RandHexString :: "u8 list option \<Rightarrow> string" where
  "RandHexString rnd = (case rnd of None \<Rightarrow> [] | Some bs \<Rightarrow> hex_encode bs)"

definition seq_len :: "int \<Rightarrow> int" where
  "seq_len slen =
     (let s = (if gomod slen 2 > 0 then slen + 1 else slen) in
      if s < 2 then 2 else if s > 8 then 8 else s)"

definition rand_len :: "int \<Rightarrow> int" where
  "rand_len rlen =
     (let r = (if gomod rlen 2 > 0 then rlen + 1 else rlen) in
      if r < 2 then 2 else if r > 1204 then 1024 else r)"

definition SeqRandHexString :: "int \<Rightarrow> int \<Rightarrow> int \<Rightarrow> (nat \<Rightarrow> u8 list option) \<Rightarrow> string" where
  "SeqRandHexString slen rlen now rnd =
     (let s = seq_len slen; id = Uint32ToHexString (word_of_int now);
          id' = (if s < 8 then take (nat s) id else id)
      in id' @ RandHexString (rnd (nat (rand_len rlen div 2))))"

definition base62Chars :: string where
  "base62Chars = ''0123456789abcdefghijklmnopqrstuvwxyzABCDEFGHIJKLMNOPQRSTUVWXYZ''"

text \<open>The inner loop over one buffer of random bytes, with \<open>n\<close> characters still wanted.\<close>

fun base62_take :: "u8 list \<Rightarrow> nat \<Rightarrow> string" where
  "base62_take [] n = []"
| "base62_take (b # bs) n =
     (if n = 0 then []
      else if b < 248 then base62Chars ! (unat b mod 62) # base62_take bs (n - 1)
      else base62_take bs n)"

text \<open>
  The outer loop reads a buffer per round; the list holds what the random source returns for each
  call (\<open>None\<close> is an error). \<open>None\<close> as a result: the loop is still waiting for random bytes.
\<close>

fun base62_loop :: "u8 list option list \<Rightarrow> nat \<Rightarrow> (string option) option" where
  "base62_loop rs 0 = Some (Some [])"
| "base62_loop [] (Suc n) = None"
| "base62_loop (None # rs) (Suc n) = Some None"
| "base62_loop (Some bs # rs) (Suc n) =
     (let got = base62_take bs (Suc n) in
      map_option (map_option ((@) got)) (base62_loop rs (Suc n - length got)))"

definition GenerateSecretKeyBase62 :: "int \<Rightarrow> u8 list option list \<Rightarrow> (string option) option" where
  "GenerateSecretKeyBase62 len rs = (if len \<le> 0 then Some (Some []) else base62_loop rs (nat len))"

text \<open>\<open>NewAccessKey\<close> drops the error of the generator: the secret is then empty.\<close>

definition NewAccessKey :: "int \<Rightarrow> (nat \<Rightarrow> u8 list option) \<Rightarrow> u8 list option list \<Rightarrow> access_key option" where
  "NewAccessKey now rnd rs =
     map_option (\<lambda>sk. empty_key\<lparr>ak_id := SeqRandHexString 4 12 now rnd,
                               ak_secret := (case sk of Some s \<Rightarrow> s | None \<Rightarrow> [])\<rparr>)
       (GenerateSecretKeyBase62 48 rs)"

definition NewUserAccessKey :: "int \<Rightarrow> (nat \<Rightarrow> u8 list option) \<Rightarrow> u8 list option list \<Rightarrow> access_key option" where
  "NewUserAccessKey now rnd rs = map_option (\<lambda>ak. ak\<lparr>ak_type := ''User''\<rparr>) (NewAccessKey now rnd rs)"

definition NewAppAccessKey :: "int \<Rightarrow> (nat \<Rightarrow> u8 list option) \<Rightarrow> u8 list option list \<Rightarrow> access_key option" where
  "NewAppAccessKey now rnd rs = map_option (\<lambda>ak. ak\<lparr>ak_type := ''App''\<rparr>) (NewAccessKey now rnd rs)"

lemma base62_take_chars: "list_all is_base62_char (base62_take bs n)"
proof (induction bs n rule: base62_take.induct)
  case (2 b bs n)
  have all: "list_all is_base62_char base62Chars" by code_simp
  have "unat b mod 62 < length base62Chars" by (simp add: base62Chars_def)
  with all have "is_base62_char (base62Chars ! (unat b mod 62))" by (simp add: list_all_length)
  with 2 show ?case by auto
qed simp

lemma base62_take_length: "length (base62_take bs n) \<le> n"
  by (induction bs n rule: base62_take.induct) auto

lemma base62_take_accepts:
  "length (base62_take bs n) = min n (length (filter (\<lambda>b. b < 248) bs))"
  by (induction bs n rule: base62_take.induct) auto

lemma base62_loop_ok:
  "base62_loop rs n = Some (Some s) \<Longrightarrow> length s = n \<and> list_all is_base62_char s"
proof (induction rs n arbitrary: s rule: base62_loop.induct)
  case (4 bs rs n)
  obtain t where t: "base62_loop rs (Suc n - length (base62_take bs (Suc n))) = Some (Some t)"
      "s = base62_take bs (Suc n) @ t"
    using "4.prems" by (auto simp: Let_def simp del: base62_take.simps)
  have "length t = Suc n - length (base62_take bs (Suc n)) \<and> list_all is_base62_char t"
    by (rule "4.IH" [OF refl t(1)])
  then show ?case using base62_take_chars [of bs "Suc n"] base62_take_length [of bs "Suc n"] t(2)
    by (simp del: base62_take.simps)
qed simp_all

lemma hex_encode_length: "length (hex_encode bs) = 2 * length bs"
  by (induction bs) (simp_all add: hex_encode_def hex_byte_def)

lemma hex_digit_ok: "d < 16 \<Longrightarrow> is_hex_char (hex_digit d)"
proof -
  assume d: "d < 16"
  have all: "list_all is_hex_char ''0123456789abcdef''" by code_simp
  have "d < length ''0123456789abcdef''" using d by simp
  with all show ?thesis unfolding hex_digit_def list_all_length by blast
qed

lemma hex_encode_chars: "list_all is_hex_char (hex_encode bs)"
proof (induction bs)
  case (Cons b bs)
  have "unat b < 256" using unsigned_less [of b] by simp
  then have "unat b div 16 < 16" by simp
  with Cons show ?case by (simp add: hex_encode_def hex_byte_def hex_digit_ok)
qed (simp add: hex_encode_def)

text \<open>The loop ends: every buffer that holds an accepted byte makes progress.\<close>

lemma base62_loop_ends:
  assumes "length rs \<ge> n" and "\<forall>r \<in> set rs. \<exists>bs. r = Some bs \<and> (\<exists>b \<in> set bs. b < 248)"
  shows "\<exists>s. base62_loop rs n = Some (Some s)"
  using assms
proof (induction rs n rule: base62_loop.induct)
  case (4 bs rs n)
  let ?got = "base62_take bs (Suc n)"
  have "filter (\<lambda>b. b < 248) bs \<noteq> []" using "4.prems"(2) by (auto simp: filter_empty_conv)
  then have "0 < length ?got" using base62_take_accepts [of bs "Suc n"] unfolding length_greater_0_conv [symmetric] by linarith
  then have "length rs \<ge> Suc n - length ?got" using "4.prems"(1) unfolding list.size(4) by linarith
  moreover have "\<forall>r \<in> set rs. \<exists>bs. r = Some bs \<and> (\<exists>b \<in> set bs. b < 248)" using "4.prems"(2) by simp
  ultimately obtain s where "base62_loop rs (Suc n - length ?got) = Some (Some s)"
    using "4.IH" [OF refl] by blast
  then show ?case by (simp add: Let_def del: base62_take.simps)
qed simp_all

lemma uint32_hex_ok: "length (Uint32ToHexString v) = 8 \<and> list_all is_hex_char (Uint32ToHexString v)"
  unfolding Uint32ToHexString_def using hex_encode_chars by (simp add: hex_encode_length)

lemma seq_rand_id_valid:
  assumes "rnd 6 = Some bs" "length bs = 6"
  shows "akIdValid (SeqRandHexString 4 12 now rnd)"
proof -
  have len: "seq_len 4 = 4" "rand_len 12 = 12" by (simp_all add: seq_len_def rand_len_def)
  have id: "SeqRandHexString 4 12 now rnd = take 4 (Uint32ToHexString (word_of_int now)) @ hex_encode bs"
    using assms(1) by (simp add: SeqRandHexString_def len RandHexString_def)
  have "list_all is_hex_char (take 4 (Uint32ToHexString (word_of_int now)))"
    using uint32_hex_ok by (auto simp: list_all_iff dest: in_set_takeD)
  then show ?thesis
    using hex_encode_chars [of bs] uint32_hex_ok [of "word_of_int now"] assms(2)
    by (simp add: id akIdValid_def hex_encode_length)
qed

text \<open>
  A generated key survives its text form: whatever the random source returns for the six bytes of the
  id and the buffers of the secret, as long as it does not fail and every buffer holds a byte below
  248, key generation ends and parsing the exported text of the key gives back its id and its secret.
\<close>

theorem new_key_export_parse:
  assumes "rnd 6 = Some bs" "length bs = 6"
    and "length rs \<ge> 48" "\<forall>r \<in> set rs. \<exists>bs. r = Some bs \<and> (\<exists>b \<in> set bs. b < 248)"
  shows "\<exists>ak. NewUserAccessKey now rnd rs = Some ak \<and> ak_type ak = ''User''
           \<and> ParseAccessKey (Export (Some ak)) = Inr (empty_key\<lparr>ak_id := ak_id ak, ak_secret := ak_secret ak\<rparr>)"
proof -
  obtain s where s: "base62_loop rs 48 = Some (Some s)" using base62_loop_ends [of 48 rs] assms(3,4) by blast
  then have "akSecretValid s" using base62_loop_ok [OF s] by (simp add: akSecretValid_def)
  then show ?thesis
    using parse_export_fields [OF seq_rand_id_valid [of rnd bs now]] assms(1,2) s
    by (simp add: NewUserAccessKey_def NewAccessKey_def GenerateSecretKeyBase62_def Export_def)
qed

theorem new_key_export_parse_witness:
  "\<exists>ak. NewUserAccessKey 1700000000 (\<lambda>n. Some (replicate n 7)) (replicate 48 (Some [3, 250])) = Some ak
      \<and> ak_type ak = ''User''
      \<and> ParseAccessKey (Export (Some ak)) = Inr (empty_key\<lparr>ak_id := ak_id ak, ak_secret := ak_secret ak\<rparr>)"
  by (rule new_key_export_parse [where bs = "replicate 6 7"]) (simp_all add: set_replicate_conv_if)

section \<open>encoding/base64: RawURLEncoding\<close>

definition b64_alphabet :: string where
  "b64_alphabet = ''ABCDEFGHIJKLMNOPQRSTUVWXYZabcdefghijklmnopqrstuvwxyz0123456789-_''"

definition b64_char :: "nat \<Rightarrow> char" where
  "b64_char n = b64_alphabet ! n"

definition b64_val :: "char \<Rightarrow> nat option" where
  "b64_val c =
     (if char_in 65 90 c then Some (of_char c - 65)
      else if char_in 97 122 c then Some (of_char c - 71)
      else if char_in 48 57 c then Some (of_char c + 4)
      else if c = CHR ''-'' then Some 62
      else if c = CHR ''_'' then Some 63
      else None)"

fun b64_pack :: "nat list \<Rightarrow> nat list" where
  "b64_pack [] = []"
| "b64_pack [a] = [a div 4, a mod 4 * 16]"
| "b64_pack [a, b] = [a div 4, a mod 4 * 16 + b div 16, b mod 16 * 4]"
| "b64_pack (a # b # c # r) =
     [a div 4, a mod 4 * 16 + b div 16, b mod 16 * 4 + c div 64, c mod 64] @ b64_pack r"

text \<open>The decoder is not strict: the unused low bits of the last character are dropped.\<close>

fun b64_unpack :: "nat list \<Rightarrow> nat list option" where
  "b64_unpack [] = Some []"
| "b64_unpack [a] = None"
| "b64_unpack [a, b] = Some [a * 4 + b div 16]"
| "b64_unpack [a, b, c] = Some [a * 4 + b div 16, b mod 16 * 16 + c div 4]"
| "b64_unpack (a # b # c # d # r) =
     map_option ((@) [a * 4 + b div 16, b mod 16 * 16 + c div 4, c mod 4 * 64 + d]) (b64_unpack r)"

fun all_vals :: "string \<Rightarrow> nat list option" where
  "all_vals [] = Some []"
| "all_vals (c # s) =
     (case b64_val c of None \<Rightarrow> None | Some v \<Rightarrow> map_option ((#) v) (all_vals s))"

definition bytesEncode :: "string \<Rightarrow> string" where
  "bytesEncode b = map b64_char (b64_pack (map of_char b))"

text \<open>Line breaks are skipped wherever they stand.\<close>

definition bytesDecode :: "string \<Rightarrow> string option" where
  "bytesDecode s =
     (case all_vals (filter (\<lambda>c. c \<noteq> CHR 0x0D \<and> c \<noteq> CHR 0x0A) s) of
        None \<Rightarrow> None | Some vs \<Rightarrow> map_option (map char_of) (b64_unpack vs))"

lemma b64_alphabet_table:
  "list_all (\<lambda>n. b64_val (b64_char n) = Some n \<and> b64_char n \<noteq> CHR ''.'' \<and> b64_char n \<noteq> CHR 0x0D \<and> b64_char n \<noteq> CHR 0x0A)
     [0 ..< 64]"
  by code_simp

lemma b64_char_props:
  "n < 64 \<Longrightarrow> b64_val (b64_char n) = Some n \<and> b64_char n \<noteq> CHR ''.'' \<and> b64_char n \<noteq> CHR 0x0D \<and> b64_char n \<noteq> CHR 0x0A"
  using b64_alphabet_table unfolding list_all_iff by simp

lemma b64_pack_bound: "\<forall>a \<in> set bs. a < 256 \<Longrightarrow> \<forall>v \<in> set (b64_pack bs). v < 64"
  by (induction bs rule: b64_pack.induct) auto

lemma b64_unpack_pack: "\<forall>a \<in> set bs. a < 256 \<Longrightarrow> b64_unpack (b64_pack bs) = Some bs"
  by (induction bs rule: b64_pack.induct) auto

lemma all_vals_chars: "\<forall>v \<in> set vs. v < 64 \<Longrightarrow> all_vals (map b64_char vs) = Some vs"
  by (induction vs) (auto simp: b64_char_props)

lemma of_char_bounded: "\<forall>a \<in> set (map of_char (s :: string)). (a :: nat) < 256"
  by auto

lemma bytesEncode_chars: "c \<in> set (bytesEncode b) \<Longrightarrow> c \<noteq> CHR ''.'' \<and> c \<noteq> CHR 0x0D \<and> c \<noteq> CHR 0x0A"
  using b64_pack_bound [OF of_char_bounded, of b] b64_char_props by (force simp: bytesEncode_def)

lemma bytes_roundtrip [simp]: "bytesDecode (bytesEncode b) = Some b"
proof -
  have "filter (\<lambda>c. c \<noteq> CHR 0x0D \<and> c \<noteq> CHR 0x0A) (bytesEncode b) = bytesEncode b"
    using bytesEncode_chars [of _ b] by (simp add: filter_id_conv)
  then show ?thesis
    using all_vals_chars [OF b64_pack_bound [OF of_char_bounded, of b]] b64_unpack_pack [OF of_char_bounded, of b]
    by (simp add: bytesDecode_def bytesEncode_def o_def)
qed

lemma bytesEncode_no_dot: "CHR ''.'' \<notin> set (bytesEncode b)"
  using bytesEncode_chars by blast

section \<open>Signers\<close>

text \<open>
  \<open>crypto/hmac\<close> with a hash is an argument: \<open>hmac hash key message\<close>. The callers pass a
  string or a byte slice as the key, so the RSA and ECDSA signers always refuse it.
\<close>

type_synonym hmac_fn = "string \<Rightarrow> string \<Rightarrow> string \<Rightarrow> string"

datatype signer = HmacSigner string string | RsaSigner string | EcdsaSigner string | NoneSigner

fun signer_name :: "signer \<Rightarrow> string" where
  "signer_name (HmacSigner n h) = n"
| "signer_name (RsaSigner n) = n"
| "signer_name (EcdsaSigner n) = n"
| "signer_name NoneSigner = ''none''"

fun signer_sign :: "hmac_fn \<Rightarrow> signer \<Rightarrow> string \<Rightarrow> string \<Rightarrow> auth_err + string" where
  "signer_sign hmac (HmacSigner n h) msg key = Inr (hmac h key msg)"
| "signer_sign hmac (RsaSigner n) msg key = Inl (SignFailed ''invalid key (type:rsa)'')"
| "signer_sign hmac (EcdsaSigner n) msg key = Inl (SignFailed ''invalid key (type:ecdsa)'')"
| "signer_sign hmac NoneSigner msg key = Inl (SignFailed ''none signer'')"

definition DefaultSigner :: signer where
  "DefaultSigner = HmacSigner ''HS256'' ''SHA256''"

definition registered_signers :: "signer list" where
  "registered_signers =
     [HmacSigner ''HS256'' ''SHA256'', HmacSigner ''HS512'' ''SHA512'', RsaSigner ''RS256'', RsaSigner ''RS512'',
      EcdsaSigner ''ES256'', EcdsaSigner ''ES512'']"

definition signers_signer :: "string \<Rightarrow> signer" where
  "signers_signer name =
     (case find (\<lambda>s. signer_name s = name) registered_signers of Some s \<Rightarrow> s | None \<Rightarrow> NoneSigner)"

text \<open>\<open>encoding/json\<close> on the two structures a token carries.\<close>

record json_codec =
  j_hdr_enc :: "token_header \<Rightarrow> string"
  j_hdr_dec :: "string \<Rightarrow> token_header option"
  j_clm_enc :: "auth_claims \<Rightarrow> string"
  j_clm_dec :: "string \<Rightarrow> auth_claims option"

definition json_carries :: "json_codec \<Rightarrow> token_header \<Rightarrow> auth_claims \<Rightarrow> bool" where
  "json_carries J h c \<longleftrightarrow> j_hdr_dec J (j_hdr_enc J h) = Some h \<and> j_clm_dec J (j_clm_enc J c) = Some c"

section \<open>The cache of consumed nonces\<close>

record replay_cache =
  rc_items :: "string \<rightharpoonup> int"
  rc_inserts :: int

definition newReplayCache :: replay_cache where
  "newReplayCache = \<lparr>rc_items = Map.empty, rc_inserts = 0\<rparr>"

definition sweepLocked :: "int \<Rightarrow> replay_cache \<Rightarrow> replay_cache" where
  "sweepLocked now rc =
     rc\<lparr>rc_items := (\<lambda>k. case rc_items rc k of Some e \<Rightarrow> if e \<le> now then None else Some e | None \<Rightarrow> None)\<rparr>"

definition nonce_key :: "string \<Rightarrow> string \<Rightarrow> string" where
  "nonce_key kid nonce = kid @ CHR 0x00 # nonce"

definition consume :: "int \<Rightarrow> string \<Rightarrow> string \<Rightarrow> replay_cache \<Rightarrow> replay_cache \<times> bool" where
  "consume now kid nonce rc =
     (if nonce = [] then (rc, True)
      else let k = nonce_key kid nonce in
        if (case rc_items rc k of Some e \<Rightarrow> e > now | None \<Rightarrow> False) then (rc, False)
        else
          let rc1 = rc\<lparr>rc_items := (rc_items rc)(k \<mapsto> i64 (now + tokenReplayRetention)),
                       rc_inserts := i64 (rc_inserts rc + 1)\<rparr>
          in (if gomod (rc_inserts rc1) replaySweepInterval = 0 then sweepLocked now rc1 else rc1, True))"

section \<open>The registry of keys\<close>

record key_mgr =
  km_items :: "(string \<times> access_key) list"
  km_roles :: "string \<rightharpoonup> string set"
  km_replay :: replay_cache

definition NewAccessKeyManager :: key_mgr where
  "NewAccessKeyManager = \<lparr>km_items = [], km_roles = Map.empty, km_replay = newReplayCache\<rparr>"

definition mgr_set :: "access_key \<Rightarrow> key_mgr \<Rightarrow> key_mgr" where
  "mgr_set k m = m\<lparr>km_items := AList.update (ak_id k) k (km_items m)\<rparr>"

definition mgr_del :: "string \<Rightarrow> key_mgr \<Rightarrow> key_mgr" where
  "mgr_del i m = m\<lparr>km_items := AList.delete i (km_items m)\<rparr>"

definition mgr_key :: "key_mgr \<Rightarrow> string \<Rightarrow> access_key option" where
  "mgr_key m i = map_of (km_items m) i"

definition mgr_count :: "key_mgr \<Rightarrow> nat" where
  "mgr_count m = length (km_items m)"

definition mgr_set_role :: "string \<Rightarrow> string list \<Rightarrow> key_mgr \<Rightarrow> key_mgr" where
  "mgr_set_role name perms m =
     m\<lparr>km_roles := (km_roles m)(name \<mapsto>
        (case km_roles m name of Some ps \<Rightarrow> ps | None \<Rightarrow> {}) \<union> set perms)\<rparr>"

text \<open>\<open>RandKey\<close>: the first key of a map iteration, an arbitrary one (\<open>pick\<close>).\<close>

definition RandKey :: "nat \<Rightarrow> access_key \<Rightarrow> key_mgr \<Rightarrow> access_key" where
  "RandKey pick akDefault m =
     (case km_items m of [] \<Rightarrow> akDefault | _ \<Rightarrow> snd (km_items m ! (pick mod length (km_items m))))"

lemma mgr_key_set [simp]: "mgr_key (mgr_set k m) i = (if i = ak_id k then Some k else mgr_key m i)"
  by (simp add: mgr_key_def mgr_set_def update_conv')

lemma mgr_key_del [simp]: "mgr_key (mgr_del j m) i = (if i = j then None else mgr_key m i)"
  by (simp add: mgr_key_def mgr_del_def delete_conv')

lemma mgr_replay_frame [simp]:
  "km_replay (mgr_set k m) = km_replay m" "km_replay (mgr_del i m) = km_replay m"
  "km_replay (mgr_set_role n ps m) = km_replay m"
  by (simp_all add: mgr_set_def mgr_del_def mgr_set_role_def)

section \<open>Tokens\<close>

record access_token =
  t_raw :: string
  t_signing :: string
  t_sign :: string
  t_signer :: signer
  t_header :: token_header
  t_claims :: auth_claims

definition ParseAccessToken :: "json_codec \<Rightarrow> string \<Rightarrow> auth_err + access_token" where
  "ParseAccessToken J s =
     (case split_last (CHR ''.'') s of
        None \<Rightarrow> Inl InvalidToken
      | Some (signing, sign) \<Rightarrow>
          case split_first (CHR ''.'') signing of
            None \<Rightarrow> Inl InvalidToken
          | Some (h, c) \<Rightarrow>
              case bytesDecode h of
                None \<Rightarrow> Inl InvalidToken
              | Some hb \<Rightarrow>
                  case j_hdr_dec J hb of
                    None \<Rightarrow> Inl InvalidToken
                  | Some hdr \<Rightarrow>
                      case bytesDecode c of
                        None \<Rightarrow> Inl InvalidToken
                      | Some cb \<Rightarrow>
                          case j_clm_dec J cb of
                            None \<Rightarrow> Inl InvalidToken
                          | Some clm \<Rightarrow>
                              Inr \<lparr>t_raw = s, t_signing = signing, t_sign = sign,
                                   t_signer = signers_signer (h_alg hdr), t_header = hdr, t_claims = clm\<rparr>)"

definition IsExpired :: "int \<Rightarrow> access_token \<Rightarrow> bool" where
  "IsExpired now t \<longleftrightarrow> c_exp (t_claims t) \<le> now"

definition absInt64 :: "int \<Rightarrow> int" where
  "absInt64 a = (if a < 0 then i64 (- a) else a)"

text \<open>
  \<open>AccessToken.Verify\<close> reads the clock for the expiry check (\<open>t1\<close>), for the freshness check
  (\<open>t2\<close>) and inside \<open>consume\<close> (\<open>t3\<close>).
\<close>

definition token_verify ::
  "hmac_fn \<Rightarrow> int \<Rightarrow> int \<Rightarrow> int \<Rightarrow> access_token \<Rightarrow> key_mgr \<Rightarrow> key_mgr \<times> (auth_err + access_key)" where
  "token_verify hmac t1 t2 t3 t m =
     (case mgr_key m (h_kid (t_header t)) of
        None \<Rightarrow> (m, Inl (KeyNotFound (h_kid (t_header t))))
      | Some ak \<Rightarrow>
          if ak_state ak = AccessKey_State_Disable then (m, Inl (KeyDisabled (h_kid (t_header t))))
          else if IsExpired t1 t then (m, Inl TokenExpired)
          else if absInt64 (i64 (t2 - c_iat (t_claims t))) > appAuthExp then (m, Inl IatExpired)
          else case signer_sign hmac (t_signer t) (t_signing t) (ak_secret ak) of
            Inl e \<Rightarrow> (m, Inl e)
          | Inr b \<Rightarrow>
              if bytesDecode (t_sign t) \<noteq> Some b then (m, Inl VerifyDenied)
              else if c_nonce (t_claims t) \<noteq> [] then
                (let (rc, fresh) = consume t3 (h_kid (t_header t)) (c_nonce (t_claims t)) (km_replay m)
                 in if \<not> fresh then (m\<lparr>km_replay := rc\<rparr>, Inl TokenReplayed)
                    else (m\<lparr>km_replay := rc\<rparr>, Inr ak))
              else (m, Inr ak))"

definition token_text :: "json_codec \<Rightarrow> token_header \<Rightarrow> auth_claims \<Rightarrow> string" where
  "token_text J h c = bytesEncode (j_hdr_enc J h) @ ''.'' @ bytesEncode (j_clm_enc J c)"

definition NewAccessToken :: "int \<Rightarrow> string \<Rightarrow> access_token" where
  "NewAccessToken tn uuid =
     \<lparr>t_raw = [], t_signing = [], t_sign = [], t_signer = DefaultSigner,
      t_header = \<lparr>h_alg = signer_name DefaultSigner, h_typ = [], h_kid = []\<rparr>,
      t_claims = \<lparr>c_jti = [], c_iat = tn, c_exp = i64 (tn + appAuthExp), c_sub = [], c_nonce = [], c_state = uuid\<rparr>\<rparr>"

text \<open>\<open>SignToken\<close>: the token is updated in place; a failing signer returns the empty string and no error.\<close>

definition SignToken ::
  "hmac_fn \<Rightarrow> json_codec \<Rightarrow> nat \<Rightarrow> access_key \<Rightarrow> int \<Rightarrow> key_mgr \<Rightarrow> access_token
     \<Rightarrow> access_token \<times> (auth_err + string)" where
  "SignToken hmac J pick akDefault tn m t =
     (let (t, ako) = (if h_kid (t_header t) = [] then
                        let ak = RandKey pick akDefault m
                        in (t\<lparr>t_header := (t_header t)\<lparr>h_kid := ak_id ak\<rparr>\<rparr>, Some ak)
                      else (t, mgr_key m (h_kid (t_header t))))
      in case ako of
        None \<Rightarrow> (t, Inl (KeyNotFound (h_kid (t_header t))))
      | Some ak \<Rightarrow>
          if ak_state ak = AccessKey_State_Disable then (t, Inl (KeyDisabled (h_kid (t_header t))))
          else
            let t = (if c_iat (t_claims t) = 0 then t\<lparr>t_claims := (t_claims t)\<lparr>c_iat := tn\<rparr>\<rparr> else t);
                t = (if c_exp (t_claims t) \<le> c_iat (t_claims t)
                     then t\<lparr>t_claims := (t_claims t)\<lparr>c_exp := i64 (c_iat (t_claims t) + appAuthExp)\<rparr>\<rparr> else t);
                t = (if signer_name (t_signer t) \<noteq> h_alg (t_header t)
                     then t\<lparr>t_header := (t_header t)\<lparr>h_alg := signer_name DefaultSigner\<rparr>,
                            t_signer := signers_signer (signer_name DefaultSigner)\<rparr> else t);
                s = token_text J (t_header t) (t_claims t)
            in case signer_sign hmac (t_signer t) s (ak_secret ak) of
                 Inl e \<Rightarrow> (t, Inr [])
               | Inr bs \<Rightarrow> (t, Inr (s @ ''.'' @ bytesEncode bs)))"

text \<open>A client's credential mints a token for every call, with a fresh nonce.\<close>

record app_credential =
  cr_ak :: access_key
  cr_jti :: string
  cr_signer :: signer

definition NewAppCredential :: "access_key \<Rightarrow> signer option \<Rightarrow> app_credential" where
  "NewAppCredential ak sg =
     \<lparr>cr_ak = ak, cr_jti = [], cr_signer = (case sg of Some s \<Rightarrow> s | None \<Rightarrow> DefaultSigner)\<rparr>"

definition credential_header :: "app_credential \<Rightarrow> token_header" where
  "credential_header cr = \<lparr>h_alg = signer_name (cr_signer cr), h_typ = [], h_kid = ak_id (cr_ak cr)\<rparr>"

definition credential_claims :: "int \<Rightarrow> string \<Rightarrow> app_credential \<Rightarrow> auth_claims" where
  "credential_claims tn nonce cr =
     \<lparr>c_jti = (if ak_type (cr_ak cr) = ''App'' then cr_jti cr else []), c_iat = tn, c_exp = i64 (tn + appAuthExp),
      c_sub = [], c_nonce = nonce, c_state = []\<rparr>"

definition AuthToken ::
  "hmac_fn \<Rightarrow> json_codec \<Rightarrow> string \<Rightarrow> int \<Rightarrow> string \<Rightarrow> app_credential \<Rightarrow> app_credential \<times> string" where
  "AuthToken hmac J uuid tn nonce cr0 =
     (let cr = (if cr_jti cr0 = [] then cr0\<lparr>cr_jti := uuid\<rparr> else cr0);
          s = token_text J (credential_header cr) (credential_claims tn nonce cr);
          bs = (case signer_sign hmac (cr_signer cr) s (ak_secret (cr_ak cr)) of Inr b \<Rightarrow> b | Inl _ \<Rightarrow> [])
      in (cr, s @ ''.'' @ bytesEncode bs))"

section \<open>The validator of a request\<close>

record app_validator =
  av_at :: "access_token option"
  av_ak :: "access_key option"

definition empty_validator :: app_validator where
  "empty_validator = \<lparr>av_at = None, av_ak = None\<rparr>"

definition NewAppValidator :: "json_codec \<Rightarrow> string \<Rightarrow> auth_err + app_validator" where
  "NewAppValidator J token =
     (case ParseAccessToken J token of Inl e \<Rightarrow> Inl e | Inr at \<Rightarrow> Inr \<lparr>av_at = Some at, av_ak = None\<rparr>)"

text \<open>The outcome of a validator's \<open>Verify\<close> is kept, so a second call does not consume the nonce again.\<close>

definition validator_verify ::
  "hmac_fn \<Rightarrow> int \<Rightarrow> int \<Rightarrow> int \<Rightarrow> key_mgr \<Rightarrow> app_validator \<Rightarrow> key_mgr \<times> app_validator \<times> auth_err option" where
  "validator_verify hmac t1 t2 t3 m av =
     (case av_ak av of
        Some _ \<Rightarrow> (m, av, None)
      | None \<Rightarrow>
          case av_at av of
            None \<Rightarrow> (m, av, Some NilDereference)
          | Some at \<Rightarrow>
              case token_verify hmac t1 t2 t3 at m of
                (m', Inl e) \<Rightarrow> (m', av, Some e)
              | (m', Inr ak) \<Rightarrow> (m', av\<lparr>av_ak := Some ak\<rparr>, None))"

definition validator_key :: "app_validator \<Rightarrow> access_key" where
  "validator_key av = (case av_ak av of Some ak \<Rightarrow> ak | None \<Rightarrow> empty_key)"

definition validator_allow :: "app_validator \<Rightarrow> string list \<Rightarrow> bool" where
  "validator_allow av scopes = (case av_ak av of Some ak \<Rightarrow> key_allow ak scopes | None \<Rightarrow> False)"

text \<open>
  \<open>NewGrpcAppValidator\<close>: the request metadata is absent (\<open>None\<close>) or gives the values of the
  header \<open>x-inauth2\<close>.
\<close>

definition NewGrpcAppValidator ::
  "hmac_fn \<Rightarrow> json_codec \<Rightarrow> int \<Rightarrow> int \<Rightarrow> int \<Rightarrow> string list option \<Rightarrow> key_mgr
     \<Rightarrow> key_mgr \<times> (auth_err + app_validator)" where
  "NewGrpcAppValidator hmac J t1 t2 t3 md m =
     (case md of
        None \<Rightarrow> (m, Inl (Unauthenticated ''metadata is not provided''))
      | Some [] \<Rightarrow> (m, Inl (Unauthenticated ''authorization token is missing''))
      | Some (v # _) \<Rightarrow>
          case NewAppValidator J v of
            Inl e \<Rightarrow> (m, Inl e)
          | Inr av \<Rightarrow>
              case validator_verify hmac t1 t2 t3 m av of
                (m', av', Some e) \<Rightarrow> (m', Inl e)
              | (m', av', None) \<Rightarrow> (m', Inr av'))"

text \<open>\<open>ParseAccessTokenWithContext\<close>, used to attribute a failed attempt.\<close>

definition ParseAccessTokenWithContext :: "json_codec \<Rightarrow> string list option \<Rightarrow> auth_err + access_token" where
  "ParseAccessTokenWithContext J md =
     (case md of
        Some (v # _) \<Rightarrow> if length v < 5 then Inl InvalidToken else ParseAccessToken J v
      | _ \<Rightarrow> Inl InvalidToken)"

record session_token =
  st_access :: "access_token option"
  st_identity :: "identity_token option"

definition session_allow :: "session_token option \<Rightarrow> string \<Rightarrow> string \<Rightarrow> bool" where
  "session_allow s user permission =
     (case s of None \<Rightarrow> False
      | Some st \<Rightarrow>
          case st_access st of None \<Rightarrow> False
          | Some at \<Rightarrow>
              case st_identity st of None \<Rightarrow> False
              | Some i \<Rightarrow>
                  if user \<noteq> [] \<and> c_sub (t_claims at) \<noteq> user then False
                  else List.member (idt_permissions i) permission)"

section \<open>What a verified token proves\<close>

lemma signers_signer_cases:
  "signer_sign hmac (signers_signer alg) msg key = Inr b \<Longrightarrow>
     (alg = ''HS256'' \<and> b = hmac ''SHA256'' key msg) \<or> (alg = ''HS512'' \<and> b = hmac ''SHA512'' key msg)"
  by (auto simp: signers_signer_def registered_signers_def split: if_splits)

lemma signers_default [simp]: "signers_signer ''HS256'' = DefaultSigner" "signer_name DefaultSigner = ''HS256''"
  by (simp_all add: signers_signer_def registered_signers_def DefaultSigner_def)

lemma token_verify_accept:
  assumes "token_verify hmac t1 t2 t3 t m = (m', Inr ak)"
  shows "mgr_key m (h_kid (t_header t)) = Some ak" "ak_state ak \<noteq> AccessKey_State_Disable"
    "t1 < c_exp (t_claims t)" "absInt64 (i64 (t2 - c_iat (t_claims t))) \<le> appAuthExp"
    "\<exists>b. signer_sign hmac (t_signer t) (t_signing t) (ak_secret ak) = Inr b \<and> bytesDecode (t_sign t) = Some b"
    "consume t3 (h_kid (t_header t)) (c_nonce (t_claims t)) (km_replay m) = (km_replay m', True)"
    "m' = m\<lparr>km_replay := km_replay m'\<rparr>"
  using assms
  by (auto simp: token_verify_def IsExpired_def consume_def Let_def
      split: option.splits if_splits sum.splits prod.splits)

lemma token_verify_frame: "token_verify hmac t1 t2 t3 t m = (m', r) \<Longrightarrow> m' = m\<lparr>km_replay := km_replay m'\<rparr>"
  by (auto simp: token_verify_def Let_def split: option.splits if_splits sum.splits prod.splits)

lemma parse_token_fields:
  assumes "ParseAccessToken J s = Inr t"
  shows "s = t_signing t @ ''.'' @ t_sign t" "t_signer t = signers_signer (h_alg (t_header t))"
  using assms
  by (auto simp: ParseAccessToken_def split: option.splits dest!: split_last_Some)

text \<open>C11:
  A request passes the gRPC credential check only with the text of a token whose signature, under HS256
  or HS512 and with the secret of a registered key that is not disabled, is the HMAC of the text before
  the last dot. A token that names another algorithm (none, RS*, ES*, or an unknown one) is never
  accepted, and neither is one whose expiry has passed.
\<close>

theorem grpc_validator_sound:
  assumes "NewGrpcAppValidator hmac J t1 t2 t3 md m = (m', Inr av)"
  shows "\<exists>v vs at ak b. md = Some (v # vs) \<and> ParseAccessToken J v = Inr at \<and> v = t_signing at @ ''.'' @ t_sign at
     \<and> av = \<lparr>av_at = Some at, av_ak = Some ak\<rparr>
     \<and> mgr_key m (h_kid (t_header at)) = Some ak \<and> ak_state ak \<noteq> AccessKey_State_Disable
     \<and> bytesDecode (t_sign at) = Some b
     \<and> (h_alg (t_header at) = ''HS256'' \<and> b = hmac ''SHA256'' (ak_secret ak) (t_signing at)
        \<or> h_alg (t_header at) = ''HS512'' \<and> b = hmac ''SHA512'' (ak_secret ak) (t_signing at))
     \<and> t1 < c_exp (t_claims at)"
proof -
  obtain v vs at where v: "md = Some (v # vs)" "ParseAccessToken J v = Inr at"
    and ver: "validator_verify hmac t1 t2 t3 m \<lparr>av_at = Some at, av_ak = None\<rparr> = (m', av, None)"
    using assms by (auto simp: NewGrpcAppValidator_def NewAppValidator_def
        split: option.splits list.splits sum.splits prod.splits)
  then obtain ak where tv: "token_verify hmac t1 t2 t3 at m = (m', Inr ak)"
      "av = \<lparr>av_at = Some at, av_ak = Some ak\<rparr>"
    by (auto simp: validator_verify_def split: prod.splits sum.splits)
  note acc = token_verify_accept [OF tv(1)]
  obtain b where b: "signer_sign hmac (t_signer at) (t_signing at) (ak_secret ak) = Inr b"
      "bytesDecode (t_sign at) = Some b" using acc(5) by blast
  note f = parse_token_fields [OF v(2)]
  have alg: "h_alg (t_header at) = ''HS256'' \<and> b = hmac ''SHA256'' (ak_secret ak) (t_signing at)
      \<or> h_alg (t_header at) = ''HS512'' \<and> b = hmac ''SHA512'' (ak_secret ak) (t_signing at)"
    by (rule signers_signer_cases) (use b(1) in \<open>simp add: f(2)\<close>)
  show ?thesis using v tv(2) acc(1-3) b(2) f(1) alg by blast
qed

section \<open>Minting a token and presenting it\<close>

lemma parse_signed_text:
  assumes "json_carries J h c"
  shows "ParseAccessToken J (token_text J h c @ ''.'' @ bytesEncode bs) =
     Inr \<lparr>t_raw = token_text J h c @ ''.'' @ bytesEncode bs, t_signing = token_text J h c,
          t_sign = bytesEncode bs, t_signer = signers_signer (h_alg h), t_header = h, t_claims = c\<rparr>"
proof -
  have l: "split_last (CHR ''.'') (token_text J h c @ CHR ''.'' # bytesEncode bs) = Some (token_text J h c, bytesEncode bs)"
    by (rule split_last_append [OF bytesEncode_no_dot])
  have f: "split_first (CHR ''.'') (token_text J h c) = Some (bytesEncode (j_hdr_enc J h), bytesEncode (j_clm_enc J c))"
    using split_first_append [OF bytesEncode_no_dot, of "j_hdr_enc J h"] by (simp add: token_text_def)
  show ?thesis using l f assms by (simp add: ParseAccessToken_def json_carries_def)
qed

definition nonce_live :: "int \<Rightarrow> string \<Rightarrow> string \<Rightarrow> replay_cache \<Rightarrow> bool" where
  "nonce_live now kid nonce rc =
     (case rc_items rc (nonce_key kid nonce) of Some e \<Rightarrow> e > now | None \<Rightarrow> False)"

lemma consume_fresh: "nonce \<noteq> [] \<Longrightarrow> snd (consume now kid nonce rc) \<longleftrightarrow> \<not> nonce_live now kid nonce rc"
  by (auto simp: consume_def nonce_live_def Let_def split: option.splits)

lemma consume_records:
  assumes "consume now kid nonce rc = (rc', True)" "nonce \<noteq> []"
  shows "rc_items rc' (nonce_key kid nonce) = Some (i64 (now + tokenReplayRetention)) \<or> i64 (now + tokenReplayRetention) \<le> now"
  using assms by (auto simp: consume_def sweepLocked_def Let_def split: if_splits option.splits)

definition clock_val :: "int \<Rightarrow> bool" where
  "clock_val t \<longleftrightarrow> 0 \<le> t \<and> t < 2 ^ 62"

lemma clock_add [simp]: "clock_val t \<Longrightarrow> 0 \<le> d \<Longrightarrow> d < 1000 \<Longrightarrow> i64 (t + d) = t + d"
  by (rule i64_id) (simp add: clock_val_def in_i64_def)

lemma clock_diff: "clock_val t \<Longrightarrow> clock_val u \<Longrightarrow> i64 (t - u) = t - u"
  by (rule i64_id) (simp add: clock_val_def in_i64_def)

lemma absInt64_clock: "clock_val t \<Longrightarrow> clock_val u \<Longrightarrow> absInt64 (i64 (t - u)) = \<bar>t - u\<bar>"
proof -
  assume c: "clock_val t" "clock_val u"
  then have "in_i64 (u - t)" by (simp add: clock_val_def in_i64_def)
  with clock_diff [OF c] show ?thesis by (simp add: absInt64_def)
qed

text \<open>
  A token minted by a credential reaches the server as the token the client made, and is accepted when
  the key is registered with the client's secret, the clocks differ by at most a minute and the nonce
  is not remembered.
\<close>

lemma auth_token_parse:
  assumes "AuthToken hmac J uuid tn nonce cr0 = (cr, tok)" "cr_signer cr0 = DefaultSigner"
    and "json_carries J (credential_header cr) (credential_claims tn nonce cr)"
  shows "ParseAccessToken J tok =
     Inr \<lparr>t_raw = tok, t_signing = token_text J (credential_header cr) (credential_claims tn nonce cr),
          t_sign = bytesEncode (hmac ''SHA256'' (ak_secret (cr_ak cr)) (token_text J (credential_header cr) (credential_claims tn nonce cr))),
          t_signer = DefaultSigner, t_header = credential_header cr, t_claims = credential_claims tn nonce cr\<rparr>"
    "cr_ak cr = cr_ak cr0"
proof -
  have cr: "cr = (if cr_jti cr0 = [] then cr0\<lparr>cr_jti := uuid\<rparr> else cr0)"
    using assms(1) by (simp add: AuthToken_def Let_def split: if_splits)
  have sg: "cr_signer cr = DefaultSigner" using assms(2) cr by simp
  have tok: "tok = token_text J (credential_header cr) (credential_claims tn nonce cr) @ ''.'' @
      bytesEncode (hmac ''SHA256'' (ak_secret (cr_ak cr)) (token_text J (credential_header cr) (credential_claims tn nonce cr)))"
    using assms(1) sg unfolding AuthToken_def Let_def cr [symmetric] by (simp add: DefaultSigner_def)
  have alg: "h_alg (credential_header cr) = ''HS256''" using sg by (simp add: credential_header_def)
  show "ParseAccessToken J tok =
     Inr \<lparr>t_raw = tok, t_signing = token_text J (credential_header cr) (credential_claims tn nonce cr),
          t_sign = bytesEncode (hmac ''SHA256'' (ak_secret (cr_ak cr)) (token_text J (credential_header cr) (credential_claims tn nonce cr))),
          t_signer = DefaultSigner, t_header = credential_header cr, t_claims = credential_claims tn nonce cr\<rparr>"
    unfolding tok parse_signed_text [OF assms(3)] alg by simp
  show "cr_ak cr = cr_ak cr0" using cr by simp
qed

text \<open>C22:
  A minted token works: the text a client's credential mints for a call is accepted by the server's
  credential check, and attributed to the registered key, when that key has the client's secret and is
  not disabled, the server's clock is within a minute of the client's, and the nonce is not
  remembered as used. The nonce is remembered afterwards.
\<close>

theorem minted_token_accepted:
  assumes "AuthToken hmac J uuid tn nonce cr0 = (cr, tok)" "cr_signer cr0 = DefaultSigner"
    and "json_carries J (credential_header cr) (credential_claims tn nonce cr)"
    and "mgr_key m (ak_id (cr_ak cr0)) = Some ak" "ak_secret ak = ak_secret (cr_ak cr0)"
    and "ak_state ak \<noteq> AccessKey_State_Disable"
    and "clock_val tn" "clock_val t2" "clock_val t3" "t1 < tn + 60" "\<bar>t2 - tn\<bar> \<le> 60"
    and "nonce \<noteq> []" "\<not> nonce_live t3 (ak_id (cr_ak cr0)) nonce (km_replay m)"
  shows "\<exists>m' at. NewGrpcAppValidator hmac J t1 t2 t3 (Some [tok]) m = (m', Inr \<lparr>av_at = Some at, av_ak = Some ak\<rparr>)
           \<and> nonce_live t3 (ak_id (cr_ak cr0)) nonce (km_replay m')"
proof -
  let ?txt = "token_text J (credential_header cr) (credential_claims tn nonce cr)"
  let ?at = "\<lparr>t_raw = tok, t_signing = ?txt, t_sign = bytesEncode (hmac ''SHA256'' (ak_secret (cr_ak cr)) ?txt),
              t_signer = DefaultSigner, t_header = credential_header cr, t_claims = credential_claims tn nonce cr\<rparr>"
  note p = auth_token_parse [OF assms(1-3)]
  obtain rc where rc: "consume t3 (ak_id (cr_ak cr0)) nonce (km_replay m) = (rc, True)"
    using consume_fresh [OF assms(12), of t3 "ak_id (cr_ak cr0)" "km_replay m"] assms(13) by (metis surjective_pairing)
  have ret: "0 \<le> tokenReplayRetention" "tokenReplayRetention < 1000" "0 < tokenReplayRetention"
    by (simp_all add: tokenReplayRetention_def appAuthExp_def)
  have live: "nonce_live t3 (ak_id (cr_ak cr0)) nonce rc"
    using consume_records [OF rc assms(12)] clock_add [OF assms(9) ret(1,2)] ret(3) by (auto simp: nonce_live_def)
  have exp: "i64 (tn + appAuthExp) = tn + 60" using clock_add [OF assms(7), of 60] by (simp add: appAuthExp_def)
  have tv: "token_verify hmac t1 t2 t3 ?at m = (m\<lparr>km_replay := rc\<rparr>, Inr ak)"
    using assms(4-6,10,11,12) rc absInt64_clock [OF assms(8,7)] exp p(2)
    by (simp add: token_verify_def credential_header_def credential_claims_def IsExpired_def DefaultSigner_def
        appAuthExp_def)
  then show ?thesis
    using p(1) live by (simp add: NewGrpcAppValidator_def NewAppValidator_def validator_verify_def)
qed

section \<open>A token with a nonce is accepted at most once\<close>

text \<open>
  Operations on the registry in the order of their critical sections. A verification carries its three
  clock readings and \<open>tk\<close>, the moment it holds the lock of the cache.
\<close>

datatype key_op =
    OpSet access_key
  | OpDel string
  | OpRole string "string list"
  | OpVerify access_token int int int int

fun key_step :: "hmac_fn \<Rightarrow> key_mgr \<Rightarrow> key_op \<Rightarrow> key_mgr \<times> access_key option" where
  "key_step hmac m (OpSet k) = (mgr_set k m, None)"
| "key_step hmac m (OpDel i) = (mgr_del i m, None)"
| "key_step hmac m (OpRole n ps) = (mgr_set_role n ps m, None)"
| "key_step hmac m (OpVerify t t1 t2 t3 tk) =
     (case token_verify hmac t1 t2 t3 t m of (m', Inr ak) \<Rightarrow> (m', Some ak) | (m', Inl e) \<Rightarrow> (m', None))"

fun op_clocked :: "key_op \<Rightarrow> bool" where
  "op_clocked (OpVerify t t1 t2 t3 tk) \<longleftrightarrow>
     clock_val t1 \<and> clock_val t2 \<and> clock_val t3 \<and> t1 \<le> t2 \<and> t2 \<le> t3 \<and> t3 \<le> tk \<and> tk < t2 + 30"
| "op_clocked _ \<longleftrightarrow> True"

fun op_time :: "key_op \<Rightarrow> int option" where
  "op_time (OpVerify t t1 t2 t3 tk) = Some tk"
| "op_time _ = None"

definition clock_ok :: "key_op list \<Rightarrow> bool" where
  "clock_ok ops \<longleftrightarrow> list_all op_clocked ops \<and> sorted (List.map_filter op_time ops)"

lemma consume_keeps:
  assumes "consume now kid nonce rc = (rc', r)" "rc_items rc k = Some e" "now < e"
  shows "rc_items rc' k = Some e"
  using assms by (auto simp: consume_def sweepLocked_def Let_def split: if_splits option.splits)

lemma key_step_keeps:
  assumes "key_step hmac m op = (m', r)" "op_clocked op" "\<forall>tk. op_time op = Some tk \<longrightarrow> tk < e"
    and "rc_items (km_replay m) k = Some e"
  shows "rc_items (km_replay m') k = Some e"
proof (cases op)
  case (OpVerify t t1 t2 t3 tk)
  have "km_replay m' = km_replay m \<or>
      (\<exists>b. consume t3 (h_kid (t_header t)) (c_nonce (t_claims t)) (km_replay m) = (km_replay m', b))"
    using assms(1) unfolding OpVerify
    by (auto simp: token_verify_def Let_def split: option.splits if_splits sum.splits prod.splits)
  moreover have "t3 < e" using assms(2,3) OpVerify by auto
  ultimately show ?thesis using assms(4) consume_keeps by metis
qed (use assms in auto)

lemma key_run_keeps:
  "run_ops (key_step hmac) m ops = (m', rs) \<Longrightarrow> list_all op_clocked ops
    \<Longrightarrow> \<forall>tk \<in> set (List.map_filter op_time ops). tk < e \<Longrightarrow> rc_items (km_replay m) k = Some e
    \<Longrightarrow> rc_items (km_replay m') k = Some e"
proof (induction ops arbitrary: m rs)
  case (Cons op ops)
  then obtain m1 r rs' where s: "key_step hmac m op = (m1, r)" "run_ops (key_step hmac) m1 ops = (m', rs')"
    by (auto simp del: run_ops.simps(2) simp: run_ops_Cons)
  have "rc_items (km_replay m1) k = Some e"
    by (rule key_step_keeps [OF s(1) _ _ Cons.prems(4)])
       (use Cons.prems(2,3) in \<open>auto simp: map_filter_simps\<close>)
  moreover have "\<forall>tk \<in> set (List.map_filter op_time ops). tk < e"
    using Cons.prems(3) by (auto simp: map_filter_simps split: option.splits)
  ultimately show ?case using Cons.IH [OF s(2)] Cons.prems(2) by simp
qed simp

lemma i64_shift: "\<exists>q. i64 x = x - 2 ^ 64 * q"
  unfolding i64_def by (rule exI [of _ "(x + 2 ^ 63) div 2 ^ 64"]) (simp add: minus_mult_div_eq_mod [symmetric])

lemma absInt64_small: "in_i64 a \<Longrightarrow> absInt64 a \<le> 60 \<Longrightarrow> \<bar>a\<bar> \<le> 60 \<or> a = - (2 ^ 63)"
  by (cases "a = - (2 ^ 63)") (auto simp: absInt64_def in_i64_def split: if_splits)

text \<open>Two moments at which the same \<open>iat\<close> passes the freshness check are at most two minutes apart.\<close>

lemma fresh_window:
  assumes "absInt64 (i64 (t - iat)) \<le> 60" "absInt64 (i64 (t' - iat)) \<le> 60" "clock_val t" "clock_val t'"
  shows "t' - t \<le> 120"
proof -
  obtain p q where p: "i64 (t - iat) = t - iat - 2 ^ 64 * p" and q: "i64 (t' - iat) = t' - iat - 2 ^ 64 * q"
    using i64_shift by metis
  have a: "\<bar>i64 (t - iat)\<bar> \<le> 60 \<or> i64 (t - iat) = - (2 ^ 63)"
    and b: "\<bar>i64 (t' - iat)\<bar> \<le> 60 \<or> i64 (t' - iat) = - (2 ^ 63)"
    using assms(1,2) absInt64_small i64_in by blast+
  have c: "0 \<le> t" "t < 2 ^ 62" "0 \<le> t'" "t' < 2 ^ 62" using assms(3,4) by (simp_all add: clock_val_def)
  consider "q = p" | "q \<ge> p + 1" | "q \<le> p - 1" by linarith
  then show ?thesis
  proof cases
    case 1 then show ?thesis using a b c p q by auto
  next
    case 2 then show ?thesis using a b c p q by auto
  next
    case 3 then show ?thesis using a b c p q by auto
  qed
qed

lemma single_use_core:
  assumes first: "token_verify hmac t1 t2 t3 t m = (m1, Inr ak)" and t: "op_clocked (OpVerify t t1 t2 t3 tk)"
    and run: "run_ops (key_step hmac) m1 ops = (m2, rs)" and ops: "list_all op_clocked ops"
    and times: "\<forall>u \<in> set (List.map_filter op_time ops). u \<le> tk'"
    and second: "token_verify hmac t1' t2' t3' t' m2 = (m3, Inr ak')"
    and t': "op_clocked (OpVerify t' t1' t2' t3' tk')"
    and same: "h_kid (t_header t') = h_kid (t_header t)" "c_nonce (t_claims t') = c_nonce (t_claims t)"
      "c_iat (t_claims t') = c_iat (t_claims t)" "c_nonce (t_claims t) \<noteq> []"
  shows False
proof -
  let ?kid = "h_kid (t_header t)" let ?n = "c_nonce (t_claims t)" let ?e = "t3 + 150"
  note acc = token_verify_accept [OF first] and acc' = token_verify_accept [OF second]
  have ret: "tokenReplayRetention = 150" by (simp add: tokenReplayRetention_def appAuthExp_def)
  have win: "t2' - t2 \<le> 120"
    by (rule fresh_window [of t2 "c_iat (t_claims t)"])
       (use acc(4) acc'(4) t t' same in \<open>simp_all add: appAuthExp_def\<close>)
  then have lt: "tk' < ?e" using t t' by simp
  have e: "i64 (t3 + tokenReplayRetention) = ?e" unfolding ret by (rule clock_add) (use t in simp_all)
  have all: "\<forall>u \<in> set (List.map_filter op_time ops). u < ?e" using times lt by (meson le_less_trans)
  have m1: "rc_items (km_replay m1) (nonce_key ?kid ?n) = Some ?e"
    using consume_records [OF acc(6) same(4)] unfolding e by auto
  have "rc_items (km_replay m2) (nonce_key ?kid ?n) = Some ?e" by (rule key_run_keeps [OF run ops all m1])
  then have "nonce_live t3' ?kid ?n (km_replay m2)" using lt t' by (simp add: nonce_live_def)
  with consume_fresh [OF same(4), of t3' ?kid "km_replay m2"] acc'(6) same show False by simp
qed

text \<open>C7:
  Replay protection: in any sequence of registrations, removals and verifications, a token that carries
  a nonce is accepted at most once. Once a verification has accepted it, every later verification of a
  token with the same key id, nonce and issue time is refused, whatever else happens to the registry and
  however often the cache is swept, provided the clock does not run backwards between critical sections
  and no verification takes 30 seconds. The 64-bit wrap-around of the freshness check is part of the model.
\<close>

theorem nonce_token_single_use:
  assumes "run_ops (key_step hmac) m (xs @ OpVerify t t1 t2 t3 tk # ys @ OpVerify t' t1' t2' t3' tk' # zs) = (m', rs)"
    and "clock_ok (xs @ OpVerify t t1 t2 t3 tk # ys @ OpVerify t' t1' t2' t3' tk' # zs)"
    and "h_kid (t_header t') = h_kid (t_header t)" "c_nonce (t_claims t') = c_nonce (t_claims t)"
    and "c_iat (t_claims t') = c_iat (t_claims t)" "c_nonce (t_claims t) \<noteq> []"
    and "rs ! length xs \<noteq> None"
  shows "rs ! (length xs + 1 + length ys) = None"
proof (rule ccontr)
  assume late: "rs ! (length xs + 1 + length ys) \<noteq> None"
  obtain ma ra mb rb where a: "run_ops (key_step hmac) m xs = (ma, ra)"
    and b: "run_ops (key_step hmac) (fst (key_step hmac ma (OpVerify t t1 t2 t3 tk))) ys = (mb, rb)"
    by (metis surj_pair)
  let ?v = "key_step hmac ma (OpVerify t t1 t2 t3 tk)" and ?w = "key_step hmac mb (OpVerify t' t1' t2' t3' tk')"
  have len: "length ra = length xs" "length rb = length ys" using run_ops_length [OF a] run_ops_length [OF b] by simp_all
  obtain rc where "rs = ra @ snd ?v # rb @ snd ?w # rc"
    using assms(1) a b by (auto simp: run_ops_append Let_def split: prod.splits simp del: key_step.simps)
  then have "snd ?v \<noteq> None" "snd ?w \<noteq> None"
    using assms(7) late len by (simp_all add: nth_append del: key_step.simps)
  then obtain m1 ak m3 ak' where v: "token_verify hmac t1 t2 t3 t ma = (m1, Inr ak)" "fst ?v = m1"
    and w: "token_verify hmac t1' t2' t3' t' mb = (m3, Inr ak')"
    by (auto split: prod.splits sum.splits)
  have ck: "op_clocked (OpVerify t t1 t2 t3 tk)" "list_all op_clocked ys" "op_clocked (OpVerify t' t1' t2' t3' tk')"
    using assms(2) unfolding clock_ok_def by (simp_all del: op_clocked.simps)
  have "\<forall>u \<in> set (List.map_filter op_time ys). u \<le> tk'"
    using assms(2) unfolding clock_ok_def by (auto simp: map_filter_simps sorted_append map_filter_append)
  then show False
    using single_use_core [OF v(1) ck(1) _ ck(2) _ w ck(3) assms(3-6)] b v(2) by blast
qed

section \<open>Concrete runs\<close>

text \<open>A line codec for the two structures (fields separated by a bar) and a transparent keyed digest.\<close>

fun split_bar :: "string \<Rightarrow> string list" where
  "split_bar [] = [[]]"
| "split_bar (c # s) =
     (if c = CHR ''|'' then [] # split_bar s
      else case split_bar s of [] \<Rightarrow> [[c]] | p # ps \<Rightarrow> (c # p) # ps)"

definition demo_codec :: json_codec where
  "demo_codec =
     \<lparr>j_hdr_enc = (\<lambda>h. h_alg h @ ''|'' @ h_typ h @ ''|'' @ h_kid h),
      j_hdr_dec = (\<lambda>s. case split_bar s of [a, b, c] \<Rightarrow> Some \<lparr>h_alg = a, h_typ = b, h_kid = c\<rparr> | _ \<Rightarrow> None),
      j_clm_enc = (\<lambda>c. c_jti c @ ''|'' @ show_nat (nat (c_iat c)) @ ''|'' @ show_nat (nat (c_exp c)) @ ''|'' @ c_sub c
                     @ ''|'' @ c_nonce c @ ''|'' @ c_state c),
      j_clm_dec = (\<lambda>s. case split_bar s of
          [a, b, c, d, e, f] \<Rightarrow> Some \<lparr>c_jti = a, c_iat = int (read_nat b), c_exp = int (read_nat c), c_sub = d,
                                      c_nonce = e, c_state = f\<rparr>
        | _ \<Rightarrow> None)\<rparr>"

definition demo_hmac :: hmac_fn where
  "demo_hmac h key msg = h @ key @ take 3 (rev msg)"

definition demo_key :: access_key where
  "demo_key = empty_key\<lparr>ak_id := ''a1'', ak_secret := ''s3'', ak_type := ''App'', ak_state := ''active'', ak_scopes := [''*'']\<rparr>"

definition demo_mgr :: key_mgr where
  "demo_mgr = mgr_set demo_key NewAccessKeyManager"

definition demo_mint :: "app_credential \<times> string" where
  "demo_mint = AuthToken demo_hmac demo_codec ''j'' 100 ''n1'' (NewAppCredential demo_key None)"

lemma demo_mint_facts:
  "cr_signer (NewAppCredential demo_key None) = DefaultSigner"
  "json_carries demo_codec (credential_header (fst demo_mint)) (credential_claims 100 ''n1'' (fst demo_mint))"
  "mgr_key demo_mgr (ak_id (cr_ak (NewAppCredential demo_key None))) = Some demo_key"
  "ak_secret demo_key = ak_secret (cr_ak (NewAppCredential demo_key None))"
  "ak_state demo_key \<noteq> AccessKey_State_Disable"
  "\<not> nonce_live 101 (ak_id (cr_ak (NewAppCredential demo_key None))) ''n1'' (km_replay demo_mgr)"
  by code_simp+

theorem minted_token_accepted_witness:
  "\<exists>m' at. NewGrpcAppValidator demo_hmac demo_codec 101 101 101 (Some [snd demo_mint]) demo_mgr
       = (m', Inr \<lparr>av_at = Some at, av_ak = Some demo_key\<rparr>)
     \<and> nonce_live 101 (ak_id (cr_ak (NewAppCredential demo_key None))) ''n1'' (km_replay m')"
  by (rule minted_token_accepted [where uuid = "''j''" and tn = 100 and cr = "fst demo_mint", OF _ demo_mint_facts(1,2,3,4,5)])
     (use demo_mint_facts(6) in \<open>simp_all add: demo_mint_def clock_val_def\<close>)

definition demo_accept :: "key_mgr \<times> (auth_err + app_validator)" where
  "demo_accept = NewGrpcAppValidator demo_hmac demo_codec 101 101 101 (Some [snd demo_mint]) demo_mgr"

definition demo_token :: access_token where
  "demo_token = (case ParseAccessToken demo_codec (snd demo_mint) of Inr t \<Rightarrow> t | Inl _ \<Rightarrow> NewAccessToken 0 [])"

lemma demo_accept_eq:
  "NewGrpcAppValidator demo_hmac demo_codec 101 101 101 (Some [snd demo_mint]) demo_mgr =
     (fst demo_accept, Inr \<lparr>av_at = Some demo_token, av_ak = Some demo_key\<rparr>)"
proof -
  have "snd demo_accept = Inr \<lparr>av_at = Some demo_token, av_ak = Some demo_key\<rparr>" by code_simp
  then show ?thesis unfolding demo_accept_def by (simp add: prod_eq_iff)
qed

theorem grpc_validator_sound_witness:
  "\<exists>v vs at ak b. Some [snd demo_mint] = Some (v # vs) \<and> ParseAccessToken demo_codec v = Inr at
     \<and> v = t_signing at @ ''.'' @ t_sign at
     \<and> \<lparr>av_at = Some demo_token, av_ak = Some demo_key\<rparr> = \<lparr>av_at = Some at, av_ak = Some ak\<rparr>
     \<and> mgr_key demo_mgr (h_kid (t_header at)) = Some ak \<and> ak_state ak \<noteq> AccessKey_State_Disable
     \<and> bytesDecode (t_sign at) = Some b
     \<and> (h_alg (t_header at) = ''HS256'' \<and> b = demo_hmac ''SHA256'' (ak_secret ak) (t_signing at)
        \<or> h_alg (t_header at) = ''HS512'' \<and> b = demo_hmac ''SHA512'' (ak_secret ak) (t_signing at))
     \<and> 101 < c_exp (t_claims at)"
  by (rule grpc_validator_sound [OF demo_accept_eq])

definition demo_ops :: "key_op list" where
  "demo_ops = [OpSet demo_key] @ OpVerify demo_token 101 101 101 101 # [OpRole ''r'' [''p'']] @ OpVerify demo_token 105 105 106 107 # []"

lemma demo_ops_facts:
  "clock_ok demo_ops" "c_nonce (t_claims demo_token) \<noteq> []"
  "snd (run_ops (key_step demo_hmac) NewAccessKeyManager demo_ops) ! 1 \<noteq> None"
  by code_simp+

theorem nonce_token_single_use_witness:
  "snd (run_ops (key_step demo_hmac) NewAccessKeyManager demo_ops) ! 3 = None"
  using nonce_token_single_use [of demo_hmac NewAccessKeyManager "[OpSet demo_key]" demo_token 101 101 101 101
      "[OpRole ''r'' [''p'']]" demo_token 105 105 106 107 "[]"
      "fst (run_ops (key_step demo_hmac) NewAccessKeyManager demo_ops)"
      "snd (run_ops (key_step demo_hmac) NewAccessKeyManager demo_ops)"] demo_ops_facts
  unfolding demo_ops_def [symmetric] by (simp add: numeral_3_eq_3)

text \<open>
  What a key may do: a key is allowed a list of scopes exactly when the list is no longer than the key's
  own list and each scope is granted by a wildcard, by itself, or, for a read scope, by the write scope of
  the same resource. The length test makes a key that holds only the wildcard fail for two scopes at once.
\<close>

theorem key_allow_iff:
  "(key_allow ak scopes \<longleftrightarrow>
     length scopes \<le> length (ak_scopes ak)
     \<and> (\<forall>s. s \<in> set scopes \<longrightarrow> ''*'' \<in> set (ak_scopes ak) \<or> s \<in> set (ak_scopes ak)
          \<or> (\<exists>r. s = r @ '':ro'' \<and> r @ '':rw'' \<in> set (ak_scopes ak))))
   \<and> \<not> key_allow (ak\<lparr>ak_scopes := [''*'']\<rparr>) [s1, s2]"
  by (auto simp: key_allow_def allow_loop_iff scopeMatch_iff)

theorem key_allow_iff_witness:
  "key_allow (empty_key\<lparr>ak_scopes := [''*'', ''zone:rw'']\<rparr>) [''zone:ro'', ''app:rw'']"
  using key_allow_iff [of "empty_key\<lparr>ak_scopes := [''*'', ''zone:rw'']\<rparr>" "[''zone:ro'', ''app:rw'']"] by simp

text \<open>
  The decoder accepts a signature whose last character differs in its two unused bits, so a signature has
  several texts; the nonce, not the text, is what the cache remembers.
\<close>

lemma signature_text_malleable:
  "bytesDecode (replicate 42 (CHR ''x'') @ ''A'') = bytesDecode (replicate 42 (CHR ''x'') @ ''B'')
   \<and> bytesDecode (replicate 42 (CHR ''x'') @ ''A'') \<noteq> None"
  by code_simp

end
