(* ===== verification/Users.thy ===== *)
theory Users
  imports Auth KvStore
begin

text \<open>
  The life cycle of users and of their access keys: \<open>internal/auth/auth.go\<close> (loading keys from the
  configuration and from the database, saving, deleting, listing and toggling them, the gRPC interceptor)
  and \<open>internal/zonelet/service_user.go\<close> (the user and access-key calls of the zone service). The
  state of a node is its database and its in-memory key registry; a call returns both, as it leaves them
  on every branch, with its result. The user-name validator is third-party code and an argument.
\<close>

section \<open>Rows\<close>

record user =
  u_name :: string
  u_description :: string
  u_state :: string
  u_created :: int
  u_updated :: int

text \<open>A row is tagged with the type it was written as; it does not decode as another type.\<close>

datatype zrow = RowKey access_key | RowUser user | RowHost string string

definition UserStateActive :: string where
  "UserStateActive = ''active''"

definition UserStateDisabled :: string where
  "UserStateDisabled = ''disabled''"

definition AccessKeyPageSizeDefault :: int where
  "AccessKeyPageSizeDefault = 100"

definition AccessKeyPageSizeMax :: int where
  "AccessKeyPageSizeMax = 1000"

definition UserPageSizeDefault :: int where
  "UserPageSizeDefault = 100"

definition UserPageSizeMax :: int where
  "UserPageSizeMax = 1000"

definition Zonelet_MaxHosts :: nat where
  "Zonelet_MaxHosts = 252"

definition scanPageSize :: nat where
  "scanPageSize = 1000"

definition NsPrefix :: string where
  "NsPrefix = ''i8k/v2/''"

definition NsZoneletAccessKey :: "string \<Rightarrow> string \<Rightarrow> string" where
  "NsZoneletAccessKey zone kid = NsPrefix @ ''zone/'' @ zone @ ''/ak/'' @ kid"

definition NsZoneletUser :: "string \<Rightarrow> string \<Rightarrow> string" where
  "NsZoneletUser zone name = NsPrefix @ ''zone/'' @ zone @ ''/user/'' @ name"

definition NsHostInfo :: "string \<Rightarrow> string \<Rightarrow> string" where
  "NsHostInfo zone host = NsPrefix @ ''host/'' @ zone @ ''/info/'' @ host"

datatype svc_err =
    PermissionDenied string
  | NotLeader
  | BadRequest string
  | RowMissing string
  | FailedPrecondition string
  | StoreErr string
  | AuthErr auth_err
  | ScanPending

section \<open>Loading keys\<close>

record access_key_public =
  pub_key :: string
  pub_user :: string
  pub_type :: string
  pub_description :: string

definition apply_to :: "access_key_public \<Rightarrow> access_key \<Rightarrow> access_key" where
  "apply_to pub ak =
     (let ak1 = ak\<lparr>ak_user := pub_user pub, ak_description := pub_description pub\<rparr> in
      if pub_type pub \<noteq> [] then ak1\<lparr>ak_type := pub_type pub\<rparr>
      else if pub_user pub \<noteq> [] then ak1\<lparr>ak_type := ''User''\<rparr>
      else ak1)"

fun setup_keys :: "access_key_public list \<Rightarrow> key_mgr \<Rightarrow> key_mgr" where
  "setup_keys [] m = m"
| "setup_keys (pub # pubs) m =
     (case ParseAccessKey (pub_key pub) of
        Inl _ \<Rightarrow> setup_keys pubs m
      | Inr ak \<Rightarrow> setup_keys pubs (mgr_set (apply_to pub (ak\<lparr>ak_scopes := [''*'']\<rparr>)) m))"

definition auth_setup :: "access_key_public list \<Rightarrow> access_key option \<Rightarrow> key_mgr \<Rightarrow> key_mgr" where
  "auth_setup pubs hostKey m =
     (let m1 = setup_keys pubs m in case hostKey of Some ak \<Rightarrow> mgr_set ak m1 | None \<Rightarrow> m1)"

definition range_items :: "'v kv_rr \<Rightarrow> 'v kv_item list" where
  "range_items r = (case r of KvItems its _ \<Rightarrow> its | KvRangeErr _ \<Rightarrow> [])"

definition load_key :: "zrow kv_item \<Rightarrow> key_mgr \<Rightarrow> key_mgr" where
  "load_key it m =
     (case it_val it of
        Some (RowKey k) \<Rightarrow>
          if ak_id k \<noteq> [] \<and> ak_secret k \<noteq> [] then
            (if ak_state k = AccessKey_State_Disable then m else mgr_set k m)
          else m
      | _ \<Rightarrow> m)"

definition host_key_scopes :: "string \<Rightarrow> string list" where
  "host_key_scopes host = [''host:rw'' @ '':'' @ host, ''pkg:ro'']"

definition load_host_key :: "zrow kv_item \<Rightarrow> key_mgr \<Rightarrow> key_mgr" where
  "load_host_key it m =
     (case it_val it of
        Some (RowHost host key) \<Rightarrow>
          (case ParseAccessKey key of
             Inl _ \<Rightarrow> m
           | Inr ak \<Rightarrow> mgr_set (ak\<lparr>ak_scopes := host_key_scopes host, ak_type := ''Host''\<rparr>) m)
      | _ \<Rightarrow> m)"

definition upper_of :: "string \<Rightarrow> string" where
  "upper_of prefix = prefix @ [CHR 0xFF]"

text \<open>\<open>RefreshAccessKeysFromDB\<close>: the outcome of the two range reads is not checked.\<close>

definition RefreshAccessKeysFromDB :: "string \<Rightarrow> ('db, zrow) kvgo \<Rightarrow> 'db \<Rightarrow> key_mgr \<Rightarrow> key_mgr" where
  "RefreshAccessKeysFromDB zone K db m =
     (let p = NsZoneletAccessKey zone [];
          m1 = fold load_key (range_items (kv_range K db p (upper_of p) 1000 False)) m;
          h = NsHostInfo zone []
      in fold load_host_key (range_items (kv_range K db h (upper_of h) Zonelet_MaxHosts False)) m1)"

section \<open>The interceptor\<close>

text \<open>
  The outcome of the unary interceptor: the handler runs with the validator in its context, or the call
  fails and the claimed key, when the token parses and its key id is known, is recorded.
\<close>

datatype intercepted = RunHandler app_validator | Rejected auth_err "access_key option"

definition noAuthMethods :: "string list" where
  "noAuthMethods = [''/inapi.ZoneService/Ping'']"

definition claimedKey :: "json_codec \<Rightarrow> string list option \<Rightarrow> key_mgr \<Rightarrow> access_key option" where
  "claimedKey J md m =
     (case ParseAccessTokenWithContext J md of Inl _ \<Rightarrow> None | Inr at \<Rightarrow> mgr_key m (h_kid (t_header at)))"

definition GrpcAuthInterceptor ::
  "hmac_fn \<Rightarrow> json_codec \<Rightarrow> int \<Rightarrow> int \<Rightarrow> int \<Rightarrow> string \<Rightarrow> string list option \<Rightarrow> key_mgr
     \<Rightarrow> key_mgr \<times> intercepted" where
  "GrpcAuthInterceptor hmac J t1 t2 t3 meth md m =
     (if List.member noAuthMethods meth then (m, RunHandler empty_validator)
      else case NewGrpcAppValidator hmac J t1 t2 t3 md m of
        (m', Inl e) \<Rightarrow> (m', Rejected e (claimedKey J md m'))
      | (m', Inr av) \<Rightarrow> (m', RunHandler av))"

text \<open>The stream interceptor has no exempt methods.\<close>

definition GrpcStreamAuthInterceptor ::
  "hmac_fn \<Rightarrow> json_codec \<Rightarrow> int \<Rightarrow> int \<Rightarrow> int \<Rightarrow> string list option \<Rightarrow> key_mgr
     \<Rightarrow> key_mgr \<times> (auth_err + app_validator)" where
  "GrpcStreamAuthInterceptor hmac J t1 t2 t3 md m = NewGrpcAppValidator hmac J t1 t2 t3 md m"

section \<open>Stored keys\<close>

definition SaveAccessKey ::
  "string \<Rightarrow> ('db, zrow) kvgo \<Rightarrow> access_key \<Rightarrow> 'db \<Rightarrow> key_mgr \<Rightarrow> 'db \<times> key_mgr \<times> svc_err option" where
  "SaveAccessKey zone K key db m =
     (if ak_id key = [] \<or> ak_secret key = [] then (db, m, Some (BadRequest ''access key id and secret are required''))
      else case kv_put K db (NsZoneletAccessKey zone (ak_id key)) plain_put (RowKey key) of
        (db', KvWriteErr e) \<Rightarrow> (db', m, Some (StoreErr e))
      | (db', KvWritten _) \<Rightarrow> (db', mgr_set key m, None))"

definition DeleteAccessKey ::
  "string \<Rightarrow> ('db, zrow) kvgo \<Rightarrow> string \<Rightarrow> 'db \<Rightarrow> key_mgr \<Rightarrow> 'db \<times> key_mgr \<times> svc_err option" where
  "DeleteAccessKey zone K keyId db m =
     (if keyId = [] then (db, m, Some (BadRequest ''access key id is required''))
      else let dbKey = NsZoneletAccessKey zone keyId in
        case kv_get K db dbKey of
          KvReadErr e \<Rightarrow> (db, m, Some (StoreErr e))
        | KvNotFound \<Rightarrow>
            (if mgr_key m keyId \<noteq> None then (db, m, Some (FailedPrecondition keyId)) else (db, m, None))
        | KvFound _ _ \<Rightarrow>
            (case kv_del K db dbKey of
               (db', KvDelErr e) \<Rightarrow> (db', m, Some (StoreErr e))
             | (db', _) \<Rightarrow> (db', mgr_del keyId m, None)))"

definition key_of_user :: "string \<Rightarrow> zrow kv_item \<Rightarrow> access_key option" where
  "key_of_user userId it =
     (case it_val it of
        Some (RowKey k) \<Rightarrow> if userId \<noteq> [] \<and> ak_user k \<noteq> userId then None else Some k
      | _ \<Rightarrow> None)"

definition AccessKeysOf ::
  "nat \<Rightarrow> string \<Rightarrow> ('db, zrow) kvgo \<Rightarrow> 'db \<Rightarrow> string \<Rightarrow> string \<Rightarrow> int \<Rightarrow> svc_err + access_key list \<times> string" where
  "AccessKeysOf fuel zone K db userId pageToken size0 =
     (let pageSize = (if size0 \<le> 0 then AccessKeyPageSizeDefault else size0);
          prefix = NsZoneletAccessKey zone []
      in case scan_pages fuel K db (key_of_user userId) scanPageSize (nat pageSize) (prefix @ pageToken) (upper_of prefix) [] of
           None \<Rightarrow> Inl ScanPending
         | Some (Inl e) \<Rightarrow> Inl (StoreErr e)
         | Some (Inr (keys, full)) \<Rightarrow> Inr (keys, if full then ak_id (last keys) else []))"

fun toggle_keys ::
  "string \<Rightarrow> ('db, zrow) kvgo \<Rightarrow> bool \<Rightarrow> access_key list \<Rightarrow> 'db \<Rightarrow> key_mgr \<Rightarrow> 'db \<times> key_mgr \<times> svc_err option" where
  "toggle_keys zone K enabled [] db m = (db, m, None)"
| "toggle_keys zone K enabled (key # keys) db m =
     (if enabled = (ak_state key \<noteq> AccessKey_State_Disable) then toggle_keys zone K enabled keys db m
      else let key' = key\<lparr>ak_state := (if enabled then AccessKey_State_Active else AccessKey_State_Disable)\<rparr> in
        case kv_put K db (NsZoneletAccessKey zone (ak_id key')) plain_put (RowKey key') of
          (db', KvWriteErr e) \<Rightarrow> (db', m, Some (StoreErr e))
        | (db', KvWritten _) \<Rightarrow>
            toggle_keys zone K enabled keys db' (if enabled then mgr_set key' m else mgr_del (ak_id key') m))"

definition SetUserKeysEnabled ::
  "nat \<Rightarrow> string \<Rightarrow> ('db, zrow) kvgo \<Rightarrow> string \<Rightarrow> bool \<Rightarrow> 'db \<Rightarrow> key_mgr \<Rightarrow> 'db \<times> key_mgr \<times> svc_err option" where
  "SetUserKeysEnabled fuel zone K userId enabled db m =
     (case AccessKeysOf fuel zone K db userId [] AccessKeyPageSizeMax of
        Inl e \<Rightarrow> (db, m, Some e)
      | Inr (keys, _) \<Rightarrow> toggle_keys zone K enabled keys db m)"

section \<open>The user calls of the zone service\<close>

definition authAllow :: "app_validator \<Rightarrow> string \<Rightarrow> svc_err option" where
  "authAllow av scope = (if \<not> validator_allow av [scope] then Some (PermissionDenied scope) else None)"

definition validUserState :: "string \<Rightarrow> bool" where
  "validUserState s \<longleftrightarrow> s = UserStateActive \<or> s = UserStateDisabled"

definition userGet :: "string \<Rightarrow> ('db, zrow) kvgo \<Rightarrow> 'db \<Rightarrow> string \<Rightarrow> svc_err + user option" where
  "userGet zone K db name =
     (case kv_get K db (NsZoneletUser zone name) of
        KvNotFound \<Rightarrow> Inr None
      | KvReadErr e \<Rightarrow> Inl (StoreErr e)
      | KvFound _ v \<Rightarrow> (case v of Some (RowUser u) \<Rightarrow> Inr (Some u) | _ \<Rightarrow> Inl (StoreErr ''failed to decode user'')))"

text \<open>The two guards every call starts with.\<close>

definition svc_guard :: "app_validator \<Rightarrow> string \<Rightarrow> bool \<Rightarrow> svc_err option" where
  "svc_guard av scope leader =
     (case authAllow av scope of Some e \<Rightarrow> Some e | None \<Rightarrow> if \<not> leader then Some NotLeader else None)"

record user_set_req =
  us_name :: string
  us_state :: string
  us_description :: string

definition user_item :: "int \<Rightarrow> user_set_req \<Rightarrow> string \<Rightarrow> user option \<Rightarrow> user" where
  "user_item now req state existing =
     (let item = \<lparr>u_name = us_name req, u_description = [], u_state = state, u_created = now, u_updated = now\<rparr>;
          item = (case existing of
                    Some u \<Rightarrow> item\<lparr>u_created := u_created u, u_description := u_description u\<rparr> | None \<Rightarrow> item)
      in if us_description req \<noteq> [] then item\<lparr>u_description := us_description req\<rparr> else item)"

definition user_state_of :: "user_set_req \<Rightarrow> user option \<Rightarrow> string" where
  "user_state_of req existing =
     (if us_state req = [] then (case existing of Some u \<Rightarrow> u_state u | None \<Rightarrow> UserStateActive) else us_state req)"

text \<open>
  The key cascade runs before the user row is written: when it fails the row keeps its old state.
\<close>

definition user_set_commit ::
  "nat \<Rightarrow> string \<Rightarrow> ('db, zrow) kvgo \<Rightarrow> user \<Rightarrow> user option \<Rightarrow> 'db \<Rightarrow> key_mgr \<Rightarrow> 'db \<times> key_mgr \<times> (svc_err + user)" where
  "user_set_commit fuel zone K item existing db m =
     (case (if existing = None \<or> u_state (the existing) \<noteq> u_state item
            then SetUserKeysEnabled fuel zone K (u_name item) (u_state item = UserStateActive) db m
            else (db, m, None)) of
        (db1, m1, Some e) \<Rightarrow> (db1, m1, Inl e)
      | (db1, m1, None) \<Rightarrow>
          (case kv_put K db1 (NsZoneletUser zone (u_name item)) plain_put (RowUser item) of
             (db2, KvWriteErr e) \<Rightarrow> (db2, m1, Inl (StoreErr e))
           | (db2, KvWritten _) \<Rightarrow> (db2, m1, Inr item)))"

definition UserSet ::
  "(string \<Rightarrow> bool) \<Rightarrow> nat \<Rightarrow> string \<Rightarrow> ('db, zrow) kvgo \<Rightarrow> app_validator \<Rightarrow> bool \<Rightarrow> int \<Rightarrow> user_set_req
     \<Rightarrow> 'db \<Rightarrow> key_mgr \<Rightarrow> 'db \<times> key_mgr \<times> (svc_err + user)" where
  "UserSet nameValid fuel zone K av leader now req db m =
     (case svc_guard av ''zone:rw'' leader of
        Some e \<Rightarrow> (db, m, Inl e)
      | None \<Rightarrow>
          if \<not> nameValid (us_name req) then (db, m, Inl (BadRequest ''invalid user name''))
          else case userGet zone K db (us_name req) of
            Inl e \<Rightarrow> (db, m, Inl e)
          | Inr existing \<Rightarrow>
              let state = user_state_of req existing in
              if \<not> validUserState state then (db, m, Inl (BadRequest ''invalid state: active | disabled''))
              else user_set_commit fuel zone K (user_item now req state existing) existing db m)"

definition UserGet ::
  "string \<Rightarrow> ('db, zrow) kvgo \<Rightarrow> app_validator \<Rightarrow> bool \<Rightarrow> string \<Rightarrow> 'db \<Rightarrow> svc_err + user" where
  "UserGet zone K av leader name db =
     (case svc_guard av ''zone:ro'' leader of
        Some e \<Rightarrow> Inl e
      | None \<Rightarrow>
          if name = [] then Inl (BadRequest ''user name is required'')
          else case userGet zone K db name of
            Inl e \<Rightarrow> Inl e
          | Inr None \<Rightarrow> Inl (RowMissing name)
          | Inr (Some u) \<Rightarrow> Inr u)"

definition UserDelete ::
  "nat \<Rightarrow> string \<Rightarrow> ('db, zrow) kvgo \<Rightarrow> app_validator \<Rightarrow> bool \<Rightarrow> string \<Rightarrow> 'db \<Rightarrow> 'db \<times> svc_err option" where
  "UserDelete fuel zone K av leader name db =
     (case svc_guard av ''zone:rw'' leader of
        Some e \<Rightarrow> (db, Some e)
      | None \<Rightarrow>
          if name = [] then (db, Some (BadRequest ''user name is required''))
          else case AccessKeysOf fuel zone K db name [] AccessKeyPageSizeMax of
            Inl e \<Rightarrow> (db, Some e)
          | Inr (keys, _) \<Rightarrow>
              if length keys > 0 then (db, Some (FailedPrecondition name))
              else case kv_del K db (NsZoneletUser zone name) of
                (db', KvDelErr e) \<Rightarrow> (db', Some (StoreErr e))
              | (db', _) \<Rightarrow> (db', None))"

definition user_in_state :: "string \<Rightarrow> zrow kv_item \<Rightarrow> user option" where
  "user_in_state state it =
     (case it_val it of
        Some (RowUser u) \<Rightarrow> if state \<noteq> [] \<and> u_state u \<noteq> state then None else Some u
      | _ \<Rightarrow> None)"

definition page_size :: "int \<Rightarrow> int \<Rightarrow> int \<Rightarrow> int" where
  "page_size dflt mx n = (let p = (if n \<le> 0 then dflt else n) in if p > mx then mx else p)"

definition UserList ::
  "nat \<Rightarrow> string \<Rightarrow> ('db, zrow) kvgo \<Rightarrow> app_validator \<Rightarrow> bool \<Rightarrow> string \<Rightarrow> string \<Rightarrow> int \<Rightarrow> 'db
     \<Rightarrow> svc_err + user list \<times> string" where
  "UserList fuel zone K av leader state pageToken psize db =
     (case svc_guard av ''zone:ro'' leader of
        Some e \<Rightarrow> Inl e
      | None \<Rightarrow>
          if state \<noteq> [] \<and> \<not> validUserState state then Inl (BadRequest ''invalid state filter: active | disabled'')
          else
            let n = page_size UserPageSizeDefault UserPageSizeMax psize; prefix = NsZoneletUser zone []
            in case scan_pages fuel K db (user_in_state state) scanPageSize (nat n) (prefix @ pageToken) (upper_of prefix) [] of
                 None \<Rightarrow> Inl ScanPending
               | Some (Inl e) \<Rightarrow> Inl (StoreErr e)
               | Some (Inr (us, full)) \<Rightarrow> Inr (us, if full then u_name (last us) else []))"

text \<open>\<open>AccessKeySet\<close>: \<open>gen\<close> is the freshly generated user key.\<close>

definition AccessKeySet ::
  "string \<Rightarrow> ('db, zrow) kvgo \<Rightarrow> app_validator \<Rightarrow> bool \<Rightarrow> access_key \<Rightarrow> string \<Rightarrow> string list \<Rightarrow> string
     \<Rightarrow> 'db \<Rightarrow> key_mgr \<Rightarrow> 'db \<times> key_mgr \<times> (svc_err + string \<times> string)" where
  "AccessKeySet zone K av leader gen name scopes descr db m =
     (case svc_guard av ''zone:rw'' leader of
        Some e \<Rightarrow> (db, m, Inl e)
      | None \<Rightarrow>
          if name = [] then (db, m, Inl (BadRequest ''user is required''))
          else if scopes = [] then (db, m, Inl (BadRequest ''at least one scope is required''))
          else case userGet zone K db name of
            Inl e \<Rightarrow> (db, m, Inl e)
          | Inr None \<Rightarrow> (db, m, Inl (RowMissing name))
          | Inr (Some u) \<Rightarrow>
              if u_state u = UserStateDisabled then (db, m, Inl (FailedPrecondition name))
              else let ak = gen\<lparr>ak_user := name, ak_scopes := scopes, ak_description := descr\<rparr> in
                case SaveAccessKey zone K ak db m of
                  (db', m', Some e) \<Rightarrow> (db', m', Inl e)
                | (db', m', None) \<Rightarrow> (db', m', Inr (ak_id ak, Export (Some ak))))"

definition AccessKeyDelete ::
  "string \<Rightarrow> ('db, zrow) kvgo \<Rightarrow> app_validator \<Rightarrow> bool \<Rightarrow> string \<Rightarrow> 'db \<Rightarrow> key_mgr \<Rightarrow> 'db \<times> key_mgr \<times> svc_err option" where
  "AccessKeyDelete zone K av leader keyId db m =
     (case svc_guard av ''zone:rw'' leader of
        Some e \<Rightarrow> (db, m, Some e)
      | None \<Rightarrow> DeleteAccessKey zone K keyId db m)"

definition hide_secret :: "access_key \<Rightarrow> access_key" where
  "hide_secret k = k\<lparr>ak_secret := [], ak_roles := []\<rparr>"

definition AccessKeyList ::
  "nat \<Rightarrow> string \<Rightarrow> ('db, zrow) kvgo \<Rightarrow> app_validator \<Rightarrow> bool \<Rightarrow> string \<Rightarrow> string \<Rightarrow> int \<Rightarrow> 'db
     \<Rightarrow> svc_err + access_key list \<times> string" where
  "AccessKeyList fuel zone K av leader name pageToken psize db =
     (case svc_guard av ''zone:ro'' leader of
        Some e \<Rightarrow> Inl e
      | None \<Rightarrow>
          (case AccessKeysOf fuel zone K db name pageToken (page_size AccessKeyPageSizeDefault AccessKeyPageSizeMax psize) of
             Inl e \<Rightarrow> Inl e
           | Inr (keys, next) \<Rightarrow> Inr (map hide_secret keys, next)))"

section \<open>Paged listings\<close>

lemmas page_consts = AccessKeyPageSizeDefault_def AccessKeyPageSizeMax_def scanPageSize_def

lemma access_keys_of_eq:
  assumes "kv_ranged K db" "kv_listing K db (NsZoneletAccessKey zone [] @ tok) (upper_of (NsZoneletAccessKey zone [])) all"
    and "length all < fuel" "0 < n"
  shows "AccessKeysOf fuel zone K db userId tok n =
    (let ms = List.map_filter (key_of_user userId) all
     in Inr (take (nat n) ms, if length ms > nat n then ak_id (ms ! (nat n - 1)) else []))"
proof -
  have "scan_pages fuel K db (key_of_user userId) scanPageSize (nat n) (NsZoneletAccessKey zone [] @ tok)
      (upper_of (NsZoneletAccessKey zone [])) [] =
      Some (Inr (take (nat n) (List.map_filter (key_of_user userId) all), length (List.map_filter (key_of_user userId) all) > nat n))"
    using scan_pages_eq [OF assms(1) _ assms(2,3), of scanPageSize "[]" "nat n"] by (simp add: scanPageSize_def)
  moreover have "last (take (nat n) ms) = ms ! (nat n - 1)" if "length ms > nat n" for ms :: "access_key list"
    using that assms(4) by (subst last_conv_nth) auto
  ultimately show ?thesis using assms(4) by (simp add: AccessKeysOf_def Let_def)
qed

text \<open>Keys are stored under their own id.\<close>

definition keys_filed :: "string \<Rightarrow> ('db, zrow) kvgo \<Rightarrow> 'db \<Rightarrow> bool" where
  "keys_filed zone K db \<longleftrightarrow>
     (\<forall>k m v. in_range (NsZoneletAccessKey zone []) (upper_of (NsZoneletAccessKey zone [])) k
        \<and> kv_get K db k = KvFound m (Some v) \<longrightarrow>
        (\<exists>ak. v = RowKey ak \<and> k = NsZoneletAccessKey zone (ak_id ak)))"

lemma key_of_user_Some:
  "key_of_user userId it = Some k \<longleftrightarrow> it_val it = Some (RowKey k) \<and> (userId = [] \<or> ak_user k = userId)"
  by (auto simp: key_of_user_def split: option.splits zrow.splits if_splits)

lemma map_filter_split:
  "i < length (List.map_filter f xs) \<Longrightarrow>
     \<exists>ys x zs. xs = ys @ x # zs \<and> f x = Some (List.map_filter f xs ! i)
       \<and> List.map_filter f ys = take i (List.map_filter f xs)
       \<and> List.map_filter f zs = drop (Suc i) (List.map_filter f xs)"
proof (induction xs arbitrary: i)
  case (Cons x xs)
  show ?case
  proof (cases "f x")
    case None
    then obtain ys y zs where "xs = ys @ y # zs" "f y = Some (List.map_filter f xs ! i)"
        "List.map_filter f ys = take i (List.map_filter f xs)" "List.map_filter f zs = drop (Suc i) (List.map_filter f xs)"
      using Cons by (force simp: map_filter_simps)
    then show ?thesis using None by (intro exI [of _ "x # ys"]) (auto simp: map_filter_simps)
  next
    case (Some a)
    show ?thesis
    proof (cases i)
      case 0
      then show ?thesis using Some by (intro exI [of _ "[]"] exI [of _ x] exI [of _ xs]) (simp add: map_filter_simps)
    next
      case (Suc j)
      then obtain ys y zs where "xs = ys @ y # zs" "f y = Some (List.map_filter f xs ! j)"
          "List.map_filter f ys = take j (List.map_filter f xs)" "List.map_filter f zs = drop (Suc j) (List.map_filter f xs)"
        using Cons Some by (force simp: map_filter_simps)
      then show ?thesis using Some Suc by (intro exI [of _ "x # ys"]) (auto simp: map_filter_simps)
    qed
  qed
qed (simp add: map_filter_simps)

lemma NsZoneletAccessKey_append: "NsZoneletAccessKey zone [] @ i = NsZoneletAccessKey zone i"
  by (simp add: NsZoneletAccessKey_def)

text \<open>The rows after the last row of a full page are what the next page token selects.\<close>

lemma next_page_listing:
  assumes l: "kv_listing K db (NsZoneletAccessKey zone tok) (upper_of (NsZoneletAccessKey zone [])) all"
    and filed: "keys_filed zone K db"
    and i: "i < length (List.map_filter (key_of_user u) all)"
    and low: "str_le (NsZoneletAccessKey zone []) (NsZoneletAccessKey zone tok)"
  shows "\<exists>rest. kv_listing K db (NsZoneletAccessKey zone (ak_id (List.map_filter (key_of_user u) all ! i)))
             (upper_of (NsZoneletAccessKey zone [])) rest
           \<and> List.map_filter (key_of_user u) rest = drop (Suc i) (List.map_filter (key_of_user u) all)
           \<and> length rest < length all"
proof -
  obtain ys x zs where s: "all = ys @ x # zs" "key_of_user u x = Some (List.map_filter (key_of_user u) all ! i)"
      "List.map_filter (key_of_user u) zs = drop (Suc i) (List.map_filter (key_of_user u) all)"
    using map_filter_split [OF i] by blast
  let ?k = "List.map_filter (key_of_user u) all ! i"
  have "in_range (NsZoneletAccessKey zone tok) (upper_of (NsZoneletAccessKey zone [])) (it_key x)"
      "kv_get K db (it_key x) = KvFound (it_meta x) (Some (RowKey ?k))"
    using l s(1,2) by (auto simp: kv_listing_def key_of_user_Some)
  moreover have "str_lt (NsZoneletAccessKey zone []) k" if "str_lt (NsZoneletAccessKey zone tok) k" for k
    using that low str_le_trans str_le_antisym unfolding str_lt_def by blast
  ultimately have key: "it_key x = NsZoneletAccessKey zone (ak_id ?k)"
    using filed unfolding keys_filed_def in_range_def by (metis zrow.inject(1))
  have "kv_listing K db (NsZoneletAccessKey zone tok) (upper_of (NsZoneletAccessKey zone [])) ((ys @ [x]) @ zs)"
    using l s(1) by simp
  from kv_listing_drop [OF this] have "kv_listing K db (it_key x) (upper_of (NsZoneletAccessKey zone [])) zs" by simp
  then show ?thesis unfolding key using s(1,3) by auto
qed

lemma str_le_append: "str_le p (p @ s)"
  by (induction p) auto

text \<open>C39:
  Paging through a user's keys loses nothing and repeats nothing: a page holds the first matching rows
  after the page token, in key order, whatever the store's own page boundaries and however many rows of
  other users lie between them; the next token is empty exactly when no match is left, and asking
  for the next page with it continues with the very next matching row.
\<close>

theorem access_key_pages:
  assumes "kv_ranged K db" "keys_filed zone K db"
    and "kv_listing K db (NsZoneletAccessKey zone tok) (upper_of (NsZoneletAccessKey zone [])) all"
    and "length all < fuel" "0 < n" "0 < n'"
  shows "\<exists>next. AccessKeysOf fuel zone K db u tok n = Inr (take (nat n) (List.map_filter (key_of_user u) all), next)
     \<and> (length (List.map_filter (key_of_user u) all) \<le> nat n \<longrightarrow> next = [])
     \<and> (length (List.map_filter (key_of_user u) all) > nat n \<longrightarrow>
         (\<exists>next'. AccessKeysOf fuel zone K db u next n' =
            Inr (take (nat n') (drop (nat n) (List.map_filter (key_of_user u) all)), next')))"
proof -
  let ?ms = "List.map_filter (key_of_user u) all"
  have tok: "NsZoneletAccessKey zone [] @ tok = NsZoneletAccessKey zone tok" by (rule NsZoneletAccessKey_append)
  note first = access_keys_of_eq [OF assms(1) assms(3) [folded tok] assms(4,5), of u]
  let ?next = "if length ?ms > nat n then ak_id (?ms ! (nat n - 1)) else []"
  have "\<exists>next'. AccessKeysOf fuel zone K db u ?next n' = Inr (take (nat n') (drop (nat n) ?ms), next')"
    if h: "length ?ms > nat n"
  proof -
    have low: "str_le (NsZoneletAccessKey zone []) (NsZoneletAccessKey zone tok)"
      using str_le_append [of "NsZoneletAccessKey zone []" tok] by (simp add: tok)
    have i: "nat n - 1 < length ?ms" and suc: "Suc (nat n - 1) = nat n" using h assms(5) by linarith+
    obtain rest where rest: "kv_listing K db (NsZoneletAccessKey zone (ak_id (?ms ! (nat n - 1))))
          (upper_of (NsZoneletAccessKey zone [])) rest"
        "List.map_filter (key_of_user u) rest = drop (nat n) ?ms" "length rest < length all"
      using next_page_listing [OF assms(3,2) i low] unfolding suc by blast
    have "AccessKeysOf fuel zone K db u (ak_id (?ms ! (nat n - 1))) n' =
        (let ms = List.map_filter (key_of_user u) rest
         in Inr (take (nat n') ms, if length ms > nat n' then ak_id (ms ! (nat n' - 1)) else []))"
      by (rule access_keys_of_eq [OF assms(1) _ _ assms(6)])
         (use rest(1,3) assms(4) in \<open>simp_all add: NsZoneletAccessKey_append\<close>)
    then show ?thesis using h by (simp add: rest(2) Let_def)
  qed
  then show ?thesis using first by (intro exI [of _ ?next]) (simp add: Let_def)
qed

section \<open>Disabling a user\<close>

definition enabled_ids :: "access_key list \<Rightarrow> string set" where
  "enabled_ids keys = ak_id ` {k \<in> set keys. ak_state k \<noteq> AccessKey_State_Disable}"

lemma NsZoneletAccessKey_inj [simp]: "NsZoneletAccessKey zone i = NsZoneletAccessKey zone j \<longleftrightarrow> i = j"
  by (simp add: NsZoneletAccessKey_def)

lemma Ns_user_key [simp]: "NsZoneletUser zone n \<noteq> NsZoneletAccessKey zone i"
  by (simp add: NsZoneletAccessKey_def NsZoneletUser_def)

lemma toggle_off:
  assumes "kv_lawful K"
  shows "toggle_keys zone K False keys db m = (db', m', None) \<Longrightarrow>
    (\<forall>i. mgr_key m' i = (if i \<in> enabled_ids keys then None else mgr_key m i))
    \<and> (\<forall>k. k \<notin> NsZoneletAccessKey zone ` enabled_ids keys \<longrightarrow> kv_get K db' k = kv_get K db k)
    \<and> (\<forall>i \<in> enabled_ids keys. \<exists>mt k. kv_get K db' (NsZoneletAccessKey zone i) = KvFound mt (Some (RowKey k))
          \<and> ak_state k = AccessKey_State_Disable)"
proof (induction keys arbitrary: db m)
  case Nil then show ?case by (simp add: enabled_ids_def)
next
  case (Cons key keys)
  show ?case
  proof (cases "ak_state key = AccessKey_State_Disable")
    case True
    then have "enabled_ids (key # keys) = enabled_ids keys" by (auto simp: enabled_ids_def)
    then show ?thesis using Cons True by simp
  next
    case False
    let ?key = "key\<lparr>ak_state := AccessKey_State_Disable\<rparr>"
    obtain db1 mt where put: "kv_put K db (NsZoneletAccessKey zone (ak_id key)) plain_put (RowKey ?key) = (db1, KvWritten mt)"
      and rest: "toggle_keys zone K False keys db1 (mgr_del (ak_id key) m) = (db', m', None)"
      using Cons.prems False by (auto simp: Let_def split: prod.splits kv_wr.splits)
    have ids: "enabled_ids (key # keys) = insert (ak_id key) (enabled_ids keys)" using False by (auto simp: enabled_ids_def)
    note IH = Cons.IH [OF rest]
    have row: "kv_get K db1 (NsZoneletAccessKey zone (ak_id key)) = KvFound mt (Some (RowKey ?key))"
      by (rule kv_put_read [OF assms put])
    have dis: "ak_state ?key = AccessKey_State_Disable" by simp
    have mem: "\<forall>i. mgr_key m' i = (if i \<in> enabled_ids (key # keys) then None else mgr_key m i)"
      using IH unfolding ids by simp
    have frame: "\<forall>k. k \<notin> NsZoneletAccessKey zone ` enabled_ids (key # keys) \<longrightarrow> kv_get K db' k = kv_get K db k"
      using IH kv_put_other [OF assms put] unfolding ids by (metis image_insert insertCI)
    have own: "\<exists>mt k. kv_get K db' (NsZoneletAccessKey zone (ak_id key)) = KvFound mt (Some (RowKey k))
        \<and> ak_state k = AccessKey_State_Disable"
    proof (cases "ak_id key \<in> enabled_ids keys")
      case True then show ?thesis using IH by blast
    next
      case False
      then have "NsZoneletAccessKey zone (ak_id key) \<notin> NsZoneletAccessKey zone ` enabled_ids keys" by auto
      then show ?thesis using IH row dis by metis
    qed
    show ?thesis using mem frame own IH unfolding ids by blast
  qed
qed

text \<open>The memory of a node holds no key whose row is disabled.\<close>

definition revoked_evicted :: "string \<Rightarrow> ('db, zrow) kvgo \<Rightarrow> 'db \<Rightarrow> key_mgr \<Rightarrow> bool" where
  "revoked_evicted zone K db m \<longleftrightarrow>
     (\<forall>i mt ak. kv_get K db (NsZoneletAccessKey zone i) = KvFound mt (Some (RowKey ak))
        \<and> ak_state ak = AccessKey_State_Disable \<longrightarrow> mgr_key m i = None)"

definition key_id_ok :: "string \<Rightarrow> string \<Rightarrow> bool" where
  "key_id_ok zone i \<longleftrightarrow>
     in_range (NsZoneletAccessKey zone []) (upper_of (NsZoneletAccessKey zone [])) (NsZoneletAccessKey zone i)"

lemma set_user_keys_off:
  assumes "kv_lawful K" "kv_ranged K db" "keys_filed zone K db" "revoked_evicted zone K db m"
    and all: "kv_listing K db (NsZoneletAccessKey zone []) (upper_of (NsZoneletAccessKey zone [])) all" "length all < fuel"
    and few: "length (List.map_filter (key_of_user u) all) \<le> 1000" and u: "u \<noteq> []"
    and res: "SetUserKeysEnabled fuel zone K u False db m = (db', m', None)"
    and ok: "key_id_ok zone i"
  shows "kv_get K db' (NsZoneletAccessKey zone i) = KvFound mt (Some (RowKey ak))
       \<Longrightarrow> ak_user ak = u \<Longrightarrow> ak_state ak = AccessKey_State_Disable \<and> mgr_key m' i = None"
    and "kv_get K db (NsZoneletAccessKey zone i) = KvFound mt (Some (RowKey ak)) \<Longrightarrow> ak_user ak \<noteq> u
       \<Longrightarrow> kv_get K db' (NsZoneletAccessKey zone i) = kv_get K db (NsZoneletAccessKey zone i) \<and> mgr_key m' i = mgr_key m i"
proof -
  let ?ms = "List.map_filter (key_of_user u) all"
  have "AccessKeysOf fuel zone K db u [] AccessKeyPageSizeMax = Inr (?ms, [])"
    using access_keys_of_eq [of K db zone "[]" all fuel AccessKeyPageSizeMax u] assms(2) all few
    by (simp add: AccessKeyPageSizeMax_def Let_def)
  then have tog: "toggle_keys zone K False ?ms db m = (db', m', None)" using res by (simp add: SetUserKeysEnabled_def)
  have off_mem: "mgr_key m' j = (if j \<in> enabled_ids ?ms then None else mgr_key m j)" for j
    using toggle_off [OF assms(1) tog] by blast
  have off_frame: "j \<notin> enabled_ids ?ms \<Longrightarrow> kv_get K db' (NsZoneletAccessKey zone j) = kv_get K db (NsZoneletAccessKey zone j)" for j
  proof -
    assume "j \<notin> enabled_ids ?ms"
    then have "NsZoneletAccessKey zone j \<notin> NsZoneletAccessKey zone ` enabled_ids ?ms" by auto
    then show ?thesis using toggle_off [OF assms(1) tog] by blast
  qed
  have off_row: "j \<in> enabled_ids ?ms \<Longrightarrow> \<exists>mt k. kv_get K db' (NsZoneletAccessKey zone j) = KvFound mt (Some (RowKey k))
      \<and> ak_state k = AccessKey_State_Disable" for j
    using toggle_off [OF assms(1) tog] by blast
  have in_all: "ak \<in> set ?ms" if "kv_get K db (NsZoneletAccessKey zone j) = KvFound mt (Some (RowKey ak))"
      "ak_user ak = u" "key_id_ok zone j" for j mt ak
  proof -
    have "NsZoneletAccessKey zone j \<in> it_key ` set all"
      using all(1) that(1,3) unfolding kv_listing_def key_id_ok_def by blast
    then obtain it where it: "it \<in> set all" "it_key it = NsZoneletAccessKey zone j" by auto
    then have "it_val it = Some (RowKey ak)" using all(1) that(1) by (auto simp: kv_listing_def)
    then show ?thesis using it(1) that(2) by (auto simp: set_map_filter_iff key_of_user_Some)
  qed
  have filed: "ak_id ak = j" if "kv_get K db (NsZoneletAccessKey zone j) = KvFound mt (Some (RowKey ak))" "key_id_ok zone j"
    for j mt ak
    using assms(3) that unfolding keys_filed_def key_id_ok_def by fastforce
  { assume row: "kv_get K db' (NsZoneletAccessKey zone i) = KvFound mt (Some (RowKey ak))" and usr: "ak_user ak = u"
    show "ak_state ak = AccessKey_State_Disable \<and> mgr_key m' i = None"
    proof (cases "i \<in> enabled_ids ?ms")
      case True then show ?thesis using off_row [OF True] off_mem [of i] row by simp
    next
      case False
      then have old: "kv_get K db (NsZoneletAccessKey zone i) = KvFound mt (Some (RowKey ak))"
        using off_frame row by simp
      have "ak_state ak = AccessKey_State_Disable"
        using False in_all [OF old usr ok] filed [OF old ok] by (auto simp: enabled_ids_def)
      then show ?thesis using assms(4) old off_mem [of i] unfolding revoked_evicted_def by auto
    qed }
  { assume row: "kv_get K db (NsZoneletAccessKey zone i) = KvFound mt (Some (RowKey ak))" and usr: "ak_user ak \<noteq> u"
    have "i \<notin> enabled_ids ?ms"
    proof
      assume "i \<in> enabled_ids ?ms"
      then obtain it k where it: "it \<in> set all" "it_val it = Some (RowKey k)" "ak_user k = u" "ak_id k = i"
        using u by (auto simp: enabled_ids_def set_map_filter_iff key_of_user_Some)
      then have "it_key it = NsZoneletAccessKey zone i"
        using all(1) assms(3) unfolding kv_listing_def keys_filed_def by (metis zrow.inject(1))
      then show False using it all(1) row usr by (auto simp: kv_listing_def)
    qed
    then show "kv_get K db' (NsZoneletAccessKey zone i) = kv_get K db (NsZoneletAccessKey zone i) \<and> mgr_key m' i = mgr_key m i"
      using off_frame off_mem by simp }
qed

lemma user_item_fields [simp]:
  "u_name (user_item now req state existing) = us_name req" "u_state (user_item now req state existing) = state"
  by (auto simp: user_item_def Let_def split: option.splits)

lemma user_set_commit_ok:
  assumes "user_set_commit fuel zone K item existing db m = (db', m', Inr it)"
  shows "it = item"
    and "existing = None \<or> u_state (the existing) \<noteq> u_state item \<Longrightarrow>
      \<exists>db1 mt. SetUserKeysEnabled fuel zone K (u_name item) (u_state item = UserStateActive) db m = (db1, m', None)
        \<and> kv_put K db1 (NsZoneletUser zone (u_name item)) plain_put (RowUser item) = (db', KvWritten mt)"
  using assms
  by (auto simp: user_set_commit_def simp del: not_None_eq split: if_splits option.splits prod.splits kv_wr.splits)

text \<open>A call that disables an enabled or new user is a cascade over its keys and a write of its row.\<close>

lemma UserSet_disable_steps:
  assumes "UserSet nameValid fuel zone K av leader now req db m = (db', m', Inr item)"
    and "u_state item = UserStateDisabled"
    and "\<forall>u. userGet zone K db (us_name req) = Inr (Some u) \<longrightarrow> u_state u \<noteq> UserStateDisabled"
  shows "\<exists>db1 mt. SetUserKeysEnabled fuel zone K (us_name req) False db m = (db1, m', None)
     \<and> kv_put K db1 (NsZoneletUser zone (us_name req)) plain_put (RowUser item) = (db', KvWritten mt)"
proof -
  obtain existing where ex: "userGet zone K db (us_name req) = Inr existing"
    and c: "user_set_commit fuel zone K (user_item now req (user_state_of req existing) existing) existing db m = (db', m', Inr item)"
    using assms(1) by (auto simp: UserSet_def Let_def split: option.splits if_splits sum.splits)
  note ok = user_set_commit_ok [OF c]
  have st: "user_state_of req existing = UserStateDisabled" using ok(1) assms(2) by simp
  have "existing = None \<or> u_state (the existing) \<noteq> UserStateDisabled" using assms(3) ex by (cases existing) auto
  moreover have "UserStateDisabled \<noteq> UserStateActive" by (simp add: UserStateActive_def UserStateDisabled_def)
  ultimately show ?thesis using ok st by simp
qed


section \<open>Reloading keys on a change of leader\<close>

lemma load_key_keeps: "mgr_key m i \<noteq> None \<Longrightarrow> mgr_key (load_key it m) i \<noteq> None"
  by (auto simp: load_key_def split: option.splits zrow.splits)

lemma load_host_key_keeps: "mgr_key m i \<noteq> None \<Longrightarrow> mgr_key (load_host_key it m) i \<noteq> None"
  by (auto simp: load_host_key_def split: option.splits zrow.splits sum.splits)

lemma fold_keeps: "(\<And>x s. P s \<Longrightarrow> P (f x s)) \<Longrightarrow> P s \<Longrightarrow> P (fold f xs s)"
  by (induction xs arbitrary: s) auto

definition key_rows :: "string \<Rightarrow> ('db, zrow) kvgo \<Rightarrow> 'db \<Rightarrow> zrow kv_item list" where
  "key_rows zone K db =
     range_items (kv_range K db (NsZoneletAccessKey zone []) (upper_of (NsZoneletAccessKey zone [])) 1000 False)"

definition host_rows :: "string \<Rightarrow> ('db, zrow) kvgo \<Rightarrow> 'db \<Rightarrow> zrow kv_item list" where
  "host_rows zone K db =
     range_items (kv_range K db (NsHostInfo zone []) (upper_of (NsHostInfo zone [])) Zonelet_MaxHosts False)"

text \<open>The rows that make the reload register a key under an id.\<close>

definition grants_id :: "string \<Rightarrow> zrow kv_item \<Rightarrow> bool" where
  "grants_id i it =
     (case it_val it of
        Some (RowKey k) \<Rightarrow> ak_id k = i \<and> ak_state k \<noteq> AccessKey_State_Disable
      | Some (RowHost h key) \<Rightarrow> (case ParseAccessKey key of Inr ak \<Rightarrow> ak_id ak = i | Inl _ \<Rightarrow> False)
      | _ \<Rightarrow> False)"

lemma fold_load_skip:
  "\<forall>it \<in> set its. \<not> grants_id i it \<Longrightarrow> mgr_key (fold load_key its m) i = mgr_key m i"
  by (induction its arbitrary: m) (auto simp: load_key_def grants_id_def split: option.splits zrow.splits)

lemma fold_load_host_skip:
  "\<forall>it \<in> set its. \<not> grants_id i it \<Longrightarrow> mgr_key (fold load_host_key its m) i = mgr_key m i"
  by (induction its arbitrary: m)
     (auto simp: load_host_key_def grants_id_def split: option.splits zrow.splits sum.splits)

lemma refresh_eq:
  "RefreshAccessKeysFromDB zone K db m = fold load_host_key (host_rows zone K db) (fold load_key (key_rows zone K db) m)"
  by (simp add: RefreshAccessKeysFromDB_def key_rows_def host_rows_def Let_def)

text \<open>
  Reloading the keys from the database never removes one from memory: an id that was registered stays
  registered, and when no enabled row grants the id (its row was disabled, or deleted, by another leader)
  the old key stays as it was, so a revoked key keeps authenticating on a node that had it in memory
  and becomes the leader. The reload is meant to keep revoked keys from authenticating.
\<close>

theorem refresh_never_evicts:
  "(mgr_key m i \<noteq> None \<longrightarrow> mgr_key (RefreshAccessKeysFromDB zone K db m) i \<noteq> None)
   \<and> ((\<forall>it. it \<in> set (key_rows zone K db) \<union> set (host_rows zone K db) \<longrightarrow> \<not> grants_id i it) \<longrightarrow>
        mgr_key (RefreshAccessKeysFromDB zone K db m) i = mgr_key m i)"
proof (intro conjI impI)
  assume "mgr_key m i \<noteq> None"
  then have "mgr_key (fold load_key (key_rows zone K db) m) i \<noteq> None"
    using fold_keeps [of "\<lambda>m. mgr_key m i \<noteq> None" load_key] load_key_keeps by blast
  then show "mgr_key (RefreshAccessKeysFromDB zone K db m) i \<noteq> None"
    unfolding refresh_eq using fold_keeps [of "\<lambda>m. mgr_key m i \<noteq> None" load_host_key] load_host_key_keeps by blast
next
  assume "\<forall>it. it \<in> set (key_rows zone K db) \<union> set (host_rows zone K db) \<longrightarrow> \<not> grants_id i it"
  then show "mgr_key (RefreshAccessKeysFromDB zone K db m) i = mgr_key m i"
    unfolding refresh_eq by (simp add: fold_load_skip fold_load_host_skip)
qed

section \<open>Concrete runs\<close>

lemma mem_keys_filed:
  assumes "list_all (\<lambda>(k, n, v). case v of RowKey ak \<Rightarrow> k = NsZoneletAccessKey zone (ak_id ak)
      | _ \<Rightarrow> \<not> in_range (NsZoneletAccessKey zone []) (upper_of (NsZoneletAccessKey zone [])) k) (snd db)"
  shows "keys_filed zone mem_kv db"
  unfolding keys_filed_def
proof (intro allI impI)
  fix k m v
  assume h: "in_range (NsZoneletAccessKey zone []) (upper_of (NsZoneletAccessKey zone [])) k
      \<and> kv_get mem_kv db k = KvFound m (Some v)"
  then obtain n where "(k, n, v) \<in> set (snd db)"
    by (auto simp: mem_kv_def mem_get_def dest!: mem_lookup_Some split: option.splits)
  then show "\<exists>ak. v = RowKey ak \<and> k = NsZoneletAccessKey zone (ak_id ak)"
    using assms h by (fastforce simp: list_all_iff split: zrow.splits)
qed

lemma mem_revoked_evicted:
  assumes "list_all (\<lambda>(k, n, v). case v of RowKey ak \<Rightarrow> ak_state ak \<noteq> AccessKey_State_Disable | _ \<Rightarrow> True) (snd db)"
  shows "revoked_evicted zone mem_kv db m"
  using assms
  by (fastforce simp: revoked_evicted_def mem_kv_def mem_get_def list_all_iff dest!: mem_lookup_Some split: option.splits)

definition user_key :: "string \<Rightarrow> string \<Rightarrow> access_key" where
  "user_key i u = empty_key\<lparr>ak_id := i, ak_secret := ''s'', ak_user := u\<rparr>"

definition demo_db :: "zrow mem_db" where
  "demo_db =
     (3, [(NsZoneletAccessKey ''z'' ''a1'', 1, RowKey (user_key ''a1'' ''tim'')),
          (NsZoneletAccessKey ''z'' ''b2'', 2, RowKey (user_key ''b2'' ''eve'')),
          (NsZoneletAccessKey ''z'' ''c3'', 3, RowKey (user_key ''c3'' ''tim''))])"

definition demo_all :: "zrow kv_item list" where
  "demo_all = mem_items (filter (\<lambda>e. in_range (NsZoneletAccessKey ''z'' []) (upper_of (NsZoneletAccessKey ''z'' [])) (fst e)) (snd demo_db))"

lemma demo_db_sorted: "sorted_wrt str_lt (map fst (snd demo_db))"
  by code_simp

lemma demo_db_ranged: "kv_ranged mem_kv demo_db"
  by (rule mem_kv_ranged [OF demo_db_sorted])

lemma demo_db_filed: "keys_filed ''z'' mem_kv demo_db"
  by (rule mem_keys_filed) code_simp

lemma demo_db_listing:
  "kv_listing mem_kv demo_db (NsZoneletAccessKey ''z'' []) (upper_of (NsZoneletAccessKey ''z'' [])) demo_all"
  unfolding demo_all_def by (rule mem_listing [OF demo_db_sorted])

lemma demo_matches: "map ak_id (List.map_filter (key_of_user ''tim'') demo_all) = [''a1'', ''c3'']"
  by code_simp

theorem access_key_pages_witness:
  "\<exists>next. AccessKeysOf 9 ''z'' mem_kv demo_db ''tim'' [] 1 = Inr (take 1 (List.map_filter (key_of_user ''tim'') demo_all), next)
     \<and> (\<exists>next'. AccessKeysOf 9 ''z'' mem_kv demo_db ''tim'' next 1 =
            Inr (take 1 (drop 1 (List.map_filter (key_of_user ''tim'') demo_all)), next'))"
proof -
  have len: "length (List.map_filter (key_of_user ''tim'') demo_all) = 2"
    using arg_cong [OF demo_matches, of length] by simp
  have fuel: "length demo_all < 9" by code_simp
  show ?thesis
    using access_key_pages [OF demo_db_ranged demo_db_filed demo_db_listing fuel, of 1 1 "''tim''"] len by simp
qed

definition demo_admin :: app_validator where
  "demo_admin = \<lparr>av_at = None, av_ak = Some (empty_key\<lparr>ak_scopes := [''*'']\<rparr>)\<rparr>"

definition demo_node :: key_mgr where
  "demo_node = fold mgr_set [user_key ''a1'' ''tim'', user_key ''b2'' ''eve'', user_key ''c3'' ''tim''] NewAccessKeyManager"

definition demo_req :: user_set_req where
  "demo_req = \<lparr>us_name = ''tim'', us_state = ''disabled'', us_description = []\<rparr>"

definition demo_set :: "zrow mem_db \<times> key_mgr \<times> (svc_err + user)" where
  "demo_set = UserSet (\<lambda>s. length s \<ge> 3) 9 ''z'' mem_kv demo_admin True 7 demo_req demo_db demo_node"

definition demo_user :: user where
  "demo_user = \<lparr>u_name = ''tim'', u_description = [], u_state = ''disabled'', u_created = 7, u_updated = 7\<rparr>"

lemma demo_set_eq:
  "UserSet (\<lambda>s. length s \<ge> 3) 9 ''z'' mem_kv demo_admin True 7 demo_req demo_db demo_node =
     (fst demo_set, fst (snd demo_set), Inr demo_user)"
proof -
  have "snd (snd demo_set) = Inr demo_user" by code_simp
  then show ?thesis unfolding demo_set_def by (metis prod.collapse)
qed


text \<open>
  The failover: another leader disabled the rows of the database; the node reloads, and still accepts the
  key it had in memory.
\<close>

theorem refresh_never_evicts_witness:
  "mgr_key (RefreshAccessKeysFromDB ''z'' mem_kv (fst demo_set) demo_node) ''a1'' = Some (user_key ''a1'' ''tim'')
   \<and> (\<exists>mt ak. kv_get mem_kv (fst demo_set) (NsZoneletAccessKey ''z'' ''a1'') = KvFound mt (Some (RowKey ak))
        \<and> ak_state ak = AccessKey_State_Disable)"
proof
  have "list_all (\<lambda>it. \<not> grants_id ''a1'' it) (key_rows ''z'' mem_kv (fst demo_set) @ host_rows ''z'' mem_kv (fst demo_set))"
    by code_simp
  then have "mgr_key (RefreshAccessKeysFromDB ''z'' mem_kv (fst demo_set) demo_node) ''a1'' = mgr_key demo_node ''a1''"
    using refresh_never_evicts [of demo_node "''a1''" "''z''" mem_kv "fst demo_set"] by (auto simp: list_all_iff)
  then show "mgr_key (RefreshAccessKeysFromDB ''z'' mem_kv (fst demo_set) demo_node) ''a1'' = Some (user_key ''a1'' ''tim'')"
    by (simp add: demo_node_def user_key_def)
  have "kv_get mem_kv (fst demo_set) (NsZoneletAccessKey ''z'' ''a1'') =
      KvFound \<lparr>m_version = 5, m_updated = 0\<rparr> (Some (RowKey ((user_key ''a1'' ''tim'')\<lparr>ak_state := AccessKey_State_Disable\<rparr>)))"
    by code_simp
  then show "\<exists>mt ak. kv_get mem_kv (fst demo_set) (NsZoneletAccessKey ''z'' ''a1'') = KvFound mt (Some (RowKey ak))
      \<and> ak_state ak = AccessKey_State_Disable" by simp
qed

end
