(* ===== verification/Placement.thy ===== *)
theory Placement
  imports Ipam HostPort Sched Stage "HOL-Library.AList"
begin

text \<open>
  One tick of the zone leader's scheduler, \<open>internal/zonelet/task_scheduler.go\<close>, over the cached
  instances (\<open>types.go\<close>) and hosts (\<open>pkg/inapi/kv.go\<close>). The tick composes the network manager,
  the port allocator, the host scheduler and the deploy stages. The state is the database with the caches
  of the leader; every phase returns the state as it leaves it, with an error when the tick ends there. A
  cached instance or host is shared by pointer in the code, so an update that is not written is kept in
  the cache. Random numbers, the order of map iterations and the clock are arguments (\<open>tick_env\<close>); the
  stage times of one tick are one reading of the clock.
\<close>

section \<open>Data\<close>

record svc_port =
  sp_name :: string
  sp_port :: u32

record dep_port =
  dp_name :: string
  dp_port :: u32
  dp_host_port :: u32

record dreplica =
  dr_id :: u32
  dr_host :: string
  dr_ip :: string
  dr_ports :: "dep_port list"

record inst =
  in_name :: string
  in_action :: string
  in_cpu :: int
  in_mem :: int
  in_vol :: int
  in_cap :: u32
  in_replicas :: "dreplica list"
  in_stages :: app_deploy_stages
  in_ports :: "svc_port list"

record zhost =
  ho_id :: string
  ho_peer :: string
  ho_deploy :: "host_deploy option"

record zone_info =
  zi_bridge :: string
  zi_instance :: string
  zi_domain :: string

text \<open>\<open>RowPartial\<close> is an instance row whose deploy, spec or resources are missing.\<close>

datatype prow = RowHost zhost | RowInst inst | RowPartial | RowNet zone_network_map | RowZone zone_info

record host_status =
  hs_cores :: int
  hs_mem_total :: int
  hs_mem_used :: int
  hs_disk_total :: int
  hs_disk_free :: int
  hs_cpu_sys :: int
  hs_cpu_user :: int

record host_operate =
  op_cpu :: int
  op_mem :: int
  op_vol :: int

record app_entry =
  ae_version :: nat
  ae_val :: inst

record host_entry =
  he_version :: nat
  he_val :: zhost

record 'db zstate =
  zs_db :: 'db
  zs_net :: net_mgr
  zs_hosts :: "(string \<times> host_entry) list"
  zs_apps :: "app_entry list"
  zs_apps_version :: nat
  zs_apps_ready :: bool
  zs_ops :: "(string \<times> host_operate) list"
  zs_status :: "string \<rightharpoonup> host_status"
  zs_last :: int
  zs_force :: bool

datatype tick_err = TickStore string | TickNet nm_error | TickDecode | TickPanic

record tick_env =
  te_zone :: string
  te_now :: int
  te_ms :: int
  te_config :: zone_info
  te_restore_order :: "u32 list"
  te_host_picks :: "nat list"
  te_port_picks :: "string \<Rightarrow> u32 \<Rightarrow> nat list"
  te_rands :: "string \<Rightarrow> u32 \<Rightarrow> u32 \<Rightarrow> u32 list"
  te_sort_picks :: "nat list"
  te_vol_picks :: "string \<Rightarrow> nat list"
  te_fit_picks :: "nat list"

text \<open>A loop whose body may end the whole tick.\<close>

fun for_each :: "('a \<Rightarrow> 's \<Rightarrow> 's \<times> 'e option) \<Rightarrow> 'a list \<Rightarrow> 's \<Rightarrow> 's \<times> 'e option" where
  "for_each f [] s = (s, None)"
| "for_each f (x # xs) s = (case f x s of (s', Some e) \<Rightarrow> (s', Some e) | (s', None) \<Rightarrow> for_each f xs s')"

definition and_then :: "'s \<times> 'e option \<Rightarrow> ('s \<Rightarrow> 's \<times> 'e option) \<Rightarrow> 's \<times> 'e option" where
  "and_then r f = (case r of (s, Some e) \<Rightarrow> (s, Some e) | (s, None) \<Rightarrow> f s)"

lemma for_each_inv:
  "(\<And>x s. x \<in> set xs \<Longrightarrow> P s \<Longrightarrow> P (fst (f x s))) \<Longrightarrow> P s \<Longrightarrow> P (fst (for_each f xs s))"
proof (induction xs arbitrary: s)
  case (Cons x xs)
  obtain s1 r where f: "f x s = (s1, r)" by fastforce
  have "P s1" using Cons.prems(1) [of x s] Cons.prems(2) f by simp
  then show ?case using Cons.IH Cons.prems(1) f by (cases r) auto
qed simp

lemma and_then_inv: "P (fst r) \<Longrightarrow> (\<And>s. P s \<Longrightarrow> P (fst (f s))) \<Longrightarrow> P (fst (and_then r f))"
  by (auto simp: and_then_def split: prod.splits option.splits)

section \<open>The caches\<close>

text \<open>\<open>KvSet.Store\<close> and \<open>KvSet.Load\<close>.\<close>

fun kvset_store :: "string \<Rightarrow> 'a \<Rightarrow> (string \<times> 'a) list \<Rightarrow> (string \<times> 'a) list" where
  "kvset_store key v [] = [(key, v)]"
| "kvset_store key v ((k, w) # es) = (if k = key then (k, v) # es else (k, w) # kvset_store key v es)"

definition kvset_load :: "string \<Rightarrow> (string \<times> 'a) list \<Rightarrow> 'a option" where
  "kvset_load key es = map_of es key"

text \<open>\<open>appInstanceSet.store\<close>: an entry is replaced only by a newer version.\<close>

fun aset_put :: "inst \<Rightarrow> nat \<Rightarrow> app_entry list \<Rightarrow> app_entry list \<times> bool" where
  "aset_put app ver [] = ([\<lparr>ae_version = ver, ae_val = app\<rparr>], True)"
| "aset_put app ver (e # es) =
     (if in_name (ae_val e) = in_name app then
        (if ver \<le> ae_version e then (e # es, False) else (\<lparr>ae_version = ver, ae_val = app\<rparr> # es, True))
      else case aset_put app ver es of (es', b) \<Rightarrow> (e # es', b))"

definition aset_store :: "inst \<Rightarrow> nat \<Rightarrow> 'db zstate \<Rightarrow> 'db zstate" where
  "aset_store app ver s =
     (case aset_put app ver (zs_apps s) of
        (es, True) \<Rightarrow> s\<lparr>zs_apps := es, zs_apps_version := max (zs_apps_version s) ver\<rparr>
      | (es, False) \<Rightarrow> s)"

definition NsAppInstance :: "string \<Rightarrow> string \<Rightarrow> string" where
  "NsAppInstance zone name = ''i8k/v2/app/instance/'' @ zone @ ''/'' @ name"

definition NsHostRow :: "string \<Rightarrow> string \<Rightarrow> string" where
  "NsHostRow zone host = ''i8k/v2/host/'' @ zone @ ''/info/'' @ host"

definition NsZoneletInfo :: "string \<Rightarrow> string" where
  "NsZoneletInfo zone = ''i8k/v2/zone/'' @ zone @ ''/info''"

definition prev_put :: "nat \<Rightarrow> kv_wopt" where
  "prev_put ver = \<lparr>wo_prev = Some ver, wo_create = False, wo_ttl = 0\<rparr>"

text \<open>\<open>appInstanceSet.Flush\<close> of the instance at an index of the cache.\<close>

definition aset_flush ::
  "('db, prow) kvgo \<Rightarrow> string \<Rightarrow> nat \<Rightarrow> 'db zstate \<Rightarrow> 'db zstate \<times> tick_err option" where
  "aset_flush K zone i s =
     (let e = zs_apps s ! i in
      case kv_put K (zs_db s) (NsAppInstance zone (in_name (ae_val e))) (prev_put (ae_version e)) (RowInst (ae_val e)) of
        (db', KvWriteErr er) \<Rightarrow> (s\<lparr>zs_db := db'\<rparr>, Some (TickStore er))
      | (db', KvWritten m) \<Rightarrow>
          (s\<lparr>zs_db := db', zs_apps := (zs_apps s)[i := e\<lparr>ae_version := m_version m\<rparr>]\<rparr>, None))"

definition rows_of :: "'v kv_rr \<Rightarrow> string + 'v kv_item list" where
  "rows_of r = (case r of KvItems its _ \<Rightarrow> Inr its | KvRangeErr e \<Rightarrow> Inl e)"

definition Zonelet_MaxInstances :: nat where
  "Zonelet_MaxInstances = 252 * 252"

definition Zonelet_MaxHosts :: nat where
  "Zonelet_MaxHosts = 252"

definition aset_load_row :: "prow kv_item \<Rightarrow> 'db zstate \<Rightarrow> 'db zstate" where
  "aset_load_row it s =
     (case it_val it of Some (RowInst app) \<Rightarrow> aset_store app (m_version (it_meta it)) s | _ \<Rightarrow> s)"

definition aset_refresh :: "('db, prow) kvgo \<Rightarrow> string \<Rightarrow> 'db zstate \<Rightarrow> 'db zstate \<times> tick_err option" where
  "aset_refresh K zone s =
     (let p = NsAppInstance zone [] in
      case rows_of (kv_range K (zs_db s) p (p @ [CHR 0xFF]) Zonelet_MaxInstances False) of
        Inl e \<Rightarrow> (s, Some (TickStore e))
      | Inr its \<Rightarrow> ((fold aset_load_row its s)\<lparr>zs_apps_ready := True\<rparr>, None))"

definition upd_app :: "nat \<Rightarrow> (inst \<Rightarrow> inst) \<Rightarrow> 'db zstate \<Rightarrow> 'db zstate" where
  "upd_app i f s = s\<lparr>zs_apps := (zs_apps s)[i := (zs_apps s ! i)\<lparr>ae_val := f (ae_val (zs_apps s ! i))\<rparr>]\<rparr>"

definition upd_host :: "string \<Rightarrow> (host_entry \<Rightarrow> host_entry) \<Rightarrow> 'db zstate \<Rightarrow> 'db zstate" where
  "upd_host h f s = s\<lparr>zs_hosts := map (\<lambda>(k, e). (k, if k = h then f e else e)) (zs_hosts s)\<rparr>"

section \<open>The network part\<close>

text \<open>The network manager's view of the store.\<close>

definition as_net :: "prow option \<Rightarrow> zone_network_map option" where
  "as_net v = (case v of Some (RowNet m) \<Rightarrow> Some m | _ \<Rightarrow> None)"

definition net_view :: "('db, prow) kvgo \<Rightarrow> ('db, zone_network_map) kvgo" where
  "net_view K =
     \<lparr>kv_get = (\<lambda>db k. case kv_get K db k of
          KvFound m v \<Rightarrow> KvFound m (as_net v) | KvNotFound \<Rightarrow> KvNotFound | KvReadErr e \<Rightarrow> KvReadErr e),
      kv_put = (\<lambda>db k o' v. kv_put K db k o' (RowNet v)),
      kv_del = kv_del K,
      kv_range = (\<lambda>db lo hi n r. case kv_range K db lo hi n r of
          KvItems its b \<Rightarrow> KvItems (map (\<lambda>i. \<lparr>it_key = it_key i, it_meta = it_meta i, it_val = as_net (it_val i)\<rparr>) its) b
        | KvRangeErr e \<Rightarrow> KvRangeErr e)\<rparr>"

definition nm_err :: "'a nm_res \<Rightarrow> tick_err option" where
  "nm_err r = (case r of NmOK _ \<Rightarrow> None | NmErr e \<Rightarrow> Some (TickNet e) | NmPanic \<Rightarrow> Some TickPanic)"

text \<open>An error of \<open>ZoneSetup\<close> is logged only; a panic ends the tick.\<close>

definition tick_zone_setup ::
  "('db, prow) kvgo \<Rightarrow> tick_env \<Rightarrow> zone_info \<Rightarrow> 'db zstate \<Rightarrow> 'db zstate \<times> tick_err option" where
  "tick_zone_setup K E z s =
     (case ZoneSetup (net_view K) (te_now E) (te_zone E) (zi_bridge z) (zi_instance z) (zi_domain z) (zs_net s) (zs_db s) of
        (nm, db, NmPanic) \<Rightarrow> (s\<lparr>zs_net := nm, zs_db := db\<rparr>, Some TickPanic)
      | (nm, db, _) \<Rightarrow> (s\<lparr>zs_net := nm, zs_db := db\<rparr>, None))"

definition tick_network :: "('db, prow) kvgo \<Rightarrow> tick_env \<Rightarrow> 'db zstate \<Rightarrow> 'db zstate \<times> tick_err option" where
  "tick_network K E s =
     (case Restore (net_view K) (te_restore_order E) (te_zone E) (zs_net s) (zs_db s) of (nm, r) \<Rightarrow>
      and_then (s\<lparr>zs_net := nm\<rparr>, nm_err r) (\<lambda>s1.
        and_then
          (case kv_get K (zs_db s1) (NsZoneletInfo (te_zone E)) of
             KvNotFound \<Rightarrow> (s1, Some (TickStore ''not found''))
           | KvReadErr e \<Rightarrow> (s1, Some (TickStore e))
           | KvFound _ v \<Rightarrow>
               (case v of
                  Some (RowZone z) \<Rightarrow>
                    if zi_bridge z \<noteq> [] \<and> zi_instance z \<noteq> [] then tick_zone_setup K E z s1 else (s1, None)
                | _ \<Rightarrow> (s1, Some TickDecode)))
          (\<lambda>s2. if \<not> nm_ready (zs_net s2) \<and> zi_bridge (te_config E) \<noteq> []
                then tick_zone_setup K E (te_config E) s2 else (s2, None))))"

section \<open>Hosts\<close>

definition empty_host_deploy :: host_deploy where
  "empty_host_deploy = \<lparr>hd_bridge_ip = [], hd_instance_cidr = [], hd_port_used = []\<rparr>"

definition the_deploy :: "zhost \<Rightarrow> host_deploy" where
  "the_deploy h = (case ho_deploy h of Some d \<Rightarrow> d | None \<Rightarrow> empty_host_deploy)"

definition set_host_deploy :: "string \<Rightarrow> host_deploy option \<Rightarrow> 'db zstate \<Rightarrow> 'db zstate" where
  "set_host_deploy h d s = upd_host h (\<lambda>e. e\<lparr>he_val := (he_val e)\<lparr>ho_deploy := d\<rparr>\<rparr>) s"

text \<open>
  One host row: it enters the cache, its network is refreshed, and a change is written back. The version
  in the cache stays the one that was read.
\<close>

definition tick_host :: "('db, prow) kvgo \<Rightarrow> tick_env \<Rightarrow> prow kv_item \<Rightarrow> 'db zstate \<Rightarrow> 'db zstate \<times> tick_err option" where
  "tick_host K E it s =
     (case it_val it of
        Some (RowHost h0) \<Rightarrow>
          (let h = h0\<lparr>ho_deploy := Some (the_deploy h0)\<rparr>;
               s1 = s\<lparr>zs_hosts := kvset_store (ho_id h) \<lparr>he_version = m_version (it_meta it), he_val = h\<rparr> (zs_hosts s)\<rparr>
           in if \<not> nm_ready (zs_net s1) then (s1, None)
              else case RefreshHostNetwork (net_view K) (te_now E) (ho_id h) (ho_peer h) (ho_deploy h) (zs_net s1) (zs_db s1) of
                (nm, db, d, r) \<Rightarrow>
                  (let s2 = set_host_deploy (ho_id h) d (s1\<lparr>zs_net := nm, zs_db := db\<rparr>) in
                   case r of
                     NmPanic \<Rightarrow> (s2, Some TickPanic)
                   | NmErr _ \<Rightarrow> (s2, None)
                   | NmOK False \<Rightarrow> (s2, None)
                   | NmOK True \<Rightarrow>
                       (case kv_put K (zs_db s2) (NsHostRow (te_zone E) (ho_id h)) (prev_put (m_version (it_meta it)))
                               (RowHost (h\<lparr>ho_deploy := d\<rparr>)) of
                          (db', KvWriteErr e) \<Rightarrow> (s2\<lparr>zs_db := db'\<rparr>, Some (TickStore e))
                        | (db', KvWritten _) \<Rightarrow> (s2\<lparr>zs_db := db'\<rparr>, None))))
      | _ \<Rightarrow> (s, None))"

definition tick_hosts :: "('db, prow) kvgo \<Rightarrow> tick_env \<Rightarrow> 'db zstate \<Rightarrow> 'db zstate \<times> tick_err option" where
  "tick_hosts K E s =
     (let p = NsHostRow (te_zone E) [] in
      case rows_of (kv_range K (zs_db s) p (p @ [CHR 0xFF]) Zonelet_MaxHosts False) of
        Inl e \<Rightarrow> (s, Some (TickStore e))
      | Inr its \<Rightarrow> for_each (tick_host K E) its s)"

section \<open>What the tick sees\<close>

definition OpActionDelete :: string where
  "OpActionDelete = ''delete''"

definition live :: "inst \<Rightarrow> bool" where
  "live a \<longleftrightarrow> in_action a \<noteq> OpActionDelete"

definition wants_host :: "inst \<Rightarrow> bool" where
  "wants_host a \<longleftrightarrow>
     (if length (in_replicas a) < unat (in_cap a) then True
      else list_ex (\<lambda>r. dr_host r = []) (in_replicas a))"

text \<open>The instances the tick works on (by their place in the cache), and the first that wants a host.\<close>

definition instance_map :: "'db zstate \<Rightarrow> nat list" where
  "instance_map s = filter (\<lambda>i. live (ae_val (zs_apps s ! i))) [0 ..< length (zs_apps s)]"

definition active_instance :: "'db zstate \<Rightarrow> nat option" where
  "active_instance s = find (\<lambda>i. wants_host (ae_val (zs_apps s ! i))) (instance_map s)"

text \<open>The host ports of the placed replicas, per host, without repetitions.\<close>

definition add_port :: "u32 \<Rightarrow> u32 list \<Rightarrow> u32 list" where
  "add_port p ps = (if p > 0 \<and> p \<notin> set ps then ps @ [p] else ps)"

definition port_row :: "dreplica \<Rightarrow> (string \<times> u32 list) list \<Rightarrow> (string \<times> u32 list) list" where
  "port_row rep m =
     (if dr_host rep = [] then m
      else let ps = (case kvset_load (dr_host rep) m of Some ps \<Rightarrow> ps | None \<Rightarrow> [])
           in kvset_store (dr_host rep) (fold (\<lambda>p. add_port (dp_host_port p)) (dr_ports rep) ps) m)"

definition host_port_map :: "'db zstate \<Rightarrow> (string \<times> u32 list) list" where
  "host_port_map s =
     fold port_row (concat (map (\<lambda>i. in_replicas (ae_val (zs_apps s ! i))) (instance_map s))) []"

section \<open>The used ports of the hosts\<close>

definition put_host ::
  "('db, prow) kvgo \<Rightarrow> string \<Rightarrow> string \<Rightarrow> 'db zstate \<Rightarrow> 'db zstate \<times> tick_err option" where
  "put_host K zone h s =
     (case kvset_load h (zs_hosts s) of
        None \<Rightarrow> (s, Some TickPanic)
      | Some e \<Rightarrow>
          (case kv_put K (zs_db s) (NsHostRow zone (ho_id (he_val e))) (prev_put (he_version e)) (RowHost (he_val e)) of
             (db', KvWriteErr er) \<Rightarrow> (s\<lparr>zs_db := db'\<rparr>, Some (TickStore er))
           | (db', KvWritten m) \<Rightarrow> (upd_host h (\<lambda>e. e\<lparr>he_version := m_version m\<rparr>) (s\<lparr>zs_db := db'\<rparr>), None)))"

definition set_port_used :: "string \<Rightarrow> u32 list \<Rightarrow> 'db zstate \<Rightarrow> 'db zstate" where
  "set_port_used h ps s =
     upd_host h (\<lambda>e. e\<lparr>he_val := (he_val e)\<lparr>ho_deploy := Some ((the_deploy (he_val e))\<lparr>hd_port_used := ps\<rparr>)\<rparr>\<rparr>) s"

definition port_used :: "string \<Rightarrow> 'db zstate \<Rightarrow> u32 list" where
  "port_used h s = (case kvset_load h (zs_hosts s) of Some e \<Rightarrow> hd_port_used (the_deploy (he_val e)) | None \<Rightarrow> [])"

definition sync_ports ::
  "('db, prow) kvgo \<Rightarrow> tick_env \<Rightarrow> string \<times> u32 list \<Rightarrow> 'db zstate \<Rightarrow> 'db zstate \<times> tick_err option" where
  "sync_ports K E hp s =
     (case hp of (h, ports) \<Rightarrow>
        if kvset_load h (zs_hosts s) = None then (s, None)
        else let cur = sort (port_used h s); new = sort ports
          in if cur = new then (set_port_used h cur s, None)
             else put_host K (te_zone E) h (set_port_used h new s))"

definition tick_port_used :: "('db, prow) kvgo \<Rightarrow> tick_env \<Rightarrow> 'db zstate \<Rightarrow> 'db zstate \<times> tick_err option" where
  "tick_port_used K E s = for_each (sync_ports K E) (shuffle (te_host_picks E) (host_port_map s)) s"

section \<open>Stages and revisions\<close>

definition upd_stages :: "(stage \<Rightarrow> stage) \<Rightarrow> inst \<Rightarrow> inst" where
  "upd_stages f a = a\<lparr>in_stages := (in_stages a)\<lparr>ad_stages := Some (f (StagesRoot (in_stages a)))\<rparr>\<rparr>"

definition tick_reconcile :: "('db, prow) kvgo \<Rightarrow> tick_env \<Rightarrow> nat \<Rightarrow> 'db zstate \<Rightarrow> 'db zstate \<times> tick_err option" where
  "tick_reconcile K E i s =
     (case appDeployStagesReconcile (te_ms E) (in_stages (ae_val (zs_apps s ! i))) of
        (d, chg) \<Rightarrow>
          let s1 = upd_app i (\<lambda>a. a\<lparr>in_stages := d\<rparr>) s in
          if chg then (fst (aset_flush K (te_zone E) i s1), None) else (s1, None))"

text \<open>\<open>schedulerBumpRevision\<close>: at most once per tick and instance; \<open>bumped\<close> lists the names.\<close>

definition bump_revision :: "string list \<Rightarrow> inst \<Rightarrow> inst \<times> string list" where
  "bump_revision bumped a =
     (if in_name a \<in> set bumped then (a, bumped)
      else (a\<lparr>in_stages := (in_stages a)\<lparr>ad_revision := (ad_revision (in_stages a) + 1) mod 2 ^ 64\<rparr>\<rparr>, in_name a # bumped))"

definition replica_instant :: "tick_env \<Rightarrow> string \<Rightarrow> string \<Rightarrow> u32 \<Rightarrow> inst \<Rightarrow> inst" where
  "replica_instant E name msg rid a =
     upd_stages (ReplicaStage (unat rid) (Child name AppStageOwnerZonelet
        (\<lambda>st. set_revision (ad_revision (in_stages a)) (SetInstant (te_ms E) msg st)))) a"

section \<open>Host ports of placed replicas\<close>

definition valid_port :: "svc_port \<Rightarrow> bool" where
  "valid_port sp \<longleftrightarrow> \<not> (sp_port sp < 1 \<or> sp_port sp \<ge> 65536)"

text \<open>The map of the spec's ports: the last entry of a port number wins.\<close>

definition spec_ports :: "inst \<Rightarrow> (u32 \<times> svc_port) list" where
  "spec_ports a = fold (\<lambda>sp. AList.update (sp_port sp) sp) (filter valid_port (in_ports a)) []"

definition has_port :: "u32 \<Rightarrow> dep_port list \<Rightarrow> bool" where
  "has_port p ps \<longleftrightarrow> list_ex (\<lambda>d. dp_port d = p) ps"

definition kept_ports :: "inst \<Rightarrow> dep_port list \<Rightarrow> dep_port list" where
  "kept_ports a ps =
     fold (\<lambda>d acc. if map_of (spec_ports a) (dp_port d) \<noteq> None \<and> dp_host_port d > 0 \<and> \<not> has_port (dp_port d) acc
                   then acc @ [d] else acc) ps []"

text \<open>
  One port: a host port is drawn against the host's used ports, which grow with it. The two loops over
  ports of the tick share this step; the first skips a port that is already set.
\<close>

definition draw_port ::
  "(u32 \<Rightarrow> u32 list) \<Rightarrow> svc_port \<Rightarrow> dep_port list \<times> u32 list \<Rightarrow> dep_port list \<times> u32 list" where
  "draw_port rnd sp acc =
     (case acc of (ps, used) \<Rightarrow>
        let hp = HostPortAlloc used 0 (rnd (sp_port sp)) in
        if hp = 0 then (ps, used)
        else (ps @ [\<lparr>dp_name = sp_name sp, dp_port = sp_port sp, dp_host_port = hp\<rparr>], sort (used @ [hp])))"

definition draw_missing ::
  "(u32 \<Rightarrow> u32 list) \<Rightarrow> svc_port \<Rightarrow> dep_port list \<times> u32 list \<Rightarrow> dep_port list \<times> u32 list" where
  "draw_missing rnd sp acc = (if has_port (sp_port sp) (fst acc) then acc else draw_port rnd sp acc)"

definition set_replica :: "nat \<Rightarrow> (dreplica \<Rightarrow> dreplica) \<Rightarrow> inst \<Rightarrow> inst" where
  "set_replica j f a = a\<lparr>in_replicas := (in_replicas a)[j := f (in_replicas a ! j)]\<rparr>"

text \<open>The state of a loop over replicas: the caches and the names whose revision was bumped.\<close>

type_synonym 'db tstate = "'db zstate \<times> string list"

definition bind_ports ::
  "('db, prow) kvgo \<Rightarrow> tick_env \<Rightarrow> nat \<Rightarrow> nat \<Rightarrow> 'db tstate \<Rightarrow> 'db tstate \<times> tick_err option" where
  "bind_ports K E i j t =
     (case t of (s, bumped) \<Rightarrow>
        let a = ae_val (zs_apps s ! i); rep = in_replicas a ! j; ports = spec_ports a in
        if dr_host rep = [] \<or> kvset_load (dr_host rep) (zs_hosts s) = None then (t, None)
        else let kept = kept_ports a (dr_ports rep) in
          if length kept = length ports then (t, None)
          else case fold (draw_missing (te_rands E (in_name a) (dr_id rep)))
                      (map snd (shuffle (te_port_picks E (in_name a) (dr_id rep)) ports))
                      (kept, port_used (dr_host rep) s) of
            (ps, used) \<Rightarrow>
              let s1 = set_port_used (dr_host rep) used s in
              if length ps = length kept then ((s1, bumped), None)
              else
                let (a1, bumped1) = bump_revision bumped (set_replica j (\<lambda>r. r\<lparr>dr_ports := ps\<rparr>) a);
                    a2 = replica_instant E ''port_alloc'' [] (dr_id rep) a1
                in case and_then (aset_flush K (te_zone E) i (upd_app i (\<lambda>_. a2) s1)) (put_host K (te_zone E) (dr_host rep)) of
                     (s2, er) \<Rightarrow> ((s2, bumped1), er))"

section \<open>Addresses of placed replicas\<close>

definition bind_ip ::
  "('db, prow) kvgo \<Rightarrow> tick_env \<Rightarrow> nat \<Rightarrow> nat \<Rightarrow> 'db tstate \<Rightarrow> 'db tstate \<times> tick_err option" where
  "bind_ip K E i j t =
     (case t of (s, bumped) \<Rightarrow>
        let a = ae_val (zs_apps s ! i); rep = in_replicas a ! j in
        if dr_host rep = [] then (t, None)
        else if dr_ip rep \<noteq> [] \<and> VpcInstance (zs_net s) (dr_ip rep) = ins_rep_id (in_name a) (dr_id rep)
             \<and> VpcInstance (zs_net s) (dr_ip rep) \<noteq> []
        then (t, None)
        else
          let s0 = upd_app i (set_replica j (\<lambda>r. r\<lparr>dr_ip := []\<rparr>)) s in
          if HostNetwork (zs_net s0) (dr_host rep) = None then ((s0, bumped), None)
          else case AllocHostSubNetwork (net_view K) (te_now E) (dr_host rep) (in_name a) (dr_id rep) (zs_net s0) (zs_db s0) of
            (nm, db, r) \<Rightarrow>
              let s1 = s0\<lparr>zs_net := nm, zs_db := db\<rparr> in
              case r of
                NmOK ip \<Rightarrow>
                  (let s2 = upd_app i (set_replica j (\<lambda>r. r\<lparr>dr_ip := ip\<rparr>)) s1 in
                   if ip = [] then ((s2, bumped), None)
                   else
                     let (a1, bumped1) = bump_revision bumped (ae_val (zs_apps s2 ! i));
                         a2 = replica_instant E ''ipam_alloc'' ip (dr_id rep) a1
                     in case aset_flush K (te_zone E) i (upd_app i (\<lambda>_. a2) s2) of (s3, er) \<Rightarrow> ((s3, bumped1), er))
              | _ \<Rightarrow> ((s1, bumped), Some TickPanic))"

definition bind_app :: "('db, prow) kvgo \<Rightarrow> tick_env \<Rightarrow> nat \<Rightarrow> 'db tstate \<Rightarrow> 'db tstate \<times> tick_err option" where
  "bind_app K E i t =
     (let reps = [0 ..< length (in_replicas (ae_val (zs_apps (fst t) ! i)))] in
      and_then (for_each (bind_ports K E i) reps t)
        (\<lambda>t1. if \<not> nm_ready (zs_net (fst t1)) then (t1, None) else for_each (bind_ip K E i) reps t1))"

section \<open>Capacity\<close>

definition Window1Min :: int where
  "Window1Min = 60"

definition hostCpuUsedMc :: "host_status \<Rightarrow> int" where
  "hostCpuUsedMc st = godiv (i64 (hs_cpu_sys st + hs_cpu_user st)) Window1Min"

definition sched_item :: "string \<Rightarrow> host_status \<Rightarrow> sched_host" where
  "sched_item h st =
     \<lparr>sh_id = h, sh_op_action = [HostSetupStart],
      sh_cpu_total = i64 (hs_cores st * 1000), sh_cpu_used = hostCpuUsedMc st, sh_cpu_alloc = 0,
      sh_mem_total = hs_mem_total st, sh_mem_used = hs_mem_used st, sh_mem_alloc = 0,
      sh_volumes = [\<lparr>sv_name = ''default'', sv_total = hs_disk_total st,
                     sv_used = i64 (hs_disk_total st - hs_disk_free st), sv_alloc = 0\<rparr>]\<rparr>"

definition host_reports :: "host_status \<Rightarrow> bool" where
  "host_reports st \<longleftrightarrow> \<not> (hs_cores st \<le> 0 \<or> hs_mem_total st \<le> 0 \<or> hs_disk_total st \<le> 0)"

definition sched_hosts0 :: "'db zstate \<Rightarrow> sched_host list" where
  "sched_hosts0 s =
     List.map_filter (\<lambda>(k, e). case zs_status s (ho_id (he_val e)) of
         None \<Rightarrow> None
       | Some st \<Rightarrow> if host_reports st then Some (sched_item (ho_id (he_val e)) st) else None) (zs_hosts s)"

definition add_alloc :: "int \<Rightarrow> int \<Rightarrow> int \<Rightarrow> sched_host \<Rightarrow> sched_host" where
  "add_alloc cpu mem vol h =
     h\<lparr>sh_cpu_alloc := i64 (sh_cpu_alloc h + cpu), sh_mem_alloc := i64 (sh_mem_alloc h + mem),
       sh_volumes := (case sh_volumes h of [] \<Rightarrow> [] | v # vs \<Rightarrow> v\<lparr>sv_alloc := i64 (sv_alloc v + vol)\<rparr> # vs)\<rparr>"

definition alloc_replica :: "inst \<Rightarrow> dreplica \<Rightarrow> sched_host list \<Rightarrow> sched_host list" where
  "alloc_replica a rep hs =
     (if dr_host rep = [] then hs
      else map (\<lambda>h. if sh_id h = dr_host rep then add_alloc (in_cpu a) (in_mem a) (in_vol a) h else h) hs)"

definition placed_on :: "'db zstate \<Rightarrow> (inst \<times> dreplica) list" where
  "placed_on s = concat (map (\<lambda>i. let a = ae_val (zs_apps s ! i) in map (Pair a) (in_replicas a)) (instance_map s))"

definition sched_hosts :: "'db zstate \<Rightarrow> sched_host list" where
  "sched_hosts s = fold (\<lambda>(a, rep). alloc_replica a rep) (placed_on s) (sched_hosts0 s)"

definition host_op :: "sched_host \<Rightarrow> host_operate" where
  "host_op h = \<lparr>op_cpu = sh_cpu_alloc h, op_mem = sh_mem_alloc h, op_vol = sv_alloc (hd (sh_volumes h))\<rparr>"

definition store_ops :: "sched_host list \<Rightarrow> 'db zstate \<Rightarrow> 'db zstate" where
  "store_ops hs s = s\<lparr>zs_ops := fold (\<lambda>h. kvset_store (sh_id h) (host_op h)) hs (zs_ops s)\<rparr>"

section \<open>Placing a replica\<close>

definition AppReplicaCapMax :: u32 where
  "AppReplicaCapMax = 128"

definition clamp_cap :: "u32 \<Rightarrow> u32" where
  "clamp_cap rc = max 1 (min AppReplicaCapMax rc)"

definition new_replica :: "u32 \<Rightarrow> dreplica" where
  "new_replica rid = \<lparr>dr_id = rid, dr_host = [], dr_ip = [], dr_ports = []\<rparr>"

text \<open>The replicas in the order of their ids, filled up to the wanted number.\<close>

definition fill_replicas :: "tick_env \<Rightarrow> inst \<Rightarrow> inst" where
  "fill_replicas E a =
     (let cap = clamp_cap (in_cap a);
          reps = sort_slice (te_sort_picks E) (\<lambda>r. int (unat (dr_id r))) (in_replicas a)
      in a\<lparr>in_cap := cap, in_replicas := reps @ map (new_replica \<circ> of_nat) [length reps ..< unat cap]\<rparr>)"

fun first_index :: "('a \<Rightarrow> bool) \<Rightarrow> 'a list \<Rightarrow> nat option" where
  "first_index P [] = None"
| "first_index P (x # xs) = (if P x then Some 0 else map_option Suc (first_index P xs))"

definition sched_stage :: "nat \<Rightarrow> u32 \<Rightarrow> (stage \<Rightarrow> stage) \<Rightarrow> inst \<Rightarrow> inst" where
  "sched_stage rv rid f a = upd_stages (ReplicaStage (unat rid) (Child ''schedule'' AppStageOwnerZonelet f)) a"

text \<open>What the tick writes into the instance when a host was found, in the order of the code.\<close>

definition replica_placed :: "tick_env \<Rightarrow> nat \<Rightarrow> u32 \<Rightarrow> string \<Rightarrow> string \<Rightarrow> inst \<Rightarrow> inst" where
  "replica_placed E rv rid h ip a =
     (let ms = te_ms E;
          child = (\<lambda>name msg. Child name AppStageOwnerZonelet (SetInstant ms msg))
      in upd_stages (ReplicaStage (unat rid)
           (SetRevisionDeep rv \<circ> child ''deliver'' h \<circ> child ''port_alloc'' [] \<circ> child ''ipam_alloc'' ip)) a)"

definition add_op :: "inst \<Rightarrow> host_operate \<Rightarrow> host_operate" where
  "add_op a op = \<lparr>op_cpu = i64 (op_cpu op + in_cpu a), op_mem = i64 (op_mem op + in_mem a), op_vol = i64 (op_vol op + in_vol a)\<rparr>"

text \<open>The address of the new replica; nothing when the network is not ready or does not know the host.\<close>

definition place_ip ::
  "('db, prow) kvgo \<Rightarrow> tick_env \<Rightarrow> string \<Rightarrow> inst \<Rightarrow> u32 \<Rightarrow> 'db zstate \<Rightarrow> 'db zstate \<times> string \<times> tick_err option" where
  "place_ip K E h a rid s =
     (if nm_ready (zs_net s) \<and> HostNetwork (zs_net s) h \<noteq> None then
        (case AllocHostSubNetwork (net_view K) (te_now E) h (in_name a) rid (zs_net s) (zs_db s) of
           (nm, db, NmOK ip) \<Rightarrow> (s\<lparr>zs_net := nm, zs_db := db\<rparr>, ip, None)
         | (nm, db, _) \<Rightarrow> (s\<lparr>zs_net := nm, zs_db := db\<rparr>, [], Some TickPanic))
      else (s, [], None))"

definition place_ports ::
  "tick_env \<Rightarrow> inst \<Rightarrow> u32 \<Rightarrow> u32 list \<Rightarrow> dep_port list \<times> u32 list" where
  "place_ports E a rid used =
     fold (draw_port (te_rands E (in_name a) rid)) (filter valid_port (in_ports a)) ([], used)"

text \<open>The replica is bound to host \<open>h\<close>: address, ports, stages, and the two writes.\<close>

definition place_on ::
  "('db, prow) kvgo \<Rightarrow> tick_env \<Rightarrow> nat \<Rightarrow> nat \<Rightarrow> string \<Rightarrow> 'db zstate \<Rightarrow> 'db zstate \<times> tick_err option" where
  "place_on K E i j h s =
     (if kvset_load h (zs_hosts s) = None then (s, None)
      else
        let a = ae_val (zs_apps s ! i); rep = in_replicas a ! j; rv = ad_revision (in_stages a);
            s0 = upd_app i (set_replica j (\<lambda>r. r\<lparr>dr_host := h\<rparr>)) s
        in case place_ip K E h a (dr_id rep) s0 of
             (s1, ip, Some e) \<Rightarrow> (s1, Some e)
           | (s1, ip, None) \<Rightarrow>
               (let ip' = (if nm_ready (zs_net s0) \<and> HostNetwork (zs_net s0) h \<noteq> None then ip else dr_ip rep);
                    (ps, used) = place_ports E a (dr_id rep) (port_used h s1);
                    s2 = set_port_used h used s1;
                    s3 = upd_app i (replica_placed E rv (dr_id rep) h ip'
                           \<circ> set_replica j (\<lambda>r. r\<lparr>dr_ip := ip', dr_ports := ps\<rparr>)) s2
                in and_then (aset_flush K (te_zone E) i s3)
                     (\<lambda>s4. put_host K (te_zone E) h
                        (s4\<lparr>zs_ops := map (\<lambda>(k, op). (k, if k = h then add_op a op else op)) (zs_ops s4)\<rparr>))))"

fun sched_err_text :: "sched_error \<Rightarrow> string" where
  "sched_err_text ErrBadArgument = ''BadArgument''"
| "sched_err_text ErrNoHostFound = ''No Host Found''"
| "sched_err_text ErrNoHostScheduled = ''No Host Scheduled''"
| "sched_err_text ErrNoResourceFit = ''No Resource Fit''"

text \<open>The first replica without a host is scheduled; the tick ends with it.\<close>

definition tick_place ::
  "('db, prow) kvgo \<Rightarrow> tick_env \<Rightarrow> nat \<Rightarrow> sched_host list \<Rightarrow> 'db zstate \<Rightarrow> 'db zstate \<times> tick_err option" where
  "tick_place K E i hosts s =
     (let s0 = upd_app i (fill_replicas E) s; a = ae_val (zs_apps s0 ! i) in
      case first_index (\<lambda>r. dr_host r = []) (in_replicas a) of
        None \<Rightarrow> (s0, None)
      | Some j \<Rightarrow>
          (let rep = in_replicas a ! j; rid = dr_id rep; rv = ad_revision (in_stages a); ms = te_ms E;
               s1 = upd_app i (sched_stage rv rid (set_revision rv \<circ> SetRunning ms [])) s0
           in case ScheduleHost (te_vol_picks E) (te_fit_picks E)
                    (Some \<lparr>sr_cpu = in_cpu a, sr_mem = in_mem a, sr_vol = in_vol a\<rparr>) hosts [] of
                Inl e \<Rightarrow>
                  (let s2 = upd_app i (sched_stage rv rid (set_revision rv \<circ> SetFailed ms ms (sched_err_text e))) s1
                   in aset_flush K (te_zone E) i s2)
              | Inr hit \<Rightarrow>
                  (let h = hit_host_id hit;
                       inst' = (\<lambda>name msg. Child name AppStageOwnerZonelet (SetInstant ms msg));
                       s2 = upd_app i (sched_stage rv rid
                              (SetSuccess ms ms h \<circ> inst' ''host_prioritize'' h \<circ> inst' ''host_fit'' [])) s1
                   in place_on K E i j h s2)))"

section \<open>The tick\<close>

definition tick_capacity ::
  "('db, prow) kvgo \<Rightarrow> tick_env \<Rightarrow> nat option \<Rightarrow> 'db zstate \<Rightarrow> 'db zstate \<times> tick_err option" where
  "tick_capacity K E active s =
     (if active = None \<and> zs_ops s \<noteq> [] then (s, None)
      else if sched_hosts0 s = [] then (s, None)
      else let hs = sched_hosts s; s1 = store_ops hs s in
        case active of None \<Rightarrow> (s1, None) | Some i \<Rightarrow> tick_place K E i hs s1)"

text \<open>Everything after the caches are loaded.\<close>

definition schedule_round :: "('db, prow) kvgo \<Rightarrow> tick_env \<Rightarrow> 'db zstate \<Rightarrow> 'db zstate \<times> tick_err option" where
  "schedule_round K E s =
     (let active = active_instance s; apps = instance_map s in
      and_then (tick_port_used K E s) (\<lambda>s1.
      and_then (for_each (tick_reconcile K E) apps s1) (\<lambda>s2.
      and_then (case for_each (bind_app K E) apps (s2, []) of (t, er) \<Rightarrow> (fst t, er)) (\<lambda>s3.
      tick_capacity K E active s3))))"

definition forceFreshTTL :: int where
  "forceFreshTTL = 1800"

definition schedulerRefresh ::
  "('db, prow) kvgo \<Rightarrow> tick_env \<Rightarrow> bool \<Rightarrow> bool \<Rightarrow> 'db zstate \<Rightarrow> 'db zstate \<times> tick_err option" where
  "schedulerRefresh K E leader force s =
     (if \<not> leader then (s, None)
      else
        let due = \<not> force \<and> (i64 (zs_last s + forceFreshTTL) < te_now E \<or> zs_ops s = [] \<or> zs_force s);
            s0 = (if due then s\<lparr>zs_last := te_now E, zs_force := False\<rparr> else s);
            force' = (force \<or> due)
        in and_then (if force' then tick_network K E s0 else (s0, None)) (\<lambda>s1.
           and_then (tick_hosts K E s1) (\<lambda>s2.
           and_then (if force' \<or> \<not> zs_apps_ready s2 then aset_refresh K (te_zone E) s2 else (s2, None)) (\<lambda>s3.
           schedule_round K E s3))))"

section \<open>Frames\<close>

lemma kvset_load_store: "kvset_load k (kvset_store key v es) = (if k = key then Some v else kvset_load k es)"
  by (induction key v es rule: kvset_store.induct) (auto simp: kvset_load_def)

lemma kvset_store_keys: "fst ` set (kvset_store key v es) = insert key (fst ` set es)"
  by (induction key v es rule: kvset_store.induct) auto

lemma kvset_store_distinct: "distinct (map fst es) \<Longrightarrow> distinct (map fst (kvset_store key v es))"
proof (induction key v es rule: kvset_store.induct)
  case (2 key v k w es)
  have "k \<notin> fst ` set es" using "2.prems" by simp
  then have "k \<noteq> key \<Longrightarrow> k \<notin> set (map fst (kvset_store key v es))" by (simp add: kvset_store_keys)
  then show ?case using 2 by auto
qed simp

lemma kvset_load_upd_host:
  "kvset_load k (zs_hosts (upd_host h f s)) = map_option (\<lambda>e. if k = h then f e else e) (kvset_load k (zs_hosts s))"
proof -
  have "map_of (map (\<lambda>(k, e). (k, if k = h then f e else e)) es) k = map_option (\<lambda>e. if k = h then f e else e) (map_of es k)" for es
    by (induction es) auto
  then show ?thesis by (simp add: upd_host_def kvset_load_def)
qed

lemma upd_host_frame [simp]: "zs_apps (upd_host h f s) = zs_apps s"
  by (simp add: upd_host_def)

lemma upd_app_frame [simp]: "zs_hosts (upd_app i f s) = zs_hosts s" "length (zs_apps (upd_app i f s)) = length (zs_apps s)"
  by (simp_all add: upd_app_def)

lemma port_used_cong: "zs_hosts s = zs_hosts s' \<Longrightarrow> port_used h s = port_used h s'"
  by (simp add: port_used_def)

lemma port_used_set:
  "port_used k (set_port_used h ps s) =
     (if k = h \<and> kvset_load h (zs_hosts s) \<noteq> None then ps else port_used k s)"
  by (auto simp: port_used_def set_port_used_def kvset_load_upd_host the_deploy_def split: option.splits)

lemma load_set_port_used [simp]:
  "kvset_load k (zs_hosts (set_port_used h ps s)) = None \<longleftrightarrow> kvset_load k (zs_hosts s) = None"
  by (simp add: set_port_used_def kvset_load_upd_host)

lemma set_port_used_apps [simp]: "zs_apps (set_port_used h ps s) = zs_apps s"
  by (simp add: set_port_used_def)

text \<open>Writing a host or an instance changes versions only.\<close>

lemma put_host_frame:
  "put_host K zone h s = (s', r) \<Longrightarrow>
     zs_apps s' = zs_apps s \<and> port_used k s' = port_used k s
     \<and> (kvset_load k (zs_hosts s') = None \<longleftrightarrow> kvset_load k (zs_hosts s) = None)"
  by (auto simp: put_host_def port_used_def kvset_load_upd_host split: option.splits prod.splits kv_wr.splits)

lemma aset_flush_frame:
  assumes "aset_flush K zone i s = (s', r)" "i < length (zs_apps s)"
  shows "zs_hosts s' = zs_hosts s" "map ae_val (zs_apps s') = map ae_val (zs_apps s)"
proof -
  have e: "(map ae_val (zs_apps s))[i := ae_val (zs_apps s ! i)] = map ae_val (zs_apps s)"
    using assms(2) by (metis list_update_id nth_map)
  show "zs_hosts s' = zs_hosts s" "map ae_val (zs_apps s') = map ae_val (zs_apps s)"
    using assms(1) e by (auto simp: aset_flush_def Let_def map_update split: prod.splits kv_wr.splits)
qed

section \<open>Host ports\<close>

definition replica_ports :: "string \<Rightarrow> inst \<Rightarrow> u32 list" where
  "replica_ports h a =
     concat (map (\<lambda>r. if dr_host r = h then filter (\<lambda>p. p > 0) (map dp_host_port (dr_ports r)) else []) (in_replicas a))"

definition live_ports :: "string \<Rightarrow> inst \<Rightarrow> u32 list" where
  "live_ports h a = (if live a then replica_ports h a else [])"

text \<open>The host ports that the replicas of all live instances hold on a host.\<close>

definition host_ports :: "string \<Rightarrow> 'db zstate \<Rightarrow> u32 list" where
  "host_ports h s = concat (map (live_ports h) (map ae_val (zs_apps s)))"

definition ports_exclusive :: "'db zstate \<Rightarrow> bool" where
  "ports_exclusive s \<longleftrightarrow> (\<forall>h. h \<noteq> [] \<longrightarrow> distinct (host_ports h s))"

definition ports_covered :: "'db zstate \<Rightarrow> bool" where
  "ports_covered s \<longleftrightarrow>
     (\<forall>h. h \<noteq> [] \<and> kvset_load h (zs_hosts s) \<noteq> None \<longrightarrow> set (host_ports h s) \<subseteq> set (port_used h s))"

lemma host_ports_cong: "map ae_val (zs_apps s') = map ae_val (zs_apps s) \<Longrightarrow> host_ports h s' = host_ports h s"
  by (simp only: host_ports_def)

lemma distinct_submset:
  assumes "distinct ys" "mset xs \<subseteq># mset ys"
  shows "distinct xs"
  unfolding distinct_count_atmost_1
proof
  fix a
  have "count (mset xs) a \<le> count (mset ys) a" using assms(2) by (rule mset_subset_eq_count)
  also have "\<dots> \<le> 1" using assms(1) unfolding distinct_count_atmost_1 by simp
  finally have le: "count (mset xs) a \<le> 1" .
  show "count (mset xs) a = (if a \<in> set xs then 1 else 0)"
  proof (cases "a \<in> set xs")
    case True
    then have "0 < count (mset xs) a" by (simp only: count_greater_zero_iff set_mset_mset)
    with le have "count (mset xs) a = 1" by linarith
    with True show ?thesis by (simp only: if_True)
  next
    case False then show ?thesis by (simp add: count_mset_0_iff)
  qed
qed

lemma distinct_replace:
  assumes "distinct (concat xs)" "i < length xs" "mset ys \<subseteq># mset (xs ! i) + mset zs" "distinct zs"
    and "set zs \<inter> set (concat xs) = {}"
  shows "distinct (concat (xs[i := ys]))" "set (concat (xs[i := ys])) \<subseteq> set (concat xs) \<union> set zs"
proof -
  let ?us = "concat (take i xs)" and ?vs = "concat (drop (Suc i) xs)"
  have xs: "concat xs = ?us @ xs ! i @ ?vs"
    using id_take_nth_drop [OF assms(2)] by (metis concat.simps(2) concat_append)
  have up: "concat (xs[i := ys]) = ?us @ ys @ ?vs" using upd_conv_take_nth_drop [OF assms(2), of ys] by simp
  have sub: "mset (concat (xs[i := ys])) \<subseteq># mset (concat xs) + mset zs"
    unfolding xs up using subset_mset.add_right_mono [OF assms(3), of "mset ?us + mset ?vs"]
    by (simp add: ac_simps)
  have "distinct (concat xs @ zs)" using assms(1,4,5) by auto
  moreover have "mset (concat (xs[i := ys])) \<subseteq># mset (concat xs @ zs)" using sub by simp
  ultimately show "distinct (concat (xs[i := ys]))" by (rule distinct_submset)
  show "set (concat (xs[i := ys])) \<subseteq> set (concat xs) \<union> set zs"
    using set_mset_mono [OF sub] by (metis set_mset_mset set_mset_union)
qed

lemma mset_concat_replace:
  assumes "i < length xs" "mset ys \<subseteq># mset (xs ! i) + M"
  shows "mset (concat (xs[i := ys])) \<subseteq># mset (concat xs) + M"
proof -
  let ?us = "concat (take i xs)" and ?vs = "concat (drop (Suc i) xs)"
  have xs: "concat xs = ?us @ xs ! i @ ?vs"
    using id_take_nth_drop [OF assms(1)] by (metis concat.simps(2) concat_append)
  have up: "concat (xs[i := ys]) = ?us @ ys @ ?vs" using upd_conv_take_nth_drop [OF assms(1), of ys] by simp
  show ?thesis unfolding xs up using subset_mset.add_right_mono [OF assms(2), of "mset ?us + mset ?vs"]
    by (simp add: ac_simps)
qed

text \<open>The state between two steps of the tick: no port is held twice, and the used ports cover the held ones.\<close>

definition ports_inv :: "nat \<Rightarrow> 'db zstate \<Rightarrow> bool" where
  "ports_inv n s \<longleftrightarrow> ports_exclusive s \<and> ports_covered s \<and> length (zs_apps s) = n"

lemma ports_inv_cong:
  assumes "ports_inv n s" "map ae_val (zs_apps s') = map ae_val (zs_apps s)"
    and "\<And>h. kvset_load h (zs_hosts s') = None \<longleftrightarrow> kvset_load h (zs_hosts s) = None"
    and "\<And>h. set (port_used h s) \<subseteq> set (port_used h s')"
  shows "ports_inv n s'"
proof -
  have "length (zs_apps s') = length (zs_apps s)" using arg_cong [OF assms(2), of length] by simp
  moreover have hp: "host_ports h s' = host_ports h s" for h by (rule host_ports_cong [OF assms(2)])
  moreover have "ports_covered s'"
    using assms(1) unfolding ports_inv_def ports_covered_def hp assms(3) by (meson assms(4) order_trans)
  ultimately show ?thesis using assms(1) by (simp add: ports_inv_def ports_exclusive_def)
qed

lemma ports_inv_replace:
  assumes inv: "ports_inv n s" and i: "i < n" and apps: "map ae_val (zs_apps s') = (map ae_val (zs_apps s))[i := a']"
    and sub: "\<And>h. h \<noteq> [] \<Longrightarrow> mset (live_ports h a') \<subseteq># mset (live_ports h (ae_val (zs_apps s ! i))) + mset (new h)"
    and fresh: "\<And>h. h \<noteq> [] \<Longrightarrow> distinct (new h) \<and> set (new h) \<inter> set (host_ports h s) = {}"
    and load: "\<And>h. kvset_load h (zs_hosts s') = None \<longleftrightarrow> kvset_load h (zs_hosts s) = None"
    and used: "\<And>h. kvset_load h (zs_hosts s) \<noteq> None \<Longrightarrow> set (port_used h s) \<union> set (new h) \<subseteq> set (port_used h s')"
  shows "ports_inv n s'"
proof -
  have len: "length (zs_apps s) = n" "length (zs_apps s') = n"
    using inv arg_cong [OF apps, of length] by (auto simp: ports_inv_def)
  have hp: "distinct (host_ports h s') \<and> set (host_ports h s') \<subseteq> set (host_ports h s) \<union> set (new h)" if h: "h \<noteq> []" for h
  proof -
    let ?xs = "map (live_ports h) (map ae_val (zs_apps s))"
    have eq: "host_ports h s' = concat (?xs[i := live_ports h a'])"
      unfolding host_ports_def apps by (simp only: map_update)
    have d: "distinct (concat ?xs)" using inv h by (simp add: ports_inv_def ports_exclusive_def host_ports_def)
    have il: "i < length ?xs" using i len by simp
    have m: "mset (live_ports h a') \<subseteq># mset (?xs ! i) + mset (new h)" using sub [OF h] i len by simp
    show ?thesis unfolding eq
      using distinct_replace [OF d il m] fresh [OF h] by (simp add: host_ports_def)
  qed
  have "ports_covered s'" unfolding ports_covered_def
  proof (intro allI impI)
    fix h assume h: "h \<noteq> [] \<and> kvset_load h (zs_hosts s') \<noteq> None"
    then have "set (host_ports h s) \<subseteq> set (port_used h s)" using inv load by (simp add: ports_inv_def ports_covered_def)
    moreover have "set (port_used h s) \<union> set (new h) \<subseteq> set (port_used h s')"
      by (rule used) (use h load [of h] in simp)
    moreover have "set (host_ports h s') \<subseteq> set (host_ports h s) \<union> set (new h)" using hp h by blast
    ultimately show "set (host_ports h s') \<subseteq> set (port_used h s')" by blast
  qed
  then show ?thesis using hp len unfolding ports_inv_def ports_exclusive_def by blast
qed

lemma upd_app_vals: "i < length (zs_apps s) \<Longrightarrow>
    map ae_val (zs_apps (upd_app i f s)) = (map ae_val (zs_apps s))[i := f (ae_val (zs_apps s ! i))]"
  by (simp add: upd_app_def map_update)

lemma ports_inv_upd_app:
  assumes "ports_inv n s" "i < n"
    and "\<And>h. h \<noteq> [] \<Longrightarrow> mset (live_ports h (f (ae_val (zs_apps s ! i)))) \<subseteq># mset (live_ports h (ae_val (zs_apps s ! i)))"
  shows "ports_inv n (upd_app i f s)"
proof (rule ports_inv_replace [OF assms(1,2), where new = "\<lambda>_. []"])
  show "map ae_val (zs_apps (upd_app i f s)) = (map ae_val (zs_apps s))[i := f (ae_val (zs_apps s ! i))]"
    using assms(1,2) by (intro upd_app_vals) (simp add: ports_inv_def)
qed (use assms(3) in \<open>auto simp: port_used_def\<close>)

lemma ports_inv_frame:
  "zs_apps s' = zs_apps s \<Longrightarrow> zs_hosts s' = zs_hosts s \<Longrightarrow> ports_inv n s \<Longrightarrow> ports_inv n s'"
  by (rule ports_inv_cong) (auto simp: port_used_def)

lemma ports_inv_put_host: "ports_inv n s \<Longrightarrow> ports_inv n (fst (put_host K zone h s))"
proof -
  assume inv: "ports_inv n s"
  obtain s' r where p: "put_host K zone h s = (s', r)" by fastforce
  note fr = put_host_frame [OF p]
  show ?thesis unfolding p fst_conv by (rule ports_inv_cong [OF inv]) (use fr in simp_all)
qed

lemma ports_inv_flush: "ports_inv n s \<Longrightarrow> i < n \<Longrightarrow> ports_inv n (fst (aset_flush K zone i s))"
proof -
  assume inv: "ports_inv n s" and i: "i < n"
  obtain s' r where f: "aset_flush K zone i s = (s', r)" by fastforce
  have "i < length (zs_apps s)" using inv i by (simp add: ports_inv_def)
  note fr = aset_flush_frame [OF f this]
  show ?thesis unfolding f fst_conv by (rule ports_inv_cong [OF inv fr(2)]) (simp_all add: fr(1) port_used_def)
qed

lemma ports_inv_set_used:
  "ports_inv n s \<Longrightarrow> set (port_used h s) \<subseteq> set ps \<Longrightarrow> ports_inv n (set_port_used h ps s)"
  by (rule ports_inv_cong) (auto simp: port_used_set)

section \<open>Drawing ports\<close>

lemma HostPortAlloc_fresh: "HostPortAlloc used 0 rands \<noteq> 0 \<Longrightarrow> HostPortAlloc used 0 rands \<notin> set used"
  using HostPortAlloc_auto_free [of used rands] by (cases "length used < HostPortLimit") (auto simp: HostPortAlloc_def)

definition drawn :: "dep_port list \<times> u32 list \<Rightarrow> dep_port list \<times> u32 list \<Rightarrow> bool" where
  "drawn acc acc' \<longleftrightarrow>
     (\<exists>new. fst acc' = fst acc @ new \<and> distinct (map dp_host_port new) \<and> (\<forall>d \<in> set new. dp_host_port d > 0)
        \<and> set (map dp_host_port new) \<inter> set (snd acc) = {}
        \<and> set (snd acc') = set (snd acc) \<union> set (map dp_host_port new))"

lemma drawn_refl: "drawn acc acc"
  by (simp add: drawn_def)

lemma drawn_trans: "drawn a b \<Longrightarrow> drawn b c \<Longrightarrow> drawn a c"
proof -
  assume "drawn a b" "drawn b c"
  then obtain u v where u: "fst b = fst a @ u" "distinct (map dp_host_port u)" "\<forall>d \<in> set u. dp_host_port d > 0"
      "set (map dp_host_port u) \<inter> set (snd a) = {}" "set (snd b) = set (snd a) \<union> set (map dp_host_port u)"
    and v: "fst c = fst b @ v" "distinct (map dp_host_port v)" "\<forall>d \<in> set v. dp_host_port d > 0"
      "set (map dp_host_port v) \<inter> set (snd b) = {}" "set (snd c) = set (snd b) \<union> set (map dp_host_port v)"
    unfolding drawn_def by blast
  show ?thesis unfolding drawn_def
    by (rule exI [of _ "u @ v"]) (use u v in auto)
qed

lemma draw_port_drawn: "drawn acc (draw_port rnd sp acc)"
proof -
  obtain ps used where acc: "acc = (ps, used)" by fastforce
  let ?hp = "HostPortAlloc used 0 (rnd (sp_port sp))"
  show ?thesis
  proof (cases "?hp = 0")
    case True then show ?thesis by (simp add: acc draw_port_def drawn_refl)
  next
    case False
    then have "0 < ?hp" by (simp add: word_neq_0_conv)
    then show ?thesis using False HostPortAlloc_fresh [OF False] unfolding drawn_def acc draw_port_def
      by (intro exI [of _ "[\<lparr>dp_name = sp_name sp, dp_port = sp_port sp, dp_host_port = ?hp\<rparr>]"]) (simp add: Let_def)
  qed
qed

lemma draw_missing_drawn: "drawn acc (draw_missing rnd sp acc)"
  by (simp add: draw_missing_def drawn_refl draw_port_drawn)

lemma fold_drawn: "(\<And>x acc. drawn acc (f x acc)) \<Longrightarrow> drawn acc (fold f xs acc)"
proof (induction xs arbitrary: acc)
  case (Cons x xs) then show ?case using drawn_trans [OF Cons.prems [of acc x]] by simp
qed (simp add: drawn_refl)

lemma kept_ports_sub: "mset (kept_ports a ps) \<subseteq># mset ps"
proof -
  have "mset (fold (\<lambda>d acc. if map_of (spec_ports a) (dp_port d) \<noteq> None \<and> dp_host_port d > 0 \<and> \<not> has_port (dp_port d) acc
                   then acc @ [d] else acc) ps acc) \<subseteq># mset acc + mset ps" for acc
  proof (induction ps arbitrary: acc)
    case (Cons d ps)
    show ?case
      using Cons [of acc] Cons [of "acc @ [d]"] by (auto intro: subset_mset.order_trans)
  qed simp
  from this [of "[]"] show ?thesis by (simp add: kept_ports_def)
qed

definition rep_ports :: "string \<Rightarrow> dreplica \<Rightarrow> u32 list" where
  "rep_ports h r = (if dr_host r = h then filter (\<lambda>p. p > 0) (map dp_host_port (dr_ports r)) else [])"

lemma replica_ports_eq: "replica_ports h a = concat (map (rep_ports h) (in_replicas a))"
  unfolding replica_ports_def rep_ports_def by simp

lemma replica_ports_set:
  assumes "j < length (in_replicas a)" "mset (rep_ports h (f (in_replicas a ! j))) \<subseteq># mset (rep_ports h (in_replicas a ! j)) + M"
  shows "mset (replica_ports h (set_replica j f a)) \<subseteq># mset (replica_ports h a) + M"
  using mset_concat_replace [of j "map (rep_ports h) (in_replicas a)" "rep_ports h (f (in_replicas a ! j))" M] assms
  by (simp add: replica_ports_eq set_replica_def map_update)

lemma live_ports_set:
  assumes "j < length (in_replicas a)" "mset (rep_ports h (f (in_replicas a ! j))) \<subseteq># mset (rep_ports h (in_replicas a ! j)) + M"
  shows "mset (live_ports h (set_replica j f a)) \<subseteq># mset (live_ports h a) + M"
  using replica_ports_set [of j a h f M] assms by (simp add: live_ports_def live_def set_replica_def)

lemma pos_ports_mono:
  "mset xs \<subseteq># mset ys \<Longrightarrow> mset (filter (\<lambda>p. p > 0) (map dp_host_port xs)) \<subseteq># mset (filter (\<lambda>p. p > 0) (map dp_host_port ys))"
  by (simp add: multiset_filter_mono image_mset_subseteq_mono)

lemma live_ports_stages [simp]:
  "live_ports h (upd_stages f a) = live_ports h a" "live_ports h (a\<lparr>in_stages := d\<rparr>) = live_ports h a"
  "live_ports h (replica_instant E n m rid a) = live_ports h a" "live_ports h (sched_stage rv rid g a) = live_ports h a"
  "live_ports h (replica_placed E rv rid hh ip a) = live_ports h a"
  by (simp_all add: live_ports_def live_def replica_ports_def upd_stages_def replica_instant_def sched_stage_def
      replica_placed_def Let_def)

lemma live_ports_bump [simp]: "live_ports h (fst (bump_revision b a)) = live_ports h a"
  by (simp add: bump_revision_def)

lemma live_ports_ip: "j < length (in_replicas a) \<Longrightarrow>
    mset (live_ports h (set_replica j (\<lambda>r. r\<lparr>dr_ip := ip\<rparr>) a)) \<subseteq># mset (live_ports h a)"
  using live_ports_set [of j a h "\<lambda>r. r\<lparr>dr_ip := ip\<rparr>" "{#}"] by (simp add: rep_ports_def)

lemma tick_reconcile_inv: "ports_inv n s \<Longrightarrow> i < n \<Longrightarrow> ports_inv n (fst (tick_reconcile K E i s))"
proof -
  assume a: "ports_inv n s" "i < n"
  obtain d chg where r: "appDeployStagesReconcile (te_ms E) (in_stages (ae_val (zs_apps s ! i))) = (d, chg)" by fastforce
  have "ports_inv n (upd_app i (\<lambda>a. a\<lparr>in_stages := d\<rparr>) s)" by (rule ports_inv_upd_app [OF a]) simp
  then show ?thesis using ports_inv_flush [OF _ a(2)] by (auto simp: tick_reconcile_def r Let_def)
qed

text \<open>Giving new host ports to a replica: the ports it keeps, with freshly drawn ones.\<close>

lemma new_ports_inv:
  assumes inv: "ports_inv n s" and i: "i < n" and a: "a = ae_val (zs_apps s ! i)" and j: "j < length (in_replicas a)"
    and host: "dr_host (in_replicas a ! j) = h \<or> dr_host (in_replicas a ! j) = []" "h \<noteq> []" "kvset_load h (zs_hosts s) \<noteq> None"
    and draw: "drawn (kept, port_used h s) (ps, used)"
    and kept: "if dr_host (in_replicas a ! j) = [] then kept = [] else mset kept \<subseteq># mset (dr_ports (in_replicas a ! j))"
    and f: "\<And>r. dr_host (f r) = h \<and> dr_ports (f r) = ps" and g: "\<And>k b. live_ports k (g b) = live_ports k b"
  shows "ports_inv n (upd_app i (\<lambda>_. g (set_replica j f a)) (set_port_used h used s))"
proof -
  obtain new where new: "ps = kept @ new" "distinct (map dp_host_port new)" "\<forall>d \<in> set new. dp_host_port d > 0"
      "set (map dp_host_port new) \<inter> set (port_used h s) = {}" "set used = set (port_used h s) \<union> set (map dp_host_port new)"
    using draw unfolding drawn_def by auto
  let ?new = "\<lambda>k. if k = h then map dp_host_port new else []"
  let ?r = "in_replicas a ! j"
  have pos: "filter (\<lambda>p. p > 0) (map dp_host_port new) = map dp_host_port new" using new(3) by (simp add: filter_id_conv)
  have rep: "mset (rep_ports k (f ?r)) \<subseteq># mset (rep_ports k ?r) + mset (?new k)" if "k \<noteq> []" for k
  proof (cases "k = h")
    case True
    have "mset (filter (\<lambda>p. p > 0) (map dp_host_port kept)) \<subseteq># mset (rep_ports h ?r)"
      using kept host(1,2) pos_ports_mono [of kept "dr_ports ?r"] by (auto simp: rep_ports_def split: if_splits)
    then show ?thesis using f pos True by (simp add: rep_ports_def new(1) del: mset_filter mset_map)
  next
    case False then show ?thesis using f by (simp add: rep_ports_def)
  qed
  have disj: "set (map dp_host_port new) \<inter> set (host_ports h s) = {}"
    using inv host(2,3) new(4) unfolding ports_inv_def ports_covered_def by blast
  let ?s' = "upd_app i (\<lambda>_. g (set_replica j f a)) (set_port_used h used s)"
  have il: "i < length (zs_apps s)" using inv i by (simp add: ports_inv_def)
  show ?thesis
  proof (rule ports_inv_replace [OF inv i, where new = ?new and a' = "g (set_replica j f a)"])
    show "map ae_val (zs_apps ?s') = (map ae_val (zs_apps s))[i := g (set_replica j f a)]"
      using upd_app_vals [of i "set_port_used h used s" "\<lambda>_. g (set_replica j f a)"] il by simp
    show "mset (live_ports k (g (set_replica j f a))) \<subseteq># mset (live_ports k (ae_val (zs_apps s ! i))) + mset (?new k)"
      if "k \<noteq> []" for k
      using live_ports_set [of j a k f "mset (?new k)"] j rep [OF that] unfolding g a [symmetric] by blast
    show "distinct (?new k) \<and> set (?new k) \<inter> set (host_ports k s) = {}" if "k \<noteq> []" for k
      using disj new(2) by simp
    show "kvset_load k (zs_hosts ?s') = None \<longleftrightarrow> kvset_load k (zs_hosts s) = None" for k by simp
    show "set (port_used k s) \<union> set (?new k) \<subseteq> set (port_used k ?s')" if "kvset_load k (zs_hosts s) \<noteq> None" for k
    proof -
      have "port_used k ?s' = port_used k (set_port_used h used s)" by (rule port_used_cong) simp
      then show ?thesis using new(5) host(3) by (auto simp: port_used_set)
    qed
  qed
qed

lemma and_then_fst: "fst (and_then r f) = (case snd r of Some e \<Rightarrow> fst r | None \<Rightarrow> fst (f (fst r)))"
  by (simp add: and_then_def split: prod.splits option.splits)

text \<open>The number of replicas of an instance does not change while its ports and addresses are bound.\<close>

definition reps_len :: "nat \<Rightarrow> nat \<Rightarrow> 'db zstate \<Rightarrow> bool" where
  "reps_len i m s \<longleftrightarrow> length (in_replicas (ae_val (zs_apps s ! i))) = m"

lemma flush_put_inv:
  assumes "ports_inv n s" "i < n"
  shows "ports_inv n (fst (and_then (aset_flush K zone i s) (put_host K zone h)))"
  by (rule and_then_inv [where P = "ports_inv n"]) (use assms ports_inv_flush ports_inv_put_host in blast)+

lemma aset_flush_nth:
  "aset_flush K zone i s = (s', r) \<Longrightarrow> i < length (zs_apps s) \<Longrightarrow> k < length (zs_apps s) \<Longrightarrow> ae_val (zs_apps s' ! k) = ae_val (zs_apps s ! k)"
  using aset_flush_frame(2) [of K zone i s s' r] by (metis length_map nth_map)

definition bind_inv :: "nat \<Rightarrow> nat \<Rightarrow> nat \<Rightarrow> 'db tstate \<Rightarrow> bool" where
  "bind_inv n i m t \<longleftrightarrow> ports_inv n (fst t) \<and> reps_len i m (fst t)"

lemma reps_len_upd_app:
  "i < length (zs_apps s) \<Longrightarrow> reps_len i m (upd_app i f s) \<longleftrightarrow> length (in_replicas (f (ae_val (zs_apps s ! i)))) = m"
  by (simp add: reps_len_def upd_app_def)

lemma in_replicas_frame [simp]:
  "in_replicas (upd_stages f a) = in_replicas a" "in_replicas (replica_instant E nm msg rid a) = in_replicas a"
  "in_replicas (fst (bump_revision b a)) = in_replicas a" "length (in_replicas (set_replica j g a)) = length (in_replicas a)"
  by (simp_all add: upd_stages_def replica_instant_def bump_revision_def set_replica_def)

lemma reps_len_flush:
  assumes "reps_len i m s" "i < length (zs_apps s)"
  shows "reps_len i m (fst (aset_flush K zone i s))"
proof -
  obtain s' r where f: "aset_flush K zone i s = (s', r)" by fastforce
  show ?thesis using aset_flush_nth [OF f assms(2,2)] assms(1) by (simp add: f reps_len_def)
qed

lemma reps_len_put_host: "reps_len i m s \<Longrightarrow> reps_len i m (fst (put_host K zone h s))"
  using put_host_frame [of K zone h s] by (cases "put_host K zone h s") (simp add: reps_len_def)

lemma reps_len_flush_put:
  "reps_len i m s \<Longrightarrow> i < length (zs_apps s) \<Longrightarrow> reps_len i m (fst (and_then (aset_flush K zone i s) (put_host K zone h)))"
  by (rule and_then_inv [where P = "reps_len i m"]) (auto intro: reps_len_flush reps_len_put_host)

lemma bind_ports_inv:
  assumes inv: "bind_inv n i m t" and i: "i < n" and j: "j < m"
  shows "bind_inv n i m (fst (bind_ports K E i j t))"
proof -
  obtain s bumped where t: "t = (s, bumped)" by fastforce
  define a where "a = ae_val (zs_apps s ! i)"
  define rep where "rep = in_replicas a ! j"
  define kept where "kept = kept_ports a (dr_ports rep)"
  obtain ps used where dr: "fold (draw_missing (te_rands E (in_name a) (dr_id rep)))
        (map snd (shuffle (te_port_picks E (in_name a) (dr_id rep)) (spec_ports a))) (kept, port_used (dr_host rep) s) = (ps, used)"
    by fastforce
  define a0 where "a0 = set_replica j (\<lambda>r. r\<lparr>dr_ports := ps\<rparr>) a"
  define a2 where "a2 = replica_instant E ''port_alloc'' [] (dr_id rep) (fst (bump_revision bumped a0))"
  let ?h = "dr_host rep"
  let ?s1 = "set_port_used ?h used s" let ?s2 = "upd_app i (\<lambda>_. a2) ?s1"
  have P: "ports_inv n s" "reps_len i m s" and il: "i < length (zs_apps s)" using inv i by (auto simp: bind_inv_def t ports_inv_def)
  have jl: "j < length (in_replicas a)" using P(2) j by (simp add: reps_len_def a_def)
  have drawn: "drawn (kept, port_used ?h s) (ps, used)"
    using fold_drawn [of "draw_missing (te_rands E (in_name a) (dr_id rep))", OF draw_missing_drawn] dr by metis
  have used: "set (port_used ?h s) \<subseteq> set used" using drawn by (auto simp: drawn_def)
  have I1: "bind_inv n i m (?s1, b)" for b
    using ports_inv_set_used [OF P(1) used] P(2) by (simp add: bind_inv_def reps_len_def)
  have I2: "ports_inv n ?s2 \<and> reps_len i m ?s2" if h: "?h \<noteq> []" "kvset_load ?h (zs_hosts s) \<noteq> None"
  proof
    let ?f = "\<lambda>r. r\<lparr>dr_host := ?h, dr_ports := ps\<rparr>"
    have same: "set_replica j ?f a = a0" using jl by (simp add: a0_def set_replica_def rep_def)
    show "ports_inv n ?s2" unfolding a2_def same [symmetric]
      by (rule new_ports_inv [OF P(1) i a_def jl _ h drawn, where f = ?f and g = "\<lambda>b. replica_instant E ''port_alloc'' [] (dr_id rep) (fst (bump_revision bumped b))"])
         (use h kept_ports_sub [of a "dr_ports rep"] in \<open>simp_all add: rep_def [symmetric] kept_def\<close>)
    have "length (in_replicas a) = m" using P(2) by (simp add: reps_len_def a_def)
    then show "reps_len i m ?s2" using reps_len_upd_app [of i ?s1 m "\<lambda>_. a2"] il by (simp add: a2_def a0_def)
  qed
  have il2: "i < length (zs_apps ?s2)" using il by simp
  have I3: "bind_inv n i m (fst (and_then (aset_flush K (te_zone E) i ?s2) (put_host K (te_zone E) ?h)), b)"
    if h: "?h \<noteq> []" "kvset_load ?h (zs_hosts s) \<noteq> None" for b
    using flush_put_inv [OF _ i, of ?s2] reps_len_flush_put [OF _ il2] I2 [OF h] by (simp add: bind_inv_def)
  obtain b1 where bump: "bump_revision bumped a0 = (fst (bump_revision bumped a0), b1)" by (metis prod.collapse)
  obtain sx er where fl: "and_then (aset_flush K (te_zone E) i ?s2) (put_host K (te_zone E) ?h) = (sx, er)" by fastforce
  have eq: "bind_ports K E i j t =
      (if ?h = [] \<or> kvset_load ?h (zs_hosts s) = None \<or> length kept = length (spec_ports a) then (t, None)
       else if length ps = length kept then ((?s1, bumped), None) else ((sx, b1), er))"
    unfolding bind_ports_def t Let_def prod.case a_def [symmetric] rep_def [symmetric] kept_def [symmetric] dr
      a0_def [symmetric]
    by (subst bump) (simp add: a2_def [symmetric] fl)
  show ?thesis unfolding eq using I1 I3 inv fl by (simp add: t)
qed

lemma bind_ip_inv:
  assumes inv: "bind_inv n i m t" and i: "i < n" and j: "j < m"
  shows "bind_inv n i m (fst (bind_ip K E i j t))"
proof -
  obtain s bumped where t: "t = (s, bumped)" by fastforce
  have step: "ports_inv n (upd_app i (set_replica j (\<lambda>r. r\<lparr>dr_ip := ip\<rparr>)) u) \<and> reps_len i m (upd_app i (set_replica j (\<lambda>r. r\<lparr>dr_ip := ip\<rparr>)) u)"
    if "ports_inv n u \<and> reps_len i m u" for u :: "'a zstate" and ip
  proof -
    have il: "i < length (zs_apps u)" and jl: "j < length (in_replicas (ae_val (zs_apps u ! i)))"
      using that i j by (auto simp: ports_inv_def reps_len_def)
    have "ports_inv n (upd_app i (set_replica j (\<lambda>r. r\<lparr>dr_ip := ip\<rparr>)) u)"
      by (rule ports_inv_upd_app) (use that i live_ports_ip [OF jl] in blast)+
    moreover have "length (in_replicas (ae_val (zs_apps u ! i))) = m" using that by (simp add: reps_len_def)
    ultimately show ?thesis using il by (simp add: reps_len_upd_app)
  qed
  have net: "ports_inv n (u\<lparr>zs_net := nm, zs_db := db\<rparr>) \<and> reps_len i m (u\<lparr>zs_net := nm, zs_db := db\<rparr>)"
    if "ports_inv n u \<and> reps_len i m u" for u :: "'a zstate" and nm db
    using that ports_inv_frame [of "u\<lparr>zs_net := nm, zs_db := db\<rparr>" u n] by (simp add: reps_len_def)
  have fin: "bind_inv n i m (fst (aset_flush K z i (upd_app i (\<lambda>_. replica_instant E nm msg rid (fst (bump_revision b (ae_val (zs_apps u ! i))))) u)), b')"
    if u: "ports_inv n u \<and> reps_len i m u" for u :: "'a zstate" and z nm msg rid b b'
  proof -
    let ?u = "upd_app i (\<lambda>_. replica_instant E nm msg rid (fst (bump_revision b (ae_val (zs_apps u ! i))))) u"
    have il: "i < length (zs_apps u)" using u i by (simp add: ports_inv_def)
    have "ports_inv n ?u" by (rule ports_inv_upd_app) (use u i in simp_all)
    moreover have "length (in_replicas (ae_val (zs_apps u ! i))) = m" using u by (simp add: reps_len_def)
    then have "reps_len i m ?u" using il by (simp add: reps_len_upd_app)
    ultimately show ?thesis using ports_inv_flush [OF _ i] reps_len_flush [of i m ?u] il by (simp add: bind_inv_def)
  qed
  define s0 where "s0 = upd_app i (set_replica j (\<lambda>r. r\<lparr>dr_ip := []\<rparr>)) s"
  have I: "ports_inv n s \<and> reps_len i m s" using inv by (simp add: bind_inv_def t)
  have I0: "ports_inv n s0 \<and> reps_len i m s0" unfolding s0_def by (rule step [OF I])
  define a where "a = ae_val (zs_apps s ! i)"
  define rep where "rep = in_replicas a ! j"
  obtain nm db r where al: "AllocHostSubNetwork (net_view K) (te_now E) (dr_host rep) (in_name a) (dr_id rep) (zs_net s0) (zs_db s0) = (nm, db, r)"
    by (metis prod_cases3)
  define s1 where "s1 = s0\<lparr>zs_net := nm, zs_db := db\<rparr>"
  have I1: "ports_inv n s1 \<and> reps_len i m s1" unfolding s1_def by (rule net [OF I0])
  show ?thesis
  proof (cases r)
    case (NmOK ip)
    define s2 where "s2 = upd_app i (set_replica j (\<lambda>r. r\<lparr>dr_ip := ip\<rparr>)) s1"
    have I2: "ports_inv n s2 \<and> reps_len i m s2" unfolding s2_def by (rule step [OF I1])
    obtain b1 where bump: "bump_revision bumped (ae_val (zs_apps s2 ! i)) = (fst (bump_revision bumped (ae_val (zs_apps s2 ! i))), b1)"
      by (metis prod.collapse)
    note F = fin [OF I2, of "te_zone E" "''ipam_alloc''" ip "dr_id rep" bumped b1]
    obtain sx er where fl: "aset_flush K (te_zone E) i (upd_app i (\<lambda>_. replica_instant E ''ipam_alloc'' ip (dr_id rep)
        (fst (bump_revision bumped (ae_val (zs_apps s2 ! i))))) s2) = (sx, er)" by fastforce
    show ?thesis using F [unfolded fl] I I0 I2
      unfolding bind_ip_def t Let_def prod.case a_def [symmetric] rep_def [symmetric] s0_def [symmetric] al s1_def [symmetric]
        NmOK nm_res.case s2_def [symmetric]
      by (subst bump) (simp add: bind_inv_def fl)
  next
    case NmErr
    then show ?thesis using I I0 I1
      unfolding bind_ip_def t Let_def prod.case a_def [symmetric] rep_def [symmetric] s0_def [symmetric] al s1_def [symmetric]
      by (simp add: bind_inv_def)
  next
    case NmPanic
    then show ?thesis using I I0 I1
      unfolding bind_ip_def t Let_def prod.case a_def [symmetric] rep_def [symmetric] s0_def [symmetric] al s1_def [symmetric]
      by (simp add: bind_inv_def)
  qed
qed

lemma bind_app_inv:
  assumes "ports_inv n (fst t)" "i < n"
  shows "ports_inv n (fst (fst (bind_app K E i t)))"
proof -
  let ?m = "length (in_replicas (ae_val (zs_apps (fst t) ! i)))"
  have I: "bind_inv n i ?m t" using assms(1) by (simp add: bind_inv_def reps_len_def)
  have P: "bind_inv n i ?m (fst (for_each (bind_ports K E i) [0 ..< ?m] t))"
    by (rule for_each_inv [where P = "bind_inv n i ?m"]) (use I assms(2) bind_ports_inv in auto)
  have Q: "bind_inv n i ?m (fst (if \<not> nm_ready (zs_net (fst u)) then (u, None) else for_each (bind_ip K E i) [0 ..< ?m] u))"
    if "bind_inv n i ?m u" for u
  proof (cases "nm_ready (zs_net (fst u))")
    case True
    have "bind_inv n i ?m (fst (for_each (bind_ip K E i) [0 ..< ?m] u))"
      by (rule for_each_inv [where P = "bind_inv n i ?m"]) (use that assms(2) bind_ip_inv in auto)
    then show ?thesis using True by simp
  qed (use that in simp)
  have "bind_inv n i ?m (fst (bind_app K E i t))"
    unfolding bind_app_def Let_def by (rule and_then_inv [where P = "bind_inv n i ?m", OF P Q])
  then show ?thesis by (simp add: bind_inv_def)
qed

lemma mset_concat_perm: "mset xs = mset ys \<Longrightarrow> mset (concat (map g xs)) = mset (concat (map g ys))"
proof -
  have eq: "mset (concat (map g zs)) = (\<Sum>z \<in># mset zs. mset (g z))" for zs by (induction zs) auto
  show "mset xs = mset ys \<Longrightarrow> mset (concat (map g xs)) = mset (concat (map g ys))" by (simp add: eq)
qed

lemma fill_ports: "h \<noteq> [] \<Longrightarrow> mset (live_ports h (fill_replicas E a)) = mset (live_ports h a)"
proof -
  assume h: "h \<noteq> []"
  let ?reps = "sort_slice (te_sort_picks E) (\<lambda>r. int (unat (dr_id r))) (in_replicas a)"
  have new: "rep_ports h (new_replica k) = []" for k
    using h by (simp add: rep_ports_def new_replica_def)
  have "mset (replica_ports h (fill_replicas E a)) = mset (concat (map (rep_ports h) ?reps))"
    using new by (simp add: replica_ports_eq fill_replicas_def Let_def)
  also have "\<dots> = mset (replica_ports h a)"
    unfolding replica_ports_eq by (rule mset_concat_perm) simp
  finally show ?thesis by (simp add: live_ports_def live_def fill_replicas_def Let_def)
qed

lemma first_index_Some: "first_index P xs = Some j \<Longrightarrow> j < length xs \<and> P (xs ! j)"
  by (induction xs arbitrary: j) (auto split: if_splits)

lemma place_ip_total: "\<exists>nm db ip. place_ip K E h a rid s = (s\<lparr>zs_net := nm, zs_db := db\<rparr>, ip, None)"
proof (cases "nm_ready (zs_net s) \<and> HostNetwork (zs_net s) h \<noteq> None")
  case True
  then have "nm_map (zs_net s) \<noteq> None"
    by (auto simp: HostNetwork_def the_map_def empty_network_map_def split: option.splits)
  then have "\<exists>nm db ip. AllocHostSubNetwork (net_view K) (te_now E) h (in_name a) rid (zs_net s) (zs_db s) = (nm, db, NmOK ip)"
    using True by (auto simp: AllocHostSubNetwork_def Let_def split: option.splits prod.splits nm_res.splits)
  then obtain nm db ip where "AllocHostSubNetwork (net_view K) (te_now E) h (in_name a) rid (zs_net s) (zs_db s) = (nm, db, NmOK ip)"
    by blast
  then have "place_ip K E h a rid s = (s\<lparr>zs_net := nm, zs_db := db\<rparr>, ip, None)" using True by (simp add: place_ip_def)
  then show ?thesis by blast
next
  case False
  then have "place_ip K E h a rid s = (s\<lparr>zs_net := zs_net s, zs_db := zs_db s\<rparr>, [], None)" by (auto simp: place_ip_def)
  then show ?thesis by blast
qed

lemma upd_app_merge:
  "i < length (zs_apps s) \<Longrightarrow>
     upd_app i F (set_port_used h u ((upd_app i G s)\<lparr>zs_net := nm, zs_db := db\<rparr>)) =
     upd_app i (\<lambda>_. F (G (ae_val (zs_apps s ! i)))) (set_port_used h u (s\<lparr>zs_net := nm, zs_db := db\<rparr>))"
  by (simp add: upd_app_def set_port_used_def upd_host_def)

lemma place_on_inv:
  assumes inv: "ports_inv n s" and i: "i < n" and j: "j < length (in_replicas (ae_val (zs_apps s ! i)))"
    and free: "dr_host (in_replicas (ae_val (zs_apps s ! i)) ! j) = []" and h: "h \<noteq> []"
  shows "ports_inv n (fst (place_on K E i j h s))"
proof (cases "kvset_load h (zs_hosts s) = None")
  case True then show ?thesis using inv by (simp add: place_on_def)
next
  case False
  define a where "a = ae_val (zs_apps s ! i)"
  define rep where "rep = in_replicas a ! j"
  let ?s0 = "upd_app i (set_replica j (\<lambda>r. r\<lparr>dr_host := h\<rparr>)) s"
  obtain nm db ip where ip: "place_ip K E h a (dr_id rep) ?s0 = (?s0\<lparr>zs_net := nm, zs_db := db\<rparr>, ip, None)"
    using place_ip_total [of K E h a "dr_id rep" ?s0] by blast
  let ?u = "s\<lparr>zs_net := nm, zs_db := db\<rparr>"
  define ip' where "ip' = (if nm_ready (zs_net ?s0) \<and> HostNetwork (zs_net ?s0) h \<noteq> None then ip else dr_ip rep)"
  have pu: "port_used h (?s0\<lparr>zs_net := nm, zs_db := db\<rparr>) = port_used h ?u" by (rule port_used_cong) simp
  obtain ps used where pp: "place_ports E a (dr_id rep) (port_used h ?u) = (ps, used)" by fastforce
  let ?g = "replica_placed E (ad_revision (in_stages a)) (dr_id rep) h ip'"
  let ?f = "\<lambda>r. r\<lparr>dr_host := h, dr_ip := ip', dr_ports := ps\<rparr>"
  define s3 where "s3 = upd_app i (\<lambda>_. ?g (set_replica j ?f a)) (set_port_used h used ?u)"
  have il: "i < length (zs_apps s)" using inv i by (simp add: ports_inv_def)
  have uinv: "ports_inv n ?u" by (rule ports_inv_frame [OF _ _ inv]) simp_all
  have dr: "drawn ([], port_used h ?u) (ps, used)"
    using fold_drawn [of "draw_port (te_rands E (in_name a) (dr_id rep))", OF draw_port_drawn] pp
    unfolding place_ports_def by metis
  have I3: "ports_inv n s3" unfolding s3_def
    by (rule new_ports_inv [OF uinv i _ _ _ h _ dr, where f = ?f and g = ?g]) (use j free False in \<open>simp_all add: a_def\<close>)
  have set2: "set_replica j (\<lambda>r. r\<lparr>dr_ip := ip', dr_ports := ps\<rparr>) (set_replica j (\<lambda>r. r\<lparr>dr_host := h\<rparr>) a) = set_replica j ?f a"
    using j by (simp add: set_replica_def a_def)
  have eq: "place_on K E i j h s = and_then (aset_flush K (te_zone E) i s3)
      (\<lambda>s4. put_host K (te_zone E) h (s4\<lparr>zs_ops := map (\<lambda>(k, op). (k, if k = h then add_op a op else op)) (zs_ops s4)\<rparr>))"
    unfolding place_on_def Let_def a_def [symmetric] rep_def [symmetric] ip prod.case option.case ip'_def [symmetric] pu pp
      upd_app_merge [OF il] o_apply set2 s3_def
    by (simp only: False if_False)
  have I4: "ports_inv n (fst (aset_flush K (te_zone E) i s3))" by (rule ports_inv_flush [OF I3 i])
  show ?thesis unfolding eq
  proof (rule and_then_inv [where P = "ports_inv n", OF I4])
    fix s4 :: "'a zstate" assume s4: "ports_inv n s4"
    have "ports_inv n (s4\<lparr>zs_ops := ops\<rparr>)" for ops by (rule ports_inv_frame [OF _ _ s4]) simp_all
    then show "ports_inv n (fst (put_host K (te_zone E) h
        (s4\<lparr>zs_ops := map (\<lambda>(k, op). (k, if k = h then add_op a op else op)) (zs_ops s4)\<rparr>)))"
      by (rule ports_inv_put_host)
  qed
qed

lemma ScheduleHost_id: "ScheduleHost vp fp (Some rep) hosts ex = Inr hit \<Longrightarrow> hit_host_id hit \<in> sh_id ` set hosts"
proof -
  assume h: "ScheduleHost vp fp (Some rep) hosts ex = Inr hit"
  obtain hosts' fits where ff: "findHostListThatFit vp rep hosts ex = (hosts', fits)" by fastforce
  have "\<exists>v \<in> set hosts'. hit_host_id hit = sh_id v"
    using h ff by (auto simp: ScheduleHost_def split: if_splits sum.splits list.splits option.splits dest!: find_SomeD) metis
  then show ?thesis using find_fits(1) [OF ff] by (auto simp: fit_host_id)
qed

lemma tick_place_inv:
  assumes inv: "ports_inv n s" and i: "i < n" and hosts: "\<And>v. v \<in> set hosts \<Longrightarrow> sh_id v \<noteq> []"
  shows "ports_inv n (fst (tick_place K E i hosts s))"
proof -
  define s0 where "s0 = upd_app i (fill_replicas E) s"
  define a where "a = ae_val (zs_apps s0 ! i)"
  have I0: "ports_inv n s0" unfolding s0_def by (rule ports_inv_upd_app [OF inv i]) (simp add: fill_ports)
  have il: "i < length (zs_apps s0)" using I0 i by (simp add: ports_inv_def)
  have st: "ports_inv n (upd_app i (sched_stage rv rid g) u)" if "ports_inv n u" for u :: "'a zstate" and rv rid g
    by (rule ports_inv_upd_app [OF that i]) simp
  show ?thesis
  proof (cases "first_index (\<lambda>r. dr_host r = []) (in_replicas a)")
    case None then show ?thesis using I0 by (simp add: tick_place_def s0_def [symmetric] a_def [symmetric] Let_def)
  next
    case (Some j)
    define rep where "rep = in_replicas a ! j"
    define rv where "rv = ad_revision (in_stages a)"
    define s1 where "s1 = upd_app i (sched_stage rv (dr_id rep) (set_revision rv \<circ> SetRunning (te_ms E) [])) s0"
    have I1: "ports_inv n s1" unfolding s1_def by (rule st [OF I0])
    have same: "in_replicas (ae_val (zs_apps (upd_app i (sched_stage rv rid g) u) ! i)) = in_replicas (ae_val (zs_apps u ! i))"
      if "i < length (zs_apps u)" for u :: "'a zstate" and rid g
      using that by (simp add: upd_app_def sched_stage_def)
    let ?r = "ScheduleHost (te_vol_picks E) (te_fit_picks E) (Some \<lparr>sr_cpu = in_cpu a, sr_mem = in_mem a, sr_vol = in_vol a\<rparr>) hosts []"
    show ?thesis
    proof (cases ?r)
      case (Inl e)
      then show ?thesis using ports_inv_flush [OF st [OF I1] i] Some
        by (simp add: tick_place_def s0_def [symmetric] a_def [symmetric] Let_def rep_def [symmetric] rv_def [symmetric] s1_def [symmetric])
    next
      case (Inr hit)
      define g where "g = SetSuccess (te_ms E) (te_ms E) (hit_host_id hit)
        \<circ> Child ''host_prioritize'' AppStageOwnerZonelet (SetInstant (te_ms E) (hit_host_id hit))
        \<circ> Child ''host_fit'' AppStageOwnerZonelet (SetInstant (te_ms E) [])"
      define s2 where "s2 = upd_app i (sched_stage rv (dr_id rep) g) s1"
      have reps: "in_replicas (ae_val (zs_apps s2 ! i)) = in_replicas a"
        using same [of s1] same [of s0] il by (simp add: s2_def s1_def a_def)
      have h: "hit_host_id hit \<noteq> []" using ScheduleHost_id [OF Inr] hosts by (metis imageE)
      have "ports_inv n (fst (place_on K E i j (hit_host_id hit) s2))"
        by (rule place_on_inv [OF _ i]) (use st [OF I1] first_index_Some [OF Some] reps h in \<open>simp_all add: s2_def [symmetric]\<close>, simp add: s2_def st [OF I1])
      then show ?thesis using Inr Some
        by (simp add: tick_place_def s0_def [symmetric] a_def [symmetric] Let_def rep_def [symmetric] rv_def [symmetric]
            s1_def [symmetric] g_def [symmetric] s2_def [symmetric])
    qed
  qed
qed

section \<open>A round\<close>

lemma fold_add_port:
  "set (fold (\<lambda>p. add_port (dp_host_port p)) ds ps) = set ps \<union> {p. p > 0 \<and> p \<in> dp_host_port ` set ds}"
  by (induction ds arbitrary: ps) (auto simp: add_port_def)

definition rows_at :: "string \<Rightarrow> (string \<times> 'a list) list \<Rightarrow> 'a list" where
  "rows_at h m = (case kvset_load h m of Some ps \<Rightarrow> ps | None \<Rightarrow> [])"

lemma port_row_load:
  "set (rows_at h (port_row r m)) =
     set (rows_at h m) \<union> (if h \<noteq> [] then set (rep_ports h r) else {})"
  by (auto simp: rows_at_def port_row_def rep_ports_def kvset_load_store fold_add_port Let_def)

lemma port_row_key: "kvset_load h (port_row r m) = None \<longleftrightarrow> kvset_load h m = None \<and> (dr_host r = [] \<or> dr_host r \<noteq> h)"
  by (auto simp: port_row_def kvset_load_store Let_def)

lemma port_row_distinct: "distinct (map fst m) \<Longrightarrow> distinct (map fst (port_row r m))"
  by (simp add: port_row_def Let_def kvset_store_distinct)

lemma fold_port_row:
  assumes "h \<noteq> []"
  shows "set (rows_at h (fold port_row rs m)) =
      set (rows_at h m) \<union> set (concat (map (rep_ports h) rs))"
    and "distinct (map fst m) \<Longrightarrow> distinct (map fst (fold port_row rs m))"
proof -
  show "set (rows_at h (fold port_row rs m)) =
      set (rows_at h m) \<union> set (concat (map (rep_ports h) rs))"
    using assms by (induction rs arbitrary: m) (simp_all add: port_row_load Un_assoc)
  show "distinct (map fst m) \<Longrightarrow> distinct (map fst (fold port_row rs m))"
    by (induction rs arbitrary: m) (simp_all add: port_row_distinct)
qed

lemma host_ports_live:
  "set (host_ports h s) = set (concat (map (rep_ports h) (concat (map (\<lambda>i. in_replicas (ae_val (zs_apps s ! i))) (instance_map s)))))"
proof -
  have "set (host_ports h s) = (\<Union>i < length (zs_apps s). set (live_ports h (ae_val (zs_apps s ! i))))"
    by (auto simp: host_ports_def set_conv_nth [of "zs_apps s"])
  also have "\<dots> = (\<Union>i \<in> set (instance_map s). set (replica_ports h (ae_val (zs_apps s ! i))))"
    by (auto simp: instance_map_def live_ports_def split: if_splits)
  finally show ?thesis by (simp add: replica_ports_eq)
qed

text \<open>The per-host lists of the tick hold exactly the held ports, one row per host.\<close>

lemma host_port_map_covers:
  assumes "h \<noteq> []"
  shows "set (rows_at h (host_port_map s)) = set (host_ports h s)"
    and "distinct (map fst (host_port_map s))"
proof -
  show "set (rows_at h (host_port_map s)) = set (host_ports h s)"
    unfolding host_port_map_def fold_port_row(1) [OF assms] host_ports_live by (simp add: rows_at_def kvset_load_def)
  show "distinct (map fst (host_port_map s))"
    unfolding host_port_map_def by (rule fold_port_row(2) [OF assms]) simp
qed

lemma sync_ports_frame:
  assumes "sync_ports K E hp s = (s', r)"
  shows "zs_apps s' = zs_apps s" "kvset_load k (zs_hosts s') = None \<longleftrightarrow> kvset_load k (zs_hosts s) = None"
    "k \<noteq> fst hp \<Longrightarrow> port_used k s' = port_used k s"
    "kvset_load (fst hp) (zs_hosts s) \<noteq> None \<Longrightarrow> set (port_used (fst hp) s') = set (snd hp)"
proof -
  obtain h ports where hp: "hp = (h, ports)" by fastforce
  let ?cur = "sort (port_used h s)" and ?new = "sort ports"
  consider "kvset_load h (zs_hosts s) = None" "s' = s" | "kvset_load h (zs_hosts s) \<noteq> None" "?cur = ?new" "s' = set_port_used h ?cur s"
    | "kvset_load h (zs_hosts s) \<noteq> None" "put_host K (te_zone E) h (set_port_used h ?new s) = (s', r)"
    using assms by (auto simp: sync_ports_def hp Let_def split: if_splits)
  note c = this
  have put: "zs_apps s' = zs_apps s \<and> port_used k s' = port_used k (set_port_used h ?new s)
      \<and> (kvset_load k (zs_hosts s') = None \<longleftrightarrow> kvset_load k (zs_hosts s) = None)"
    if "put_host K (te_zone E) h (set_port_used h ?new s) = (s', r)" for k
    using put_host_frame [OF that, of k] by simp
  show "zs_apps s' = zs_apps s" using c by cases (use put in auto)
  show "kvset_load k (zs_hosts s') = None \<longleftrightarrow> kvset_load k (zs_hosts s) = None" using c by cases (use put in auto)
  show "k \<noteq> fst hp \<Longrightarrow> port_used k s' = port_used k s"
    using c by cases (use put in \<open>auto simp: hp port_used_set\<close>)
  show "kvset_load (fst hp) (zs_hosts s) \<noteq> None \<Longrightarrow> set (port_used (fst hp) s') = set (snd hp)"
    using c
  proof cases
    case 2
    then have "port_used h s' = ?new" by (simp add: port_used_set)
    then show ?thesis by (simp add: hp)
  next
    case 3
    then have "port_used h s' = ?new" using put [OF 3(2), of h] by (simp add: port_used_set)
    then show ?thesis by (simp add: hp)
  qed (simp add: hp)
qed

lemma sync_all_conj:
  "for_each (sync_ports K E) rows s = (s', r) \<Longrightarrow> distinct (map fst rows) \<Longrightarrow>
     zs_apps s' = zs_apps s
     \<and> (\<forall>k. kvset_load k (zs_hosts s') = None \<longleftrightarrow> kvset_load k (zs_hosts s) = None)
     \<and> (\<forall>k. k \<notin> set (map fst rows) \<longrightarrow> port_used k s' = port_used k s)
     \<and> (r = None \<longrightarrow> (\<forall>k ps. (k, ps) \<in> set rows \<and> kvset_load k (zs_hosts s) \<noteq> None \<longrightarrow> set (port_used k s') = set ps))"
proof (induction rows arbitrary: s)
  case (Cons hp rows)
  obtain s1 r1 where s1: "sync_ports K E hp s = (s1, r1)" by fastforce
  note fr = sync_ports_frame [OF s1]
  show ?case
  proof (cases r1)
    case (Some e)
    then have "s' = s1" "r = Some e" using Cons.prems(1) s1 by auto
    then show ?thesis using fr by auto
  next
    case None
    then have rest: "for_each (sync_ports K E) rows s1 = (s', r)" using Cons.prems(1) s1 by simp
    note IH = Cons.IH [OF rest]
    have "set (port_used k s') = set ps" if "r = None" "(k, ps) = hp" "kvset_load k (zs_hosts s) \<noteq> None" for k ps
    proof -
      have "fst hp \<notin> set (map fst rows)" "fst hp = k" using Cons.prems(2) that(2) by (simp_all add: prod_eq_iff)
      then have "k \<notin> set (map fst rows)" by simp
      then have "port_used k s' = port_used k s1" using IH Cons.prems(2) by simp
      then show ?thesis using fr(4) that by auto
    qed
    then show ?thesis using IH Cons.prems(2) fr(1-3) by auto
  qed
qed simp

lemma sync_all:
  assumes "for_each (sync_ports K E) rows s = (s', r)" "distinct (map fst rows)"
  shows "zs_apps s' = zs_apps s" "kvset_load k (zs_hosts s') = None \<longleftrightarrow> kvset_load k (zs_hosts s) = None"
    "r = None \<Longrightarrow> (k, ps) \<in> set rows \<Longrightarrow> kvset_load k (zs_hosts s) \<noteq> None \<Longrightarrow> set (port_used k s') = set ps"
  using sync_all_conj [OF assms] by blast+

lemma shuffle_rows: "set (shuffle ps xs) = set xs" "distinct (map fst xs) \<Longrightarrow> distinct (map fst (shuffle ps xs))"
proof -
  show "set (shuffle ps xs) = set xs" by (metis mset_shuffle set_mset_mset)
  show "distinct (map fst xs) \<Longrightarrow> distinct (map fst (shuffle ps xs))"
    by (rule distinct_submset [of "map fst xs"]) simp_all
qed

lemma tick_port_used_inv:
  assumes "tick_port_used K E s = (s', r)" "ports_exclusive s"
  shows "ports_exclusive s'" "length (zs_apps s') = length (zs_apps s)" "zs_apps s' = zs_apps s"
    "r = None \<Longrightarrow> ports_covered s'"
proof -
  have d: "distinct (map fst (shuffle (te_host_picks E) (host_port_map s)))"
    using host_port_map_covers(2) [of "[undefined]" s] shuffle_rows(2) by blast
  note sync = sync_all [OF assms(1) [unfolded tick_port_used_def] d]
  show "zs_apps s' = zs_apps s" by (rule sync(1))
  then have hp: "host_ports h s' = host_ports h s" for h by (simp add: host_ports_def)
  then show "ports_exclusive s'" "length (zs_apps s') = length (zs_apps s)" using assms(2) sync(1) by (simp_all add: ports_exclusive_def)
  show "ports_covered s'" if r: "r = None" unfolding ports_covered_def hp
  proof (intro allI impI)
    fix h assume h: "h \<noteq> [] \<and> kvset_load h (zs_hosts s') \<noteq> None"
    show "set (host_ports h s) \<subseteq> set (port_used h s')"
    proof (cases "kvset_load h (host_port_map s)")
      case None then show ?thesis using host_port_map_covers(1) [of h s] h by (simp add: rows_at_def)
    next
      case (Some ps)
      then have "(h, ps) \<in> set (host_port_map s)" by (auto simp: kvset_load_def dest: map_of_SomeD)
      then have "set (port_used h s') = set ps"
        using sync(3) [OF r, of h ps] sync(2) [of h] h by (simp add: shuffle_rows(1))
      then show ?thesis using host_port_map_covers(1) [of h s] h Some by (simp add: rows_at_def)
    qed
  qed
qed

text \<open>The ids of the cached hosts, which no phase of a round changes.\<close>

definition host_ids :: "'db zstate \<Rightarrow> string list" where
  "host_ids s = map (\<lambda>(k, e). ho_id (he_val e)) (zs_hosts s)"

lemma host_ids_frame [simp]:
  "host_ids (upd_app i f s) = host_ids s" "host_ids (s\<lparr>zs_net := nm, zs_db := db\<rparr>) = host_ids s"
  "host_ids (s\<lparr>zs_ops := ops\<rparr>) = host_ids s" "host_ids (s\<lparr>zs_db := db\<rparr>) = host_ids s"
  "host_ids (store_ops hs s) = host_ids s" "host_ids (s\<lparr>zs_net := nm\<rparr>) = host_ids s"
  by (simp_all add: host_ids_def upd_app_def store_ops_def)

lemma host_ids_upd_host: "(\<And>e. ho_id (he_val (f e)) = ho_id (he_val e)) \<Longrightarrow> host_ids (upd_host h f s) = host_ids s"
  by (auto simp: host_ids_def upd_host_def)

lemma host_ids_ports [simp]: "host_ids (set_port_used h ps s) = host_ids s"
  unfolding set_port_used_def by (rule host_ids_upd_host) simp

lemma host_ids_put [simp]: "host_ids (fst (put_host K zone h s)) = host_ids s"
  by (auto simp: put_host_def host_ids_upd_host split: option.splits prod.splits kv_wr.splits)

lemma host_ids_flush [simp]: "host_ids (fst (aset_flush K zone i s)) = host_ids s"
  by (auto simp: aset_flush_def Let_def host_ids_def split: prod.splits kv_wr.splits)

lemma host_ids_and_then:
  "host_ids (fst r) = x \<Longrightarrow> (\<And>s. host_ids s = x \<Longrightarrow> host_ids (fst (f s)) = x) \<Longrightarrow> host_ids (fst (and_then r f)) = x"
  by (rule and_then_inv [where P = "\<lambda>s. host_ids s = x"])

lemma host_ids_flush_put: "host_ids (fst (and_then (aset_flush K z i s) (put_host K z h))) = host_ids s"
  by (rule host_ids_and_then) simp_all

lemma host_ids_sync: "host_ids (fst (tick_port_used K E s)) = host_ids s"
  unfolding tick_port_used_def
  by (rule for_each_inv [where P = "\<lambda>u. host_ids u = host_ids s"])
     (simp_all add: sync_ports_def Let_def split: prod.splits)

lemma host_ids_reconcile: "host_ids (fst (tick_reconcile K E i s)) = host_ids s"
  by (simp add: tick_reconcile_def Let_def split: prod.splits)

lemma host_ids_bind_ports: "host_ids (fst (fst (bind_ports K E i j t))) = host_ids (fst t)"
proof -
  have fl: "host_ids s' = host_ids s" if "and_then (aset_flush K z i s) (put_host K z h) = (s', r)" for s' s z h r
    using host_ids_flush_put [of K z i s h] that by simp
  show ?thesis by (cases t) (auto simp: bind_ports_def Let_def split: prod.splits dest!: fl)
qed

lemma host_ids_bind_ip: "host_ids (fst (fst (bind_ip K E i j t))) = host_ids (fst t)"
proof -
  have fl: "host_ids s' = host_ids s" if "aset_flush K z i s = (s', r)" for s' s z r
    using host_ids_flush [of K z i s] that by simp
  show ?thesis by (cases t) (auto simp: bind_ip_def Let_def split: prod.splits nm_res.splits dest!: fl)
qed

lemma host_ids_bind_app: "host_ids (fst (fst (bind_app K E i t))) = host_ids (fst t)"
  unfolding bind_app_def Let_def
proof (rule and_then_inv [where P = "\<lambda>u. host_ids (fst u) = host_ids (fst t)"])
  show "host_ids (fst (fst (for_each (bind_ports K E i) xs t))) = host_ids (fst t)" for xs
    by (rule for_each_inv [where P = "\<lambda>u. host_ids (fst u) = host_ids (fst t)"]) (simp_all add: host_ids_bind_ports)
  show "host_ids (fst (fst (if \<not> nm_ready (zs_net (fst u)) then (u, None) else for_each (bind_ip K E i) xs u))) = host_ids (fst t)"
    if "host_ids (fst u) = host_ids (fst t)" for u xs
    using for_each_inv [where P = "\<lambda>u. host_ids (fst u) = host_ids (fst t)" and f = "bind_ip K E i" and xs = xs, OF _ that]
      that by (simp add: host_ids_bind_ip)
qed

lemma set_map_filter: "set (List.map_filter f xs) = {y. \<exists>x \<in> set xs. f x = Some y}"
  by (induction xs) (auto simp: map_filter_def split: option.splits)

lemma sched_hosts_ids: "sh_id ` set (sched_hosts s) \<subseteq> set (host_ids s)"
proof -
  have "sh_id ` set (fold (\<lambda>(a, rep). alloc_replica a rep) ps hs) = sh_id ` set hs" for ps hs
  proof (induction ps arbitrary: hs)
    case (Cons p ps)
    have "map sh_id (alloc_replica a rep hs) = map sh_id hs" for a rep
      by (simp add: alloc_replica_def add_alloc_def)
    then have "sh_id ` set (alloc_replica a rep hs) = sh_id ` set hs" for a rep by (metis list.set_map)
    then show ?case using Cons by (simp split: prod.splits)
  qed simp
  moreover have "sh_id ` set (sched_hosts0 s) \<subseteq> set (host_ids s)"
    by (auto simp: sched_hosts0_def host_ids_def set_map_filter sched_item_def image_iff
        split: option.splits if_splits prod.splits) force
  ultimately show ?thesis unfolding sched_hosts_def by simp
qed

definition round_inv :: "nat \<Rightarrow> string list \<Rightarrow> 'db zstate \<Rightarrow> bool" where
  "round_inv n ids s \<longleftrightarrow> ports_inv n s \<and> host_ids s = ids"

lemma tick_capacity_inv:
  assumes "round_inv n ids s" "case active of None \<Rightarrow> True | Some i \<Rightarrow> i < n" "[] \<notin> set ids"
  shows "ports_inv n (fst (tick_capacity K E active s))"
proof -
  have I: "ports_inv n s" "host_ids s = ids" using assms(1) by (auto simp: round_inv_def)
  have J: "ports_inv n (store_ops (sched_hosts s) s)" by (rule ports_inv_frame [OF _ _ I(1)]) (simp_all add: store_ops_def)
  have "sh_id v \<noteq> []" if "v \<in> set (sched_hosts s)" for v using sched_hosts_ids [of s] that assms(3) I(2) by auto
  then have "ports_inv n (fst (tick_place K E i (sched_hosts s) (store_ops (sched_hosts s) s)))" if "i < n" for i
    using tick_place_inv [OF J that] by blast
  then show ?thesis using I J assms(2) by (auto simp: tick_capacity_def Let_def split: option.splits)
qed

lemma instance_map_bound: "i \<in> set (instance_map s) \<Longrightarrow> i < length (zs_apps s)"
  by (simp add: instance_map_def)

lemma active_bound: "case active_instance s of None \<Rightarrow> True | Some i \<Rightarrow> i < length (zs_apps s)"
  by (auto simp: active_instance_def find_Some_iff split: option.split) (metis instance_map_bound nth_mem)

lemma schedule_round_inv:
  assumes excl: "ports_exclusive s" and ids: "[] \<notin> set (host_ids s)"
  shows "ports_exclusive (fst (schedule_round K E s))"
proof -
  let ?n = "length (zs_apps s)" and ?apps = "instance_map s"
  let ?P = "round_inv ?n (host_ids s)"
  obtain s1 r1 where t: "tick_port_used K E s = (s1, r1)" by fastforce
  note T = tick_port_used_inv [OF t excl]
  show ?thesis
  proof (cases r1)
    case (Some e) then show ?thesis using T(1) by (simp add: schedule_round_def t and_then_def)
  next
    case None
    then have I1: "?P s1" using T host_ids_sync [of K E s] t by (simp add: round_inv_def ports_inv_def)
    have R: "?P (fst (for_each (tick_reconcile K E) ?apps s1))"
      by (rule for_each_inv) (use I1 in \<open>simp_all add: round_inv_def host_ids_reconcile instance_map_bound tick_reconcile_inv\<close>)
    have B: "?P (fst (case for_each (bind_app K E) ?apps (u, []) of (t, er) \<Rightarrow> (fst t, er)))" if u: "?P u" for u
    proof -
      have "?P (fst (fst (for_each (bind_app K E) ?apps (u, []))))"
        by (rule for_each_inv [where P = "\<lambda>t. ?P (fst t)"]) (use u in \<open>simp_all add: round_inv_def host_ids_bind_app instance_map_bound bind_app_inv\<close>)
      then show ?thesis by (simp add: case_prod_beta)
    qed
    have "ports_inv ?n (fst (and_then (for_each (tick_reconcile K E) ?apps s1) (\<lambda>s2.
        and_then (case for_each (bind_app K E) ?apps (s2, []) of (t, er) \<Rightarrow> (fst t, er))
          (tick_capacity K E (active_instance s)))))"
    proof (subst and_then_fst, split option.split, intro conjI impI allI)
      show "ports_inv ?n (fst (for_each (tick_reconcile K E) ?apps s1))" using R by (simp add: round_inv_def)
      let ?r = "case for_each (bind_app K E) ?apps (fst (for_each (tick_reconcile K E) ?apps s1), []) of (t, er) \<Rightarrow> (fst t, er)"
      have I: "?P (fst ?r)" by (rule B [OF R])
      then show "ports_inv ?n (fst (and_then ?r (tick_capacity K E (active_instance s))))"
        using tick_capacity_inv [OF I active_bound ids] by (simp add: and_then_fst round_inv_def split: option.split)
    qed
    then show ?thesis using None by (simp add: schedule_round_def t and_then_def ports_inv_def Let_def)
  qed
qed

section \<open>What a host carries\<close>

definition inst_load :: "(inst \<Rightarrow> int) \<Rightarrow> string \<Rightarrow> inst \<Rightarrow> int" where
  "inst_load sel h a =
     (if live a then (\<Sum>r \<leftarrow> in_replicas a. if dr_host r = h then sel a else 0) else 0)"

text \<open>The sum of a limit (cpu, memory, volume) over all placed replicas of a host.\<close>

definition host_load :: "(inst \<Rightarrow> int) \<Rightarrow> string \<Rightarrow> 'db zstate \<Rightarrow> int" where
  "host_load sel h s = (\<Sum>a \<leftarrow> map ae_val (zs_apps s). inst_load sel h a)"

lemma host_load_cong: "map ae_val (zs_apps s') = map ae_val (zs_apps s) \<Longrightarrow> host_load sel h s' = host_load sel h s"
  by (simp only: host_load_def)

lemma host_load_placed:
  "host_load sel h s = (\<Sum>(a, r) \<leftarrow> placed_on s. if dr_host r = h then sel a else 0)"
proof -
  have f: "(\<Sum>i \<leftarrow> filter P xs. g i) = (\<Sum>i \<leftarrow> xs. if P i then g i else 0)" for P xs and g :: "nat \<Rightarrow> int"
    by (induction xs) simp_all
  have c: "(\<Sum>(a, r) \<leftarrow> concat (map g xs). k a r) = (\<Sum>x \<leftarrow> xs. \<Sum>(a, r) \<leftarrow> g x. k a r)" for xs g and k :: "inst \<Rightarrow> dreplica \<Rightarrow> int"
    by (induction xs) simp_all
  have "host_load sel h s = (\<Sum>i \<leftarrow> [0 ..< length (zs_apps s)]. inst_load sel h (ae_val (zs_apps s ! i)))"
    unfolding host_load_def map_map o_def by (subst map_nth [symmetric, of "zs_apps s"]) (simp only: map_map o_def)
  also have "\<dots> = (\<Sum>i \<leftarrow> instance_map s. \<Sum>r \<leftarrow> in_replicas (ae_val (zs_apps s ! i)). if dr_host r = h then sel (ae_val (zs_apps s ! i)) else 0)"
    unfolding instance_map_def f by (simp add: inst_load_def)
  also have "\<dots> = (\<Sum>(a, r) \<leftarrow> placed_on s. if dr_host r = h then sel a else 0)"
    unfolding placed_on_def c by (simp add: o_def Let_def)
  finally show ?thesis .
qed

text \<open>The scheduler's view of a host has the sums of that host, as \<open>int64\<close>.\<close>

definition host_view :: "string \<Rightarrow> host_status \<Rightarrow> int \<Rightarrow> int \<Rightarrow> int \<Rightarrow> sched_host" where
  "host_view h st c m v =
     (sched_item h st)\<lparr>sh_cpu_alloc := i64 c, sh_mem_alloc := i64 m,
       sh_volumes := map (\<lambda>vp. vp\<lparr>sv_alloc := i64 v\<rparr>) (sh_volumes (sched_item h st))\<rparr>"

lemma i64_add: "i64 (i64 x + y) = i64 (x + y)"
  unfolding i64_def by (simp add: mod_simps algebra_simps)

lemma add_alloc_view: "add_alloc c' m' v' (host_view h st c m v) = host_view h st (c + c') (m + m') (v + v')"
  by (simp add: add_alloc_def host_view_def sched_item_def i64_add)

lemma host_view_id: "sh_id (host_view h st c m v) = h"
  by (simp add: host_view_def sched_item_def)

lemma host_view_0: "host_view h st 0 0 0 = sched_item h st"
  by (simp add: host_view_def sched_item_def in_i64_def)

lemma sched_hosts_view:
  assumes "w \<in> set (sched_hosts s)" "[] \<notin> set (host_ids s)"
  shows "\<exists>st. zs_status s (sh_id w) = Some st \<and> w = host_view (sh_id w) st
      (host_load in_cpu (sh_id w) s) (host_load in_mem (sh_id w) s) (host_load in_vol (sh_id w) s)"
proof -
  let ?sum = "\<lambda>sel h ps. \<Sum>(a, r) \<leftarrow> ps. if dr_host r = h then sel a else (0 :: int)"
  have fold_view: "fold (\<lambda>(a, rep). alloc_replica a rep) ps (map (\<lambda>(h, st). host_view h st (c h) (m h) (v h)) hs)
      = map (\<lambda>(h, st). host_view h st (c h + ?sum in_cpu h ps) (m h + ?sum in_mem h ps) (v h + ?sum in_vol h ps)) hs"
    if ne: "[] \<notin> fst ` set hs" for ps hs and c m v :: "string \<Rightarrow> int"
  proof (induction ps arbitrary: c m v)
    case (Cons p ps)
    obtain a r where p: "p = (a, r)" by fastforce
    let ?c = "\<lambda>sel h. if dr_host r = h then sel a else (0 :: int)"
    have "alloc_replica a r (map (\<lambda>(h, st). host_view h st (c h) (m h) (v h)) hs)
        = map (\<lambda>(h, st). host_view h st (c h + ?c in_cpu h) (m h + ?c in_mem h) (v h + ?c in_vol h)) hs"
    proof (cases "dr_host r = []")
      case True then show ?thesis using ne by (force simp: alloc_replica_def)
    next
      case False then show ?thesis by (auto simp: alloc_replica_def add_alloc_view host_view_id)
    qed
    then show ?case using Cons [of "\<lambda>h. c h + ?c in_cpu h" "\<lambda>h. m h + ?c in_mem h" "\<lambda>h. v h + ?c in_vol h"]
      by (simp add: p add.assoc)
  qed (simp cong: map_cong)
  let ?g = "\<lambda>(k, e). case zs_status s (ho_id (he_val e)) of None \<Rightarrow> None
       | Some st \<Rightarrow> if host_reports st then Some (ho_id (he_val e), st) else None"
  define hs where "hs = List.map_filter ?g (zs_hosts s)"
  have "List.map_filter (\<lambda>(k, e). case zs_status s (ho_id (he_val e)) of None \<Rightarrow> None
       | Some st \<Rightarrow> if host_reports st then Some (sched_item (ho_id (he_val e)) st) else None) xs
      = map (\<lambda>(h, st). host_view h st 0 0 0) (List.map_filter ?g xs)" for xs :: "(string \<times> host_entry) list"
    by (induction xs) (auto simp: List.map_filter_simps host_view_0 split: option.splits if_splits)
  then have "sched_hosts0 s = map (\<lambda>(h, st). host_view h st 0 0 0) hs" unfolding sched_hosts0_def hs_def .
  moreover have "fst ` set hs \<subseteq> set (host_ids s)" "\<forall>(h, st) \<in> set hs. zs_status s h = Some st"
    by (auto simp: hs_def set_map_filter host_ids_def image_iff split: option.splits if_splits prod.splits) force+
  moreover have "[] \<notin> fst ` set hs" using assms(2) calculation(2) by blast
  ultimately obtain h st where "(h, st) \<in> set hs" "zs_status s h = Some st"
      "w = host_view h st (host_load in_cpu h s) (host_load in_mem h s) (host_load in_vol h s)"
    using assms(1) fold_view [of hs "placed_on s" "\<lambda>_. 0" "\<lambda>_. 0" "\<lambda>_. 0"]
    by (auto simp: sched_hosts_def host_load_placed)
  then show ?thesis by (auto simp: host_view_id)
qed

lemma host_load_upd:
  "i < length (zs_apps s) \<Longrightarrow>
     host_load sel h (upd_app i f s) =
     host_load sel h s - inst_load sel h (ae_val (zs_apps s ! i)) + inst_load sel h (f (ae_val (zs_apps s ! i)))"
proof -
  assume i: "i < length (zs_apps s)"
  have upd: "(\<Sum>x \<leftarrow> xs[i := y]. g x) = (\<Sum>x \<leftarrow> xs. g x) - g (xs ! i) + g y" if "i < length xs" for xs y and g :: "inst \<Rightarrow> int" and i
    using that by (induction xs arbitrary: i) (simp_all add: nth_Cons split: nat.split)
  show ?thesis unfolding host_load_def upd_app_vals [OF i] using upd [of i "map ae_val (zs_apps s)"] i by simp
qed

text \<open>The limits that the scheduler adds up.\<close>

definition limits :: "(inst \<Rightarrow> int) set" where
  "limits = {in_cpu, in_mem, in_vol}"

lemma limits_frame:
  assumes "sel \<in> limits"
  shows "sel (a\<lparr>in_stages := d\<rparr>) = sel a" "sel (a\<lparr>in_replicas := rs\<rparr>) = sel a" "sel (a\<lparr>in_cap := n\<rparr>) = sel a"
  using assms by (auto simp: limits_def)

lemma inst_load_stages:
  assumes "sel \<in> limits"
  shows "inst_load sel h (a\<lparr>in_stages := d\<rparr>) = inst_load sel h a"
  unfolding inst_load_def limits_frame [OF assms] by (simp add: live_def)

lemma inst_load_frame:
  assumes "sel \<in> limits"
  shows "inst_load sel h (sched_stage rv rid g a) = inst_load sel h a"
    "inst_load sel h (replica_placed E rv rid hh ip a) = inst_load sel h a"
    "h \<noteq> [] \<Longrightarrow> inst_load sel h (fill_replicas E a) = inst_load sel h a"
    "sel (fill_replicas E a) = sel a" "sel (sched_stage rv rid g a) = sel a"
proof -
  show "inst_load sel h (sched_stage rv rid g a) = inst_load sel h a"
    unfolding sched_stage_def upd_stages_def by (rule inst_load_stages [OF assms])
  show "inst_load sel h (replica_placed E rv rid hh ip a) = inst_load sel h a"
    unfolding replica_placed_def upd_stages_def Let_def by (rule inst_load_stages [OF assms])
  show s: "sel (fill_replicas E a) = sel a" "sel (sched_stage rv rid g a) = sel a"
    by (simp_all only: fill_replicas_def sched_stage_def upd_stages_def Let_def limits_frame [OF assms])
  show "inst_load sel h (fill_replicas E a) = inst_load sel h a" if h: "h \<noteq> []"
  proof -
    let ?reps = "sort_slice (te_sort_picks E) (\<lambda>r. int (unat (dr_id r))) (in_replicas a)"
    let ?g = "\<lambda>r. if dr_host r = h then sel a else 0"
    have new: "(\<Sum>r \<leftarrow> map (new_replica \<circ> of_nat) xs. ?g r) = 0" for xs
      using h by (induction xs) (simp_all add: new_replica_def)
    have "mset ?reps = mset (in_replicas a)" by simp
    then have "sum_mset (mset (map ?g ?reps)) = sum_mset (mset (map ?g (in_replicas a)))" by (simp only: mset_map)
    then have perm: "(\<Sum>r \<leftarrow> ?reps. ?g r) = (\<Sum>r \<leftarrow> in_replicas a. ?g r)" by (simp only: sum_mset_sum_list)
    have "in_replicas (fill_replicas E a) = ?reps @ map (new_replica \<circ> of_nat) [length ?reps ..< unat (clamp_cap (in_cap a))]"
      "live (fill_replicas E a) = live a"
      by (simp_all add: fill_replicas_def Let_def live_def)
    then show ?thesis unfolding inst_load_def s by (simp only: map_append sum_list.append perm new add_0_right)
  qed
qed

lemma inst_load_set:
  assumes "sel \<in> limits" "j < length (in_replicas a)" "dr_host (in_replicas a ! j) = []" "h' \<noteq> []"
    and "\<And>r. dr_host (f r) = h"
  shows "inst_load sel h' (set_replica j f a) = inst_load sel h' a + (if live a \<and> h' = h then sel a else 0)"
proof -
  have upd: "(\<Sum>x \<leftarrow> xs[j := y]. g x) = (\<Sum>x \<leftarrow> xs. g x) - g (xs ! j) + g y" if "j < length xs" for xs y and g :: "dreplica \<Rightarrow> int" and j
    using that by (induction xs arbitrary: j) (simp_all add: nth_Cons split: nat.split)
  have s: "sel (set_replica j f a) = sel a" "live (set_replica j f a) = live a"
    by (simp_all only: set_replica_def limits_frame [OF assms(1)]) (simp add: live_def)
  show ?thesis unfolding inst_load_def s using assms by (simp add: set_replica_def upd)
qed

lemma host_load_flush:
  assumes "i < length (zs_apps s)"
  shows "host_load sel h (fst (aset_flush K z i s)) = host_load sel h s"
  by (rule host_load_cong) (metis aset_flush_frame(2) assms prod.collapse)

lemma host_load_put: "host_load sel h (fst (put_host K z k s)) = host_load sel h s"
  by (rule host_load_cong) (metis put_host_frame prod.collapse)

lemma length_flush [simp]: "length (zs_apps (fst (aset_flush K z i s))) = length (zs_apps s)"
  by (auto simp: aset_flush_def Let_def split: prod.splits kv_wr.splits)

lemma place_on_load:
  assumes sel: "sel \<in> limits" and i: "i < length (zs_apps s)" and j: "j < length (in_replicas (ae_val (zs_apps s ! i)))"
    and free: "dr_host (in_replicas (ae_val (zs_apps s ! i)) ! j) = []" and h': "h' \<noteq> []"
  shows "host_load sel h' (fst (place_on K E i j h s)) = host_load sel h' s
    + (if kvset_load h (zs_hosts s) \<noteq> None \<and> live (ae_val (zs_apps s ! i)) \<and> h' = h then sel (ae_val (zs_apps s ! i)) else 0)"
proof (cases "kvset_load h (zs_hosts s) = None")
  case True then show ?thesis by (simp add: place_on_def)
next
  case False
  let ?a = "ae_val (zs_apps s ! i)"
  let ?rep = "in_replicas ?a ! j"
  let ?s0 = "upd_app i (set_replica j (\<lambda>r. r\<lparr>dr_host := h\<rparr>)) s"
  obtain nm db ip where ip: "place_ip K E h ?a (dr_id ?rep) ?s0 = (?s0\<lparr>zs_net := nm, zs_db := db\<rparr>, ip, None)"
    using place_ip_total [of K E h ?a "dr_id ?rep" ?s0] by blast
  let ?u = "s\<lparr>zs_net := nm, zs_db := db\<rparr>"
  define ip' where "ip' = (if nm_ready (zs_net ?s0) \<and> HostNetwork (zs_net ?s0) h \<noteq> None then ip else dr_ip ?rep)"
  obtain ps used where pp: "place_ports E ?a (dr_id ?rep) (port_used h (?s0\<lparr>zs_net := nm, zs_db := db\<rparr>)) = (ps, used)" by fastforce
  let ?g = "replica_placed E (ad_revision (in_stages ?a)) (dr_id ?rep) h ip'"
  let ?f = "\<lambda>r. r\<lparr>dr_host := h, dr_ip := ip', dr_ports := ps\<rparr>"
  define s3 where "s3 = upd_app i (\<lambda>_. ?g (set_replica j ?f ?a)) (set_port_used h used ?u)"
  have set2: "set_replica j (\<lambda>r. r\<lparr>dr_ip := ip', dr_ports := ps\<rparr>) (set_replica j (\<lambda>r. r\<lparr>dr_host := h\<rparr>) ?a) = set_replica j ?f ?a"
    using j by (simp add: set_replica_def)
  have eq: "place_on K E i j h s = and_then (aset_flush K (te_zone E) i s3)
      (\<lambda>s4. put_host K (te_zone E) h (s4\<lparr>zs_ops := map (\<lambda>(k, op). (k, if k = h then add_op ?a op else op)) (zs_ops s4)\<rparr>))"
    unfolding place_on_def Let_def ip prod.case option.case ip'_def [symmetric] pp upd_app_merge [OF i] o_apply set2 s3_def
    by (simp only: False if_False)
  have base: "host_load sel h' (set_port_used h used ?u) = host_load sel h' s" by (rule host_load_cong) simp
  have s3: "host_load sel h' s3 = host_load sel h' s + (if live ?a \<and> h' = h then sel ?a else 0)"
    unfolding s3_def using i inst_load_set [OF sel j free h', of ?f h] base
    by (simp add: host_load_upd inst_load_frame(2) [OF sel])
  have fl: "host_load sel h' (fst (aset_flush K (te_zone E) i s3)) = host_load sel h' s3"
    by (rule host_load_flush) (simp add: s3_def i)
  have "host_load sel h' (fst (place_on K E i j h s)) = host_load sel h' s3" unfolding eq
  proof (rule and_then_inv [where P = "\<lambda>t. host_load sel h' t = host_load sel h' s3", OF fl])
    fix t :: "'a zstate" assume "host_load sel h' t = host_load sel h' s3"
    moreover have "host_load sel h' (t\<lparr>zs_ops := ops\<rparr>) = host_load sel h' t" for ops by (rule host_load_cong) simp
    ultimately show "host_load sel h' (fst (put_host K (te_zone E) h
        (t\<lparr>zs_ops := map (\<lambda>(k, op). (k, if k = h then add_op ?a op else op)) (zs_ops t)\<rparr>))) = host_load sel h' s3"
      by (simp add: host_load_put)
  qed
  then show ?thesis using s3 False by simp
qed

lemma upd_app_nth: "i < length (zs_apps s) \<Longrightarrow> ae_val (zs_apps (upd_app i f s) ! i) = f (ae_val (zs_apps s ! i))"
  by (simp add: upd_app_def)

definition request :: "inst \<Rightarrow> sched_replica" where
  "request a = \<lparr>sr_cpu = in_cpu a, sr_mem = in_mem a, sr_vol = in_vol a\<rparr>"

lemma tick_place_load:
  assumes i: "i < length (zs_apps s)" and h: "h \<noteq> []"
  obtains "\<forall>sel \<in> limits. host_load sel h (fst (tick_place K E i hosts s)) = host_load sel h s"
  | hit where "ScheduleHost (te_vol_picks E) (te_fit_picks E) (Some (request (ae_val (zs_apps s ! i)))) hosts [] = Inr hit"
      "hit_host_id hit = h"
      "\<forall>sel \<in> limits. host_load sel h (fst (tick_place K E i hosts s)) = host_load sel h s + sel (ae_val (zs_apps s ! i))"
proof -
  define s0 where "s0 = upd_app i (fill_replicas E) s"
  define a where "a = ae_val (zs_apps s0 ! i)"
  have a: "a = fill_replicas E (ae_val (zs_apps s ! i))" using i by (simp add: a_def s0_def upd_app_nth)
  have il: "i < length (zs_apps s0)" using i by (simp add: s0_def)
  have lim: "in_cpu \<in> limits" "in_mem \<in> limits" "in_vol \<in> limits" by (simp_all add: limits_def)
  have req: "request (ae_val (zs_apps s ! i)) = \<lparr>sr_cpu = in_cpu a, sr_mem = in_mem a, sr_vol = in_vol a\<rparr>"
    by (simp only: request_def a lim [THEN inst_load_frame(4)])
  have L0: "host_load sel h s0 = host_load sel h s" if "sel \<in> limits" for sel
    using inst_load_frame(3) [OF that h] i by (simp add: s0_def host_load_upd)
  have st: "host_load sel h (upd_app i (sched_stage rv rid g) u) = host_load sel h u"
    if "sel \<in> limits" "i < length (zs_apps u)" for sel and u :: "'a zstate" and rv rid g
    using that by (simp add: host_load_upd inst_load_frame(1))
  note P = tick_place_def [of K E i hosts s, unfolded Let_def, folded s0_def, folded a_def]
  show ?thesis
  proof (cases "first_index (\<lambda>r. dr_host r = []) (in_replicas a)")
    case None then show ?thesis using L0 by (intro that(1)) (simp add: P)
  next
    case (Some j)
    define rep where "rep = in_replicas a ! j"
    define rv where "rv = ad_revision (in_stages a)"
    define s1 where "s1 = upd_app i (sched_stage rv (dr_id rep) (set_revision rv \<circ> SetRunning (te_ms E) [])) s0"
    have il1: "i < length (zs_apps s1)" using il by (simp add: s1_def)
    have L1: "host_load sel h s1 = host_load sel h s" if "sel \<in> limits" for sel
      using st [OF that il] L0 [OF that] by (simp add: s1_def)
    show ?thesis
    proof (cases "ScheduleHost (te_vol_picks E) (te_fit_picks E) (Some (request (ae_val (zs_apps s ! i)))) hosts []")
      case (Inl e)
      then show ?thesis using L1 st il1 Some
        by (intro that(1)) (simp add: P req [symmetric] rep_def [symmetric] rv_def [symmetric] s1_def [symmetric] host_load_flush)
    next
      case (Inr hit)
      define g where "g = SetSuccess (te_ms E) (te_ms E) (hit_host_id hit)
        \<circ> Child ''host_prioritize'' AppStageOwnerZonelet (SetInstant (te_ms E) (hit_host_id hit))
        \<circ> Child ''host_fit'' AppStageOwnerZonelet (SetInstant (te_ms E) [])"
      define s2 where "s2 = upd_app i (sched_stage rv (dr_id rep) g) s1"
      have il2: "i < length (zs_apps s2)" using il1 by (simp add: s2_def)
      have T: "tick_place K E i hosts s = place_on K E i j (hit_host_id hit) s2"
        using Inr Some by (simp add: P req [symmetric] rep_def [symmetric] rv_def [symmetric] s1_def [symmetric] g_def [symmetric] s2_def [symmetric])
      have val: "ae_val (zs_apps s2 ! i) = sched_stage rv (dr_id rep) g (sched_stage rv (dr_id rep) (set_revision rv \<circ> SetRunning (te_ms E) []) a)"
        using il il1 by (simp only: s2_def s1_def upd_app_nth a_def)
      have reps: "in_replicas (ae_val (zs_apps s2 ! i)) = in_replicas a" unfolding val by (simp add: sched_stage_def)
      have j: "j < length (in_replicas (ae_val (zs_apps s2 ! i)))" "dr_host (in_replicas (ae_val (zs_apps s2 ! i)) ! j) = []"
        using first_index_Some [OF Some] reps by simp_all
      have L2: "host_load sel h s2 = host_load sel h s" "sel (ae_val (zs_apps s2 ! i)) = sel (ae_val (zs_apps s ! i))"
        if "sel \<in> limits" for sel
        using st [OF that il1, of rv "dr_id rep" g] L1 [OF that]
        by (simp_all add: s2_def [symmetric] val inst_load_frame(4,5) [OF that] a)
      note pl = place_on_load [OF _ il2 j h, of _ K E "hit_host_id hit", folded T]
      show ?thesis
      proof (cases "kvset_load (hit_host_id hit) (zs_hosts s2) \<noteq> None \<and> live (ae_val (zs_apps s2 ! i)) \<and> h = hit_host_id hit")
        case True then show ?thesis using pl L2 by (intro that(2) [OF Inr]) auto
      next
        case False then show ?thesis using pl L2 by (intro that(1)) auto
      qed
    qed
  qed
qed

lemma godiv_60: "in_i64 x \<Longrightarrow> - (2 ^ 62) \<le> godiv x 60 \<and> godiv x 60 < 2 ^ 62"
  by (cases "0 < x"; cases "x = 0") (auto simp: godiv_def in_i64_def)

text \<open>The amounts that a host reports and carries stay far from the ends of \<open>int64\<close>.\<close>

definition moderate :: "int \<Rightarrow> bool" where
  "moderate x \<longleftrightarrow> 0 \<le> x \<and> x < 2 ^ 62"

lemma i64_moderate: "moderate x \<Longrightarrow> moderate y \<Longrightarrow> - (2 ^ 62) \<le> u \<Longrightarrow> u < 2 ^ 62 \<Longrightarrow> i64 (x + max u (i64 y)) = x + max u y"
  by (subst i64_id) (auto simp: moderate_def in_i64_def max_def)

lemma usable_view:
  assumes "usable (request a) [] (host_view h st c m v)"
    "moderate (in_cpu a)" "moderate (in_mem a)" "moderate (in_vol a)" "moderate c" "moderate m" "moderate v"
    "moderate (hs_mem_used st)" "moderate (hs_disk_total st)" "moderate (hs_disk_free st)"
  shows "c + in_cpu a \<le> cpuCap (i64 (hs_cores st * 1000)) \<and> m + in_mem a \<le> memCap (hs_mem_total st)
    \<and> v + in_vol a \<le> hs_disk_total st"
proof -
  have cpu: "- (2 ^ 62) \<le> hostCpuUsedMc st \<and> hostCpuUsedMc st < 2 ^ 62"
    using godiv_60 [OF i64_in] by (simp add: hostCpuUsedMc_def Window1Min_def)
  have mem: "- (2 ^ 62) \<le> hs_mem_used st \<and> hs_mem_used st < 2 ^ 62" using assms(8) by (simp add: moderate_def)
  have disk: "- (2 ^ 62) \<le> i64 (hs_disk_total st - hs_disk_free st) \<and> i64 (hs_disk_total st - hs_disk_free st) < 2 ^ 62"
    using assms(9,10) by (simp add: moderate_def in_i64_def)
  have fit: "i64 (in_cpu a + max (hostCpuUsedMc st) (i64 c)) \<le> cpuCap (i64 (hs_cores st * 1000))"
    "i64 (in_mem a + max (hs_mem_used st) (i64 m)) \<le> memCap (hs_mem_total st)"
    "i64 (max (i64 (hs_disk_total st - hs_disk_free st)) (i64 v) + in_vol a) \<le> hs_disk_total st"
    using assms(1) by (simp_all add: usable_def cpu_mem_fit_def vol_fits_def host_view_def sched_item_def request_def)
  have "in_cpu a + c \<le> cpuCap (i64 (hs_cores st * 1000))"
    using fit(1) i64_moderate [OF assms(2,5)] cpu by (metis add_left_mono max.cobounded2 order_trans)
  moreover have "in_mem a + m \<le> memCap (hs_mem_total st)"
    using fit(2) i64_moderate [OF assms(3,6)] mem by (metis add_left_mono max.cobounded2 order_trans)
  moreover have "in_vol a + v \<le> hs_disk_total st"
    using fit(3) i64_moderate [OF assms(4,7)] disk by (metis add.commute add_left_mono max.cobounded2 order_trans)
  ultimately show ?thesis by (simp add: add.commute)
qed

section \<open>A refused instance\<close>

lemma first_index_ex: "\<exists>x \<in> set xs. P x \<Longrightarrow> \<exists>j. first_index P xs = Some j"
  by (induction xs) auto

lemma sched_stage_twice:
  obtains d where "sched_stage rv rid g (sched_stage rv rid g' a) = a\<lparr>in_stages := d\<rparr>"
proof -
  have st: "\<exists>d. sched_stage rv rid g a = a\<lparr>in_stages := d\<rparr>" for g a unfolding sched_stage_def upd_stages_def by blast
  obtain d d' where "sched_stage rv rid g' a = a\<lparr>in_stages := d\<rparr>"
    "sched_stage rv rid g (a\<lparr>in_stages := d\<rparr>) = (a\<lparr>in_stages := d\<rparr>)\<lparr>in_stages := d'\<rparr>" using st by meson
  then show ?thesis using that [of d'] by simp
qed

lemma tick_place_refused:
  assumes i: "i < length (zs_apps s)"
    and refused: "ScheduleHost (te_vol_picks E) (te_fit_picks E) (Some (request (ae_val (zs_apps s ! i)))) hosts [] = Inl e"
    and left: "\<exists>r \<in> set (in_replicas (fill_replicas E (ae_val (zs_apps s ! i)))). dr_host r = []"
  obtains d where "map ae_val (zs_apps (fst (tick_place K E i hosts s))) =
      (map ae_val (zs_apps s))[i := (fill_replicas E (ae_val (zs_apps s ! i)))\<lparr>in_stages := d\<rparr>]"
proof -
  let ?b = "fill_replicas E (ae_val (zs_apps s ! i))"
  let ?s0 = "upd_app i (fill_replicas E) s"
  have b: "ae_val (zs_apps ?s0 ! i) = ?b" by (rule upd_app_nth [OF i])
  have lim: "in_cpu \<in> limits" "in_mem \<in> limits" "in_vol \<in> limits" by (simp_all add: limits_def)
  have req: "\<lparr>sr_cpu = in_cpu ?b, sr_mem = in_mem ?b, sr_vol = in_vol ?b\<rparr> = request (ae_val (zs_apps s ! i))"
    by (simp only: request_def lim [THEN inst_load_frame(4)])
  obtain j where j: "first_index (\<lambda>r. dr_host r = []) (in_replicas ?b) = Some j"
    using first_index_ex [OF left] by blast
  define rv where "rv = ad_revision (in_stages ?b)"
  define rid where "rid = dr_id (in_replicas ?b ! j)"
  define g' where "g' = set_revision rv \<circ> SetRunning (te_ms E) []"
  define g where "g = set_revision rv \<circ> SetFailed (te_ms E) (te_ms E) (sched_err_text e)"
  have T: "tick_place K E i hosts s = aset_flush K (te_zone E) i (upd_app i (sched_stage rv rid g) (upd_app i (sched_stage rv rid g') ?s0))"
    unfolding tick_place_def Let_def b j option.case req refused sum.case rv_def [symmetric] rid_def [symmetric]
      g_def [symmetric] g'_def [symmetric] ..
  let ?s2 = "upd_app i (sched_stage rv rid g) (upd_app i (sched_stage rv rid g') ?s0)"
  have vals: "map ae_val (zs_apps ?s2) = (map ae_val (zs_apps s))[i := sched_stage rv rid g (sched_stage rv rid g' ?b)]"
    using i by (simp add: upd_app_vals upd_app_nth)
  have flush: "map ae_val (zs_apps (fst (tick_place K E i hosts s))) = map ae_val (zs_apps ?s2)"
    unfolding T by (rule aset_flush_frame(2) [OF prod.collapse [symmetric]]) (simp add: i)
  obtain d where d: "sched_stage rv rid g (sched_stage rv rid g' ?b) = ?b\<lparr>in_stages := d\<rparr>"
    by (rule sched_stage_twice)
  show ?thesis by (rule that [of d]) (simp only: flush vals d)
qed

lemma find_upd:
  assumes "find P xs = Some i" "P' i" "\<And>k. k \<in> set xs \<Longrightarrow> k \<noteq> i \<Longrightarrow> P' k = P k"
  shows "find P' xs = Some i"
  using assms by (induction xs) (auto split: if_splits)

lemma fill_wants:
  assumes "\<exists>r \<in> set (in_replicas (fill_replicas E a)). dr_host r = []"
  shows "wants_host ((fill_replicas E a)\<lparr>in_stages := d\<rparr>)"
  using assms by (auto simp: wants_host_def list_ex_iff)

lemma refused_stays_active:
  assumes act: "active_instance s = Some i" and a: "a = ae_val (zs_apps s ! i)"
    and vals: "map ae_val (zs_apps s') = (map ae_val (zs_apps s))[i := (fill_replicas E a)\<lparr>in_stages := d\<rparr>]"
    and left: "\<exists>r \<in> set (in_replicas (fill_replicas E a)). dr_host r = []"
  shows "active_instance s' = Some i" "k < length (zs_apps s) \<Longrightarrow> k \<noteq> i \<Longrightarrow> ae_val (zs_apps s' ! k) = ae_val (zs_apps s ! k)"
proof -
  have len: "length (zs_apps s') = length (zs_apps s)" using arg_cong [OF vals, of length] by simp
  have nth: "ae_val (zs_apps s' ! k) = (if k = i then (fill_replicas E a)\<lparr>in_stages := d\<rparr> else ae_val (zs_apps s ! k))"
    if "k < length (zs_apps s)" for k
    using arg_cong [OF vals, of "\<lambda>xs. xs ! k"] that len by (simp add: nth_list_update)
  have il: "i < length (zs_apps s)" using active_bound [of s] act by simp
  have live: "live (ae_val (zs_apps s' ! k)) = live (ae_val (zs_apps s ! k))" if "k < length (zs_apps s)" for k
    using nth [OF that] a by (simp add: live_def fill_replicas_def Let_def)
  have "instance_map s' = instance_map s" unfolding instance_map_def len by (rule filter_cong) (simp_all add: live)
  moreover have "find (\<lambda>k. wants_host (ae_val (zs_apps s' ! k))) (instance_map s) = Some i"
    by (rule find_upd [OF act [unfolded active_instance_def]])
       (use nth il fill_wants [OF left] in \<open>simp_all add: instance_map_bound\<close>)
  ultimately show "active_instance s' = Some i" by (simp add: active_instance_def)
  show "k < length (zs_apps s) \<Longrightarrow> k \<noteq> i \<Longrightarrow> ae_val (zs_apps s' ! k) = ae_val (zs_apps s ! k)" using nth by simp
qed

section \<open>Properties\<close>

text \<open>
  C4: no two replicas of live instances hold the same port of one host. A scheduling round keeps this
  whatever it does: re-counting the used ports, dropping and redrawing ports after a change of the
  spec, placing a new replica, and also when it ends early with a failed write.
\<close>

theorem schedule_round_ports_exclusive:
  assumes "ports_exclusive s" "[] \<notin> set (host_ids s)"
  shows "ports_exclusive (fst (schedule_round K E s))"
  using schedule_round_inv [OF assms] .

definition demo_env :: tick_env where
  "demo_env = \<lparr>te_zone = ''z'', te_now = 10, te_ms = 10000, te_config = \<lparr>zi_bridge = [], zi_instance = [], zi_domain = []\<rparr>,
     te_restore_order = [], te_host_picks = [], te_port_picks = (\<lambda>_ _. []), te_rands = (\<lambda>_ _ _. [7, 8]),
     te_sort_picks = [], te_vol_picks = (\<lambda>_. []), te_fit_picks = []\<rparr>"

definition demo_inst :: "string \<Rightarrow> int \<Rightarrow> dreplica list \<Rightarrow> inst" where
  "demo_inst name cpu reps = \<lparr>in_name = name, in_action = ''start'', in_cpu = cpu, in_mem = 10, in_vol = 10, in_cap = 1,
     in_replicas = reps, in_stages = \<lparr>ad_revision = 1, ad_stages = None\<rparr>, in_ports = [\<lparr>sp_name = ''http'', sp_port = 80\<rparr>]\<rparr>"

definition demo_zone :: "inst list \<Rightarrow> prow mem_db zstate" where
  "demo_zone as = \<lparr>zs_db = (0, []), zs_net = NewNetworkManager,
     zs_hosts = [(''h1'', \<lparr>he_version = 0, he_val = \<lparr>ho_id = ''h1'', ho_peer = [], ho_deploy = None\<rparr>\<rparr>)],
     zs_apps = map (\<lambda>a. \<lparr>ae_version = 0, ae_val = a\<rparr>) as, zs_apps_version = 0, zs_apps_ready = True, zs_ops = [],
     zs_status = [''h1'' \<mapsto> \<lparr>hs_cores = 4, hs_mem_total = 1000, hs_mem_used = 10, hs_disk_total = 1000, hs_disk_free = 900,
       hs_cpu_sys = 0, hs_cpu_user = 0\<rparr>], zs_last = 0, zs_force = False\<rparr>"

definition demo_placed :: inst where
  "demo_placed = demo_inst ''db'' 100
     [\<lparr>dr_id = 0, dr_host = ''h1'', dr_ip = [], dr_ports = [\<lparr>dp_name = ''http'', dp_port = 80, dp_host_port = 20007\<rparr>]\<rparr>]"

lemma demo_ports:
  "host_ports ''h1'' (fst (schedule_round mem_kv demo_env (demo_zone [demo_placed, demo_inst ''web'' 100 []]))) = [20007, 20008]"
  by code_simp

lemma demo_exclusive: "ports_exclusive (demo_zone [demo_placed, demo_inst ''web'' 100 []])" 
  by (simp add: ports_exclusive_def host_ports_def demo_zone_def demo_placed_def demo_inst_def live_ports_def replica_ports_def)

theorem schedule_round_ports_exclusive_witness:
  "distinct (host_ports ''h1'' (fst (schedule_round mem_kv demo_env (demo_zone [demo_placed, demo_inst ''web'' 100 []]))))"
  using schedule_round_ports_exclusive [OF demo_exclusive, of mem_kv demo_env]
  by (simp add: host_ids_def demo_zone_def ports_exclusive_def)

text \<open>
  C6: a tick does not over-commit a host. Either what the placed replicas of a host are entitled to is
  unchanged, or the host reports its resources and afterwards the sums of the cpu, memory and volume
  limits of all replicas placed on it, the new one included, are within the over-allocation limits of the
  scheduler (three times the cores, 1.1 times the memory, the size of the volume).
\<close>

theorem tick_capacity_no_overcommit:
  assumes "i < length (zs_apps s)" "h \<noteq> []" "[] \<notin> set (host_ids s)"
    and "\<forall>sel \<in> limits. moderate (sel (ae_val (zs_apps s ! i))) \<and> moderate (host_load sel h s)"
    and "\<forall>st. zs_status s h = Some st \<longrightarrow> moderate (hs_mem_used st) \<and> moderate (hs_disk_total st) \<and> moderate (hs_disk_free st)"
    and "s' = fst (tick_capacity K E (Some i) s)"
  shows "(\<forall>sel \<in> limits. host_load sel h s' = host_load sel h s) \<or>
    (\<exists>st. zs_status s h = Some st \<and> host_load in_cpu h s' \<le> cpuCap (i64 (hs_cores st * 1000))
      \<and> host_load in_mem h s' \<le> memCap (hs_mem_total st) \<and> host_load in_vol h s' \<le> hs_disk_total st)"
proof (cases "sched_hosts0 s = []")
  case True then show ?thesis using assms(6) by (simp add: tick_capacity_def)
next
  case False
  let ?hs = "sched_hosts s" and ?s1 = "store_ops (sched_hosts s) s" and ?a = "ae_val (zs_apps s ! i)"
  have s': "s' = fst (tick_place K E i ?hs ?s1)" using False assms(6) by (simp add: tick_capacity_def Let_def)
  have same: "zs_apps ?s1 = zs_apps s" "host_load sel h ?s1 = host_load sel h s" for sel
    by (simp_all add: store_ops_def host_load_def)
  have il: "i < length (zs_apps ?s1)" using assms(1) same by simp
  show ?thesis
  proof (rule tick_place_load [OF il assms(2), of K E ?hs, folded s'])
    assume "\<forall>sel \<in> limits. host_load sel h s' = host_load sel h ?s1"
    then show ?thesis using same by simp
  next
    fix hit assume hit: "ScheduleHost (te_vol_picks E) (te_fit_picks E) (Some (request (ae_val (zs_apps ?s1 ! i)))) ?hs [] = Inr hit"
      "hit_host_id hit = h" "\<forall>sel \<in> limits. host_load sel h s' = host_load sel h ?s1 + sel (ae_val (zs_apps ?s1 ! i))"
    obtain v f where v: "v \<in> set ?hs" "sh_id v = h" "usable (request ?a) [] v"
      using hit(1) [unfolded same] by (rule ScheduleHost_hit) (use hit(2) fit_host_Some(1) in metis)
    obtain st where st: "zs_status s h = Some st"
      "v = host_view h st (host_load in_cpu h s) (host_load in_mem h s) (host_load in_vol h s)"
      using sched_hosts_view [OF v(1) assms(3)] v(2) by blast
    have lim: "in_cpu \<in> limits" "in_mem \<in> limits" "in_vol \<in> limits" by (simp_all add: limits_def)
    have "host_load in_cpu h s + in_cpu ?a \<le> cpuCap (i64 (hs_cores st * 1000)) \<and> host_load in_mem h s + in_mem ?a \<le> memCap (hs_mem_total st)
      \<and> host_load in_vol h s + in_vol ?a \<le> hs_disk_total st"
      by (rule usable_view) (use v(3) st assms(4,5) lim in auto)
    then show ?thesis using st(1) hit(3) lim same by auto
  qed
qed

lemma demo_loads:
  "map (\<lambda>sel. host_load sel ''h1'' (demo_zone [demo_placed, demo_inst ''web'' 100 []])) [in_cpu, in_mem, in_vol] = [100, 10, 10]"
  "host_load in_cpu ''h1'' (fst (tick_capacity mem_kv demo_env (Some 1) (demo_zone [demo_placed, demo_inst ''web'' 100 []]))) = 200"
  by code_simp+

theorem tick_capacity_no_overcommit_witness:
  "host_load in_cpu ''h1'' (fst (tick_capacity mem_kv demo_env (Some 1) (demo_zone [demo_placed, demo_inst ''web'' 100 []])))
     \<le> cpuCap (i64 (4 * 1000))"
proof -
  let ?s = "demo_zone [demo_placed, demo_inst ''web'' 100 []]"
  let ?s' = "fst (tick_capacity mem_kv demo_env (Some 1) ?s)"
  have "(\<forall>sel \<in> limits. host_load sel ''h1'' ?s' = host_load sel ''h1'' ?s) \<or>
    (\<exists>st. zs_status ?s ''h1'' = Some st \<and> host_load in_cpu ''h1'' ?s' \<le> cpuCap (i64 (hs_cores st * 1000))
      \<and> host_load in_mem ''h1'' ?s' \<le> memCap (hs_mem_total st) \<and> host_load in_vol ''h1'' ?s' \<le> hs_disk_total st)"
  proof (rule tick_capacity_no_overcommit)
    show "\<forall>sel \<in> limits. moderate (sel (ae_val (zs_apps ?s ! 1))) \<and> moderate (host_load sel ''h1'' ?s)"
      using demo_loads(1) by (simp add: limits_def moderate_def) (simp add: demo_zone_def demo_inst_def)
    show "\<forall>st. zs_status ?s ''h1'' = Some st \<longrightarrow> moderate (hs_mem_used st) \<and> moderate (hs_disk_total st) \<and> moderate (hs_disk_free st)"
      by (simp add: demo_zone_def moderate_def)
    show "1 < length (zs_apps ?s)" "[] \<notin> set (host_ids ?s)" "''h1'' \<noteq> []" "?s' = ?s'"
      by (simp_all add: demo_zone_def host_ids_def)
  qed
  moreover have "host_load in_cpu ''h1'' ?s' \<noteq> host_load in_cpu ''h1'' ?s" using demo_loads by simp
  moreover have "zs_status ?s ''h1'' = Some st \<Longrightarrow> hs_cores st = 4" for st by (auto simp: demo_zone_def)
  ultimately show ?thesis by (auto simp: limits_def)
qed

text \<open>
  One instance that no host can take blocks the others. The tick works on the first instance of
  the cache that wants a host; when the scheduler refuses it and a replica of it is still without a host,
  the same instance is the one the next tick works on, and no other instance is touched, whether or
  not it would fit.
\<close>

theorem refused_instance_blocks:
  assumes "active_instance s = Some i" "a = ae_val (zs_apps s ! i)"
    and "ScheduleHost (te_vol_picks E) (te_fit_picks E) (Some (request a)) (sched_hosts s) [] = Inl e"
    and "\<exists>r \<in> set (in_replicas (fill_replicas E a)). dr_host r = []"
    and "s' = fst (tick_capacity K E (active_instance s) s)"
  shows "active_instance s' = Some i \<and>
    (\<forall>k < length (zs_apps s). k \<noteq> i \<longrightarrow> ae_val (zs_apps s' ! k) = ae_val (zs_apps s ! k))"
proof (cases "sched_hosts0 s = []")
  case True then show ?thesis using assms(1,5) by (simp add: tick_capacity_def)
next
  case False
  let ?s1 = "store_ops (sched_hosts s) s"
  have s': "s' = fst (tick_place K E i (sched_hosts s) ?s1)" using False assms(1,5) by (simp add: tick_capacity_def Let_def)
  have apps: "zs_apps ?s1 = zs_apps s" by (simp add: store_ops_def)
  have il: "i < length (zs_apps ?s1)" using active_bound [of s] assms(1) by (simp add: apps)
  obtain d where "map ae_val (zs_apps s') = (map ae_val (zs_apps s))[i := (fill_replicas E a)\<lparr>in_stages := d\<rparr>]"
    by (rule tick_place_refused [OF il, of E "sched_hosts s" e K]) (use assms(2-4) apps s' in auto)
  from refused_stays_active [OF assms(1,2) this assms(4)] show ?thesis by blast
qed

lemma demo_blocked:
  "active_instance (demo_zone [demo_inst ''big'' 90000 [], demo_inst ''web'' 100 []]) = Some 0"
  "ScheduleHost (\<lambda>_. []) [] (Some (request (demo_inst ''big'' 90000 []))) (sched_hosts (demo_zone [demo_inst ''big'' 90000 [], demo_inst ''web'' 100 []])) [] = Inl ErrNoHostFound"
  "\<exists>r \<in> set (in_replicas (fill_replicas demo_env (demo_inst ''big'' 90000 []))). dr_host r = []"
  "map_sum id hit_host_id (ScheduleHost (\<lambda>_. []) [] (Some (request (demo_inst ''web'' 100 [])))
      (sched_hosts (demo_zone [demo_inst ''big'' 90000 [], demo_inst ''web'' 100 []])) []) = Inr ''h1''"
  by code_simp+

theorem refused_instance_blocks_witness:
  "active_instance (fst (tick_capacity mem_kv demo_env (Some 0) (demo_zone [demo_inst ''big'' 90000 [], demo_inst ''web'' 100 []]))) = Some 0
   \<and> map_sum id hit_host_id (ScheduleHost (\<lambda>_. []) [] (Some (request (demo_inst ''web'' 100 [])))
      (sched_hosts (demo_zone [demo_inst ''big'' 90000 [], demo_inst ''web'' 100 []])) []) = Inr ''h1''"
proof -
  let ?s = "demo_zone [demo_inst ''big'' 90000 [], demo_inst ''web'' 100 []]"
  have "active_instance (fst (tick_capacity mem_kv demo_env (active_instance ?s) ?s)) = Some 0
    \<and> (\<forall>k < length (zs_apps ?s). k \<noteq> 0 \<longrightarrow>
        ae_val (zs_apps (fst (tick_capacity mem_kv demo_env (active_instance ?s) ?s)) ! k) = ae_val (zs_apps ?s ! k))"
  proof (rule refused_instance_blocks [OF demo_blocked(1)])
    show "demo_inst ''big'' 90000 [] = ae_val (zs_apps ?s ! 0)" by (simp add: demo_zone_def)
    show "ScheduleHost (te_vol_picks demo_env) (te_fit_picks demo_env) (Some (request (demo_inst ''big'' 90000 []))) (sched_hosts ?s) [] = Inl ErrNoHostFound"
      using demo_blocked(2) by (simp add: demo_env_def)
  qed (use demo_blocked(3) in auto)
  then show ?thesis using demo_blocked(1,4) by simp
qed

end
