(* ===== verification/MonStore.thy ===== *)
theory MonStore
  imports KvStore
begin

text \<open>
  The host metrics history, \<open>internal/zonelet/monstore.go\<close> and the block keys of \<open>pkg/inapi/ns.go\<close>:
  the sampling tick of the leader, the flush of a rotated block, the block format with its variable
  length integers (\<open>encoding/binary\<close>, written out here) and the query of a series. The flush of a block
  runs in a goroutine of its own; the state holds the blocks whose flush has not finished, and a flush may
  finish between any two ticks.
\<close>

section \<open>Variable length integers\<close>

datatype var_err = VarEOF | VarUnexpectedEOF | VarOverflow

text \<open>\<open>binary.PutUvarint\<close>: seven bits per byte, low bits first, the top bit set on all but the last.\<close>

function PutUvarint :: "u64 \<Rightarrow> u8 list" where
  "PutUvarint x = (if x \<ge> 0x80 then (ucast x OR 0x80) # PutUvarint (drop_bit 7 x) else [ucast x])"
  by pat_completeness auto
termination
proof (relation "measure unat")
  fix x :: u64 assume "0x80 \<le> x"
  then have "128 \<le> unat x" by (simp add: word_le_nat_alt)
  then show "(drop_bit 7 x, x) \<in> measure unat" by (simp add: drop_bit_eq_div unat_div)
qed simp

declare PutUvarint.simps [simp del]

text \<open>\<open>binary.ReadUvarint\<close>: \<open>i\<close> bytes are read, with the value \<open>x\<close>.\<close>

fun ReadUvarint :: "nat \<Rightarrow> u64 \<Rightarrow> u8 list \<Rightarrow> var_err + (u64 \<times> u8 list)" where
  "ReadUvarint i x [] = (if i \<ge> 10 then Inl VarOverflow else Inl (if i > 0 then VarUnexpectedEOF else VarEOF))"
| "ReadUvarint i x (b # bs) =
     (if i \<ge> 10 then Inl VarOverflow
      else if b < 0x80 then
        (if i = 9 \<and> b > 1 then Inl VarOverflow else Inr (x OR push_bit (7 * i) (ucast b), bs))
      else ReadUvarint (Suc i) (x OR push_bit (7 * i) (ucast (b AND 0x7F))) bs)"

definition zigzag :: "u64 \<Rightarrow> u64" where
  "zigzag x = (if bit x 63 then NOT (push_bit 1 x) else push_bit 1 x)"

definition zagzig :: "u64 \<Rightarrow> u64" where
  "zagzig ux = (if bit ux 0 then NOT (drop_bit 1 ux) else drop_bit 1 ux)"

definition PutVarint :: "int \<Rightarrow> u8 list" where
  "PutVarint v = PutUvarint (zigzag (word_of_int v))"

definition ReadVarint :: "u8 list \<Rightarrow> var_err + (int \<times> u8 list)" where
  "ReadVarint bs = (case ReadUvarint 0 0 bs of Inl e \<Rightarrow> Inl e | Inr (ux, r) \<Rightarrow> Inr (sint (zagzig ux), r))"

lemmas raw_bits = bit_not_iff bit_push_bit_iff bit_and_iff bit_or_iff bit_drop_bit_eq bit_unsigned_iff possible_bit_word

lemma zagzig_zigzag: "zagzig (zigzag x) = x"
proof (rule bit_word_eqI)
  fix n assume n: "n < LENGTH(64)"
  have z: "bit (zigzag x) k \<longleftrightarrow> (if k = 0 then bit x 63 else bit x (k - 1) \<noteq> bit x 63)" if "k < 64" for k
    unfolding zigzag_def using that by (simp only: raw_bits if_distrib [of "\<lambda>w. bit w k"]) auto
  have "bit x 63 = bit x n" if "n = 63" using that by simp
  then show "bit (zagzig (zigzag x)) n = bit x n"
    unfolding zagzig_def using n z [of 0] z [of "Suc n"] bit_imp_le_length [of "zigzag x" 64]
    by (simp only: raw_bits if_distrib [of "\<lambda>w. bit w n"]) (cases "n = 63", auto)
qed

lemma byte_masks: "bit (0x80 :: u8) n \<longleftrightarrow> n = 7" "bit (0x7F :: u8) n \<longleftrightarrow> n < 7"
proof -
  have m: "(0x80 :: u8) = 2 ^ 7" "(0x7F :: u8) = mask 7" by (simp_all add: mask_eq_exp_minus_1)
  show "bit (0x80 :: u8) n \<longleftrightarrow> n = 7" unfolding m by (simp only: bit_exp_iff possible_bit_word) auto
  show "bit (0x7F :: u8) n \<longleftrightarrow> n < 7" unfolding m by (simp only: bit_mask_iff possible_bit_word) auto
qed

lemma or_7bits:
  fixes y :: u64
  shows "push_bit (7 * i) (ucast ((ucast y OR 0x80 :: u8) AND 0x7F)) OR push_bit (7 + 7 * i) (drop_bit 7 y) = push_bit (7 * i) y"
proof (rule bit_word_eqI)
  fix n assume n: "n < LENGTH(64)"
  show "bit (push_bit (7 * i) (ucast ((ucast y OR 0x80 :: u8) AND 0x7F)) OR push_bit (7 + 7 * i) (drop_bit 7 y)) n = bit (push_bit (7 * i) y) n"
  proof (cases "7 + 7 * i \<le> n")
    case True
    then have "7 + (n - (7 + 7 * i)) = n - 7 * i" by simp
    then show ?thesis using n True by (simp only: raw_bits byte_masks) auto
  next
    case False then show ?thesis using n by (simp only: raw_bits byte_masks) auto
  qed
qed

lemma top_bit: "\<not> (b OR 0x80 :: u8) < 0x80"
  using le_word_or1 [of "0x80 :: u8" b] by (simp add: not_less)

lemma Read_Put_Uvarint:
  "i \<le> 9 \<Longrightarrow> unat y < 2 ^ (64 - 7 * i) \<Longrightarrow>
     ReadUvarint i x (PutUvarint y @ bs) = Inr (x OR push_bit (7 * i) y, bs)"
proof (induction y arbitrary: i x rule: PutUvarint.induct)
  case (1 y)
  show ?case
  proof (cases "y \<ge> 0x80")
    case True
    then have y: "128 \<le> unat y" by (simp add: word_le_nat_alt)
    have "i \<noteq> 9" using "1.prems"(2) y by auto
    then have i: "Suc i \<le> 9" using "1.prems"(1) by simp
    have "unat y < 2 ^ (64 - 7 * Suc i) * 2 ^ 7" using "1.prems"(2) i unfolding power_add [symmetric] by simp
    then have "unat (drop_bit 7 y) < 2 ^ (64 - 7 * Suc i)"
      by (simp add: drop_bit_eq_div unat_div less_mult_imp_div_less)
    note IH = "1.IH" [OF True i this]
    show ?thesis using True i top_bit [of "ucast y"]
      by (subst PutUvarint.simps) (simp add: IH [simplified] or_7bits or.assoc)
  next
    case False
    then have y: "unat y < 128" by (simp add: word_le_nat_alt not_le)
    have b: "unat (ucast y :: u8) = unat y" using y by (simp add: unsigned_ucast_eq take_bit_eq_mod)
    then have "(ucast y :: u8) < 0x80" using y by (simp add: word_less_nat_alt)
    moreover have "\<not> (i = 9 \<and> (ucast y :: u8) > 1)" using "1.prems"(2) b by (auto simp: word_less_nat_alt)
    moreover have "ucast (ucast y :: u8) = y" using b using y by (simp add: word_unat_eq_iff unsigned_ucast_eq take_bit_eq_mod unat_mod)
    ultimately show ?thesis using False "1.prems"(1) by (subst PutUvarint.simps) simp
  qed
qed

lemma sint_word_of_int64: "in_i64 v \<Longrightarrow> sint (word_of_int v :: u64) = v"
  by (simp add: in_i64_def signed_take_bit_int_eq_self sint_sbintrunc')

lemma Read_Put_Varint: "in_i64 v \<Longrightarrow> ReadVarint (PutVarint v @ bs) = Inr (v, bs)"
proof -
  assume v: "in_i64 v"
  have "unat (zigzag (word_of_int v)) < 2 ^ 64" using unsigned_less [of "zigzag (word_of_int v)"] by simp
  then show ?thesis
    using Read_Put_Uvarint [of 0 "zigzag (word_of_int v)" 0 bs] v
    by (simp add: ReadVarint_def PutVarint_def zagzig_zigzag sint_word_of_int64)
qed

lemma PutUvarint_length: "k \<le> 9 \<Longrightarrow> unat x < 2 ^ (7 * Suc k) \<Longrightarrow> length (PutUvarint x) \<le> Suc k"
proof (induction x arbitrary: k rule: PutUvarint.induct)
  case (1 x)
  show ?case
  proof (cases "0x80 \<le> x")
    case True
    then have x: "128 \<le> unat x" by (simp add: word_le_nat_alt)
    then obtain j where j: "k = Suc j" using "1.prems"(2) by (cases k) auto
    have "unat x < 2 ^ (7 * Suc j) * 2 ^ 7" using "1.prems"(2) j unfolding power_add [symmetric] by (simp add: algebra_simps)
    then have "unat (drop_bit 7 x) < 2 ^ (7 * Suc j)" by (simp add: drop_bit_eq_div unat_div less_mult_imp_div_less)
    from "1.IH" [OF True _ this] have "length (PutUvarint (drop_bit 7 x)) \<le> Suc j" using "1.prems"(1) j by simp
    then show ?thesis using True j by (subst PutUvarint.simps) simp
  qed (subst PutUvarint.simps, simp)
qed

text \<open>\<open>binary.MaxVarintLen64\<close>.\<close>

lemma PutVarint_length: "length (PutVarint v) \<le> 10" "PutVarint v \<noteq> []"
proof -
  have "unat (zigzag (word_of_int v)) < 2 ^ 64" using unsigned_less [of "zigzag (word_of_int v)"] by simp
  also have "\<dots> \<le> 2 ^ (7 * Suc 9)" by simp
  finally show "length (PutVarint v) \<le> 10" using PutUvarint_length [of 9 "zigzag (word_of_int v)"] by (simp add: PutVarint_def)
  show "PutVarint v \<noteq> []" unfolding PutVarint_def by (subst PutUvarint.simps) simp
qed

section \<open>Blocks\<close>

text \<open>The per-sample part: \<open>prev\<close> is the time of the sample before.\<close>

fun enc_samples :: "int \<Rightarrow> int list \<Rightarrow> int list \<Rightarrow> u8 list" where
  "enc_samples prev (t # ts) (v # vs) = PutVarint (i64 (t - prev)) @ PutVarint v @ enc_samples t ts vs"
| "enc_samples prev _ _ = []"

text \<open>A values slice shorter than the times is an index out of range.\<close>

definition monEncodeBlock :: "int \<Rightarrow> int list \<Rightarrow> int list \<Rightarrow> u8 list option" where
  "monEncodeBlock blockStart ts vs =
     (if length vs < length ts then None
      else Some (PutVarint (int (length ts)) @ PutVarint blockStart @ enc_samples blockStart ts vs))"

datatype mon_err = MonRead var_err | MonPanic

text \<open>
  \<open>make\<close> panics on a negative capacity and on one whose size is over the address space of the
  runtime (\<open>2^48\<close> bytes of eight-byte elements).
\<close>

definition make_ok :: "int \<Rightarrow> bool" where
  "make_ok n \<longleftrightarrow> 0 \<le> n \<and> n \<le> 2 ^ 45"

fun dec_samples :: "nat \<Rightarrow> int \<Rightarrow> u8 list \<Rightarrow> mon_err + (int list \<times> int list)" where
  "dec_samples 0 prev bs = Inr ([], [])"
| "dec_samples (Suc n) prev bs =
     (case ReadVarint bs of
        Inl e \<Rightarrow> Inl (MonRead e)
      | Inr (delta, bs1) \<Rightarrow>
          (let prev1 = i64 (prev + delta) in
           case ReadVarint bs1 of
             Inl e \<Rightarrow> Inl (MonRead e)
           | Inr (v, bs2) \<Rightarrow> map_sum id (\<lambda>(ts, vs). (prev1 # ts, v # vs)) (dec_samples n prev1 bs2)))"

definition monDecodeBlock :: "u8 list \<Rightarrow> mon_err + (int \<times> int list \<times> int list)" where
  "monDecodeBlock b =
     (case ReadVarint b of
        Inl e \<Rightarrow> Inl (MonRead e)
      | Inr (cnt, b1) \<Rightarrow>
          (case ReadVarint b1 of
             Inl e \<Rightarrow> Inl (MonRead e)
           | Inr (start, b2) \<Rightarrow>
               if make_ok cnt then map_sum id (Pair start) (dec_samples (nat cnt) start b2) else Inl MonPanic))"

lemma i64_diff: "in_i64 t \<Longrightarrow> i64 (prev + i64 (t - prev)) = t"
proof -
  assume t: "in_i64 t"
  have "i64 (prev + i64 (t - prev)) = i64 t" unfolding i64_def by (simp add: mod_simps algebra_simps)
  then show ?thesis using t by simp
qed

lemma dec_enc_samples:
  "length ts = length vs \<Longrightarrow> list_all in_i64 ts \<Longrightarrow> list_all in_i64 vs \<Longrightarrow>
     dec_samples (length ts) prev (enc_samples prev ts vs @ bs) = Inr (ts, vs)"
  by (induction prev ts vs rule: enc_samples.induct) (simp_all add: Read_Put_Varint i64_diff)

lemma enc_samples_length: "length (enc_samples prev ts vs) \<le> 20 * length ts"
proof (induction prev ts vs rule: enc_samples.induct)
  case (1 prev t ts v vs)
  then show ?case using PutVarint_length(1) [of "i64 (t - prev)"] PutVarint_length(1) [of v] by simp
qed simp_all

text \<open>
  C37: a stored block reads back as it was written: for values that are \<open>int64\<close>, decoding the
  encoding of a series gives the start of the block, the times and the values, whatever follows the
  block, although the times are stored as wrapped differences; and the block is not longer than ten
  bytes per integer.
\<close>

theorem mon_block_roundtrip:
  assumes "length ts = length vs" "length ts \<le> 2 ^ 45" "in_i64 start" "list_all in_i64 ts" "list_all in_i64 vs"
  shows "\<exists>b. monEncodeBlock start ts vs = Some b \<and> length b \<le> 20 + 20 * length ts
    \<and> monDecodeBlock (b @ rest) = Inr (start, ts, vs)"
proof -
  let ?b = "PutVarint (int (length ts)) @ PutVarint start @ enc_samples start ts vs"
  have "int (length ts) \<le> 2 ^ 45" using assms(2) by (metis of_nat_le_iff of_nat_numeral of_nat_power)
  then have n: "in_i64 (int (length ts))" "make_ok (int (length ts))" by (simp_all add: in_i64_def make_ok_def)
  have "monDecodeBlock (?b @ rest) = Inr (start, ts, vs)"
    using n assms(1,3) dec_enc_samples [OF assms(1,4,5), of start rest] by (simp add: monDecodeBlock_def Read_Put_Varint)
  moreover have "length ?b \<le> 20 + 20 * length ts"
    using enc_samples_length [of start ts vs] PutVarint_length(1) [of "int (length ts)"] PutVarint_length(1) [of start] by simp
  ultimately show ?thesis using assms(1) by (simp add: monEncodeBlock_def)
qed

theorem mon_block_roundtrip_witness:
  "map_option monDecodeBlock (monEncodeBlock 600 [605, 610, 602] [- 7, 2 ^ 63 - 1, - (2 ^ 63)])
     = Some (Inr (600, [605, 610, 602], [- 7, 2 ^ 63 - 1, - (2 ^ 63)]))"
  using mon_block_roundtrip [of "[605, 610, 602]" "[- 7, 2 ^ 63 - 1, - (2 ^ 63)]" 600 "[]"]
  by (auto simp: in_i64_def)

section \<open>Sampling\<close>

text \<open>The part of a host status report the store reads.\<close>

record mon_report =
  mr_host :: string
  mr_cpu_sys :: int
  mr_cpu_user :: int
  mr_mem_used :: int
  mr_mem_available :: int
  mr_disk_free :: int
  mr_disk_total :: int
  mr_net_recv :: int
  mr_net_sent :: int
  mr_disk_read :: int
  mr_disk_write :: int

definition mon_window :: int where
  "mon_window = 60"

definition monHostExtractors :: "(mon_report \<Rightarrow> int) list" where
  "monHostExtractors =
     [\<lambda>hs. godiv (i64 (mr_cpu_sys hs + mr_cpu_user hs)) mon_window, mr_mem_used, mr_mem_available, mr_disk_free,
      mr_disk_total, \<lambda>hs. godiv (mr_net_recv hs) mon_window, \<lambda>hs. godiv (mr_net_sent hs) mon_window,
      \<lambda>hs. godiv (mr_disk_read hs) mon_window, \<lambda>hs. godiv (mr_disk_write hs) mon_window]"

definition MonFields :: "string list" where
  "MonFields = [''cpu_millicores'', ''mem_used'', ''mem_available'', ''disk_free'', ''disk_total'', ''net_recv'', ''net_sent'',
     ''disk_read'', ''disk_write'']"

definition MonFieldValid :: "string \<Rightarrow> bool" where
  "MonFieldValid f \<longleftrightarrow> f \<in> set MonFields"

record mon_sample =
  ms_host :: string
  ms_ts :: int
  ms_values :: "int list"

definition monSampleOf :: "string \<Rightarrow> mon_report \<Rightarrow> int \<Rightarrow> mon_sample" where
  "monSampleOf host hs now = \<lparr>ms_host = host, ms_ts = now, ms_values = map (\<lambda>f. f hs) monHostExtractors\<rparr>"

record mon_block =
  mb_start :: int
  mb_samples :: "mon_sample list"

definition MonBlockSeconds :: int where
  "MonBlockSeconds = 600"

definition monBlockStartOf :: "int \<Rightarrow> int" where
  "monBlockStartOf ts = i64 (ts - gomod ts MonBlockSeconds)"

text \<open>\<open>monBuf\<close>, the flushes in flight (block and retention) and the store.\<close>

record 'db mon_state =
  mo_buf :: mon_block
  mo_flights :: "(mon_block \<times> int) list"
  mo_db :: 'db

definition monstoreReset :: "'db mon_state \<Rightarrow> 'db mon_state" where
  "monstoreReset s = s\<lparr>mo_buf := \<lparr>mb_start = 0, mb_samples = []\<rparr>\<rparr>"

definition monFlushAsync :: "int \<Rightarrow> mon_block \<Rightarrow> 'db mon_state \<Rightarrow> 'db mon_state" where
  "monFlushAsync retention block s =
     (if length (mo_flights s) \<ge> 2 then s else s\<lparr>mo_flights := mo_flights s @ [(block, retention)]\<rparr>)"

text \<open>\<open>reports\<close> are the reports of the status set, in the order of its \<open>Range\<close>.\<close>

definition monstoreTick :: "string \<Rightarrow> int \<Rightarrow> bool \<Rightarrow> mon_report list \<Rightarrow> int \<Rightarrow> 'db mon_state \<Rightarrow> 'db mon_state" where
  "monstoreTick zone retention leader reports now s =
     (if zone = [] \<or> retention \<le> 0 then s
      else if \<not> leader then (if mb_start (mo_buf s) \<noteq> 0 then monstoreReset s else s)
      else
        let s1 = (if mb_start (mo_buf s) = 0 then s\<lparr>mo_buf := (mo_buf s)\<lparr>mb_start := monBlockStartOf now\<rparr>\<rparr> else s);
            s2 = (if i64 (now - mb_start (mo_buf s1)) \<ge> MonBlockSeconds
                  then monFlushAsync retention (mo_buf s1) (s1\<lparr>mo_buf := \<lparr>mb_start = monBlockStartOf now, mb_samples = []\<rparr>\<rparr>)
                  else s1);
            new = map (\<lambda>hs. monSampleOf (mr_host hs) hs now) (filter (\<lambda>hs. mr_host hs \<noteq> []) reports)
        in s2\<lparr>mo_buf := (mo_buf s2)\<lparr>mb_samples := mb_samples (mo_buf s2) @ new\<rparr>\<rparr>)"

section \<open>Flushing\<close>

text \<open>\<open>%010x\<close>: the sign of a negative number counts towards the width.\<close>

definition MonBlockId :: "int \<Rightarrow> string" where
  "MonBlockId t = (if t < 0 then CHR ''-'' # show_hex 9 (nat (- t)) else show_hex 10 (nat t))"

definition NsZoneletMonBlockPrefix :: "string \<Rightarrow> string \<Rightarrow> string \<Rightarrow> string" where
  "NsZoneletMonBlockPrefix zone host field =
     (if field = [] then ''i8k/v2/zone/'' @ zone @ ''/mon/host/'' @ host @ ''/''
      else ''i8k/v2/zone/'' @ zone @ ''/mon/host/'' @ host @ ''/'' @ field @ ''/'')"

definition NsZoneletMonBlock :: "string \<Rightarrow> string \<Rightarrow> string \<Rightarrow> int \<Rightarrow> string" where
  "NsZoneletMonBlock zone host field t =
     ''i8k/v2/zone/'' @ zone @ ''/mon/host/'' @ host @ ''/'' @ field @ ''/'' @ MonBlockId t"

text \<open>The samples of a block, grouped by host in the order of their first sample.\<close>

fun group_add :: "mon_sample \<Rightarrow> (string \<times> mon_sample list) list \<Rightarrow> (string \<times> mon_sample list) list" where
  "group_add x [] = [(ms_host x, [x])]"
| "group_add x ((h, xs) # gs) = (if h = ms_host x then (h, xs @ [x]) # gs else (h, xs) # group_add x gs)"

definition by_host :: "mon_sample list \<Rightarrow> (string \<times> mon_sample list) list" where
  "by_host xs = fold group_add xs []"

definition ttl_put :: "int \<Rightarrow> kv_wopt" where
  "ttl_put t = \<lparr>wo_prev = None, wo_create = False, wo_ttl = t\<rparr>"

text \<open>The writes of one host; \<open>False\<close> when one fails.\<close>

fun flush_fields ::
  "('db, u8 list) kvgo \<Rightarrow> string \<Rightarrow> int \<Rightarrow> int \<Rightarrow> string \<Rightarrow> mon_sample list \<Rightarrow> (nat \<times> string) list \<Rightarrow> 'db \<Rightarrow> 'db \<times> bool" where
  "flush_fields K zone retention start host xs [] db = (db, True)"
| "flush_fields K zone retention start host xs ((f, field) # fs) db =
     (case monEncodeBlock start (map ms_ts xs) (map (\<lambda>x. ms_values x ! f) xs) of
        None \<Rightarrow> (db, False)
      | Some buf \<Rightarrow>
          (case kv_put K db (NsZoneletMonBlock zone host field start) (ttl_put retention) buf of
             (db', KvWriteErr _) \<Rightarrow> (db', False)
           | (db', KvWritten _) \<Rightarrow> flush_fields K zone retention start host xs fs db'))"

fun flush_hosts ::
  "('db, u8 list) kvgo \<Rightarrow> string \<Rightarrow> int \<Rightarrow> int \<Rightarrow> (string \<times> mon_sample list) list \<Rightarrow> 'db \<Rightarrow> 'db" where
  "flush_hosts K zone retention start [] db = db"
| "flush_hosts K zone retention start ((h, xs) # gs) db =
     (case flush_fields K zone retention start h xs (enumerate 0 MonFields) db of
        (db', True) \<Rightarrow> flush_hosts K zone retention start gs db' | (db', False) \<Rightarrow> db')"

definition monFlushBlock ::
  "('db, u8 list) kvgo \<Rightarrow> nat list \<Rightarrow> string \<Rightarrow> mon_block \<Rightarrow> int \<Rightarrow> 'db \<Rightarrow> 'db" where
  "monFlushBlock K picks zone block retention db =
     flush_hosts K zone retention (mb_start block) (shuffle picks (by_host (mb_samples block))) db"

text \<open>The events that change the state: a beat of the loop, and the end of a flush.\<close>

datatype mon_event =
    MonTick bool "mon_report list" int
  | MonFlushed nat "nat list"

definition mon_step ::
  "('db, u8 list) kvgo \<Rightarrow> string \<Rightarrow> int \<Rightarrow> mon_event \<Rightarrow> 'db mon_state \<Rightarrow> 'db mon_state" where
  "mon_step K zone retention ev s =
     (case ev of
        MonTick leader reports now \<Rightarrow> monstoreTick zone retention leader reports now s
      | MonFlushed k picks \<Rightarrow>
          (if k < length (mo_flights s) then
             (case mo_flights s ! k of (block, ret) \<Rightarrow>
                s\<lparr>mo_flights := take k (mo_flights s) @ drop (Suc k) (mo_flights s),
                  mo_db := monFlushBlock K picks zone block ret (mo_db s)\<rparr>)
           else s))"

section \<open>Queries\<close>

record mon_point =
  mp_time :: int
  mp_value :: int

definition MonBlockScanLimit :: nat where
  "MonBlockScanLimit = 4096"

datatype query_state = QGo "mon_point list" int | QReturn "mon_point list" | QPanic

text \<open>One sample; a bucket that was seen when no point was kept indexes an empty slice.\<close>

definition query_sample :: "int \<Rightarrow> int \<Rightarrow> int \<Rightarrow> int \<Rightarrow> int \<times> int \<Rightarrow> query_state \<Rightarrow> query_state" where
  "query_sample tsStart tsEnd step lim tv q =
     (case q of
        QGo pts lastBucket \<Rightarrow>
          (let (ts, v) = tv; p = \<lparr>mp_time = ts, mp_value = v\<rparr>; bucket = godiv ts step in
           if tsStart > 0 \<and> ts < tsStart then q
           else if tsEnd > 0 \<and> ts > tsEnd then q
           else if int (length pts) \<ge> lim then QReturn pts
           else if step > 0 \<and> bucket = lastBucket then (if pts = [] then QPanic else QGo (butlast pts @ [p]) lastBucket)
           else QGo (pts @ [p]) (if step > 0 then bucket else lastBucket))
      | _ \<Rightarrow> q)"

definition query_item :: "int \<Rightarrow> int \<Rightarrow> int \<Rightarrow> int \<Rightarrow> u8 list kv_item \<Rightarrow> query_state \<Rightarrow> query_state" where
  "query_item tsStart tsEnd step lim it q =
     (case q of
        QGo _ _ \<Rightarrow>
          (case monDecodeBlock (case it_val it of Some b \<Rightarrow> b | None \<Rightarrow> []) of
             Inl MonPanic \<Rightarrow> QPanic
           | Inl (MonRead _) \<Rightarrow> q
           | Inr (_, ts, vs) \<Rightarrow> fold (query_sample tsStart tsEnd step lim) (zip ts vs) q)
      | _ \<Rightarrow> q)"

datatype query_result = QOK "mon_point list" | QErr string | QCrash

definition monQuery ::
  "('db, u8 list) kvgo \<Rightarrow> string \<Rightarrow> 'db \<Rightarrow> string \<Rightarrow> string \<Rightarrow> int \<Rightarrow> int \<Rightarrow> int \<Rightarrow> int \<Rightarrow> query_result" where
  "monQuery K zone db host field tsStart tsEnd step lim =
     (let prefix = NsZoneletMonBlockPrefix zone host field;
          lo = (if tsStart > 0 then NsZoneletMonBlock zone host field (i64 (monBlockStartOf tsStart - MonBlockSeconds)) else prefix);
          hi = (if tsEnd > 0 then NsZoneletMonBlock zone host field (i64 (monBlockStartOf tsEnd + 2 * MonBlockSeconds)) else prefix @ [CHR 0xFF])
      in case kv_range K db lo hi MonBlockScanLimit False of
           KvRangeErr e \<Rightarrow> QErr e
         | KvItems its _ \<Rightarrow>
             (case fold (query_item tsStart tsEnd step lim) its (QGo [] (- 1)) of
                QGo pts _ \<Rightarrow> QOK pts | QReturn pts \<Rightarrow> QOK pts | QPanic \<Rightarrow> QCrash))"

definition HostMetricsMaxPointsDefault :: int where "HostMetricsMaxPointsDefault = 1000"
definition HostMetricsMaxPointsMax :: int where "HostMetricsMaxPointsMax = 10000"

definition max_points :: "int \<Rightarrow> int" where
  "max_points n =
     (let m = (if n \<le> 0 then HostMetricsMaxPointsDefault else n)
      in if m > HostMetricsMaxPointsMax then HostMetricsMaxPointsMax else m)"

record metrics_req =
  mq_host :: string
  mq_field :: string
  mq_start :: int
  mq_end :: int
  mq_step :: int
  mq_max :: int

datatype metrics_res = MetricsOK "(string \<times> mon_point list) list" | MetricsErr string | MetricsCrash

fun query_fields ::
  "('db, u8 list) kvgo \<Rightarrow> string \<Rightarrow> 'db \<Rightarrow> metrics_req \<Rightarrow> string list \<Rightarrow> (string \<times> mon_point list) list \<Rightarrow> metrics_res" where
  "query_fields K zone db req [] acc = MetricsOK acc"
| "query_fields K zone db req (f # fs) acc =
     (case monQuery K zone db (mq_host req) f (mq_start req) (mq_end req) (mq_step req) (max_points (mq_max req)) of
        QOK pts \<Rightarrow> query_fields K zone db req fs (acc @ [(f, pts)])
      | QErr e \<Rightarrow> MetricsErr e
      | QCrash \<Rightarrow> MetricsCrash)"

definition HostMetrics ::
  "('db, u8 list) kvgo \<Rightarrow> string \<Rightarrow> 'db \<Rightarrow> bool \<Rightarrow> bool \<Rightarrow> metrics_req \<Rightarrow> metrics_res" where
  "HostMetrics K zone db allowed leader req =
     (if \<not> allowed then MetricsErr ''permission denied''
      else if \<not> leader then MetricsErr ''zonelet leader''
      else if mq_host req = [] then MetricsErr ''host_id required''
      else if mq_field req \<noteq> [] \<and> \<not> MonFieldValid (mq_field req) then MetricsErr ''invalid field''
      else query_fields K zone db req (if mq_field req = [] then MonFields else [mq_field req]) [])"

section \<open>Bounds of a query\<close>

definition point_in :: "int \<Rightarrow> int \<Rightarrow> mon_point \<Rightarrow> bool" where
  "point_in tsStart tsEnd p \<longleftrightarrow> (tsStart > 0 \<longrightarrow> tsStart \<le> mp_time p) \<and> (tsEnd > 0 \<longrightarrow> mp_time p \<le> tsEnd)"

text \<open>The points kept so far: at most the limit, in the window, no two neighbours in one bucket.\<close>

definition points_ok :: "int \<Rightarrow> int \<Rightarrow> int \<Rightarrow> int \<Rightarrow> mon_point list \<Rightarrow> bool" where
  "points_ok tsStart tsEnd step lim pts \<longleftrightarrow>
     int (length pts) \<le> max 0 lim \<and> list_all (point_in tsStart tsEnd) pts \<and>
     (step > 0 \<longrightarrow> (\<forall>i. Suc i < length pts \<longrightarrow> godiv (mp_time (pts ! i)) step \<noteq> godiv (mp_time (pts ! Suc i)) step))"

definition query_ok :: "int \<Rightarrow> int \<Rightarrow> int \<Rightarrow> int \<Rightarrow> query_state \<Rightarrow> bool" where
  "query_ok tsStart tsEnd step lim q =
     (case q of
        QGo pts b \<Rightarrow> points_ok tsStart tsEnd step lim pts \<and> (step > 0 \<and> pts \<noteq> [] \<longrightarrow> b = godiv (mp_time (last pts)) step)
      | QReturn pts \<Rightarrow> points_ok tsStart tsEnd step lim pts
      | QPanic \<Rightarrow> True)"

lemma points_ok_snoc:
  assumes "points_ok tsStart tsEnd step lim pts" "point_in tsStart tsEnd p" "int (length pts) < lim"
    "step > 0 \<and> pts \<noteq> [] \<longrightarrow> godiv (mp_time (last pts)) step \<noteq> godiv (mp_time p) step"
  shows "points_ok tsStart tsEnd step lim (pts @ [p])"
  using assms unfolding points_ok_def
  by (auto simp: nth_append last_conv_nth less_Suc_eq) (metis One_nat_def diff_Suc_1)

lemma points_ok_swap:
  assumes "points_ok tsStart tsEnd step lim pts" "pts \<noteq> []" "point_in tsStart tsEnd p"
    "step > 0 \<longrightarrow> godiv (mp_time p) step = godiv (mp_time (last pts)) step"
  shows "points_ok tsStart tsEnd step lim (butlast pts @ [p])"
proof -
  obtain ps q where pts: "pts = ps @ [q]" using assms(2) by (cases pts rule: rev_cases) auto
  have nth: "godiv (mp_time ((ps @ [p]) ! i)) step = godiv (mp_time ((ps @ [q]) ! i)) step" if "step > 0" "i \<le> length ps" for i
    using assms(4) that by (auto simp: pts nth_append)
  show ?thesis using assms(1,3) nth unfolding points_ok_def pts by (auto simp del: append_Cons)
qed

lemma query_sample_ok: "query_ok tsStart tsEnd step lim q \<Longrightarrow> query_ok tsStart tsEnd step lim (query_sample tsStart tsEnd step lim tv q)"
proof (cases q)
  case (QGo pts b)
  obtain t v where tv: "tv = (t, v)" by fastforce
  let ?p = "\<lparr>mp_time = t, mp_value = v\<rparr>"
  assume "query_ok tsStart tsEnd step lim q"
  then have ok: "points_ok tsStart tsEnd step lim pts" "step > 0 \<and> pts \<noteq> [] \<longrightarrow> b = godiv (mp_time (last pts)) step"
    by (auto simp: QGo query_ok_def)
  show ?thesis
    using ok points_ok_snoc [OF ok(1), of ?p] points_ok_swap [OF ok(1), of ?p]
    by (auto simp: QGo query_sample_def query_ok_def tv Let_def point_in_def)
qed (simp_all add: query_sample_def)

lemma fold_query_ok:
  "query_ok tsStart tsEnd step lim q \<Longrightarrow> query_ok tsStart tsEnd step lim (fold (query_sample tsStart tsEnd step lim) xs q)"
  by (induction xs arbitrary: q) (simp_all add: query_sample_ok)

lemma query_items_ok:
  "query_ok tsStart tsEnd step lim q \<Longrightarrow> query_ok tsStart tsEnd step lim (fold (query_item tsStart tsEnd step lim) its q)"
proof (induction its arbitrary: q)
  case (Cons it its)
  have "query_ok tsStart tsEnd step lim (query_item tsStart tsEnd step lim it q)"
    using Cons.prems fold_query_ok [OF Cons.prems]
    by (auto simp: query_item_def query_ok_def [of _ _ _ _ QPanic] split: query_state.splits sum.splits mon_err.splits)
  then show ?case using Cons.IH by simp
qed simp

text \<open>
  A query that answers stays within its bounds: at most the requested number of points (none for a
  limit that is not positive), every point inside the time window, and with a step no two neighbouring points
  in the same bucket.
\<close>

theorem mon_query_bounds:
  assumes "monQuery K zone db host field tsStart tsEnd step lim = QOK pts"
  shows "int (length pts) \<le> max 0 lim \<and> (\<forall>p \<in> set pts. point_in tsStart tsEnd p) \<and>
    (step > 0 \<longrightarrow> (\<forall>i. Suc i < length pts \<longrightarrow> godiv (mp_time (pts ! i)) step \<noteq> godiv (mp_time (pts ! Suc i)) step))"
proof -
  have start: "query_ok tsStart tsEnd step lim (QGo [] (- 1))" by (simp add: query_ok_def points_ok_def)
  obtain its where "(case fold (query_item tsStart tsEnd step lim) its (QGo [] (- 1)) of
      QGo ps _ \<Rightarrow> QOK ps | QReturn ps \<Rightarrow> QOK ps | QPanic \<Rightarrow> QCrash) = QOK pts"
    using assms by (auto simp: monQuery_def Let_def split: kv_rr.splits)
  then have "points_ok tsStart tsEnd step lim pts"
    using query_items_ok [OF start, of its] by (auto simp: query_ok_def split: query_state.splits)
  then show ?thesis unfolding points_ok_def by (simp add: list_all_iff)
qed

definition demo_mon :: "mon_report list" where
  "demo_mon = [\<lparr>mr_host = ''h1'', mr_cpu_sys = 600, mr_cpu_user = 1200, mr_mem_used = 5, mr_mem_available = 6, mr_disk_free = 7,
     mr_disk_total = 8, mr_net_recv = 120, mr_net_sent = 60, mr_disk_read = 0, mr_disk_write = - 60\<rparr>]"

definition demo_events :: "mon_event list" where
  "demo_events = [MonTick True demo_mon 1210, MonTick True demo_mon 1240, MonTick True demo_mon 1300, MonTick True demo_mon 1805, MonFlushed 0 []]"

definition demo_mon_db :: "u8 list mem_db" where
  "demo_mon_db = mo_db (fold (mon_step mem_kv ''z'' 1000) demo_events \<lparr>mo_buf = \<lparr>mb_start = 0, mb_samples = []\<rparr>, mo_flights = [], mo_db = (0, [])\<rparr>)"

lemma demo_query:
  "monQuery mem_kv ''z'' demo_mon_db ''h1'' ''cpu_millicores'' 1220 0 60 2 =
     QOK [\<lparr>mp_time = 1240, mp_value = 30\<rparr>, \<lparr>mp_time = 1300, mp_value = 30\<rparr>]"
  by code_simp

theorem mon_query_bounds_witness:
  "\<exists>pts. monQuery mem_kv ''z'' demo_mon_db ''h1'' ''cpu_millicores'' 1220 0 60 2 = QOK pts \<and> length pts = 2
     \<and> (\<forall>p \<in> set pts. point_in 1220 0 p)"
  using mon_query_bounds [OF demo_query] demo_query by auto

section \<open>The windows of the blocks\<close>

text \<open>A block: its samples lie in its ten-minute window, in the order of time.\<close>

definition block_ok :: "mon_block \<Rightarrow> bool" where
  "block_ok b \<longleftrightarrow>
     MonBlockSeconds dvd mb_start b \<and> sorted (map ms_ts (mb_samples b)) \<and>
     list_all (\<lambda>x. mb_start b \<le> ms_ts x \<and> ms_ts x < mb_start b + MonBlockSeconds \<and> length (ms_values x) = length MonFields) (mb_samples b)"

definition mon_inv :: "int \<Rightarrow> 'db mon_state \<Rightarrow> bool" where
  "mon_inv t s \<longleftrightarrow>
     length (mo_flights s) \<le> 2 \<and> list_all (block_ok \<circ> fst) (mo_flights s) \<and> block_ok (mo_buf s) \<and>
     list_all (\<lambda>x. ms_ts x \<le> t) (mb_samples (mo_buf s)) \<and> mb_start (mo_buf s) \<le> t \<and> 0 \<le> mb_start (mo_buf s) \<and>
     (mb_start (mo_buf s) = 0 \<longrightarrow> mb_samples (mo_buf s) = [])"

text \<open>The clock of the ticks: it does not run backwards, and is past the first ten minutes of 1970.\<close>

fun ticks_from :: "int \<Rightarrow> mon_event list \<Rightarrow> bool" where
  "ticks_from t [] = True"
| "ticks_from t (MonTick _ _ now # evs) = (t \<le> now \<and> MonBlockSeconds \<le> now \<and> now < 2 ^ 62 \<and> ticks_from now evs)"
| "ticks_from t (MonFlushed _ _ # evs) = ticks_from t evs"

lemma block_start:
  assumes "MonBlockSeconds \<le> now" "now < 2 ^ 62"
  shows "monBlockStartOf now = now - now mod 600" "MonBlockSeconds dvd monBlockStartOf now" "0 < monBlockStartOf now"
    "monBlockStartOf now \<le> now" "now < monBlockStartOf now + MonBlockSeconds"
proof -
  have n: "0 \<le> now" "600 \<le> now" using assms by (simp_all add: MonBlockSeconds_def)
  have "in_i64 (now - now mod 600)" using assms n by (simp add: in_i64_def) linarith
  then show eq: "monBlockStartOf now = now - now mod 600" using n by (simp add: monBlockStartOf_def MonBlockSeconds_def)
  show "MonBlockSeconds dvd monBlockStartOf now" unfolding eq MonBlockSeconds_def by (rule dvd_minus_mod)
  have "now mod 600 < 600" by simp
  then show "0 < monBlockStartOf now" using n unfolding eq by linarith
  show "monBlockStartOf now \<le> now" using n unfolding eq by simp
  show "now < monBlockStartOf now + MonBlockSeconds" unfolding eq MonBlockSeconds_def by (simp add: \<open>now mod 600 < 600\<close>)
qed

lemma append_samples:
  assumes "block_ok b" "list_all (\<lambda>x. ms_ts x \<le> t) (mb_samples b)" "t \<le> now" "mb_start b \<le> now" "now < mb_start b + MonBlockSeconds"
    and "\<forall>x \<in> set new. ms_ts x = now \<and> length (ms_values x) = length MonFields"
  shows "block_ok (b\<lparr>mb_samples := mb_samples b @ new\<rparr>)"
proof -
  have "sorted (map ms_ts new)" using assms(6) by (induction new) auto
  then have "sorted (map ms_ts (mb_samples b @ new))"
    using assms(1-3,6) by (auto simp: sorted_append block_ok_def list_all_iff)
  then show ?thesis using assms by (auto simp: block_ok_def list_all_iff)
qed

lemma tick_inv:
  assumes inv: "mon_inv t s" and now: "t \<le> now" "MonBlockSeconds \<le> now" "now < 2 ^ 62"
  shows "mon_inv now (monstoreTick zone retention leader reports now s)"
proof -
  note st = block_start [OF now(2,3)]
  define s1 where "s1 = (if mb_start (mo_buf s) = 0 then s\<lparr>mo_buf := (mo_buf s)\<lparr>mb_start := monBlockStartOf now\<rparr>\<rparr> else s)"
  define s2 where "s2 = (if i64 (now - mb_start (mo_buf s1)) \<ge> MonBlockSeconds
      then monFlushAsync retention (mo_buf s1) (s1\<lparr>mo_buf := \<lparr>mb_start = monBlockStartOf now, mb_samples = []\<rparr>\<rparr>) else s1)"
  define new where "new = map (\<lambda>hs. monSampleOf (mr_host hs) hs now) (filter (\<lambda>hs. mr_host hs \<noteq> []) reports)"
  have I0: "mon_inv now s" using inv now(1) by (auto simp: mon_inv_def list_all_iff)
  have I1: "mon_inv now s1" "mb_start (mo_buf s1) > 0"
    using I0 st by (auto simp: s1_def mon_inv_def block_ok_def)
  have rng: "in_i64 (now - mb_start (mo_buf s1))" using I1 now by (auto simp: in_i64_def mon_inv_def MonBlockSeconds_def)
  have old: "list_all (\<lambda>x. ms_ts x \<le> t) (mb_samples (mo_buf s1))" using inv by (simp add: s1_def mon_inv_def)
  have I2: "mon_inv now s2" "mb_start (mo_buf s2) > 0" "now < mb_start (mo_buf s2) + MonBlockSeconds"
    "list_all (\<lambda>x. ms_ts x \<le> t) (mb_samples (mo_buf s2))"
    using I1 st rng old by (auto simp: s2_def mon_inv_def monFlushAsync_def block_ok_def)
  have new: "\<forall>x \<in> set new. ms_ts x = now \<and> length (ms_values x) = length MonFields"
    by (auto simp: new_def monSampleOf_def monHostExtractors_def MonFields_def)
  have "block_ok ((mo_buf s2)\<lparr>mb_samples := mb_samples (mo_buf s2) @ new\<rparr>)"
    by (rule append_samples [OF _ I2(4) now(1) _ I2(3) new]) (use I2(1) in \<open>simp_all add: mon_inv_def\<close>)
  then have "mon_inv now (s2\<lparr>mo_buf := (mo_buf s2)\<lparr>mb_samples := mb_samples (mo_buf s2) @ new\<rparr>\<rparr>)"
    using I2(1,2) new by (auto simp: mon_inv_def list_all_iff)
  moreover have "mon_inv now (monstoreReset s)" using I0 by (simp add: monstoreReset_def mon_inv_def block_ok_def)
  ultimately show ?thesis using I0
    unfolding monstoreTick_def Let_def s1_def [symmetric] s2_def [symmetric] new_def [symmetric] by auto
qed

lemma mon_run_inv: "mon_inv t s \<Longrightarrow> ticks_from t evs \<Longrightarrow> \<exists>t'. mon_inv t' (fold (mon_step K zone retention) evs s)"
proof (induction evs arbitrary: t s)
  case (Cons ev evs)
  show ?case
  proof (cases ev)
    case (MonTick leader reports now)
    then have "mon_inv now (mon_step K zone retention ev s)"
      using Cons.prems tick_inv [OF Cons.prems(1)] by (simp add: mon_step_def)
    then show ?thesis using Cons.IH Cons.prems(2) MonTick by simp
  next
    case (MonFlushed k picks)
    have "mon_inv t (mon_step K zone retention ev s)"
      using Cons.prems(1) MonFlushed in_set_takeD [of _ k "mo_flights s"] in_set_dropD [of _ "Suc k" "mo_flights s"]
      by (auto simp: mon_step_def mon_inv_def list_all_iff split: prod.splits)
    then show ?thesis using Cons.IH Cons.prems(2) MonFlushed by simp
  qed
qed auto

text \<open>
  C38: as long as the clock does not run backwards, in every state that ticks and flushes reach in any
  interleaving, at most two flushes are in flight, and every block, in the buffer or in flight, starts at
  a multiple of ten minutes and holds only samples of its own window, in the order of time and with one value per
  field.
\<close>

theorem mon_blocks_windowed:
  assumes "mo_buf s = \<lparr>mb_start = 0, mb_samples = []\<rparr>" "mo_flights s = []" "ticks_from 0 evs"
    and "s' = fold (mon_step K zone retention) evs s"
  shows "length (mo_flights s') \<le> 2 \<and> (\<forall>b \<in> insert (mo_buf s') (fst ` set (mo_flights s')). block_ok b)"
proof -
  have "mon_inv 0 s" using assms(1,2) by (simp add: mon_inv_def block_ok_def)
  from mon_run_inv [OF this assms(3)] obtain t where "mon_inv t s'" using assms(4) by blast
  then show ?thesis by (auto simp: mon_inv_def list_all_iff)
qed

theorem mon_blocks_windowed_witness:
  "block_ok (mo_buf (fold (mon_step mem_kv ''z'' 1000) demo_events
      \<lparr>mo_buf = \<lparr>mb_start = 0, mb_samples = []\<rparr>, mo_flights = [], mo_db = (0, [])\<rparr>))"
  using mon_blocks_windowed [of "\<lparr>mo_buf = \<lparr>mb_start = 0, mb_samples = []\<rparr>, mo_flights = [], mo_db = (0, [])\<rparr>" demo_events _ mem_kv "''z''" 1000]
  by (simp add: demo_events_def MonBlockSeconds_def)

end
