(* ===== verification/Sliding.thy ===== *)
theory Sliding
  imports Prelude
begin

text \<open>
  The sliding counters of \<open>internal/inutil/stat.go\<close>: a ring buffer with the cumulative value of a counter per
  second, from which the increment over the last seconds is read. The clock is an argument. The
  specification keeps the value of every second; the ring buffer refines it on the seconds it has room for.
\<close>

section \<open>The counter\<close>

record sliding =
  sc_samples :: "int list"
  sc_seconds :: int
  sc_value :: int
  sc_size :: int

definition NewSlidingCounter :: "int \<Rightarrow> sliding option" where
  "NewSlidingCounter n =
     (if n < 0 then None
      else Some \<lparr>sc_samples = replicate (nat n) 0, sc_seconds = 0, sc_value = 0, sc_size = max 60 n\<rparr>)"

text \<open>\<open>samples[i % size] = v\<close>; \<open>None\<close> is an index out of range.\<close>

definition ring_set :: "int \<Rightarrow> int \<Rightarrow> sliding \<Rightarrow> sliding option" where
  "ring_set i v c =
     (let k = gomod i (sc_size c) in
      if 0 \<le> k \<and> nat k < length (sc_samples c) then Some (c\<lparr>sc_samples := (sc_samples c)[nat k := v]\<rparr>) else None)"

definition ring_get :: "int \<Rightarrow> sliding \<Rightarrow> int option" where
  "ring_get i c =
     (let k = gomod i (sc_size c) in
      if 0 \<le> k \<and> nat k < length (sc_samples c) then Some (sc_samples c ! nat k) else None)"

text \<open>The loop over the seconds without a value, from \<open>i\<close> to before \<open>t\<close>.\<close>

function ring_fill :: "int \<Rightarrow> int \<Rightarrow> sliding \<Rightarrow> sliding option" where
  "ring_fill i t c =
     (if i < t then (case ring_set i (sc_value c) c of None \<Rightarrow> None | Some c' \<Rightarrow> ring_fill (i + 1) t c') else Some c)"
  by pat_completeness auto
termination
  by (relation "measure (\<lambda>(i, t, c). nat (t - i))") auto

declare ring_fill.simps [simp del]

text \<open>A reset writes \<open>size\<close> slots, which the slice may not have.\<close>

definition ring_reset :: "int \<Rightarrow> int \<Rightarrow> sliding \<Rightarrow> sliding option" where
  "ring_reset t v c =
     (if length (sc_samples c) < nat (sc_size c) then None
      else Some (c\<lparr>sc_seconds := t, sc_value := v,
        sc_samples := replicate (nat (sc_size c)) v @ drop (nat (sc_size c)) (sc_samples c)\<rparr>))"

definition Record :: "int \<Rightarrow> int \<Rightarrow> sliding \<Rightarrow> sliding option" where
  "Record t v c =
     (case (if sc_seconds c = 0 \<or> v < sc_value c then ring_reset t v c else Some c) of
        None \<Rightarrow> None
      | Some c1 \<Rightarrow>
          if t = sc_seconds c1 then ring_set t v c1
          else case ring_fill (sc_seconds c1 + 1) t c1 of
                 None \<Rightarrow> None
               | Some c2 \<Rightarrow> map_option (\<lambda>c3. c3\<lparr>sc_seconds := t, sc_value := v\<rparr>) (ring_set t v c2))"

definition Delta :: "int \<Rightarrow> int \<Rightarrow> sliding \<Rightarrow> int option" where
  "Delta t seconds c =
     (let n = (if seconds > sc_size c then sc_size c else seconds) in
      case (ring_get t c, ring_get (i64 (t - n)) c) of
        (Some a, Some b) \<Rightarrow> Some (max 0 (i64 (a - b)))
      | _ \<Rightarrow> None)"

section \<open>Named counters\<close>

record group_sliding =
  gs_metrics :: "string \<rightharpoonup> sliding"
  gs_size :: int

definition NewGroupSlidingCounter :: "int \<Rightarrow> group_sliding" where
  "NewGroupSlidingCounter n = \<lparr>gs_metrics = Map.empty, gs_size = max 60 n\<rparr>"

definition Counter :: "string \<Rightarrow> group_sliding \<Rightarrow> (group_sliding \<times> sliding) option" where
  "Counter name g =
     (case gs_metrics g name of
        Some m \<Rightarrow> Some (g, m)
      | None \<Rightarrow> map_option (\<lambda>m. (g\<lparr>gs_metrics := (gs_metrics g)(name \<mapsto> m)\<rparr>, m)) (NewSlidingCounter (gs_size g)))"

text \<open>\<open>Counter(name).Record(v)\<close>: the counter is shared by pointer.\<close>

definition group_record :: "string \<Rightarrow> int \<Rightarrow> int \<Rightarrow> group_sliding \<Rightarrow> group_sliding option" where
  "group_record name t v g =
     (case Counter name g of
        None \<Rightarrow> None
      | Some (g1, m) \<Rightarrow> map_option (\<lambda>m1. g1\<lparr>gs_metrics := (gs_metrics g1)(name \<mapsto> m1)\<rparr>) (Record t v m))"

section \<open>The specification\<close>

text \<open>The value of every second, the last second with a value and the value that later seconds repeat.\<close>

record hist =
  hi_at :: "int \<Rightarrow> int"
  hi_seconds :: int
  hi_value :: int

definition hist_new :: hist where
  "hist_new = \<lparr>hi_at = (\<lambda>_. 0), hi_seconds = 0, hi_value = 0\<rparr>"

definition hist_record :: "int \<Rightarrow> int \<Rightarrow> hist \<Rightarrow> hist" where
  "hist_record t v h =
     (if hi_seconds h = 0 \<or> v < hi_value h then \<lparr>hi_at = (\<lambda>_. v), hi_seconds = t, hi_value = v\<rparr>
      else if t = hi_seconds h then h\<lparr>hi_at := (hi_at h)(t := v)\<rparr>
      else \<lparr>hi_at = (\<lambda>i. if i = t then v else if hi_seconds h < i \<and> i < t then hi_value h else hi_at h i),
            hi_seconds = t, hi_value = v\<rparr>)"

definition hist_delta :: "int \<Rightarrow> hist \<Rightarrow> int" where
  "hist_delta n h = max 0 (i64 (hi_at h (hi_seconds h) - hi_at h (hi_seconds h - n)))"

section \<open>Refinement\<close>

definition ring_ok :: "sliding \<Rightarrow> bool" where
  "ring_ok c \<longleftrightarrow> 0 < sc_size c \<and> int (length (sc_samples c)) = sc_size c \<and> 0 \<le> sc_seconds c"

text \<open>The slots of the ring for the seconds up to \<open>t\<close> hold the values of the history.\<close>

definition ring_holds :: "int \<Rightarrow> (int \<Rightarrow> int) \<Rightarrow> sliding \<Rightarrow> bool" where
  "ring_holds t f c \<longleftrightarrow> (\<forall>i. t - sc_size c < i \<and> i \<le> t \<and> 0 \<le> i \<longrightarrow> sc_samples c ! nat (i mod sc_size c) = f i)"

definition refines :: "sliding \<Rightarrow> hist \<Rightarrow> bool" where
  "refines c h \<longleftrightarrow>
     ring_ok c \<and> sc_seconds c = hi_seconds h \<and> sc_value c = hi_value h
     \<and> (sc_seconds c \<noteq> 0 \<longrightarrow> ring_holds (sc_seconds c) (hi_at h) c)"

lemma ring_index: "0 < sc_size c \<Longrightarrow> int (length (sc_samples c)) = sc_size c \<Longrightarrow> nat (i mod sc_size c) < length (sc_samples c)"
  by (metis nat_less_iff pos_mod_bound pos_mod_sign)

lemma ring_set_ok:
  assumes "ring_ok c" "0 \<le> i"
  shows "ring_set i v c = Some (c\<lparr>sc_samples := (sc_samples c)[nat (i mod sc_size c) := v]\<rparr>)"
  using assms ring_index [of c i] by (simp add: ring_set_def ring_ok_def Let_def)

lemma mod_window:
  assumes "0 < (n :: int)" "i mod n = j mod n" "j - n < i" "i \<le> j"
  shows "i = j"
proof -
  have "n dvd j - i" using assms(2) by (metis mod_eq_dvd_iff)
  then obtain k where k: "j - i = n * k" by blast
  have "0 \<le> n * k" "n * k < n * 1" using assms(3,4) k by linarith+
  from \<open>0 \<le> n * k\<close> have "0 \<le> k" using assms(1) by (simp only: zero_le_mult_iff) linarith
  moreover from \<open>n * k < n * 1\<close> have "k < 1" by (simp only: mult_less_cancel_left_pos [OF assms(1)])
  ultimately have "k = 0" by linarith
  then show ?thesis using k by simp
qed

lemma ring_holds_set:
  assumes "ring_ok c" "0 \<le> t" "ring_holds (t - 1) f c \<or> ring_holds t f c"
  shows "ring_holds t (f(t := v)) (c\<lparr>sc_samples := (sc_samples c)[nat (t mod sc_size c) := v]\<rparr>)"
  unfolding ring_holds_def
proof (intro allI impI)
  fix i
  let ?c = "c\<lparr>sc_samples := (sc_samples c)[nat (t mod sc_size c) := v]\<rparr>"
  assume i: "t - sc_size ?c < i \<and> i \<le> t \<and> 0 \<le> i"
  have sz: "0 < sc_size c" "int (length (sc_samples c)) = sc_size c" using assms(1) by (auto simp: ring_ok_def)
  show "sc_samples ?c ! nat (i mod sc_size ?c) = (f(t := v)) i"
  proof (cases "i = t")
    case True then show ?thesis using ring_index [OF sz] by simp
  next
    case False
    then have "i mod sc_size c \<noteq> t mod sc_size c" using mod_window [OF sz(1), of i t] i by auto
    then have "nat (i mod sc_size c) \<noteq> nat (t mod sc_size c)" using sz(1) by (metis eq_nat_nat_iff pos_mod_sign)
    moreover have "sc_samples c ! nat (i mod sc_size c) = f i" using assms(3) i False by (auto simp: ring_holds_def)
    ultimately show ?thesis using False by simp
  qed
qed

lemma ring_fill_holds:
  "ring_ok c \<Longrightarrow> 0 \<le> i \<Longrightarrow> i \<le> t \<Longrightarrow> ring_holds (i - 1) f c \<Longrightarrow>
     \<exists>xs. ring_fill i t c = Some (c\<lparr>sc_samples := xs\<rparr>) \<and> length xs = length (sc_samples c)
       \<and> ring_holds (t - 1) (\<lambda>k. if i \<le> k \<and> k < t then sc_value c else f k) (c\<lparr>sc_samples := xs\<rparr>)"
proof (induction i t c arbitrary: f rule: ring_fill.induct)
  case (1 i t c)
  show ?case
  proof (cases "i < t")
    case True
    let ?xs = "(sc_samples c)[nat (i mod sc_size c) := sc_value c]"
    let ?c = "c\<lparr>sc_samples := ?xs\<rparr>" and ?f = "f(i := sc_value c)"
    have set: "ring_set i (sc_value c) c = Some ?c" by (rule ring_set_ok [OF "1.prems"(1,2)])
    have ok: "ring_ok ?c" using "1.prems"(1) by (simp add: ring_ok_def)
    have "ring_holds (i + 1 - 1) ?f ?c" using ring_holds_set [OF "1.prems"(1,2)] "1.prems"(4) by simp
    from "1.IH" [OF True set ok _ _ this] True "1.prems"(2)
    obtain xs where xs: "ring_fill (i + 1) t ?c = Some (c\<lparr>sc_samples := xs\<rparr>)" "length xs = length (sc_samples c)"
        "ring_holds (t - 1) (\<lambda>k. if i + 1 \<le> k \<and> k < t then sc_value c else ?f k) (c\<lparr>sc_samples := xs\<rparr>)"
      by (auto simp del: fun_upd_apply cong: if_cong)
    have "(\<lambda>k. if i + 1 \<le> k \<and> k < t then sc_value c else ?f k) = (\<lambda>k. if i \<le> k \<and> k < t then sc_value c else f k)"
      using True by (auto simp: fun_eq_iff)
    then have "ring_holds (t - 1) (\<lambda>k. if i \<le> k \<and> k < t then sc_value c else f k) (c\<lparr>sc_samples := xs\<rparr>)" using xs(3) by metis
    moreover have "ring_fill i t c = ring_fill (i + 1) t ?c" by (subst ring_fill.simps) (simp add: True set)
    ultimately show ?thesis using xs(1,2) by metis
  next
    case False
    then have "i = t" using "1.prems"(3) by simp
    then have "(\<lambda>k. if i \<le> k \<and> k < t then sc_value c else f k) = f" by (auto simp: fun_eq_iff)
    then have "ring_holds (t - 1) (\<lambda>k. if i \<le> k \<and> k < t then sc_value c else f k) (c\<lparr>sc_samples := sc_samples c\<rparr>)"
      using "1.prems"(4) \<open>i = t\<close> by simp
    moreover have "ring_fill i t c = Some (c\<lparr>sc_samples := sc_samples c\<rparr>)" by (subst ring_fill.simps) (simp add: False)
    ultimately show ?thesis by blast
  qed
qed

text \<open>One \<open>Record\<close> at a second that is not before the last one.\<close>

lemma Record_refines:
  assumes ref: "refines c h" and t: "0 < t" "hi_seconds h \<le> t"
  shows "\<exists>c'. Record t v c = Some c' \<and> refines c' (hist_record t v h) \<and> sc_size c' = sc_size c"
proof (cases "sc_seconds c = 0 \<or> v < sc_value c")
  case True
  have ok: "ring_ok c" using ref by (simp add: refines_def)
  let ?c = "c\<lparr>sc_seconds := t, sc_value := v, sc_samples := replicate (nat (sc_size c)) v\<rparr>"
  have rs: "ring_reset t v c = Some ?c" using ok nat_int [of "length (sc_samples c)"] by (simp add: ring_reset_def ring_ok_def)
  have ok': "ring_ok ?c" using ok t by (simp add: ring_ok_def)
  have "nat (i mod sc_size c) < nat (sc_size c)" for i using ok by (simp add: ring_ok_def)
  then have "ring_holds t (\<lambda>_. v) ?c" by (simp add: ring_holds_def)
  then have "ring_holds t (\<lambda>_. v) (?c\<lparr>sc_samples := (sc_samples ?c)[nat (t mod sc_size ?c) := v]\<rparr>)"
    using ring_holds_set [OF ok', of t "\<lambda>_. v" v] t by (simp add: fun_upd_def)
  moreover have "hist_record t v h = \<lparr>hi_at = (\<lambda>_. v), hi_seconds = t, hi_value = v\<rparr>"
    using True ref by (simp add: hist_record_def refines_def)
  moreover have "Record t v c = Some (?c\<lparr>sc_samples := (sc_samples ?c)[nat (t mod sc_size ?c) := v]\<rparr>)"
    using True rs ring_set_ok [OF ok', of t v] t by (simp add: Record_def)
  ultimately show ?thesis using ok' by (simp add: refines_def ring_ok_def)
next
  case False
  have ok: "ring_ok c" and same: "sc_seconds c = hi_seconds h" "sc_value c = hi_value h"
    and holds: "ring_holds (sc_seconds c) (hi_at h) c" using ref False by (auto simp: refines_def)
  show ?thesis
  proof (cases "t = sc_seconds c")
    case True
    have "hist_record t v h = h\<lparr>hi_at := (hi_at h)(t := v)\<rparr>" using False True same by (simp add: hist_record_def)
    moreover have "Record t v c = Some (c\<lparr>sc_samples := (sc_samples c)[nat (t mod sc_size c) := v]\<rparr>)"
      using False True ring_set_ok [OF ok, of t v] t by (simp add: Record_def)
    ultimately show ?thesis using ring_holds_set [OF ok, of t "hi_at h" v] holds True t ok same by (simp add: refines_def ring_ok_def)
  next
    case neq: False
    have lt: "sc_seconds c + 1 \<le> t" "0 \<le> sc_seconds c + 1" using neq t same ok by (auto simp: ring_ok_def)
    obtain xs where xs: "ring_fill (sc_seconds c + 1) t c = Some (c\<lparr>sc_samples := xs\<rparr>)" "length xs = length (sc_samples c)"
        "ring_holds (t - 1) (\<lambda>k. if sc_seconds c + 1 \<le> k \<and> k < t then sc_value c else hi_at h k) (c\<lparr>sc_samples := xs\<rparr>)"
      using ring_fill_holds [OF ok lt(2,1), of "hi_at h"] holds by auto
    let ?f = "\<lambda>k. if sc_seconds c + 1 \<le> k \<and> k < t then sc_value c else hi_at h k"
    let ?c = "c\<lparr>sc_samples := xs\<rparr>"
    have ok': "ring_ok ?c" using ok xs(2) by (simp add: ring_ok_def)
    have R: "Record t v c = Some (c\<lparr>sc_samples := xs[nat (t mod sc_size c) := v], sc_seconds := t, sc_value := v\<rparr>)"
      using False neq xs(1) ring_set_ok [OF ok', of t v] t by (simp add: Record_def)
    have "?f(t := v) = (\<lambda>i. if i = t then v else if hi_seconds h < i \<and> i < t then hi_value h else hi_at h i)"
      by (auto simp: fun_eq_iff same)
    then have H: "hist_record t v h = \<lparr>hi_at = ?f(t := v), hi_seconds = t, hi_value = v\<rparr>"
      using False neq same by (simp add: hist_record_def)
    have "ring_holds t (?f(t := v)) (?c\<lparr>sc_samples := (sc_samples ?c)[nat (t mod sc_size ?c) := v]\<rparr>)"
      by (rule ring_holds_set [OF ok']) (use t xs(3) in auto)
    then have "ring_holds t (?f(t := v)) (c\<lparr>sc_samples := xs[nat (t mod sc_size c) := v], sc_seconds := t, sc_value := v\<rparr>)"
      unfolding ring_holds_def by simp
    then show ?thesis using R H ok' t by (simp add: refines_def ring_ok_def)
  qed
qed

section \<open>Runs\<close>

text \<open>
  A forward simulation: a concrete machine whose steps may fail follows an abstract one, step by step, as long
  as the inputs are admissible for the abstract state.
\<close>

locale forward_sim =
  fixes cstep :: "'a \<Rightarrow> 'c \<Rightarrow> 'c option"
    and astep :: "'a \<Rightarrow> 's \<Rightarrow> 's"
    and adm :: "'a \<Rightarrow> 's \<Rightarrow> bool"
    and rel :: "'c \<Rightarrow> 's \<Rightarrow> bool"
  assumes step: "rel c s \<Longrightarrow> adm a s \<Longrightarrow> \<exists>c'. cstep a c = Some c' \<and> rel c' (astep a s)"
begin

fun crun :: "'a list \<Rightarrow> 'c \<Rightarrow> 'c option" where
  "crun [] c = Some c"
| "crun (a # as) c = (case cstep a c of None \<Rightarrow> None | Some c' \<Rightarrow> crun as c')"

fun arun :: "'a list \<Rightarrow> 's \<Rightarrow> 's" where
  "arun [] s = s"
| "arun (a # as) s = arun as (astep a s)"

fun admissible :: "'a list \<Rightarrow> 's \<Rightarrow> bool" where
  "admissible [] s = True"
| "admissible (a # as) s = (adm a s \<and> admissible as (astep a s))"

lemma run_sim: "rel c s \<Longrightarrow> admissible as s \<Longrightarrow> \<exists>c'. crun as c = Some c' \<and> rel c' (arun as s)"
proof (induction as arbitrary: c s)
  case (Cons a as)
  then obtain c1 where "cstep a c = Some c1" "rel c1 (astep a s)" using step by fastforce
  with Cons show ?case by auto
qed simp

end

definition run_records :: "(int \<times> int) list \<Rightarrow> sliding \<Rightarrow> sliding option" where
  "run_records tvs c = fold (\<lambda>(t, v) oc. case oc of None \<Rightarrow> None | Some c \<Rightarrow> Record t v c) tvs (Some c)"

definition run_hist :: "(int \<times> int) list \<Rightarrow> hist \<Rightarrow> hist" where
  "run_hist tvs h = fold (\<lambda>(t, v). hist_record t v) tvs h"

interpretation counter: forward_sim "\<lambda>(t, v). Record t v" "\<lambda>(t, v). hist_record t v" "\<lambda>(t, v) h. 0 < t \<and> hi_seconds h \<le> t"
  "\<lambda>c h. refines c h \<and> sc_size c = n" for n
proof unfold_locales
  fix c h and a :: "int \<times> int"
  assume "refines c h \<and> sc_size c = n" "(case a of (t, v) \<Rightarrow> \<lambda>h. 0 < t \<and> hi_seconds h \<le> t) h"
  then show "\<exists>c'. (case a of (t, v) \<Rightarrow> Record t v) c = Some c' \<and> refines c' ((case a of (t, v) \<Rightarrow> hist_record t v) h) \<and> sc_size c' = n"
    using Record_refines [of c h "fst a" "snd a"] by (cases a) auto
qed

lemma run_records_crun: "run_records tvs c = counter.crun tvs c"
proof -
  have none: "fold (\<lambda>(t, v) oc. case oc of None \<Rightarrow> None | Some c \<Rightarrow> Record t v c) tvs None = None" for tvs
    by (induction tvs) auto
  show ?thesis unfolding run_records_def
    by (induction tvs arbitrary: c) (auto simp: none split: option.split)
qed

lemma run_hist_arun: "run_hist tvs h = counter.arun tvs h"
  unfolding run_hist_def by (induction tvs arbitrary: h) auto

lemma hist_record_seconds: "hi_seconds (hist_record t v h) = t"
  by (simp add: hist_record_def)

lemma admissible_sorted: "sorted (map fst tvs) \<Longrightarrow> \<forall>tv \<in> set tvs. 0 < fst tv \<and> hi_seconds h \<le> fst tv \<Longrightarrow> counter.admissible tvs h"
  by (induction tvs arbitrary: h) (auto simp: hist_record_seconds)



end
