(* ===== verification/AuditLog.thy ===== *)
theory AuditLog
  imports KvStore
begin

text \<open>
  The audit log, \<open>internal/audit/audit.go\<close> and \<open>store.go\<close>, with the two calls of
  \<open>service_audit.go\<close>: a bounded queue in front of one writer that gives each record a time, an id and a hash
  over the record and the hash of the one before, the listing of a zone's records, the verification of the
  chain, and the daily anchors. The digest of a record (SHA-256 of its canonical protobuf encoding) and
  the store are arguments.
\<close>

section \<open>Data\<close>

record audit_rec =
  ar_zone :: string
  ar_id :: string
  ar_ts :: int
  ar_actor :: string
  ar_user :: string
  ar_actor_type :: string
  ar_action :: string
  ar_source_ip :: string
  ar_target_type :: string
  ar_target :: string
  ar_status :: string
  ar_error :: string
  ar_detail :: string
  ar_prev :: string
  ar_hash :: string
  ar_dropped :: int
  ar_suppressed :: int

record audit_anchor =
  aa_date :: string
  aa_head :: string
  aa_count :: int

datatype audit_row = RowRecord audit_rec | RowAnchor audit_anchor

text \<open>\<open>None\<close> is a record that does not marshal.\<close>

type_synonym digest = "audit_rec \<Rightarrow> string option"

record audit_mgr =
  am_retention :: int
  am_queue :: "audit_rec list"
  am_dropped :: int
  am_pending :: int
  am_written :: int
  am_last :: int
  am_prev :: string
  am_date :: string

definition queueCap :: nat where "queueCap = 1024"
definition scanPageSize :: nat where "scanPageSize = 1000"
definition verifyScanMax :: nat where "verifyScanMax = 1000000"
definition ttlSlackMs :: int where "ttlSlackMs = 60000"
definition AuditScanLimit :: nat where "AuditScanLimit = 10000"

definition i32 :: "int \<Rightarrow> int" where
  "i32 x = (x + 2 ^ 31) mod 2 ^ 32 - 2 ^ 31"

definition NsZoneletAuditLogPrefix :: "string \<Rightarrow> string" where
  "NsZoneletAuditLogPrefix zone = ''i8k/v2/zone/'' @ zone @ ''/audit/log/''"

definition NsZoneletAuditLog :: "string \<Rightarrow> string \<Rightarrow> string" where
  "NsZoneletAuditLog zone rid = NsZoneletAuditLogPrefix zone @ rid"

definition NsZoneletAuditAnchorPrefix :: "string \<Rightarrow> string" where
  "NsZoneletAuditAnchorPrefix zone = ''i8k/v2/zone/'' @ zone @ ''/audit/anchor/''"

definition NsZoneletAuditAnchor :: "string \<Rightarrow> string \<Rightarrow> string" where
  "NsZoneletAuditAnchor zone date = NsZoneletAuditAnchorPrefix zone @ date"

definition past :: "string \<Rightarrow> string" where
  "past p = p @ [CHR 0xFF]"

text \<open>\<open>%012x\<close>; the sign of a negative number counts towards the width.\<close>

definition AuditIdOfTs :: "int \<Rightarrow> string" where
  "AuditIdOfTs ts = (if ts < 0 then CHR ''-'' # show_hex 11 (nat (- ts)) else show_hex 12 (nat ts))"

definition auditIdOfTs :: "int \<Rightarrow> string" where
  "auditIdOfTs ts = AuditIdOfTs ts @ ''0000''"

definition zoneCandidates :: "string \<Rightarrow> string list" where
  "zoneCandidates zone = (if zone \<noteq> [] then [zone, []] else [zone])"

definition recordHash :: "digest \<Rightarrow> audit_rec \<Rightarrow> string option" where
  "recordHash D r = D (r\<lparr>ar_hash := []\<rparr>)"

section \<open>The writer\<close>

text \<open>\<open>emit\<close>: a full queue drops the record and counts it.\<close>

definition audit_emit :: "audit_rec \<Rightarrow> audit_mgr \<Rightarrow> audit_mgr" where
  "audit_emit r m =
     (if length (am_queue m) < queueCap then m\<lparr>am_queue := am_queue m @ [r]\<rparr>
      else m\<lparr>am_dropped := i64 (am_dropped m + 1), am_pending := i64 (am_pending m + 1)\<rparr>)"

definition audit_opt :: "int \<Rightarrow> kv_wopt" where
  "audit_opt retention = \<lparr>wo_prev = None, wo_create = False, wo_ttl = (if retention > 0 then retention else 0)\<rparr>"

text \<open>The record as it is hashed and stored; \<open>clock\<close> is the wall clock, \<open>rnd\<close> the random suffix.\<close>

definition stamp_ts :: "int \<Rightarrow> audit_mgr \<Rightarrow> int" where
  "stamp_ts clock m = (if clock \<le> am_last m then i64 (am_last m + 1) else clock)"

definition stamp :: "int \<Rightarrow> string \<Rightarrow> audit_rec \<Rightarrow> audit_mgr \<Rightarrow> audit_rec" where
  "stamp clock rnd r m =
     (let ts = stamp_ts clock m
      in r\<lparr>ar_ts := ts, ar_id := AuditIdOfTs ts @ rnd, ar_dropped := i32 (am_pending m), ar_prev := am_prev m\<rparr>)"

definition audit_write ::
  "digest \<Rightarrow> ('db, audit_row) kvgo \<Rightarrow> int \<Rightarrow> string \<Rightarrow> audit_rec \<Rightarrow> audit_mgr \<times> 'db \<Rightarrow> audit_mgr \<times> 'db" where
  "audit_write D K clock rnd r s =
     (case s of (m, db) \<Rightarrow>
        let r1 = stamp clock rnd r m; m1 = m\<lparr>am_last := ar_ts r1, am_pending := 0\<rparr> in
        case recordHash D r1 of
          None \<Rightarrow> (m1, db)
        | Some h \<Rightarrow>
            (let r2 = r1\<lparr>ar_hash := h\<rparr>; m2 = m1\<lparr>am_prev := h\<rparr> in
             case kv_put K db (NsZoneletAuditLog (ar_zone r2) (ar_id r2)) (audit_opt (am_retention m)) (RowRecord r2) of
               (db', KvWriteErr _) \<Rightarrow> (m2, db')
             | (db', KvWritten _) \<Rightarrow> (m2\<lparr>am_written := i64 (am_written m2 + 1)\<rparr>, db')))"

text \<open>One round of the writer loop: the oldest queued record, or nothing.\<close>

definition audit_take ::
  "digest \<Rightarrow> ('db, audit_row) kvgo \<Rightarrow> int \<Rightarrow> string \<Rightarrow> audit_mgr \<times> 'db \<Rightarrow> audit_mgr \<times> 'db" where
  "audit_take D K clock rnd s =
     (case s of (m, db) \<Rightarrow>
        (case am_queue m of
           [] \<Rightarrow> s
         | r # rs \<Rightarrow> audit_write D K clock rnd r (m\<lparr>am_queue := rs\<rparr>, db)))"

text \<open>
  The drain of \<open>Close\<close>: records are written until the queue is empty or the deadline is past after a write;
  the list gives clock, suffix and whether the deadline is past for each round.
\<close>

fun audit_drain ::
  "digest \<Rightarrow> ('db, audit_row) kvgo \<Rightarrow> (int \<times> string \<times> bool) list \<Rightarrow> audit_mgr \<times> 'db \<Rightarrow> audit_mgr \<times> 'db" where
  "audit_drain D K [] s = s"
| "audit_drain D K ((clock, rnd, over) # rounds) s =
     (if am_queue (fst s) = [] then s
      else let s' = audit_take D K clock rnd s in if over then s' else audit_drain D K rounds s')"

definition ChainHead :: "audit_mgr \<Rightarrow> string" where
  "ChainHead m = am_prev m"

definition recover_zone ::
  "('db, audit_row) kvgo \<Rightarrow> 'db \<Rightarrow> string \<Rightarrow> audit_mgr \<Rightarrow> audit_mgr \<times> bool" where
  "recover_zone K db zone m =
     (let p = NsZoneletAuditLogPrefix zone in
      case kv_range K db p (past p) 1 True of
        KvRangeErr _ \<Rightarrow> (m, False)
      | KvItems [] _ \<Rightarrow> (m, True)
      | KvItems (it # _) _ \<Rightarrow>
          (case it_val it of
             Some (RowRecord r) \<Rightarrow>
               (if str_lt (auditIdOfTs (am_last m)) (ar_id r) then m\<lparr>am_prev := ar_hash r, am_last := ar_ts r\<rparr> else m, True)
           | _ \<Rightarrow> (m, False)))"

fun recover_zones :: "('db, audit_row) kvgo \<Rightarrow> 'db \<Rightarrow> string list \<Rightarrow> audit_mgr \<Rightarrow> audit_mgr" where
  "recover_zones K db [] m = m"
| "recover_zones K db (z # zs) m =
     (case recover_zone K db z m of (m', True) \<Rightarrow> recover_zones K db zs m' | (m', False) \<Rightarrow> m')"

definition recoverChainHead :: "('db, audit_row) kvgo \<Rightarrow> 'db \<Rightarrow> string \<Rightarrow> audit_mgr \<Rightarrow> audit_mgr" where
  "recoverChainHead K db zone m = recover_zones K db (zoneCandidates zone) m"

definition audit_new :: "int \<Rightarrow> audit_mgr" where
  "audit_new retention = \<lparr>am_retention = retention, am_queue = [], am_dropped = 0, am_pending = 0, am_written = 0,
     am_last = 0, am_prev = [], am_date = []\<rparr>"

definition audit_Setup :: "('db, audit_row) kvgo \<Rightarrow> 'db \<Rightarrow> string \<Rightarrow> bool \<Rightarrow> int \<Rightarrow> audit_mgr option" where
  "audit_Setup K db zone on retention =
     (if \<not> on then None else Some (recoverChainHead K db zone (audit_new retention)))"

section \<open>Page loops\<close>

text \<open>
  The loop of the scans over a key range: read a page, process its rows, follow the last key. The fuel bounds
  the number of pages; the outcome tells a failed read, an early return, the end of the range (or of the
  loop condition) and exhausted fuel apart.
\<close>

datatype ('r, 's) page_end = PgErr string 's | PgReturn 'r | PgEnd 's | PgFuel 's

fun page_loop ::
  "nat \<Rightarrow> ('db, 'v) kvgo \<Rightarrow> 'db \<Rightarrow> bool \<Rightarrow> ('s \<Rightarrow> nat) \<Rightarrow> ('s \<Rightarrow> bool) \<Rightarrow> ('v kv_item list \<Rightarrow> 's \<Rightarrow> 'r + 's)
     \<Rightarrow> string \<Rightarrow> string \<Rightarrow> 's \<Rightarrow> ('r, 's) page_end" where
  "page_loop 0 K db revert limit going step lower upper s = PgFuel s"
| "page_loop (Suc fuel) K db revert limit going step lower upper s =
     (if \<not> going s then PgEnd s
      else case kv_range K db lower upper (limit s) revert of
        KvRangeErr e \<Rightarrow> PgErr e s
      | KvItems [] _ \<Rightarrow> PgEnd s
      | KvItems (i # r) _ \<Rightarrow>
          (case step (i # r) s of
             Inl x \<Rightarrow> PgReturn x
           | Inr s' \<Rightarrow>
               (let l = it_key (last (i # r)) in
                if revert then page_loop fuel K db revert limit going step lower l s'
                else page_loop fuel K db revert limit going step l upper s')))"

section \<open>Listing\<close>

record list_opt =
  lo_zone :: string
  lo_start :: int
  lo_end :: int
  lo_actor :: string
  lo_user :: string
  lo_action :: string
  lo_target :: string
  lo_status :: string
  lo_page_size :: int
  lo_revert :: bool
  lo_token :: string

definition matchRecord :: "audit_rec \<Rightarrow> list_opt \<Rightarrow> bool" where
  "matchRecord r opt \<longleftrightarrow>
     \<not> (lo_start opt > 0 \<and> ar_ts r < lo_start opt) \<and> \<not> (lo_end opt > 0 \<and> ar_ts r > lo_end opt) \<and>
     \<not> (lo_actor opt \<noteq> [] \<and> ar_actor r \<noteq> lo_actor opt) \<and> \<not> (lo_user opt \<noteq> [] \<and> ar_user r \<noteq> lo_user opt) \<and>
     \<not> (lo_action opt \<noteq> [] \<and> ar_action r \<noteq> lo_action opt) \<and> \<not> (lo_status opt \<noteq> [] \<and> ar_status r \<noteq> lo_status opt) \<and>
     \<not> (lo_target opt \<noteq> [] \<and> take (length (lo_target opt)) (ar_target r) \<noteq> lo_target opt)"

definition minIdOfTs :: "int \<Rightarrow> string" where
  "minIdOfTs ts = (if ts \<le> 0 then [] else AuditIdOfTs ts)"

definition maxIdOfTs :: "int \<Rightarrow> string" where
  "maxIdOfTs ts = (if ts \<le> 0 then [CHR 0xFF] else AuditIdOfTs ts @ [CHR 0xFF])"

definition minBytes :: "string \<Rightarrow> string \<Rightarrow> string" where
  "minBytes a b = (if str_le a b then a else b)"

definition maxBytes :: "string \<Rightarrow> string \<Rightarrow> string" where
  "maxBytes a b = (if str_le b a then a else b)"

definition list_limit :: "int \<Rightarrow> nat" where
  "list_limit n = nat (min 1000 (if n \<le> 0 then 100 else n))"

text \<open>One page of the listing; the state is the matches and the number of scanned rows.\<close>

fun list_rows ::
  "list_opt \<Rightarrow> nat \<Rightarrow> audit_row kv_item list \<Rightarrow> audit_rec list \<times> nat \<Rightarrow> (audit_rec list \<times> string) + (audit_rec list \<times> nat)" where
  "list_rows opt lim [] s = Inr s"
| "list_rows opt lim (it # its) (items, scanned) =
     (case it_val it of
        Some (RowRecord r) \<Rightarrow>
          (if \<not> matchRecord r opt then list_rows opt lim its (items, Suc scanned)
           else let items' = items @ [r] in
             if length items' > lim then Inl (take lim items', ar_id (items' ! (lim - 1)))
             else list_rows opt lim its (items', Suc scanned))
      | _ \<Rightarrow> list_rows opt lim its (items, Suc scanned))"

definition audit_List ::
  "('db, audit_row) kvgo \<Rightarrow> 'db \<Rightarrow> list_opt \<Rightarrow> (string + (audit_rec list \<times> string)) option" where
  "audit_List K db opt =
     (let p = NsZoneletAuditLogPrefix (lo_zone opt);
          lower0 = p @ minIdOfTs (lo_start opt); upper0 = p @ maxIdOfTs (lo_end opt);
          cursor = p @ lo_token opt; tok = (lo_token opt \<noteq> []);
          lower = (if tok \<and> lo_revert opt then maxBytes lower0 cursor else lower0);
          upper = (if tok \<and> \<not> lo_revert opt then minBytes upper0 cursor else upper0)
      in case page_loop (Suc AuditScanLimit) K db (\<not> lo_revert opt) (\<lambda>s. min scanPageSize (AuditScanLimit - snd s))
                (\<lambda>s. snd s < AuditScanLimit) (list_rows opt (list_limit (lo_page_size opt))) lower upper ([], 0) of
           PgErr e _ \<Rightarrow> Some (Inl e)
         | PgReturn r \<Rightarrow> Some (Inr r)
         | PgEnd (items, n) \<Rightarrow> Some (Inr (items, if n \<ge> AuditScanLimit \<and> items \<noteq> [] then ar_id (last items) else []))
         | PgFuel _ \<Rightarrow> None)"

section \<open>Verification\<close>

record verify_opt =
  vo_zone :: string
  vo_retention :: int
  vo_now :: int

record verify_res =
  vr_valid :: bool
  vr_count :: nat
  vr_first :: string
  vr_last :: string
  vr_head :: string
  vr_broken :: string

definition broken_at :: "string \<Rightarrow> verify_res \<Rightarrow> verify_res" where
  "broken_at x res = res\<lparr>vr_valid := False, vr_broken := x\<rparr>"

text \<open>The first record must start the chain, follow an anchor, or be old enough for its predecessor to have expired.\<close>

definition tail_ok :: "string set \<Rightarrow> verify_opt \<Rightarrow> audit_rec \<Rightarrow> bool" where
  "tail_ok anchors opt r \<longleftrightarrow>
     \<not> (ar_prev r \<noteq> [] \<and> ar_prev r \<notin> anchors \<and>
        (vo_retention opt \<le> 0 \<or> ar_ts r > i64 (i64 (vo_now opt - vo_retention opt) + ttlSlackMs)))"

fun verify_rows ::
  "digest \<Rightarrow> verify_opt \<Rightarrow> string set \<Rightarrow> audit_row kv_item list \<Rightarrow> verify_res \<times> audit_rec option
     \<Rightarrow> verify_res + (verify_res \<times> audit_rec option)" where
  "verify_rows D opt anchors [] s = Inr s"
| "verify_rows D opt anchors (it # its) (res, prev) =
     (case it_val it of
        Some (RowRecord r) \<Rightarrow>
          (let res1 = res\<lparr>vr_count := Suc (vr_count res), vr_first := (if vr_first res = [] then ar_id r else vr_first res),
                 vr_last := ar_id r\<rparr> in
           if recordHash D r \<noteq> Some (ar_hash r) then Inl (broken_at (ar_id r) res1)
           else if (case prev of None \<Rightarrow> \<not> tail_ok anchors opt r | Some q \<Rightarrow> ar_prev r \<noteq> ar_hash q)
           then Inl (broken_at (ar_id r) res1)
           else verify_rows D opt anchors its (res1, Some r))
      | _ \<Rightarrow> Inl (broken_at (it_key it) res))"

definition anchor_rows :: "audit_row kv_item list \<Rightarrow> string set \<Rightarrow> unit + string set" where
  "anchor_rows its s =
     Inr (fold (\<lambda>it s. case it_val it of Some (RowAnchor a) \<Rightarrow> if aa_head a \<noteq> [] then insert (aa_head a) s else s | _ \<Rightarrow> s) its s)"

definition loadAnchors :: "('db, audit_row) kvgo \<Rightarrow> 'db \<Rightarrow> string \<Rightarrow> string + string set" where
  "loadAnchors K db zone =
     (let p = NsZoneletAuditAnchorPrefix zone in
      case page_loop (verifyScanMax div scanPageSize) K db False (\<lambda>_. scanPageSize) (\<lambda>_. True) anchor_rows p (past p) {} of
        PgErr e _ \<Rightarrow> Inl e
      | PgReturn _ \<Rightarrow> Inr {}
      | PgEnd s \<Rightarrow> Inr s
      | PgFuel s \<Rightarrow> Inr s)"

definition verify_start :: verify_res where
  "verify_start = \<lparr>vr_valid = True, vr_count = 0, vr_first = [], vr_last = [], vr_head = [], vr_broken = []\<rparr>"

definition verify_finish :: "verify_res \<times> audit_rec option \<Rightarrow> verify_res" where
  "verify_finish s =
     (case s of (res, prev) \<Rightarrow>
        let res1 = (case prev of Some r \<Rightarrow> res\<lparr>vr_head := ar_hash r\<rparr> | None \<Rightarrow> res)
        in if vr_count res1 \<ge> verifyScanMax then broken_at ''(scan limit)'' res1 else res1)"

text \<open>
  The loop goes on while fewer than \<open>verifyScanMax\<close> records are counted, and a page that does not end it has
  at least one; \<open>None\<close> would be a loop that is still running after that many pages.
\<close>

definition Verify :: "digest \<Rightarrow> ('db, audit_row) kvgo \<Rightarrow> 'db \<Rightarrow> verify_opt \<Rightarrow> verify_res option" where
  "Verify D K db opt =
     (case loadAnchors K db (vo_zone opt) of
        Inl _ \<Rightarrow> Some (broken_at ''(anchors)'' verify_start)
      | Inr anchors \<Rightarrow>
          (let p = NsZoneletAuditLogPrefix (vo_zone opt) in
           case page_loop (Suc verifyScanMax) K db False (\<lambda>_. scanPageSize) (\<lambda>s. vr_count (fst s) < verifyScanMax)
                  (verify_rows D opt anchors) p (past p) (verify_start, None) of
             PgErr e s \<Rightarrow> Some (broken_at (''(scan: '' @ e @ '')'') (fst s))
           | PgReturn res \<Rightarrow> Some res
           | PgEnd s \<Rightarrow> Some (verify_finish s)
           | PgFuel _ \<Rightarrow> None))"

definition live_rows :: "audit_row kv_item list \<Rightarrow> nat \<Rightarrow> unit + nat" where
  "live_rows its n = Inr (n + length its)"

fun live_zones :: "('db, audit_row) kvgo \<Rightarrow> 'db \<Rightarrow> string list \<Rightarrow> nat \<Rightarrow> string + nat" where
  "live_zones K db [] n = Inr n"
| "live_zones K db (z # zs) n =
     (let p = NsZoneletAuditLogPrefix z in
      case page_loop (verifyScanMax div scanPageSize) K db False (\<lambda>_. scanPageSize) (\<lambda>_. True) live_rows p (past p) n of
        PgErr e _ \<Rightarrow> Inl e
      | PgReturn _ \<Rightarrow> Inr n
      | PgEnd n' \<Rightarrow> live_zones K db zs n'
      | PgFuel n' \<Rightarrow> live_zones K db zs n')"

definition liveCount :: "('db, audit_row) kvgo \<Rightarrow> 'db \<Rightarrow> string \<Rightarrow> string + nat" where
  "liveCount K db zone = live_zones K db (zoneCandidates zone) 0"

definition anchorRefresh ::
  "('db, audit_row) kvgo \<Rightarrow> string \<Rightarrow> string \<Rightarrow> audit_mgr \<times> 'db \<Rightarrow> audit_mgr \<times> 'db" where
  "anchorRefresh K zone today s =
     (case s of (m, db) \<Rightarrow>
        if am_date m = today then s
        else
          let m1 = m\<lparr>am_date := today\<rparr> in
          if am_prev m = [] then (m1, db)
          else case liveCount K db zone of
            Inl _ \<Rightarrow> (m1, db)
          | Inr n \<Rightarrow>
              (m1, fst (kv_put K db (NsZoneletAuditAnchor zone today) plain_put
                 (RowAnchor \<lparr>aa_date = today, aa_head = am_prev m, aa_count = int n\<rparr>))))"

section \<open>The calls\<close>

datatype 'a rpc = RpcOK 'a | RpcErr string

definition auditStatusValid :: "string \<Rightarrow> bool" where
  "auditStatusValid s \<longleftrightarrow> s \<in> {''ok'', ''denied'', ''error'', ''unauthenticated''}"

definition AuditList ::
  "('db, audit_row) kvgo \<Rightarrow> 'db \<Rightarrow> bool \<Rightarrow> bool \<Rightarrow> string \<Rightarrow> list_opt \<Rightarrow> (audit_rec list \<times> string) rpc option" where
  "AuditList K db allowed leader zone req =
     (if \<not> allowed then Some (RpcErr ''permission denied'')
      else if \<not> leader then Some (RpcErr ''zonelet leader'')
      else if lo_status req \<noteq> [] \<and> \<not> auditStatusValid (lo_status req) then Some (RpcErr ''invalid status filter'')
      else map_option (\<lambda>r. case r of Inl e \<Rightarrow> RpcErr e | Inr x \<Rightarrow> RpcOK x) (audit_List K db (req\<lparr>lo_zone := zone\<rparr>)))"

definition AuditVerify ::
  "digest \<Rightarrow> ('db, audit_row) kvgo \<Rightarrow> 'db \<Rightarrow> bool \<Rightarrow> bool \<Rightarrow> string \<Rightarrow> int \<Rightarrow> int \<Rightarrow> verify_res option rpc" where
  "AuditVerify D K db allowed leader zone retention clock =
     (if \<not> allowed then RpcErr ''permission denied''
      else if \<not> leader then RpcErr ''zonelet leader''
      else RpcOK (Verify D K db \<lparr>vo_zone = zone, vo_retention = retention, vo_now = clock\<rparr>))"

section \<open>Page loops over a fold\<close>

text \<open>
  A page step that is a fold over the rows, with an early return, and counts the rows it goes through. Reading
  page by page is then the same as one fold over all rows.
\<close>

locale page_fold =
  fixes step :: "'v kv_item list \<Rightarrow> 's \<Rightarrow> 'r + 's"
    and cnt :: "'s \<Rightarrow> nat"
  assumes step_nil: "step [] s = Inr s"
    and step_append: "step (xs @ ys) s = (case step xs s of Inl r \<Rightarrow> Inl r | Inr s' \<Rightarrow> step ys s')"
    and step_count: "step xs s = Inr s' \<Longrightarrow> cnt s' = cnt s + length xs"
begin

lemma loop_ends:
  "N \<le> cnt s + fuel \<Longrightarrow> page_loop (Suc fuel) K db revert limit (\<lambda>s. cnt s < N) step lower upper s \<noteq> PgFuel x"
proof (induction fuel arbitrary: lower upper s)
  case (Suc fuel)
  have "N \<le> cnt s' + fuel" if "step (i # r) s = Inr s'" for i r s'
    using step_count [OF that] Suc.prems by simp
  then show ?case using Suc.IH
    by (subst page_loop.simps) (auto simp: Let_def simp del: page_loop.simps split: kv_rr.split list.split sum.split)
qed simp

lemma loop_eq:
  assumes ranged: "kv_ranged K db" and lim: "\<And>s. cnt s < N \<Longrightarrow> limit s > 0"
  shows "kv_listing K db lower upper all \<Longrightarrow> cnt s + length all < N \<Longrightarrow> length all < fuel \<Longrightarrow>
    page_loop fuel K db False limit (\<lambda>s. cnt s < N) step lower upper s =
      (case step all s of Inl r \<Rightarrow> PgReturn r | Inr s' \<Rightarrow> PgEnd s')"
proof (induction fuel arbitrary: lower all s)
  case (Suc fuel)
  have going: "cnt s < N" using Suc.prems(2) by simp
  obtain its more rest where r: "kv_range K db lower upper (limit s) False = KvItems its more"
      "kv_listing K db lower upper (its @ rest)" "its = [] \<longrightarrow> rest = []"
    using ranged lim [OF going] unfolding kv_ranged_def by blast
  have all: "all = its @ rest" by (rule kv_listing_unique [OF Suc.prems(1) r(2)])
  show ?case
  proof (cases its)
    case Nil then show ?thesis using r(1,3) all going by (simp add: step_nil)
  next
    case (Cons i r')
    show ?thesis
    proof (cases "step its s")
      case (Inl x) then show ?thesis using r(1) going unfolding all step_append by (simp add: Cons)
    next
      case (Inr s')
      have "page_loop fuel K db False limit (\<lambda>s. cnt s < N) step (it_key (last its)) upper s' =
          (case step rest s' of Inl r \<Rightarrow> PgReturn r | Inr s' \<Rightarrow> PgEnd s')"
        by (rule Suc.IH [OF kv_listing_drop [OF r(2)]]) (use Suc.prems(2,3) all Cons step_count [OF Inr] in auto)
      then show ?thesis using r(1) going Inr unfolding all step_append by (simp add: Cons)
    qed
  qed
qed simp

end

lemma verify_rows_append:
  "verify_rows D opt anchors (xs @ ys) s =
     (case verify_rows D opt anchors xs s of Inl r \<Rightarrow> Inl r | Inr s' \<Rightarrow> verify_rows D opt anchors ys s')"
  by (induction D opt anchors xs s rule: verify_rows.induct) (auto simp: Let_def split: option.splits audit_row.splits)

lemma verify_rows_count:
  "verify_rows D opt anchors xs s = Inr s' \<Longrightarrow> vr_count (fst s') = vr_count (fst s) + length xs"
  by (induction D opt anchors xs s rule: verify_rows.induct) (auto simp: Let_def split: option.splits audit_row.splits if_splits)

interpretation verify: page_fold "verify_rows D opt anchors" "\<lambda>s. vr_count (fst s)" for D opt anchors
  by unfold_locales (simp_all add: verify_rows_append verify_rows_count)

lemma list_rows_append:
  "list_rows opt lim (xs @ ys) s = (case list_rows opt lim xs s of Inl r \<Rightarrow> Inl r | Inr s' \<Rightarrow> list_rows opt lim ys s')"
  by (induction opt lim xs s rule: list_rows.induct) (auto simp: Let_def split: option.splits audit_row.splits)

lemma list_rows_count: "list_rows opt lim xs s = Inr s' \<Longrightarrow> snd s' = snd s + length xs"
  by (induction opt lim xs s rule: list_rows.induct) (auto simp: Let_def split: option.splits audit_row.splits if_splits)

interpretation listing: page_fold "list_rows opt lim" snd for opt lim
  by unfold_locales (simp_all add: list_rows_append list_rows_count)

text \<open>
  C23: the verification and the listing end for every store, also one that answers with any pages it likes: each
  page they go on after has a row, so the loops stop within a million and ten thousand pages, and a result
  is always returned.
\<close>

theorem audit_scans_terminate:
  "(\<exists>res. Verify D K db vopt = Some res) \<and> (\<exists>r. audit_List K db lopt = Some r)"
proof
  have "page_loop (Suc verifyScanMax) K db False (\<lambda>_. scanPageSize) (\<lambda>s. vr_count (fst s) < verifyScanMax)
      (verify_rows D vopt anchors) p q (verify_start, None) \<noteq> PgFuel x" for anchors p q x
    by (rule verify.loop_ends) (simp add: verify_start_def)
  then show "\<exists>res. Verify D K db vopt = Some res"
    by (auto simp: Verify_def Let_def simp del: page_loop.simps split: sum.split page_end.split)
  have "page_loop (Suc AuditScanLimit) K db rv limit (\<lambda>s. snd s < AuditScanLimit) (list_rows lopt lim) p q ([], 0) \<noteq> PgFuel x"
    for rv limit lim p q x
    by (rule listing.loop_ends) simp
  then show "\<exists>r. audit_List K db lopt = Some r"
    by (simp add: audit_List_def Let_def del: page_loop.simps split: page_end.split)
qed

section \<open>Chains\<close>

definition linked :: "audit_rec option \<Rightarrow> audit_rec \<Rightarrow> bool" where
  "linked prev r = (case prev of None \<Rightarrow> True | Some q \<Rightarrow> ar_prev r = ar_hash q)"

fun chain :: "digest \<Rightarrow> audit_rec option \<Rightarrow> audit_rec list \<Rightarrow> bool" where
  "chain D prev [] = True"
| "chain D prev (r # rs) = (recordHash D r = Some (ar_hash r) \<and> linked prev r \<and> chain D (Some r) rs)"

definition last_of :: "audit_rec option \<Rightarrow> audit_rec list \<Rightarrow> audit_rec option" where
  "last_of prev rs = (if rs = [] then prev else Some (last rs))"

lemma chain_snoc: "chain D prev (rs @ [r]) \<longleftrightarrow> chain D prev rs \<and> recordHash D r = Some (ar_hash r) \<and> linked (last_of prev rs) r"
  by (induction rs arbitrary: prev) (auto simp: last_of_def)

text \<open>The rows as records; \<open>None\<close> when one is not a record.\<close>

definition rows_are :: "audit_row kv_item list \<Rightarrow> audit_rec list \<Rightarrow> bool" where
  "rows_are its rs \<longleftrightarrow> map it_val its = map (Some \<circ> RowRecord) rs"

lemma rows_are_Cons: "rows_are (it # its) rs \<longleftrightarrow> (\<exists>r rs'. rs = r # rs' \<and> it_val it = Some (RowRecord r) \<and> rows_are its rs')"
  by (cases rs) (auto simp: rows_are_def)

lemma rows_are_Nil [simp]: "rows_are [] rs \<longleftrightarrow> rs = []"
  by (auto simp: rows_are_def)

lemma verify_rows_iff:
  "verify_rows D opt anchors its (res, prev) = Inr (res', prev') \<Longrightarrow>
     \<exists>rs. rows_are its rs \<and> chain D prev rs \<and> (prev = None \<and> rs \<noteq> [] \<longrightarrow> tail_ok anchors opt (hd rs))
       \<and> prev' = last_of prev rs \<and> vr_valid res' = vr_valid res \<and> vr_head res' = vr_head res"
proof (induction its arbitrary: res prev)
  case (Cons it its)
  obtain r where r: "it_val it = Some (RowRecord r)"
    using Cons.prems by (auto split: option.splits audit_row.splits)
  let ?res1 = "res\<lparr>vr_count := Suc (vr_count res), vr_first := (if vr_first res = [] then ar_id r else vr_first res), vr_last := ar_id r\<rparr>"
  have rec: "verify_rows D opt anchors its (?res1, Some r) = Inr (res', prev')" and ok: "recordHash D r = Some (ar_hash r)"
    "linked prev r" "prev = None \<longrightarrow> tail_ok anchors opt r"
    using Cons.prems r by (auto simp: linked_def Let_def split: if_splits option.splits)
  from Cons.IH [OF rec] obtain rs where "rows_are its rs" "chain D (Some r) rs" "prev' = last_of (Some r) rs"
      "vr_valid res' = vr_valid res" "vr_head res' = vr_head res" by auto
  then show ?case using ok r by (intro exI [of _ "r # rs"]) (auto simp: rows_are_Cons last_of_def)
qed (auto simp: last_of_def)

lemma verify_rows_ok:
  "rows_are its rs \<Longrightarrow> chain D prev rs \<Longrightarrow> (prev = None \<and> rs \<noteq> [] \<longrightarrow> tail_ok anchors opt (hd rs)) \<Longrightarrow>
     \<exists>res'. verify_rows D opt anchors its (res, prev) = Inr (res', last_of prev rs) \<and> vr_valid res' = vr_valid res"
proof (induction its arbitrary: res prev rs)
  case (Cons it its)
  obtain r rs' where rs: "rs = r # rs'" "it_val it = Some (RowRecord r)" "rows_are its rs'"
    using Cons.prems(1) by (auto simp: rows_are_Cons)
  let ?res1 = "res\<lparr>vr_count := Suc (vr_count res), vr_first := (if vr_first res = [] then ar_id r else vr_first res), vr_last := ar_id r\<rparr>"
  have "verify_rows D opt anchors (it # its) (res, prev) = verify_rows D opt anchors its (?res1, Some r)"
    using Cons.prems(2,3) rs by (auto simp: linked_def Let_def split: option.splits)
  moreover have "chain D (Some r) rs'" using Cons.prems(2) rs by simp
  ultimately show ?case using Cons.IH [OF rs(3), of "Some r" ?res1] rs(1) by (auto simp: last_of_def)
qed (simp add: last_of_def)

lemma scan_const: "0 < scanPageSize" "verifyScanMax < Suc verifyScanMax"
  by (simp_all add: scanPageSize_def)

text \<open>What the verification sees, for a store with ordered range scans and fewer than a million records.\<close>

lemma Verify_scan:
  assumes "kv_ranged K db" "kv_listing K db (NsZoneletAuditLogPrefix (vo_zone opt)) (past (NsZoneletAuditLogPrefix (vo_zone opt))) all"
    "length all < verifyScanMax" "loadAnchors K db (vo_zone opt) = Inr anchors"
  shows "Verify D K db opt =
    (case verify_rows D opt anchors all (verify_start, None) of Inl res \<Rightarrow> Some res | Inr s \<Rightarrow> Some (verify_finish s))"
proof -
  have "page_loop (Suc verifyScanMax) K db False (\<lambda>_. scanPageSize) (\<lambda>s. vr_count (fst s) < verifyScanMax) (verify_rows D opt anchors)
      (NsZoneletAuditLogPrefix (vo_zone opt)) (past (NsZoneletAuditLogPrefix (vo_zone opt))) (verify_start, None) =
    (case verify_rows D opt anchors all (verify_start, None) of Inl r \<Rightarrow> PgReturn r | Inr s' \<Rightarrow> PgEnd s')"
    by (rule verify.loop_eq [OF assms(1) _ assms(2)]) (use assms(3) in \<open>simp_all add: scan_const verify_start_def\<close>)
  then show ?thesis using assms(4) by (simp add: Verify_def Let_def del: page_loop.simps split: sum.split)
qed

lemma Inl_invalid: "verify_rows D opt anchors its s = Inl res \<Longrightarrow> \<not> vr_valid res"
  by (induction D opt anchors its s rule: verify_rows.induct)
     (auto simp: broken_at_def Let_def split: option.splits audit_row.splits if_splits)

lemma Verify_valid:
  assumes "Verify D K db opt = Some res" "vr_valid res" "kv_ranged K db"
    "kv_listing K db (NsZoneletAuditLogPrefix (vo_zone opt)) (past (NsZoneletAuditLogPrefix (vo_zone opt))) all"
    "length all < verifyScanMax"
  obtains rs where "rows_are all rs" "chain D None rs" "vr_head res = (if rs = [] then [] else ar_hash (last rs))"
    "vr_count res = length rs"
proof -
  obtain anchors where a: "loadAnchors K db (vo_zone opt) = Inr anchors"
    using assms(1,2) by (cases "loadAnchors K db (vo_zone opt)") (auto simp: Verify_def broken_at_def)
  note scan = Verify_scan [OF assms(3-5) a, of D]
  obtain res1 prev where v: "verify_rows D opt anchors all (verify_start, None) = Inr (res1, prev)"
    using scan assms(1,2) Inl_invalid by (cases "verify_rows D opt anchors all (verify_start, None)") force+
  obtain rs where rs: "rows_are all rs" "chain D None rs" "prev = last_of None rs" "vr_head res1 = []"
    using verify_rows_iff [OF v] by (auto simp: verify_start_def)
  have cnt: "vr_count res1 = length all" using verify_rows_count [OF v] by (simp add: verify_start_def)
  have len: "length all = length rs" using rs(1) unfolding rows_are_def by (metis length_map)
  have "res = verify_finish (res1, prev)" using scan assms(1) v by simp
  then have "vr_head res = (if rs = [] then [] else ar_hash (last rs))" "vr_count res = length rs"
    using rs(3,4) cnt len assms(5) by (auto simp: verify_finish_def last_of_def Let_def)
  then show ?thesis using that rs by blast
qed

definition no_collision :: "digest \<Rightarrow> audit_rec list \<Rightarrow> audit_rec list \<Rightarrow> bool" where
  "no_collision D rs rs' \<longleftrightarrow>
     (\<forall>r \<in> set rs. \<forall>r' \<in> set rs'. recordHash D r = recordHash D r' \<longrightarrow> r\<lparr>ar_hash := []\<rparr> = r'\<lparr>ar_hash := []\<rparr>)"

lemma chain_determined:
  "chain D None rs \<Longrightarrow> chain D None rs' \<Longrightarrow> length rs = length rs' \<Longrightarrow> no_collision D rs rs' \<Longrightarrow>
     (rs \<noteq> [] \<Longrightarrow> ar_hash (last rs) = ar_hash (last rs')) \<Longrightarrow> rs = rs'"
proof (induction rs arbitrary: rs' rule: rev_induct)
  case (snoc r rs)
  obtain q qs where rs': "rs' = qs @ [q]" using snoc.prems(3) by (cases rs' rule: rev_cases) auto
  have hash: "ar_hash r = ar_hash q" using snoc.prems(5) rs' by simp
  have "recordHash D r = recordHash D q" using snoc.prems(1,2) hash by (simp add: rs' chain_snoc)
  then have cl: "r\<lparr>ar_hash := []\<rparr> = q\<lparr>ar_hash := []\<rparr>" using snoc.prems(4) by (simp add: no_collision_def rs')
  have "(r\<lparr>ar_hash := []\<rparr>)\<lparr>ar_hash := ar_hash r\<rparr> = (q\<lparr>ar_hash := []\<rparr>)\<lparr>ar_hash := ar_hash q\<rparr>" using cl hash by (simp only:)
  then have rq: "r = q" by simp
  have "rs = qs"
  proof (rule snoc.IH)
    show "chain D None rs" "chain D None qs" using snoc.prems(1,2) by (simp_all add: rs' chain_snoc)
    show len: "length rs = length qs" using snoc.prems(3) rs' by simp
    show "no_collision D rs qs" using snoc.prems(4) by (simp add: no_collision_def rs')
    show "ar_hash (last rs) = ar_hash (last qs)" if "rs \<noteq> []"
    proof -
      have "qs \<noteq> []" using that len by auto
      then show ?thesis using snoc.prems(1,2) that rq by (simp add: rs' chain_snoc last_of_def linked_def)
    qed
  qed
  then show ?case using rq rs' by simp
qed simp

text \<open>
  C8: the head hash pins the whole log. If two stores both pass verification with the same head hash and the same
  number of records, and the digest has no collision between their records, then the logs are identical, record
  by record; changing, dropping, adding or reordering a stored record is not possible without changing the head.
\<close>

theorem verified_head_pins_log:
  assumes "kv_ranged K db" "kv_ranged K' db'" "vo_zone opt = z" "vo_zone opt' = z"
    and "kv_listing K db (NsZoneletAuditLogPrefix z) (past (NsZoneletAuditLogPrefix z)) all"
    and "kv_listing K' db' (NsZoneletAuditLogPrefix z) (past (NsZoneletAuditLogPrefix z)) all'"
    and "length all < verifyScanMax" "length all' < verifyScanMax"
    and "Verify D K db opt = Some res" "Verify D K' db' opt' = Some res'" "vr_valid res" "vr_valid res'"
    and "vr_head res = vr_head res'" "vr_count res = vr_count res'"
    and "\<And>rs rs'. rows_are all rs \<Longrightarrow> rows_are all' rs' \<Longrightarrow> no_collision D rs rs'"
  shows "map it_val all = map it_val all'"
proof -
  obtain rs where rs: "rows_are all rs" "chain D None rs" "vr_head res = (if rs = [] then [] else ar_hash (last rs))" "vr_count res = length rs"
    by (rule Verify_valid [OF assms(9,11,1), of all]) (use assms(3,5,7) in simp_all)
  obtain rs' where rs': "rows_are all' rs'" "chain D None rs'" "vr_head res' = (if rs' = [] then [] else ar_hash (last rs'))" "vr_count res' = length rs'"
    by (rule Verify_valid [OF assms(10,12,2), of all']) (use assms(4,6,8) in simp_all)
  have len: "length rs = length rs'" using rs(4) rs'(4) assms(14) by simp
  have "rs = rs'"
    by (rule chain_determined [OF rs(2) rs'(2) len assms(15) [OF rs(1) rs'(1)]]) (use rs(3) rs'(3) assms(13) len in \<open>auto split: if_splits\<close>)
  then show ?thesis using rs(1) rs'(1) by (simp add: rows_are_def)
qed

section \<open>What the writer leaves\<close>

lemma kv_accepts_audit: "kv_accepts K \<Longrightarrow> \<exists>db' m. kv_put K db k (audit_opt n) v = (db', KvWritten m)"
proof -
  assume "kv_accepts K"
  moreover have "audit_opt n = plain_put\<lparr>wo_ttl := if n > 0 then n else 0\<rparr>" by (simp add: audit_opt_def plain_put_def)
  ultimately show ?thesis unfolding kv_accepts_def by simp
qed

definition zone_key :: "string \<Rightarrow> string \<Rightarrow> bool" where
  "zone_key z k \<longleftrightarrow> in_range (NsZoneletAuditLogPrefix z) (past (NsZoneletAuditLogPrefix z)) k"

definition rec_key :: "audit_rec \<Rightarrow> string" where
  "rec_key r = NsZoneletAuditLog (ar_zone r) (ar_id r)"

text \<open>The store holds the records of the list under the keys of the zone, and nothing else there.\<close>

definition holds_log :: "('db, audit_row) kvgo \<Rightarrow> 'db \<Rightarrow> string \<Rightarrow> audit_rec list \<Rightarrow> bool" where
  "holds_log K db z rs \<longleftrightarrow>
     (\<forall>r \<in> set rs. ar_zone r = z \<and> (\<exists>m. kv_get K db (rec_key r) = KvFound m (Some (RowRecord r)))) \<and>
     (\<forall>k m v. zone_key z k \<and> kv_get K db k = KvFound m v \<longrightarrow> k \<in> rec_key ` set rs)"

definition log_inv :: "digest \<Rightarrow> ('db, audit_row) kvgo \<Rightarrow> string \<Rightarrow> audit_rec list \<Rightarrow> audit_mgr \<times> 'db \<Rightarrow> bool" where
  "log_inv D K z rs s \<longleftrightarrow>
     holds_log K (snd s) z rs \<and> chain D None rs \<and> (rs \<noteq> [] \<longrightarrow> ar_prev (hd rs) = []) \<and>
     am_prev (fst s) = (if rs = [] then [] else ar_hash (last rs)) \<and> 0 \<le> am_last (fst s) \<and>
     sorted_wrt (<) (map ar_ts rs) \<and>
     (\<forall>r \<in> set rs. \<exists>rnd. ar_id r = AuditIdOfTs (ar_ts r) @ rnd \<and> 0 < ar_ts r \<and> ar_ts r \<le> am_last (fst s))"

lemma AuditIdOfTs_pos: "0 \<le> ts \<Longrightarrow> AuditIdOfTs ts = show_hex 12 (nat ts)"
  by (simp add: AuditIdOfTs_def)

lemma id_order:
  assumes "0 \<le> a" "a < b" "b < 16 ^ 12"
  shows "str_lt (AuditIdOfTs a @ x) (AuditIdOfTs b @ y)"
proof -
  have "nat a < nat b" "nat b < 16 ^ 12" using assms by (simp_all add: nat_less_iff)
  then have "str_lt (show_hex 12 (nat a)) (show_hex 12 (nat b))" "length (show_hex 12 (nat a)) = 12" "length (show_hex 12 (nat b)) = 12"
    using show_hex_less [of "nat a" "nat b" 12] show_hex_length [of "nat a" 12] show_hex_length [of "nat b" 12] by auto
  then show ?thesis using assms by (simp add: AuditIdOfTs_pos str_lt_append)
qed

lemma rec_key_order:
  "ar_zone r = ar_zone q \<Longrightarrow> 0 \<le> ar_ts r \<Longrightarrow> ar_ts r < ar_ts q \<Longrightarrow> ar_ts q < 16 ^ 12 \<Longrightarrow>
     ar_id r = AuditIdOfTs (ar_ts r) @ x \<Longrightarrow> ar_id q = AuditIdOfTs (ar_ts q) @ y \<Longrightarrow> str_lt (rec_key r) (rec_key q)"
  by (simp add: rec_key_def NsZoneletAuditLog_def str_lt_prefix id_order)

lemma show_hex_chars: "set (show_hex w n) \<subseteq> hex_char ` {..<16}"
proof (induction w n rule: show_hex.induct)
  case (1 n) then show ?case by (subst show_hex.simps) auto
next
  case (2 w n) then show ?case by auto
qed

lemma show_hex_head: "\<exists>d w'. show_hex 12 n = hex_char d # w' \<and> d < 16"
proof -
  have "show_hex (Suc w) n \<noteq> []" for w by simp
  moreover have "(12 :: nat) = Suc 11" by simp
  ultimately have "show_hex 12 n \<noteq> []" by metis
  then obtain c cs where c: "show_hex 12 n = c # cs" by (cases "show_hex 12 n") (simp_all del: show_hex.simps)
  then show ?thesis using show_hex_chars [of 12 n] by auto
qed

lemma rec_key_in_zone:
  assumes "ar_zone r = z" "0 \<le> ar_ts r" "ar_id r = AuditIdOfTs (ar_ts r) @ x"
  shows "zone_key z (rec_key r)"
proof -
  obtain d w where w: "show_hex 12 (nat (ar_ts r)) = hex_char d # w" "d < 16" using show_hex_head by blast
  then have rid: "ar_id r = hex_char d # w @ x" using assms(2,3) by (simp add: AuditIdOfTs_pos)
  have c: "(of_char (hex_char d) :: nat) < 255" using hex_char_code [OF w(2)] w(2) by (simp split: if_splits)
  have ff: "(of_char (CHR 0xFF) :: nat) = 255" by code_simp
  have "str_le (hex_char d # w @ x) [CHR 0xFF]" unfolding str_le.simps(3) ff using c by blast
  then show ?thesis
    unfolding zone_key_def rec_key_def NsZoneletAuditLog_def in_range_def past_def assms(1) rid str_le_prefix
    using str_lt_prefix [of "NsZoneletAuditLogPrefix z" "[]" "hex_char d # w @ x"] by (simp add: str_lt_def)
qed

lemma write_inv:
  assumes "kv_lawful K" "kv_accepts K" "\<And>r. D r \<noteq> None" and inv: "log_inv D K z rs s" and "ar_zone r = z" "0 \<le> clock"
    and s': "s' = audit_write D K clock rnd r s" and bound: "am_last (fst s') < 16 ^ 12" "am_last (fst s) < 2 ^ 62"
  shows "\<exists>r'. log_inv D K z (rs @ [r']) s'" "am_last (fst s) < am_last (fst s')"
proof -
  obtain m db where s: "s = (m, db)" by fastforce
  define r1 where "r1 = stamp clock rnd r m"
  obtain h where h: "recordHash D r1 = Some h" using assms(3) by (auto simp: recordHash_def)
  define r2 where "r2 = r1\<lparr>ar_hash := h\<rparr>"
  obtain db' mt where put: "kv_put K db (NsZoneletAuditLog (ar_zone r2) (ar_id r2)) (audit_opt (am_retention m)) (RowRecord r2) = (db', KvWritten mt)"
    using kv_accepts_audit [OF assms(2)] by blast
  have s'_eq: "snd s' = db'" "am_prev (fst s') = h" "am_last (fst s') = ar_ts r1"
    using s' put by (simp_all add: s audit_write_def Let_def r1_def [symmetric] h r2_def [symmetric])
  have last: "0 \<le> am_last m" using inv by (simp add: log_inv_def s)
  have ts: "ar_ts r1 = stamp_ts clock m" "ar_id r1 = AuditIdOfTs (ar_ts r1) @ rnd" "ar_zone r1 = z" "ar_prev r1 = am_prev m"
    using assms(5) by (simp_all add: r1_def stamp_def Let_def)
  have up: "am_last m < ar_ts r1" "0 < ar_ts r1"
    using last bound(2) assms(6) by (auto simp: ts(1) stamp_ts_def in_i64_def s)
  show "am_last (fst s) < am_last (fst s')" using up by (simp add: s'_eq s)
  have r2: "ar_ts r2 = ar_ts r1" "ar_id r2 = AuditIdOfTs (ar_ts r2) @ rnd" "ar_zone r2 = z" "ar_prev r2 = am_prev m" "ar_hash r2 = h"
    "recordHash D r2 = Some (ar_hash r2)"
    using ts h by (simp_all add: r2_def recordHash_def)
  have key: "NsZoneletAuditLog (ar_zone r2) (ar_id r2) = rec_key r2" by (simp add: rec_key_def)
  have old: "\<exists>x. ar_id q = AuditIdOfTs (ar_ts q) @ x \<and> 0 < ar_ts q \<and> ar_ts q \<le> am_last m \<and> ar_zone q = z" if "q \<in> set rs" for q
    using inv that by (auto simp: log_inv_def s holds_log_def)
  have fresh: "rec_key q \<noteq> rec_key r2" if q: "q \<in> set rs" for q
  proof -
    obtain x where x: "ar_id q = AuditIdOfTs (ar_ts q) @ x" "0 < ar_ts q" "ar_ts q \<le> am_last m" "ar_zone q = z" using old [OF q] by blast
    have "str_lt (rec_key q) (rec_key r2)"
      by (rule rec_key_order [OF _ _ _ _ x(1) r2(2)]) (use x r2 up bound(1) s'_eq in auto)
    then show ?thesis by (auto simp: str_lt_def)
  qed
  have holds: "holds_log K db' z (rs @ [r2])" unfolding holds_log_def
  proof (intro conjI ballI allI impI)
    fix q assume q: "q \<in> set (rs @ [r2])"
    show "ar_zone q = z" using q old r2(3) by auto
    show "\<exists>m. kv_get K db' (rec_key q) = KvFound m (Some (RowRecord q))"
    proof (cases "q = r2")
      case True then show ?thesis using kv_put_read [OF assms(1) put] by (simp add: key)
    next
      case False
      then have "q \<in> set rs" using q by simp
      then show ?thesis using kv_put_other [OF assms(1) put, of "rec_key q"] fresh inv
        by (simp add: key log_inv_def s holds_log_def)
    qed
  next
    fix k mm v assume k: "zone_key z k \<and> kv_get K db' k = KvFound mm v"
    show "k \<in> rec_key ` set (rs @ [r2])"
    proof (cases "k = rec_key r2")
      case False
      then have "kv_get K db k = KvFound mm v" using kv_put_other [OF assms(1) put, of k] k by (simp add: key)
      then show ?thesis using inv k by (auto simp: log_inv_def s holds_log_def)
    qed simp
  qed
  have am: "am_prev m = (if rs = [] then [] else ar_hash (last rs))" using inv by (simp add: log_inv_def s)
  have "chain D None (rs @ [r2])" using inv am r2 by (auto simp: chain_snoc log_inv_def s linked_def last_of_def)
  moreover have "sorted_wrt (<) (map ar_ts (rs @ [r2]))" using inv old up r2(1) by (force simp: sorted_wrt_append log_inv_def s)
  moreover have "ar_prev (hd (rs @ [r2])) = []" using inv am r2(4) by (cases rs) (auto simp: log_inv_def s)
  moreover have "\<forall>q \<in> set (rs @ [r2]). \<exists>x. ar_id q = AuditIdOfTs (ar_ts q) @ x \<and> 0 < ar_ts q \<and> ar_ts q \<le> am_last (fst s')"
    using old up r2(1,2) s'_eq(3) by fastforce
  ultimately have "log_inv D K z (rs @ [r2]) s'" using holds s'_eq r2(5) up(2) unfolding log_inv_def by simp
  then show "\<exists>r'. log_inv D K z (rs @ [r']) s'" ..
qed

text \<open>A run of writes, each with its clock and random suffix.\<close>

fun write_all ::
  "digest \<Rightarrow> ('db, audit_row) kvgo \<Rightarrow> (int \<times> string \<times> audit_rec) list \<Rightarrow> audit_mgr \<times> 'db \<Rightarrow> audit_mgr \<times> 'db" where
  "write_all D K [] s = s"
| "write_all D K ((clock, rnd, r) # ws) s = write_all D K ws (audit_write D K clock rnd r s)"

lemma write_last_mono: "in_i64 (am_last (fst s) + 1) \<Longrightarrow> am_last (fst s) \<le> am_last (fst (audit_write D K clock rnd r s))"
  by (auto simp: audit_write_def stamp_def stamp_ts_def Let_def split: prod.splits option.splits kv_wr.splits)

lemma write_all_inv:
  assumes "kv_lawful K" "kv_accepts K" "\<And>r. D r \<noteq> None"
  shows "log_inv D K z rs s \<Longrightarrow> am_last (fst s) < 2 ^ 47 + int k \<Longrightarrow> k + length ws \<le> verifyScanMax \<Longrightarrow>
    \<forall>(clock, rnd, r) \<in> set ws. 0 \<le> clock \<and> clock < 2 ^ 47 \<and> ar_zone r = z \<Longrightarrow>
    \<exists>rs'. length rs' = length rs + length ws \<and> log_inv D K z rs' (write_all D K ws s)
      \<and> am_last (fst (write_all D K ws s)) < 2 ^ 47 + int (k + length ws)"
proof (induction ws arbitrary: rs s k)
  case (Cons w ws)
  obtain clock rnd r where w: "w = (clock, rnd, r)" by (cases w)
  define s1 where "s1 = audit_write D K clock rnd r s"
  have kb: "int k \<le> 10 ^ 6" using Cons.prems(3) by (simp add: verifyScanMax_def)
  have cl: "0 \<le> clock" "clock < 2 ^ 47" "ar_zone r = z" using Cons.prems(4) w by auto
  have inv0: "0 \<le> am_last (fst s)" using Cons.prems(1) by (simp add: log_inv_def)
  have last: "am_last (fst s1) = stamp_ts clock (fst s)"
    by (cases s) (auto simp: s1_def audit_write_def stamp_def Let_def split: option.splits prod.splits kv_wr.splits)
  have b1: "am_last (fst s1) < 2 ^ 47 + int (Suc k)"
    using last Cons.prems(2) cl inv0 kb by (auto simp: stamp_ts_def in_i64_def)
  have "am_last (fst s1) < 16 ^ 12" "am_last (fst s) < 2 ^ 62" using b1 Cons.prems(2) kb by simp_all
  from write_inv(1) [OF assms Cons.prems(1) cl(3,1) s1_def this]
  obtain r' where I1: "log_inv D K z (rs @ [r']) s1" by blast
  from Cons.IH [OF I1 b1] Cons.prems(3,4) show ?case by (auto simp: w s1_def [symmetric])
qed auto

lemma ranged_no_err: "kv_ranged K db \<Longrightarrow> k > 0 \<Longrightarrow> page_loop n K db False (\<lambda>_. k) going step lower upper s \<noteq> PgErr e x"
proof (induction n arbitrary: lower s)
  case (Suc n)
  obtain its more rest where "kv_range K db lower upper k False = KvItems its more"
    using Suc.prems unfolding kv_ranged_def by blast
  then show ?case using Suc.IH [OF Suc.prems] by (auto simp: Let_def split: list.split sum.split)
qed simp

lemma anchors_load: "kv_ranged K db \<Longrightarrow> \<exists>a. loadAnchors K db z = Inr a"
  using ranged_no_err [of K db scanPageSize _ "\<lambda>_. True" anchor_rows]
  by (auto simp: loadAnchors_def Let_def scan_const split: page_end.split)

lemma log_listing:
  assumes inv: "log_inv D K z rs (m, db)" and bound: "am_last m < 16 ^ 12"
  shows "\<exists>all. kv_listing K db (NsZoneletAuditLogPrefix z) (past (NsZoneletAuditLogPrefix z)) all \<and> rows_are all rs"
proof -
  define item where "item = (\<lambda>r. \<lparr>it_key = rec_key r, it_meta = (case kv_get K db (rec_key r) of KvFound mt _ \<Rightarrow> mt), it_val = Some (RowRecord r)\<rparr>)"
  have old: "\<exists>x. ar_id q = AuditIdOfTs (ar_ts q) @ x \<and> 0 < ar_ts q \<and> ar_ts q \<le> am_last m \<and> ar_zone q = z" if "q \<in> set rs" for q
    using inv that by (auto simp: log_inv_def holds_log_def)
  have lt: "str_lt (rec_key r) (rec_key q)" if "r \<in> set rs" "q \<in> set rs" "ar_ts r < ar_ts q" for r q
    using old [OF that(1)] old [OF that(2)] that(3) bound rec_key_order [of r q] by auto
  have "sorted_wrt (\<lambda>r q. ar_ts r < ar_ts q) rs" using inv by (simp add: log_inv_def sorted_wrt_map)
  then have "sorted_wrt (\<lambda>r q. str_lt (rec_key r) (rec_key q)) rs" by (rule sorted_wrt_mono_rel [rotated]) (use lt in blast)
  then have srt: "sorted_wrt str_lt (map it_key (map item rs))" by (simp add: item_def o_def sorted_wrt_map)
  have "kv_listing K db (NsZoneletAuditLogPrefix z) (past (NsZoneletAuditLogPrefix z)) (map item rs)"
    unfolding kv_listing_def
  proof (intro conjI ballI allI impI)
    show "sorted_wrt str_lt (map it_key (map item rs))" by (rule srt)
    fix it assume "it \<in> set (map item rs)"
    then obtain r where r: "r \<in> set rs" "it = item r" by auto
    show "in_range (NsZoneletAuditLogPrefix z) (past (NsZoneletAuditLogPrefix z)) (it_key it)"
      using old [OF r(1)] rec_key_in_zone [of r z] by (auto simp: r(2) item_def zone_key_def)
    show "kv_get K db (it_key it) = KvFound (it_meta it) (it_val it)"
      using inv r by (auto simp: item_def log_inv_def holds_log_def)
  next
    fix k mt v assume "in_range (NsZoneletAuditLogPrefix z) (past (NsZoneletAuditLogPrefix z)) k \<and> kv_get K db k = KvFound mt v"
    then have "k \<in> rec_key ` set rs" using inv by (auto simp: log_inv_def holds_log_def zone_key_def)
    then show "k \<in> it_key ` set (map item rs)" by (auto simp: item_def image_image)
  qed
  moreover have "rows_are (map item rs) rs" by (simp add: rows_are_def item_def o_def)
  ultimately show ?thesis by blast
qed

lemma chain_verifies:
  assumes "kv_ranged K db" "kv_listing K db (NsZoneletAuditLogPrefix (vo_zone opt)) (past (NsZoneletAuditLogPrefix (vo_zone opt))) all"
    and all: "rows_are all rs" and ch: "chain D None rs" "rs \<noteq> [] \<longrightarrow> ar_prev (hd rs) = []" and "length rs < verifyScanMax"
  shows "\<exists>res. Verify D K db opt = Some res \<and> vr_valid res \<and> vr_count res = length rs
    \<and> vr_head res = (if rs = [] then [] else ar_hash (last rs))"
proof -
  have len: "length all = length rs" using all unfolding rows_are_def by (metis length_map)
  obtain anchors where a: "loadAnchors K db (vo_zone opt) = Inr anchors" using anchors_load [OF assms(1)] by blast
  obtain res' where v: "verify_rows D opt anchors all (verify_start, None) = Inr (res', last_of None rs)" "vr_valid res'"
    using verify_rows_ok [OF all ch(1), of anchors opt verify_start] ch(2) by (auto simp: tail_ok_def verify_start_def)
  have cnt: "vr_count res' = length rs" using verify_rows_count [OF v(1)] len by (simp add: verify_start_def)
  have head: "vr_head res' = []" using verify_rows_iff [OF v(1)] by (auto simp: verify_start_def)
  have "Verify D K db opt = Some (verify_finish (res', last_of None rs))"
    using Verify_scan [OF assms(1,2) _ a, of D] len assms(6) v(1) by simp
  then show ?thesis using v(2) cnt head assms(6) by (auto simp: verify_finish_def last_of_def Let_def)
qed

text \<open>
  C12: the log the writer leaves verifies. Starting from an empty zone, after any sequence of fewer than a million
  writes of records of one zone that the store accepts, whatever the wall clock does (stepping back included), the
  verification reports a valid chain with exactly the written records, whose head is the writer's chain head.
\<close>

theorem audit_log_verifies:
  assumes "kv_lawful K" "kv_accepts K" "\<And>r. D r \<noteq> None"
    and "\<And>k mt v. zone_key z k \<Longrightarrow> kv_get K db k \<noteq> KvFound mt v"
    and "\<forall>(clock, rnd, r) \<in> set ws. 0 \<le> clock \<and> clock < 2 ^ 47 \<and> ar_zone r = z" "length ws < verifyScanMax"
    and "write_all D K ws (audit_new retention, db) = (m', db')" "kv_ranged K db'" "vo_zone opt = z"
  shows "\<exists>res. Verify D K db' opt = Some res \<and> vr_valid res \<and> vr_count res = length ws \<and> vr_head res = ChainHead m'"
proof -
  have "log_inv D K z [] (audit_new retention, db)"
    using assms(4) by (simp add: log_inv_def holds_log_def audit_new_def)
  from write_all_inv [OF assms(1-3) this, of 0 ws] assms(5,6,7)
  obtain rs where rs: "length rs = length ws" "log_inv D K z rs (m', db')" "am_last m' < 2 ^ 47 + int (length ws)"
    by (auto simp: audit_new_def)
  have "int (length ws) < 10 ^ 6" using assms(6) by (simp add: verifyScanMax_def)
  then have "am_last m' < 16 ^ 12" using rs(3) by simp
  from log_listing [OF rs(2) this] obtain all where all: "rows_are all rs"
      "kv_listing K db' (NsZoneletAuditLogPrefix z) (past (NsZoneletAuditLogPrefix z)) all" by blast
  have "\<exists>res. Verify D K db' opt = Some res \<and> vr_valid res \<and> vr_count res = length rs
      \<and> vr_head res = (if rs = [] then [] else ar_hash (last rs))"
    by (rule chain_verifies [OF assms(8) _ all(1)]) (use all(2) rs assms(6,9) in \<open>simp_all add: log_inv_def\<close>)
  then show ?thesis using rs by (simp add: log_inv_def ChainHead_def)
qed

definition demo_D :: digest where
  "demo_D r = Some (ar_id r @ ''#'' @ ar_prev r)"

definition demo_rec :: "string \<Rightarrow> string \<Rightarrow> audit_rec" where
  "demo_rec z action = \<lparr>ar_zone = z, ar_id = [], ar_ts = 0, ar_actor = ''ak1'', ar_user = ''bob'', ar_actor_type = ''user'', ar_action = action,
     ar_source_ip = [], ar_target_type = [], ar_target = [], ar_status = ''ok'', ar_error = [], ar_detail = [], ar_prev = [],
     ar_hash = [], ar_dropped = 0, ar_suppressed = 0\<rparr>"

definition demo_ws :: "(int \<times> string \<times> audit_rec) list" where
  "demo_ws = [(20, ''ab12'', demo_rec ''z'' ''AppDeploy''), (10, ''00ff'', demo_rec ''z'' ''UserSet'')]"

lemma demo_sorted: "sorted_wrt str_lt (map fst (snd (snd (write_all demo_D mem_kv demo_ws (audit_new 0, (0, []))))))"
  by code_simp

theorem audit_log_verifies_witness:
  "\<exists>res. Verify demo_D mem_kv (snd (write_all demo_D mem_kv demo_ws (audit_new 0, (0, [])))) \<lparr>vo_zone = ''z'', vo_retention = 0, vo_now = 0\<rparr> = Some res
     \<and> vr_valid res \<and> vr_count res = 2"
proof -
  let ?opt = "\<lparr>vo_zone = ''z'', vo_retention = 0, vo_now = 0\<rparr> :: verify_opt"
  let ?s = "write_all demo_D mem_kv demo_ws (audit_new 0, (0, []))"
  have "\<exists>res. Verify demo_D mem_kv (snd ?s) ?opt = Some res \<and> vr_valid res \<and> vr_count res = length demo_ws \<and> vr_head res = ChainHead (fst ?s)"
  proof (rule audit_log_verifies [OF mem_kv_lawful mem_kv_accepts, where db = "(0, [])" and ws = demo_ws and retention = 0 and z = "''z''"])
    show "demo_D r \<noteq> None" for r by (simp add: demo_D_def)
    show "kv_get mem_kv (0, []) k \<noteq> KvFound mt v" for k mt and v :: "audit_row option" by (simp add: mem_kv_def mem_get_def)
    show "\<forall>(clock, rnd, r) \<in> set demo_ws. 0 \<le> clock \<and> clock < 2 ^ 47 \<and> ar_zone r = ''z''" by (simp add: demo_ws_def demo_rec_def)
    show "length demo_ws < verifyScanMax" by (simp add: demo_ws_def verifyScanMax_def)
    show "?s = (fst ?s, snd ?s)" by simp
    show "kv_ranged mem_kv (snd ?s)" by (rule mem_kv_ranged [OF demo_sorted])
  qed simp
  moreover have "length demo_ws = 2" by (simp add: demo_ws_def)
  ultimately show ?thesis by metis
qed

section \<open>Two stores and two zones\<close>

definition demo_log :: "audit_row mem_db" where
  "demo_log = snd (write_all demo_D mem_kv demo_ws (audit_new 0, (0, [])))"

text \<open>The same log in a store that also has an anchor.\<close>

definition demo_log2 :: "audit_row mem_db" where
  "demo_log2 = fst (mem_put demo_log (NsZoneletAuditAnchor ''z'' ''20240101'') plain_put (RowAnchor \<lparr>aa_date = ''20240101'', aa_head = ''x'', aa_count = 2\<rparr>))"

definition log_rows :: "string \<Rightarrow> audit_row mem_db \<Rightarrow> audit_row kv_item list" where
  "log_rows z db = mem_items (filter (\<lambda>e. in_range (NsZoneletAuditLogPrefix z) (past (NsZoneletAuditLogPrefix z)) (fst e)) (snd db))"

definition log_recs :: "audit_row mem_db \<Rightarrow> audit_rec list" where
  "log_recs db = List.map_filter (\<lambda>(k, n, v). case v of RowRecord r \<Rightarrow> Some r | _ \<Rightarrow> None) (snd db)"

lemma demo_logs:
  "sorted_wrt str_lt (map fst (snd demo_log))" "sorted_wrt str_lt (map fst (snd demo_log2))"
  "map it_val (log_rows ''z'' demo_log) = map (Some \<circ> RowRecord) (log_recs demo_log)"
  "map it_val (log_rows ''z'' demo_log2) = map (Some \<circ> RowRecord) (log_recs demo_log)"
  "chain demo_D None (log_recs demo_log)" "ar_prev (hd (log_recs demo_log)) = []" "no_collision demo_D (log_recs demo_log) (log_recs demo_log)"
  by code_simp+

lemma demo_len: "length (log_recs demo_log) = 2"
  by code_simp

lemma rows_are_unique: "rows_are all rs \<Longrightarrow> rows_are all rs' \<Longrightarrow> rs = rs'"
  by (induction all arbitrary: rs rs') (auto simp: rows_are_Cons)

theorem verified_head_pins_log_witness:
  "map it_val (log_rows ''z'' demo_log) = map it_val (log_rows ''z'' demo_log2)"
proof -
  let ?opt = "\<lparr>vo_zone = ''z'', vo_retention = 0, vo_now = 0\<rparr> :: verify_opt"
  note l1 = mem_listing [OF demo_logs(1), of "NsZoneletAuditLogPrefix ''z''" "past (NsZoneletAuditLogPrefix ''z'')", folded log_rows_def]
  note l2 = mem_listing [OF demo_logs(2), of "NsZoneletAuditLogPrefix ''z''" "past (NsZoneletAuditLogPrefix ''z'')", folded log_rows_def]
  have r: "rows_are (log_rows ''z'' demo_log) (log_recs demo_log)" "rows_are (log_rows ''z'' demo_log2) (log_recs demo_log)"
    using demo_logs(3,4) by (simp_all add: rows_are_def)
  have len: "length (log_rows ''z'' demo_log) = 2" "length (log_rows ''z'' demo_log2) = 2" "length (log_recs demo_log) < verifyScanMax"
    using r demo_len unfolding rows_are_def by (metis length_map, metis length_map, simp add: verifyScanMax_def)
  have ne: "log_recs demo_log \<noteq> []" using demo_len by auto
  have ok: "\<exists>res. Verify demo_D mem_kv db ?opt = Some res \<and> vr_valid res \<and> vr_count res = length (log_recs demo_log)
      \<and> vr_head res = (if log_recs demo_log = [] then [] else ar_hash (last (log_recs demo_log)))"
    if "sorted_wrt str_lt (map fst (snd db))" "rows_are (log_rows ''z'' db) (log_recs demo_log)" for db
    by (rule chain_verifies [OF mem_kv_ranged [OF that(1)] _ that(2) demo_logs(5)])
       (use mem_listing [OF that(1)] demo_logs(6) len(3) in \<open>simp_all add: log_rows_def\<close>)
  obtain res where res: "Verify demo_D mem_kv demo_log ?opt = Some res" "vr_valid res" "vr_count res = 2" "vr_head res = ar_hash (last (log_recs demo_log))"
    using ok [OF demo_logs(1) r(1)] ne demo_len by auto
  obtain res' where res': "Verify demo_D mem_kv demo_log2 ?opt = Some res'" "vr_valid res'" "vr_count res' = 2" "vr_head res' = ar_hash (last (log_recs demo_log))"
    using ok [OF demo_logs(2) r(2)] ne demo_len by auto
  show ?thesis
  proof (rule verified_head_pins_log [OF mem_kv_ranged [OF demo_logs(1)] mem_kv_ranged [OF demo_logs(2)] _ _ l1 l2 _ _ res(1) res'(1) res(2) res'(2)])
    fix rs rs' assume "rows_are (log_rows ''z'' demo_log) rs" "rows_are (log_rows ''z'' demo_log2) rs'"
    then have "rs = log_recs demo_log" "rs' = log_recs demo_log" using rows_are_unique r by blast+
    then show "no_collision demo_D rs rs'" using demo_logs(7) by simp
  qed (use len res res' in \<open>simp_all add: verifyScanMax_def\<close>)
qed

text \<open>
  The chain runs over all zones while the verification reads one: a record of the zone that follows a record
  written before the zone had a name breaks the zone's chain unless an anchor or the retention explains it.
\<close>

lemma zone_init_breaks_chain:
  "\<exists>res. verify_rows demo_D \<lparr>vo_zone = ''z'', vo_retention = 0, vo_now = 0\<rparr> {}
     (log_rows ''z'' (snd (write_all demo_D mem_kv [(20, ''ab12'', demo_rec [] ''ZoneInit''), (30, ''00ff'', demo_rec ''z'' ''UserSet'')] (audit_new 0, (0, [])))))
     (verify_start, None) = Inl res \<and> \<not> vr_valid res"
proof -
  let ?v = "verify_rows demo_D \<lparr>vo_zone = ''z'', vo_retention = 0, vo_now = 0\<rparr> {}
     (log_rows ''z'' (snd (write_all demo_D mem_kv [(20, ''ab12'', demo_rec [] ''ZoneInit''), (30, ''00ff'', demo_rec ''z'' ''UserSet'')] (audit_new 0, (0, [])))))
     (verify_start, None)"
  have "map_sum vr_valid (\<lambda>_. ()) ?v = Inl False" by code_simp
  then show ?thesis by (cases ?v) auto
qed

end
