(* ===== verification/SpecConfig.thy ===== *)
theory SpecConfig
  imports Users
begin

text \<open>
  The configuration schema of an application spec and the values a deployment gives it: the checks of
  \<open>pkg/inapi/valid.go\<close> (field schemas, key items of array groups, uniqueness scopes, task triggers)
  and the auto-fill of missing values in \<open>service_instance.go\<close> with \<open>inutil/autofill\<close>. A slice of
  pointers is a list of options, \<open>None\<close> being a nil entry. The titles, prompts and descriptions of a
  field are left out: no code here reads them. The iteration order of a map is an argument, a list of picks,
  and so is what the random source returns.
\<close>

section \<open>Data\<close>

datatype spec_item = SpecItem
  (si_name: string) (si_type: string) (si_default: string) (si_auto_fill: string) (si_key_item: string)
  (si_unique: string) (si_items: "spec_item option list")

datatype deploy_item = DeployItem
  (di_name: string) (di_value: string) (di_type: string) (di_items: "deploy_item option list")

record spec_task =
  tk_name :: string
  tk_on_startup :: bool
  tk_on_shutdown :: bool
  tk_interval :: int
  tk_cron :: string

definition SpecFieldTypeGroup :: string where
  "SpecFieldTypeGroup = ''group''"

definition SpecFieldTypeArrayGroup :: string where
  "SpecFieldTypeArrayGroup = ''array_group''"

definition SpecConfigUniqueArrayGroup :: string where
  "SpecConfigUniqueArrayGroup = ''array_group''"

definition SpecConfigUniqueApp :: string where
  "SpecConfigUniqueApp = ''app''"

lemmas cfg_consts = SpecFieldTypeGroup_def SpecFieldTypeArrayGroup_def SpecConfigUniqueArrayGroup_def
  SpecConfigUniqueApp_def

datatype cfg_err =
    FieldNil
  | FieldNameRequired
  | SubNameRequired string
  | DuplicateSub string string
  | BadUniqueScope string string
  | GroupEmpty string
  | ArrayGroupEmpty string
  | KeyItemRequired string
  | KeyItemUnknown string string
  | KeyMissing string nat string
  | KeyDuplicate string string string
  | AppDuplicate string string
  | TaskNil
  | TriggerMissing
  | TriggerConflict

section \<open>Checks of the spec\<close>

definition ValidateTaskTrigger :: "spec_task option \<Rightarrow> cfg_err option" where
  "ValidateTaskTrigger task =
     (case task of
        None \<Rightarrow> Some TaskNil
      | Some t \<Rightarrow>
          let triggers = (if tk_on_startup t then 1 else 0) + (if tk_on_shutdown t then 1 else 0)
                + (if tk_interval t > 0 then 1 else 0) + (if tk_cron t \<noteq> [] then 1 else (0::nat)) in
          if triggers = 0 then Some TriggerMissing
          else if triggers > 1 then Some TriggerConflict
          else None)"

definition specConfigItemContainsName :: "spec_item option list \<Rightarrow> string \<Rightarrow> bool" where
  "specConfigItemContainsName items name \<longleftrightarrow> (\<exists>it \<in> set items. case it of None \<Rightarrow> False | Some s \<Rightarrow> si_name s = name)"

definition check_structure :: "spec_item \<Rightarrow> cfg_err option" where
  "check_structure f =
     (if si_unique f \<noteq> [] \<and> si_unique f \<noteq> SpecConfigUniqueArrayGroup \<and> si_unique f \<noteq> SpecConfigUniqueApp
      then Some (BadUniqueScope (si_name f) (si_unique f))
      else if si_type f = SpecFieldTypeGroup then
        (if si_items f = [] then Some (GroupEmpty (si_name f)) else None)
      else if si_type f = SpecFieldTypeArrayGroup then
        (if si_items f = [] then Some (ArrayGroupEmpty (si_name f))
         else if si_key_item f = [] then Some (KeyItemRequired (si_name f))
         else if \<not> specConfigItemContainsName (si_items f) (si_key_item f)
         then Some (KeyItemUnknown (si_name f) (si_key_item f))
         else None)
      else None)"

text \<open>
  \<open>validate_field\<close> is the call on a field that is not nil, \<open>validate_subs\<close> its loop over the
  children with the names seen so far.
\<close>

fun validate_field :: "spec_item \<Rightarrow> cfg_err option"
and validate_subs :: "string \<Rightarrow> string list \<Rightarrow> spec_item option list \<Rightarrow> cfg_err option" where
  "validate_field (SpecItem n t d a k u items) =
     (if n = [] then Some FieldNameRequired
      else case validate_subs n [] items of
        Some e \<Rightarrow> Some e
      | None \<Rightarrow> check_structure (SpecItem n t d a k u items))"
| "validate_subs n names [] = None"
| "validate_subs n names (None # items) = validate_subs n names items"
| "validate_subs n names (Some sub # items) =
     (if si_name sub = [] then Some (SubNameRequired n)
      else if si_name sub \<in> set names then Some (DuplicateSub n (si_name sub))
      else case validate_field sub of
        Some e \<Rightarrow> Some e
      | None \<Rightarrow> validate_subs n (si_name sub # names) items)"

definition ValidateSpecConfigField :: "spec_item option \<Rightarrow> cfg_err option" where
  "ValidateSpecConfigField f = (case f of None \<Rightarrow> Some FieldNil | Some x \<Rightarrow> validate_field x)"

section \<open>Checks of the deployed values\<close>

definition deployConfigItem :: "deploy_item option list \<Rightarrow> string \<Rightarrow> deploy_item option" where
  "deployConfigItem items name =
     (case find (\<lambda>it. case it of None \<Rightarrow> False | Some d \<Rightarrow> di_name d = name) items of Some it \<Rightarrow> it | None \<Rightarrow> None)"

definition Item :: "deploy_item \<Rightarrow> string \<Rightarrow> deploy_item option" where
  "Item x name = deployConfigItem (di_items x) name"

definition item_value :: "string \<Rightarrow> deploy_item \<Rightarrow> string" where
  "item_value name d = (case Item d name of None \<Rightarrow> [] | Some it \<Rightarrow> di_value it)"

fun check_instances :: "string \<Rightarrow> string \<Rightarrow> bool \<Rightarrow> nat \<Rightarrow> string list \<Rightarrow> deploy_item option list \<Rightarrow> cfg_err option" where
  "check_instances cfg field req i seen [] = None"
| "check_instances cfg field req i seen (None # insts) = check_instances cfg field req (Suc i) seen insts"
| "check_instances cfg field req i seen (Some d # insts) =
     (let v = item_value field d in
      if v = [] then
        (if req then Some (KeyMissing cfg (Suc i) field) else check_instances cfg field req (Suc i) seen insts)
      else if v \<in> set seen then Some (KeyDuplicate cfg field v)
      else check_instances cfg field req (Suc i) (v # seen) insts)"

definition checkArrayGroupUnique :: "deploy_item \<Rightarrow> string \<Rightarrow> bool \<Rightarrow> cfg_err option" where
  "checkArrayGroupUnique di fieldName requireNonEmpty =
     check_instances (di_name di) fieldName requireNonEmpty 0 [] (di_items di)"

fun unique_names :: "spec_item \<Rightarrow> string list" where
  "unique_names (SpecItem n t d a k u items) =
     (if u = SpecConfigUniqueApp \<and> n \<noteq> [] then [n] else [])
       @ concat (map (\<lambda>it. case it of None \<Rightarrow> [] | Some s \<Rightarrow> unique_names s) items)"

definition collectAppUniqueNames :: "spec_item option list \<Rightarrow> string list" where
  "collectAppUniqueNames spec = concat (map (\<lambda>it. case it of None \<Rightarrow> [] | Some s \<Rightarrow> unique_names s) spec)"

type_synonym pool = "(string \<times> string list) list"

fun pool_add :: "string \<Rightarrow> string \<Rightarrow> pool \<Rightarrow> pool" where
  "pool_add name v [] = [(name, [v])]"
| "pool_add name v ((n, vs) # p) = (if n = name then (n, vs @ [v]) # p else (n, vs) # pool_add name v p)"

definition record_value :: "string list \<Rightarrow> string \<times> string \<Rightarrow> pool \<Rightarrow> pool" where
  "record_value names nv p = (if fst nv \<noteq> [] \<and> fst nv \<in> set names then pool_add (fst nv) (snd nv) p else p)"

definition name_values :: "deploy_item option list \<Rightarrow> (string \<times> string) list" where
  "name_values items = map (\<lambda>d. (di_name d, di_value d)) (List.map_filter (\<lambda>x. x) items)"

text \<open>The names and values a top-level item contributes, read through its spec field.\<close>

definition scoped_values :: "deploy_item \<Rightarrow> spec_item option \<Rightarrow> (string \<times> string) list" where
  "scoped_values di sf =
     (case sf of
        Some f \<Rightarrow>
          if si_type f = SpecFieldTypeArrayGroup
          then concat (map (\<lambda>inst. name_values (di_items inst)) (List.map_filter (\<lambda>x. x) (di_items di)))
          else if si_type f = SpecFieldTypeGroup then name_values (di_items di)
          else [(di_name di, di_value di)]
      | None \<Rightarrow> [(di_name di, di_value di)])"

definition collectDeployValues :: "string list \<Rightarrow> deploy_item \<Rightarrow> spec_item option \<Rightarrow> pool \<Rightarrow> pool" where
  "collectDeployValues names di sf p = fold (record_value names) (scoped_values di sf) p"

fun distinct_values :: "string \<Rightarrow> string list \<Rightarrow> string list \<Rightarrow> cfg_err option" where
  "distinct_values name seen [] = None"
| "distinct_values name seen (v # vs) =
     (if v = [] then distinct_values name seen vs
      else if v \<in> set seen then Some (AppDuplicate name v)
      else distinct_values name (v # seen) vs)"

definition checkDistinctAppScoped :: "string \<Rightarrow> string list \<Rightarrow> cfg_err option" where
  "checkDistinctAppScoped name vals = distinct_values name [] vals"

fun first_err :: "('a \<Rightarrow> 'e option) \<Rightarrow> 'a list \<Rightarrow> 'e option" where
  "first_err f [] = None"
| "first_err f (x # xs) = (case f x of Some e \<Rightarrow> Some e | None \<Rightarrow> first_err f xs)"

text \<open>The map from names to spec fields; the last field of a name wins.\<close>

definition spec_by_name :: "spec_item option list \<Rightarrow> string \<Rightarrow> spec_item option" where
  "spec_by_name spec name =
     (if name = [] then None else find (\<lambda>f. si_name f = name) (rev (List.map_filter (\<lambda>x. x) spec)))"

definition check_child :: "spec_item \<Rightarrow> deploy_item \<Rightarrow> spec_item option \<Rightarrow> cfg_err option" where
  "check_child sf di child =
     (case child of
        None \<Rightarrow> None
      | Some c \<Rightarrow>
          if si_name c = [] \<or> si_unique c \<noteq> SpecConfigUniqueArrayGroup \<or> si_name c = si_key_item sf then None
          else checkArrayGroupUnique di (si_name c) False)"

definition check_array_group :: "deploy_item option list \<Rightarrow> spec_item option \<Rightarrow> cfg_err option" where
  "check_array_group deploy fld =
     (case fld of
        None \<Rightarrow> None
      | Some sf \<Rightarrow>
          if si_type sf \<noteq> SpecFieldTypeArrayGroup then None
          else case deployConfigItem deploy (si_name sf) of
            None \<Rightarrow> None
          | Some di \<Rightarrow>
              (case (if si_key_item sf \<noteq> [] then checkArrayGroupUnique di (si_key_item sf) True else None) of
                 Some e \<Rightarrow> Some e
               | None \<Rightarrow> first_err (check_child sf di) (si_items sf)))"

definition app_pool :: "spec_item option list \<Rightarrow> deploy_item option list \<Rightarrow> pool" where
  "app_pool spec deploy =
     fold (\<lambda>it p. case it of None \<Rightarrow> p
             | Some di \<Rightarrow> collectDeployValues (collectAppUniqueNames spec) di (spec_by_name spec (di_name di)) p) deploy []"

definition ValidateDeployConfigItems ::
    "nat list \<Rightarrow> spec_item option list \<Rightarrow> deploy_item option list \<Rightarrow> cfg_err option" where
  "ValidateDeployConfigItems picks spec deploy =
     (if spec = [] \<or> deploy = [] then None
      else case first_err (check_array_group deploy) spec of
        Some e \<Rightarrow> Some e
      | None \<Rightarrow>
          if collectAppUniqueNames spec = [] then None
          else first_err (\<lambda>(name, vals). checkDistinctAppScoped name vals) (shuffle picks (app_pool spec deploy)))"

section \<open>What the checks of the deployed values decide\<close>

text \<open>The values that are set; the instances of an array group.\<close>

definition set_values :: "string list \<Rightarrow> string list" where
  "set_values vs = filter (\<lambda>v. v \<noteq> []) vs"

definition instances :: "deploy_item \<Rightarrow> deploy_item list" where
  "instances di = List.map_filter (\<lambda>x. x) (di_items di)"

text \<open>A name is unique in the application when a field of that name, at any depth, says so.\<close>

inductive app_unique :: "spec_item option list \<Rightarrow> string \<Rightarrow> bool" where
  app_unique_here: "Some sf \<in> set spec \<Longrightarrow> si_unique sf = SpecConfigUniqueApp \<Longrightarrow> si_name sf \<noteq> [] \<Longrightarrow> app_unique spec (si_name sf)"
| app_unique_below: "Some sf \<in> set spec \<Longrightarrow> app_unique (si_items sf) name \<Longrightarrow> app_unique spec name"

lemma app_unique_iff:
  "app_unique spec name \<longleftrightarrow> (\<exists>sf. Some sf \<in> set spec \<and>
     ((si_unique sf = SpecConfigUniqueApp \<and> si_name sf \<noteq> [] \<and> name = si_name sf) \<or> app_unique (si_items sf) name))"
  by (subst app_unique.simps) auto

lemma app_unique_one: "(\<exists>sf. Some sf \<in> set spec \<and> app_unique [Some sf] name) \<longleftrightarrow> app_unique spec name"
  unfolding app_unique_iff [of spec] app_unique_iff [of "[Some _]"] by auto

definition app_values :: "spec_item option list \<Rightarrow> deploy_item option list \<Rightarrow> string \<Rightarrow> string list" where
  "app_values spec deploy name =
     map snd (filter (\<lambda>nv. fst nv = name)
       (concat (map (\<lambda>di. scoped_values di (spec_by_name spec (di_name di))) (List.map_filter (\<lambda>x. x) deploy))))"

definition array_group_ok :: "deploy_item option list \<Rightarrow> spec_item \<Rightarrow> bool" where
  "array_group_ok deploy sf \<longleftrightarrow>
     (\<forall>di. deployConfigItem deploy (si_name sf) = Some di \<longrightarrow>
        (si_key_item sf \<noteq> [] \<longrightarrow>
           [] \<notin> set (map (item_value (si_key_item sf)) (instances di)) \<and>
           distinct (map (item_value (si_key_item sf)) (instances di))) \<and>
        (\<forall>c. Some c \<in> set (si_items sf) \<and> si_name c \<noteq> [] \<and> si_unique c = SpecConfigUniqueArrayGroup
             \<and> si_name c \<noteq> si_key_item sf \<longrightarrow>
           distinct (set_values (map (item_value (si_name c)) (instances di)))))"

lemma first_err_None: "first_err f xs = None \<longleftrightarrow> (\<forall>x \<in> set xs. f x = None)"
  by (induction xs) (auto split: option.splits)

lemma some_in_list: "x \<in> set (List.map_filter (\<lambda>x. x) xs) \<longleftrightarrow> Some x \<in> set xs"
  by (simp add: set_map_filter_iff)

lemma map_filter_id_simps [simp]:
  "List.map_filter (\<lambda>x. x) [] = []"
  "List.map_filter (\<lambda>x. x) (None # xs) = List.map_filter (\<lambda>x. x) xs"
  "List.map_filter (\<lambda>x. x) (Some y # xs) = y # List.map_filter (\<lambda>x. x) xs"
  by (simp_all add: map_filter_simps)

lemma check_instances_None:
  "check_instances cfg fld req i seen insts = None \<longleftrightarrow>
     (let vs = map (item_value fld) (List.map_filter (\<lambda>x. x) insts) in
      (req \<longrightarrow> [] \<notin> set vs) \<and> distinct (set_values vs) \<and> set (set_values vs) \<inter> set seen = {})"
  by (induction cfg fld req i seen insts rule: check_instances.induct) (auto simp: Let_def set_values_def)

lemma set_values_all: "[] \<notin> set vs \<Longrightarrow> set_values vs = vs"
  by (induction vs) (auto simp: set_values_def)

lemma checkArrayGroupUnique_None:
  "checkArrayGroupUnique di fld True = None \<longleftrightarrow>
     [] \<notin> set (map (item_value fld) (instances di)) \<and> distinct (map (item_value fld) (instances di))"
  "checkArrayGroupUnique di fld False = None \<longleftrightarrow> distinct (set_values (map (item_value fld) (instances di)))"
  using set_values_all [of "map (item_value fld) (instances di)"]
  by (auto simp: checkArrayGroupUnique_def check_instances_None Let_def instances_def)

lemma check_array_group_None:
  "check_array_group deploy (Some sf) = None \<longleftrightarrow> (si_type sf = SpecFieldTypeArrayGroup \<longrightarrow> array_group_ok deploy sf)"
proof (cases "si_type sf = SpecFieldTypeArrayGroup \<and> deployConfigItem deploy (si_name sf) \<noteq> None")
  case True
  then obtain di where di: "si_type sf = SpecFieldTypeArrayGroup" "deployConfigItem deploy (si_name sf) = Some di" by auto
  have child: "first_err (check_child sf di) (si_items sf) = None \<longleftrightarrow>
      (\<forall>c. Some c \<in> set (si_items sf) \<and> si_name c \<noteq> [] \<and> si_unique c = SpecConfigUniqueArrayGroup
             \<and> si_name c \<noteq> si_key_item sf \<longrightarrow> checkArrayGroupUnique di (si_name c) False = None)"
    by (auto simp: first_err_None check_child_def split: option.splits)
  show ?thesis
    unfolding check_array_group_def array_group_ok_def checkArrayGroupUnique_None [symmetric]
    by (simp add: di child split: option.splits)
next
  case False
  then show ?thesis by (auto simp: check_array_group_def array_group_ok_def)
qed

lemma unique_names_iff: "name \<in> set (unique_names sf) \<longleftrightarrow> app_unique [Some sf] name"
proof (induction sf)
  case (SpecItem n t d a k u items)
  have "name \<in> set (unique_names (SpecItem n t d a k u items)) \<longleftrightarrow>
      (u = SpecConfigUniqueApp \<and> n \<noteq> [] \<and> name = n) \<or> (\<exists>s. Some s \<in> set items \<and> name \<in> set (unique_names s))"
    by (force split: option.splits)
  also have "\<dots> \<longleftrightarrow> (u = SpecConfigUniqueApp \<and> n \<noteq> [] \<and> name = n) \<or> (\<exists>s. Some s \<in> set items \<and> app_unique [Some s] name)"
    using SpecItem by (metis option.set_intros)
  also have "\<dots> \<longleftrightarrow> app_unique [Some (SpecItem n t d a k u items)] name"
    unfolding app_unique_one by (subst app_unique_iff [of "[Some (SpecItem n t d a k u items)]"]) auto
  finally show ?case .
qed

lemma collectAppUniqueNames_iff: "name \<in> set (collectAppUniqueNames spec) \<longleftrightarrow> app_unique spec name"
proof -
  have "name \<in> set (collectAppUniqueNames spec) \<longleftrightarrow> (\<exists>s. Some s \<in> set spec \<and> app_unique [Some s] name)"
    unfolding collectAppUniqueNames_def unique_names_iff [symmetric] by (force split: option.splits)
  also have "\<dots> \<longleftrightarrow> app_unique spec name" by (rule app_unique_one)
  finally show ?thesis .
qed

lemma app_unique_not_empty: "app_unique spec name \<Longrightarrow> name \<noteq> []"
  by (induction rule: app_unique.induct) auto

text \<open>The pool, read as the values recorded under a name.\<close>

definition pool_at :: "pool \<Rightarrow> string \<Rightarrow> string list" where
  "pool_at p name = (case map_of p name of None \<Rightarrow> [] | Some vs \<Rightarrow> vs)"

lemma map_of_pool_add: "map_of (pool_add name v p) = (map_of p)(name \<mapsto> pool_at p name @ [v])"
  by (induction name v p rule: pool_add.induct) (auto simp: pool_at_def fun_eq_iff split: option.splits)

lemma pool_at_add: "pool_at (pool_add name v p) = (pool_at p)(name := pool_at p name @ [v])"
  unfolding pool_at_def map_of_pool_add by auto

lemma distinct_pool_add: "distinct (map fst p) \<Longrightarrow> distinct (map fst (pool_add name v p))"
proof (induction name v p rule: pool_add.induct)
  case (2 name v n vs p)
  have "set (map fst (pool_add name v p)) = insert name (set (map fst p))"
    by (induction name v p rule: pool_add.induct) auto
  with 2 show ?case by auto
qed simp

lemma pool_at_records:
  "pool_at (fold (record_value names) nvs p) name =
     pool_at p name @ (if name \<noteq> [] \<and> name \<in> set names then map snd (filter (\<lambda>nv. fst nv = name) nvs) else [])"
  by (induction nvs arbitrary: p) (auto simp: record_value_def pool_at_add)

lemma distinct_pool_records: "distinct (map fst p) \<Longrightarrow> distinct (map fst (fold (record_value names) nvs p))"
  by (induction nvs arbitrary: p) (auto simp: record_value_def distinct_pool_add)

lemma app_pool_fold:
  "app_pool spec deploy = fold (record_value (collectAppUniqueNames spec))
     (concat (map (\<lambda>di. scoped_values di (spec_by_name spec (di_name di))) (List.map_filter (\<lambda>x. x) deploy))) []"
proof -
  have "fold (\<lambda>it p. case it of None \<Rightarrow> p
             | Some di \<Rightarrow> collectDeployValues names di (spec_by_name spec (di_name di)) p) deploy p0
      = fold (record_value names)
     (concat (map (\<lambda>di. scoped_values di (spec_by_name spec (di_name di))) (List.map_filter (\<lambda>x. x) deploy))) p0" for names p0
    by (induction deploy arbitrary: p0) (auto simp: collectDeployValues_def split: option.splits)
  then show ?thesis unfolding app_pool_def .
qed

lemma app_pool_at:
  "pool_at (app_pool spec deploy) name = (if app_unique spec name then app_values spec deploy name else [])"
  using app_unique_not_empty [of spec name]
  by (auto simp: app_pool_fold pool_at_records collectAppUniqueNames_iff app_values_def)
     (auto simp: pool_at_def)

lemma distinct_values_None:
  "distinct_values name seen vs = None \<longleftrightarrow> distinct (set_values vs) \<and> set (set_values vs) \<inter> set seen = {}"
  by (induction name seen vs rule: distinct_values.induct) (auto simp: set_values_def)

lemma pool_check_iff:
  "first_err (\<lambda>(name, vals). checkDistinctAppScoped name vals) (shuffle picks (app_pool spec deploy)) = None
     \<longleftrightarrow> (\<forall>name. app_unique spec name \<longrightarrow> distinct (set_values (app_values spec deploy name)))"
proof -
  have set_eq: "set (shuffle picks (app_pool spec deploy)) = set (app_pool spec deploy)"
    by (metis mset_shuffle set_mset_mset)
  have dist: "distinct (map fst (app_pool spec deploy))"
    unfolding app_pool_fold by (simp add: distinct_pool_records)
  have "(\<forall>x \<in> set (app_pool spec deploy). case x of (name, vals) \<Rightarrow> distinct (set_values vals)) \<longleftrightarrow>
        (\<forall>name. distinct (set_values (pool_at (app_pool spec deploy) name)))"
    using dist by (auto simp: pool_at_def set_values_def split: option.splits dest: map_of_SomeD)
  then show ?thesis
    unfolding first_err_None set_eq
    by (simp add: checkDistinctAppScoped_def distinct_values_None app_pool_at split_def set_values_def cong: if_cong)
qed

definition demo_spec :: "spec_item option list" where
  "demo_spec =
     [Some (SpecItem ''port'' ''string'' ''3306'' [] [] ''app'' []), None,
      Some (SpecItem ''dbs'' ''array_group'' [] [] ''name'' []
        [Some (SpecItem ''name'' ''string'' [] [] [] [] []), Some (SpecItem ''user'' ''string'' [] [] [] ''array_group'' []),
         Some (SpecItem ''pass'' ''string'' [] ''hexstr_16'' [] [] [])])]"

definition demo_field :: "string \<Rightarrow> string \<Rightarrow> deploy_item option" where
  "demo_field n v = Some (DeployItem n v [] [])"

definition demo_deploy :: "deploy_item option list" where
  "demo_deploy =
     [Some (DeployItem ''dbs'' [] [] [Some (DeployItem [] [] [] [demo_field ''name'' ''a'', demo_field ''user'' ''u'']),
        None, Some (DeployItem [] [] [] [demo_field ''name'' ''b''])])]"



section \<open>Auto-fill\<close>

text \<open>
  What the random sources return: the bytes of the n-th draw (\<open>None\<close> when the source fails) and the n-th
  generated UUID. The number of draws made is threaded through.
\<close>

record rsource =
  rs_bytes :: "nat \<Rightarrow> nat \<Rightarrow> u8 list option"
  rs_uuid :: "nat \<Rightarrow> string"

definition Generate :: "rsource \<Rightarrow> string \<Rightarrow> nat \<Rightarrow> string \<times> nat" where
  "Generate R autoFill n =
     (if autoFill = ''defval'' then ([], n)
      else if autoFill = ''hexstr_32'' then (RandHexString (rs_bytes R n 16), Suc n)
      else if autoFill = ''hexstr_16'' then (RandHexString (rs_bytes R n 8), Suc n)
      else if autoFill = ''uuid'' then (rs_uuid R n, Suc n)
      else ([], n))"

definition GenerateIfEmpty :: "rsource \<Rightarrow> string \<Rightarrow> string \<Rightarrow> nat \<Rightarrow> string \<times> nat" where
  "GenerateIfEmpty R autoFill currentValue n =
     (if currentValue \<noteq> [] then (currentValue, n) else if autoFill = [] then ([], n) else Generate R autoFill n)"

definition configFieldAutoValue :: "rsource \<Rightarrow> spec_item \<Rightarrow> nat \<Rightarrow> string \<times> nat" where
  "configFieldAutoValue R fld n =
     (if si_auto_fill fld \<noteq> [] then
        (case GenerateIfEmpty R (si_auto_fill fld) [] n of
           (val, n') \<Rightarrow> if val \<noteq> [] then (val, n') else if si_default fld \<noteq> [] then (si_default fld, n') else ([], n'))
      else (si_default fld, n))"

text \<open>Apply an update to the first entry of a name.\<close>

fun at_item :: "string \<Rightarrow> (deploy_item \<Rightarrow> deploy_item) \<Rightarrow> deploy_item option list \<Rightarrow> deploy_item option list" where
  "at_item name f [] = []"
| "at_item name f (None # ds) = None # at_item name f ds"
| "at_item name f (Some d # ds) = (if di_name d = name then Some (f d) # ds else Some d # at_item name f ds)"

fun set_value :: "string \<Rightarrow> deploy_item \<Rightarrow> deploy_item" where
  "set_value v (DeployItem n _ t ds) = DeployItem n v t ds"

fun set_items :: "deploy_item option list \<Rightarrow> deploy_item \<Rightarrow> deploy_item" where
  "set_items ds (DeployItem n v t _) = DeployItem n v t ds"

text \<open>
  \<open>resolveFlatConfigField\<close> on the items of a deployment; the body of the loop of
  \<open>resolveChildConfigFields\<close> does the same on the items of a group.
\<close>

definition resolveFlatConfigField ::
    "rsource \<Rightarrow> spec_item \<Rightarrow> deploy_item option list \<times> nat \<Rightarrow> deploy_item option list \<times> nat" where
  "resolveFlatConfigField R fld s =
     (let cur = deployConfigItem (fst s) (si_name fld) in
      if cur \<noteq> None \<and> di_value (the cur) \<noteq> [] then s
      else case configFieldAutoValue R fld (snd s) of
        (val, n) \<Rightarrow>
          if val = [] then (fst s, n)
          else if cur \<noteq> None then (at_item (si_name fld) (set_value val) (fst s), n)
          else (fst s @ [Some (DeployItem (si_name fld) val [] [])], n))"

definition resolveChildConfigFields ::
    "rsource \<Rightarrow> spec_item option list \<Rightarrow> deploy_item option list \<times> nat \<Rightarrow> deploy_item option list \<times> nat" where
  "resolveChildConfigFields R specItems s =
     fold (\<lambda>sf s. case sf of None \<Rightarrow> s | Some f \<Rightarrow> if si_name f = [] then s else resolveFlatConfigField R f s) specItems s"

fun resolve_instances ::
    "rsource \<Rightarrow> spec_item option list \<Rightarrow> deploy_item option list \<Rightarrow> nat \<Rightarrow> deploy_item option list \<times> nat" where
  "resolve_instances R items [] n = ([], n)"
| "resolve_instances R items (None # insts) n = (case resolve_instances R items insts n of (is', n') \<Rightarrow> (None # is', n'))"
| "resolve_instances R items (Some d # insts) n =
     (case resolveChildConfigFields R items (di_items d, n) of
        (ds, n1) \<Rightarrow> case resolve_instances R items insts n1 of (is', n2) \<Rightarrow> (Some (set_items ds d) # is', n2))"

definition resolveGroupedConfigField ::
    "rsource \<Rightarrow> spec_item \<Rightarrow> deploy_item option list \<times> nat \<Rightarrow> deploy_item option list \<times> nat" where
  "resolveGroupedConfigField R fld s =
     (if si_items fld = [] then s
      else case deployConfigItem (fst s) (si_name fld) of
        None \<Rightarrow> s
      | Some d \<Rightarrow>
          (case (if si_type fld = SpecFieldTypeArrayGroup then resolve_instances R (si_items fld) (di_items d) (snd s)
                 else resolveChildConfigFields R (si_items fld) (di_items d, snd s)) of
             (ds, n) \<Rightarrow> (at_item (si_name fld) (set_items ds) (fst s), n)))"

definition resolve_field ::
    "rsource \<Rightarrow> spec_item \<Rightarrow> deploy_item option list \<times> nat \<Rightarrow> deploy_item option list \<times> nat" where
  "resolve_field R fld s =
     (if si_type fld = SpecFieldTypeGroup \<or> si_type fld = SpecFieldTypeArrayGroup
      then resolveGroupedConfigField R fld s else resolveFlatConfigField R fld s)"

definition resolve_configs ::
    "rsource \<Rightarrow> spec_item option list \<Rightarrow> deploy_item option list \<times> nat \<Rightarrow> deploy_item option list \<times> nat" where
  "resolve_configs R spec s =
     fold (\<lambda>sf s. case sf of None \<Rightarrow> s | Some f \<Rightarrow> if si_name f = [] then s else resolve_field R f s) spec s"

section \<open>Auto-fill keeps what is set and settles what is not\<close>

text \<open>
  The items of a list survive in place: names and types are kept, a value that is set is kept, and the
  children survive in the same sense; new items come after them.
\<close>

inductive survives :: "deploy_item \<Rightarrow> deploy_item \<Rightarrow> bool" where
  "v = [] \<or> v' = v \<Longrightarrow> list_all2 (rel_option survives) ds (take (length ds) ds')
    \<Longrightarrow> survives (DeployItem n v t ds) (DeployItem n v' t ds')"
  monos list.rel_mono option.rel_mono

definition kept :: "deploy_item option list \<Rightarrow> deploy_item option list \<Rightarrow> bool" where
  "kept ds ds' \<longleftrightarrow> list_all2 (rel_option survives) ds (take (length ds) ds')"

inductive_simps survives_simp: "survives (DeployItem n v t ds) d'"

lemma survives_iff:
  "survives (DeployItem n v t ds) (DeployItem n' v' t' ds') \<longleftrightarrow> n' = n \<and> t' = t \<and> (v = [] \<or> v' = v) \<and> kept ds ds'"
  by (auto simp: survives_simp kept_def)

lemma survives_refl [simp]: "survives d d"
proof (induction d)
  case (DeployItem n v t ds)
  have "rel_option survives x x" if "x \<in> set ds" for x
    using DeployItem [OF that] by (cases x) auto
  then show ?case by (simp add: survives_iff kept_def list_all2_same)
qed

lemma kept_refl [simp]: "kept ds ds"
  by (auto simp: kept_def list_all2_same intro: option.rel_refl)

lemma kept_nth:
  "kept ds ds' \<longleftrightarrow> length ds \<le> length ds' \<and> (\<forall>i < length ds. rel_option survives (ds ! i) (ds' ! i))"
  by (auto simp: kept_def list_all2_conv_all_nth)

lemma survives_trans: "survives a b \<Longrightarrow> survives b c \<Longrightarrow> survives a c"
proof (induction arbitrary: c rule: survives.induct)
  case (1 v v' ds ds' n t)
  obtain v'' ds'' where c: "c = DeployItem n v'' t ds''" "v' = [] \<or> v'' = v'" "kept ds' ds''"
    using 1(3) by (cases c) (auto simp: survives_iff)
  have ih: "length ds \<le> length ds'" "rel_option (\<lambda>x y. survives x y \<and> (\<forall>z. survives y z \<longrightarrow> survives x z)) (ds ! i) (ds' ! i)"
    if "i < length ds" for i
    using 1(2) that by (auto simp: list_all2_conv_all_nth)
  have len: "length ds \<le> length ds'" using 1(2) by (auto simp: list_all2_conv_all_nth)
  have "rel_option survives (ds ! i) (ds'' ! i)" if i: "i < length ds" for i
  proof -
    have "rel_option survives (ds' ! i) (ds'' ! i)" using c(3) i len by (simp add: kept_nth)
    with ih(2) [OF i] show ?thesis by (cases "ds ! i"; cases "ds' ! i"; cases "ds'' ! i") auto
  qed
  then have "kept ds ds''" using c(3) len by (simp add: kept_nth)
  then show ?case using 1(1) c by (auto simp: survives_iff)
qed

lemma kept_trans: "kept ds ds' \<Longrightarrow> kept ds' ds'' \<Longrightarrow> kept ds ds''"
  using survives_iff [of "[]" "[]" "[]" ds "[]" "[]" "[]" ds'] survives_iff [of "[]" "[]" "[]" ds' "[]" "[]" "[]" ds'']
    survives_iff [of "[]" "[]" "[]" ds "[]" "[]" "[]" ds''] survives_trans by blast

lemma kept_Cons: "kept (x # ds) (y # ds') \<longleftrightarrow> rel_option survives x y \<and> kept ds ds'"
  by (simp add: kept_def)

lemma kept_append: "kept ds (ds @ ds')"
  by (simp add: kept_nth nth_append option.rel_refl)

text \<open>The first entry of a name and the update at it.\<close>

lemma deployConfigItem_simps [simp]:
  "deployConfigItem [] name = None"
  "deployConfigItem (None # ds) name = deployConfigItem ds name"
  "deployConfigItem (Some d # ds) name = (if di_name d = name then Some d else deployConfigItem ds name)"
  by (simp_all add: deployConfigItem_def)

lemma deployConfigItem_append:
  "deployConfigItem (ds @ ds') name = (case deployConfigItem ds name of None \<Rightarrow> deployConfigItem ds' name | Some d \<Rightarrow> Some d)"
  by (induction ds rule: at_item.induct) auto

lemma set_value_sel [simp]: "di_name (set_value v d) = di_name d" "di_value (set_value v d) = v"
    "di_items (set_value v d) = di_items d"
  by (cases d; simp)+

lemma set_items_sel [simp]: "di_name (set_items ds d) = di_name d" "di_value (set_items ds d) = di_value d"
    "di_items (set_items ds d) = ds" "set_items (di_items d) d = d"
  by (cases d; simp)+

lemma at_item_find:
  assumes "\<And>d. di_name (f d) = di_name d"
  shows "deployConfigItem (at_item name f ds) k =
    (if k = name then map_option f (deployConfigItem ds k) else deployConfigItem ds k)"
  using assms by (induction name f ds rule: at_item.induct) auto

lemma at_item_kept:
  "(\<And>d. deployConfigItem ds name = Some d \<Longrightarrow> survives d (f d)) \<Longrightarrow> kept ds (at_item name f ds)"
  by (induction name f ds rule: at_item.induct) (auto simp: kept_Cons)

lemma at_item_same: "(\<And>d. deployConfigItem ds name = Some d \<Longrightarrow> f d = d) \<Longrightarrow> at_item name f ds = ds"
  by (induction name f ds rule: at_item.induct) auto

lemma set_value_survives: "di_value d = [] \<Longrightarrow> survives d (set_value v d)"
  by (cases d) (simp add: survives_iff)

lemma set_items_survives: "kept (di_items d) ds \<Longrightarrow> survives d (set_items ds d)"
  by (cases d) (simp add: survives_iff)

lemma flat_kept: "kept (fst s) (fst (resolveFlatConfigField R fld s))"
  by (auto simp: resolveFlatConfigField_def Let_def kept_append intro!: at_item_kept set_value_survives split: prod.splits)

lemma fold_kept: "(\<And>x s. x \<in> set xs \<Longrightarrow> kept (fst s) (fst (f x s))) \<Longrightarrow> kept (fst s) (fst (fold f xs s))"
proof (induction xs arbitrary: s)
  case (Cons x xs)
  have "kept (fst s) (fst (f x s))" "kept (fst (f x s)) (fst (fold f xs (f x s)))"
    using Cons.prems by (auto intro!: Cons.IH)
  then show ?case by (auto intro: kept_trans)
qed simp

lemma child_kept: "kept (fst s) (fst (resolveChildConfigFields R items s))"
  unfolding resolveChildConfigFields_def by (rule fold_kept) (auto simp: flat_kept split: option.splits)

lemma instances_kept: "kept insts (fst (resolve_instances R items insts n))"
proof (induction R items insts n rule: resolve_instances.induct)
  case (3 R items d insts n)
  obtain ds n1 where c: "resolveChildConfigFields R items (di_items d, n) = (ds, n1)" by (cases "resolveChildConfigFields R items (di_items d, n)")
  have "kept (di_items d) ds" using child_kept [of "(di_items d, n)" R items] c by simp
  then show ?case using 3 [OF c [symmetric]] c by (auto simp: kept_Cons set_items_survives split: prod.splits)
qed (auto simp: kept_Cons split: prod.splits)

definition group_items :: "rsource \<Rightarrow> spec_item \<Rightarrow> deploy_item option list \<Rightarrow> nat \<Rightarrow> deploy_item option list \<times> nat" where
  "group_items R fld ds n =
     (if si_type fld = SpecFieldTypeArrayGroup then resolve_instances R (si_items fld) ds n
      else resolveChildConfigFields R (si_items fld) (ds, n))"

lemma grouped_eq:
  "resolveGroupedConfigField R fld s =
     (case deployConfigItem (fst s) (si_name fld) of
        Some d \<Rightarrow>
          if si_items fld = [] then s
          else (at_item (si_name fld) (set_items (fst (group_items R fld (di_items d) (snd s)))) (fst s),
                snd (group_items R fld (di_items d) (snd s)))
      | None \<Rightarrow> s)"
  by (auto simp: resolveGroupedConfigField_def group_items_def split: option.splits prod.splits)

lemma group_items_kept: "kept ds (fst (group_items R fld ds n))"
  using child_kept [of "(ds, n)"] by (simp add: group_items_def instances_kept)

lemma grouped_kept: "kept (fst s) (fst (resolveGroupedConfigField R fld s))"
  unfolding grouped_eq by (auto split: option.splits intro!: at_item_kept set_items_survives group_items_kept)

lemma resolve_configs_kept: "kept (fst s) (fst (resolve_configs R spec s))"
  unfolding resolve_configs_def
  by (rule fold_kept) (auto simp: resolve_field_def flat_kept grouped_kept split: option.splits)

text \<open>A random source that delivers, and the fields for which a value can be derived.\<close>

definition reliable :: "rsource \<Rightarrow> bool" where
  "reliable R \<longleftrightarrow> (\<forall>n k. \<exists>bs. rs_bytes R n k = Some bs \<and> length bs = k) \<and> (\<forall>n. rs_uuid R n \<noteq> [])"

definition derivable :: "spec_item \<Rightarrow> bool" where
  "derivable fld \<longleftrightarrow> si_auto_fill fld \<in> {''hexstr_32'', ''hexstr_16'', ''uuid''} \<or> si_default fld \<noteq> []"

lemma rand_not_empty: "reliable R \<Longrightarrow> k > 0 \<Longrightarrow> RandHexString (rs_bytes R n k) \<noteq> []"
proof -
  assume "reliable R" "k > 0"
  then obtain bs where bs: "rs_bytes R n k = Some bs" "length bs = k" unfolding reliable_def by blast
  then have "length (hex_encode bs) = 2 * k" by (simp add: hex_encode_length)
  then show ?thesis using bs(1) \<open>k > 0\<close> by (auto simp: RandHexString_def)
qed

lemma auto_value_derivable: "reliable R \<Longrightarrow> derivable fld \<Longrightarrow> fst (configFieldAutoValue R fld n) \<noteq> []"
  using rand_not_empty [of R 16 n] rand_not_empty [of R 8 n]
  by (auto simp: configFieldAutoValue_def derivable_def GenerateIfEmpty_def Generate_def reliable_def split: prod.splits if_splits)

lemma auto_value_none: "\<not> derivable fld \<Longrightarrow> configFieldAutoValue R fld n = ([], n)"
  by (auto simp: configFieldAutoValue_def derivable_def GenerateIfEmpty_def Generate_def)

definition settled :: "spec_item \<Rightarrow> deploy_item option list \<Rightarrow> bool" where
  "settled fld ds \<longleftrightarrow> derivable fld \<longrightarrow> (\<exists>d. deployConfigItem ds (si_name fld) = Some d \<and> di_value d \<noteq> [])"

definition children_settled :: "spec_item option list \<Rightarrow> deploy_item option list \<Rightarrow> bool" where
  "children_settled items ds \<longleftrightarrow> (\<forall>f. Some f \<in> set items \<and> si_name f \<noteq> [] \<longrightarrow> settled f ds)"

definition group_settled :: "spec_item \<Rightarrow> deploy_item option list \<Rightarrow> bool" where
  "group_settled fld ds \<longleftrightarrow>
     (if si_type fld = SpecFieldTypeArrayGroup then \<forall>d. Some d \<in> set ds \<longrightarrow> children_settled (si_items fld) (di_items d)
      else children_settled (si_items fld) ds)"

definition field_settled :: "spec_item \<Rightarrow> deploy_item option list \<Rightarrow> bool" where
  "field_settled fld ds \<longleftrightarrow>
     (if si_type fld = SpecFieldTypeGroup \<or> si_type fld = SpecFieldTypeArrayGroup
      then \<forall>d. deployConfigItem ds (si_name fld) = Some d \<longrightarrow> group_settled fld (di_items d)
      else settled fld ds)"

lemma kept_find:
  "kept ds ds' \<Longrightarrow> deployConfigItem ds name = Some d \<Longrightarrow> \<exists>d'. deployConfigItem ds' name = Some d' \<and> survives d d'"
proof (induction ds arbitrary: ds')
  case (Cons x ds)
  from Cons.prems(1) obtain y es where ds': "ds' = y # es" by (cases ds') (auto simp: kept_def)
  have xy: "rel_option survives x y" and k: "kept ds es" using Cons.prems(1) unfolding ds' by (simp_all add: kept_Cons)
  have "di_name b = di_name a" if "survives a b" for a b using that by (cases a; cases b) (simp add: survives_iff)
  then show ?case using xy Cons.prems(2) Cons.IH [OF k] unfolding ds' by (cases x; cases y) (auto split: if_splits)
qed simp

lemma settled_kept: "settled fld ds \<Longrightarrow> kept ds ds' \<Longrightarrow> settled fld ds'"
proof -
  assume s: "settled fld ds" and k: "kept ds ds'"
  have "di_value b \<noteq> []" if "survives a b" "di_value a \<noteq> []" for a b
    using that by (cases a; cases b) (auto simp: survives_iff)
  with s kept_find [OF k] show ?thesis unfolding settled_def by metis
qed

lemma flat_settles:
  assumes "reliable R" shows "settled fld (fst (resolveFlatConfigField R fld s))"
proof (cases "derivable fld")
  case True
  obtain val n where v: "configFieldAutoValue R fld (snd s) = (val, n)" "val \<noteq> []"
    using auto_value_derivable [OF assms True, of "snd s"] by (metis prod.exhaust fst_conv)
  show ?thesis
    by (auto simp: settled_def resolveFlatConfigField_def Let_def v at_item_find deployConfigItem_append)
qed (simp add: settled_def)

lemma flat_noop: "settled fld (fst s) \<Longrightarrow> resolveFlatConfigField R fld s = s"
  by (cases "derivable fld") (auto simp: settled_def resolveFlatConfigField_def Let_def auto_value_none)

lemma fold_noop: "(\<And>x. x \<in> set xs \<Longrightarrow> f x s = s) \<Longrightarrow> fold f xs s = s"
  by (induction xs) auto

lemma child_noop: "children_settled items (fst s) \<Longrightarrow> resolveChildConfigFields R items s = s"
  unfolding resolveChildConfigFields_def
  by (rule fold_noop) (auto simp: children_settled_def intro!: flat_noop split: option.splits)

lemma child_settles:
  assumes "reliable R" shows "children_settled items (fst (resolveChildConfigFields R items s))"
proof (induction items arbitrary: s)
  case (Cons it items)
  let ?s1 = "case it of None \<Rightarrow> s | Some f \<Rightarrow> if si_name f = [] then s else resolveFlatConfigField R f s"
  have eq: "resolveChildConfigFields R (it # items) s = resolveChildConfigFields R items ?s1"
    by (simp add: resolveChildConfigFields_def)
  have "settled f (fst (resolveChildConfigFields R items ?s1))" if "it = Some f" "si_name f \<noteq> []" for f
    using flat_settles [OF assms, of f s] child_kept [of ?s1 R items] that by (auto intro: settled_kept)
  then show ?case using Cons.IH [of ?s1] unfolding eq children_settled_def by auto
qed (simp add: children_settled_def)

lemma instances_settle:
  assumes "reliable R"
  shows "Some d \<in> set (fst (resolve_instances R items insts n)) \<Longrightarrow> children_settled items (di_items d)"
  using child_settles [OF assms, of items]
  by (induction R items insts n rule: resolve_instances.induct) (auto split: prod.splits, metis fst_conv)

lemma instances_noop:
  "(\<And>d. Some d \<in> set insts \<Longrightarrow> children_settled items (di_items d)) \<Longrightarrow> resolve_instances R items insts n = (insts, n)"
  by (induction R items insts n rule: resolve_instances.induct) (simp_all add: child_noop)

lemma group_settles: "reliable R \<Longrightarrow> group_settled fld (fst (group_items R fld ds n))"
  by (auto simp: group_settled_def group_items_def child_settles intro: instances_settle)

lemma group_noop: "group_settled fld ds \<Longrightarrow> group_items R fld ds n = (ds, n)"
  by (auto simp: group_settled_def group_items_def child_noop intro!: instances_noop split: if_splits)

lemma group_settled_no_items: "si_items fld = [] \<Longrightarrow> group_settled fld ds"
  by (simp add: group_settled_def children_settled_def)

lemma field_settles: "reliable R \<Longrightarrow> field_settled fld (fst (resolve_field R fld s))"
  by (auto simp: field_settled_def resolve_field_def grouped_eq flat_settles at_item_find group_settles
      group_settled_no_items split: option.splits)

lemma at_item_set_same: "deployConfigItem ds name = Some d \<Longrightarrow> at_item name (set_items (di_items d)) ds = ds"
  by (rule at_item_same) simp

lemma field_noop: "field_settled fld (fst s) \<Longrightarrow> resolve_field R fld s = s"
  by (cases s)
     (auto simp: field_settled_def resolve_field_def grouped_eq flat_noop group_noop at_item_set_same split: option.splits if_splits)

lemma field_other: "k \<noteq> si_name fld \<Longrightarrow> deployConfigItem (fst (resolve_field R fld s)) k = deployConfigItem (fst s) k"
  by (auto simp: resolve_field_def grouped_eq resolveFlatConfigField_def Let_def at_item_find deployConfigItem_append
      split: option.splits prod.splits)

lemma field_settled_other:
  "field_settled f (fst s) \<Longrightarrow> si_name f \<noteq> si_name fld \<Longrightarrow> field_settled f (fst (resolve_field R fld s))"
  by (simp add: field_settled_def settled_def field_other cong: if_cong)

definition field_names :: "spec_item option list \<Rightarrow> string list" where
  "field_names spec = map si_name (filter (\<lambda>f. si_name f \<noteq> []) (List.map_filter (\<lambda>x. x) spec))"

lemma resolve_configs_Cons:
  "resolve_configs R (it # spec) s =
     resolve_configs R spec (case it of None \<Rightarrow> s | Some f \<Rightarrow> if si_name f = [] then s else resolve_field R f s)"
  by (simp add: resolve_configs_def)

lemma resolve_configs_other:
  "si_name f \<noteq> [] \<Longrightarrow> si_name f \<notin> set (field_names spec) \<Longrightarrow> field_settled f (fst s)
    \<Longrightarrow> field_settled f (fst (resolve_configs R spec s))"
proof (induction spec arbitrary: s)
  case (Cons it spec)
  show ?case unfolding resolve_configs_Cons
    using Cons.prems
    by (intro Cons.IH) (auto simp: field_names_def image_iff intro!: field_settled_other split: option.splits if_splits)
qed (simp add: resolve_configs_def)

lemma resolve_configs_settles:
  assumes "reliable R"
  shows "distinct (field_names spec) \<Longrightarrow> Some f \<in> set spec \<Longrightarrow> si_name f \<noteq> []
    \<Longrightarrow> field_settled f (fst (resolve_configs R spec s))"
proof (induction spec arbitrary: s)
  case (Cons it spec)
  show ?case
  proof (cases "Some f \<in> set spec")
    case True
    then show ?thesis unfolding resolve_configs_Cons using Cons.prems
      by (intro Cons.IH) (auto simp: field_names_def split: option.splits if_splits)
  next
    case False
    then have it: "it = Some f" using Cons.prems by auto
    then have "si_name f \<notin> set (field_names spec)" using Cons.prems by (simp add: field_names_def)
    then show ?thesis using Cons.prems it field_settles [OF assms]
      by (simp add: resolve_configs_Cons resolve_configs_other)
  qed
qed simp

lemma resolve_configs_noop:
  "(\<And>f. Some f \<in> set spec \<Longrightarrow> si_name f \<noteq> [] \<Longrightarrow> field_settled f (fst s)) \<Longrightarrow> resolve_configs R spec s = s"
  unfolding resolve_configs_def by (rule fold_noop) (auto intro!: field_noop split: option.splits)

definition demo_source :: rsource where
  "demo_source = \<lparr>rs_bytes = (\<lambda>n k. Some (replicate k (of_nat n))), rs_uuid = (\<lambda>_. ''u'')\<rparr>"

lemma demo_source_reliable: "reliable demo_source"
  by (simp add: reliable_def demo_source_def)

text \<open>
  C33: Resolving the configuration of an instance keeps every item in place with its name, type and every
  value that is set, at all depths. When the random source delivers and no two top-level fields share a name,
  every field for which a value can be derived then has one (the fields of a group and of each instance of an
  array group included), so that resolving again, on a later update and with other random numbers, draws
  nothing and changes nothing.
\<close>

theorem config_autofill_stable:
  assumes R: "reliable R" and names: "distinct (field_names spec)" and r: "resolve_configs R spec (ds, n) = (ds', n')"
  shows "kept ds ds' \<and> (\<forall>f. Some f \<in> set spec \<and> si_name f \<noteq> [] \<longrightarrow> field_settled f ds')
    \<and> resolve_configs R' spec (ds', k) = (ds', k)"
proof (intro conjI)
  show "kept ds ds'" using resolve_configs_kept [of "(ds, n)" R spec] r by simp
  show all: "\<forall>f. Some f \<in> set spec \<and> si_name f \<noteq> [] \<longrightarrow> field_settled f ds'"
    using resolve_configs_settles [OF R names, of _ "(ds, n)"] r by simp
  show "resolve_configs R' spec (ds', k) = (ds', k)"
    using all by (intro resolve_configs_noop) simp
qed

theorem config_autofill_stable_witness:
  "resolve_configs demo_source demo_spec (demo_deploy, 5) =
     ([Some (DeployItem ''dbs'' [] [] [Some (DeployItem [] [] [] [demo_field ''name'' ''a'', demo_field ''user'' ''u'',
          demo_field ''pass'' ''0505050505050505'']), None,
        Some (DeployItem [] [] [] [demo_field ''name'' ''b'', demo_field ''pass'' ''0606060606060606''])]),
      demo_field ''port'' ''3306''], 7)
   \<and> snd (resolve_configs demo_source demo_spec (fst (resolve_configs demo_source demo_spec (demo_deploy, 5)), 7)) = 7"
proof -
  have v: "resolve_configs demo_source demo_spec (demo_deploy, 5) =
     ([Some (DeployItem ''dbs'' [] [] [Some (DeployItem [] [] [] [demo_field ''name'' ''a'', demo_field ''user'' ''u'',
          demo_field ''pass'' ''0505050505050505'']), None,
        Some (DeployItem [] [] [] [demo_field ''name'' ''b'', demo_field ''pass'' ''0606060606060606''])]),
      demo_field ''port'' ''3306''], 7)"
    by code_simp
  have d: "distinct (field_names demo_spec)" by code_simp
  show ?thesis using config_autofill_stable [OF demo_source_reliable d v, of demo_source 7] v by simp
qed

text \<open>
  The values are checked before the defaults are filled in: a child declared unique in its group that has a
  default passes the check with two unset values and ends with two equal ones.
\<close>

definition dup_spec :: "spec_item option list" where
  "dup_spec = [Some (SpecItem ''dbs'' ''array_group'' [] [] ''name'' []
     [Some (SpecItem ''name'' ''string'' [] [] [] [] []), Some (SpecItem ''user'' ''string'' ''root'' [] [] ''array_group'' [])])]"

definition dup_deploy :: "deploy_item option list" where
  "dup_deploy = [Some (DeployItem ''dbs'' [] [] [Some (DeployItem [] [] [] [demo_field ''name'' ''a'']),
     Some (DeployItem [] [] [] [demo_field ''name'' ''b''])])]"

lemma autofill_after_check:
  "ValidateDeployConfigItems [] dup_spec dup_deploy = None"
  "ValidateDeployConfigItems [] dup_spec (fst (resolve_configs demo_source dup_spec (dup_deploy, 0)))
     = Some (KeyDuplicate ''dbs'' ''user'' ''root'')"
  by code_simp+

text \<open>
  A field passes the schema check exactly when its name is set, the names of its children are set and distinct
  and the children pass, its uniqueness scope is a known one, and a group has items and an array group a key
  item among them.
\<close>

inductive field_wf :: "spec_item \<Rightarrow> bool" where
  "si_name f \<noteq> [] \<Longrightarrow> (\<forall>c. Some c \<in> set (si_items f) \<longrightarrow> si_name c \<noteq> [] \<and> field_wf c)
    \<Longrightarrow> distinct (map si_name (List.map_filter (\<lambda>x. x) (si_items f)))
    \<Longrightarrow> check_structure f = None \<Longrightarrow> field_wf f"

lemma validate_wf:
  "validate_field f = None \<longleftrightarrow> field_wf f"
  "validate_subs n names items = None \<longleftrightarrow>
     (\<forall>c. Some c \<in> set items \<longrightarrow> si_name c \<noteq> [] \<and> si_name c \<notin> set names \<and> field_wf c)
     \<and> distinct (map si_name (List.map_filter (\<lambda>x. x) items))"
proof (induction f and n names items rule: validate_field_validate_subs.induct)
  case (1 n t d a k u items)
  then show ?case by (subst field_wf.simps) (auto split: option.splits)
next
  case (4 n names sub items)
  have "si_name sub \<in> si_name ` set (List.map_filter (\<lambda>x. x) items) \<longleftrightarrow> (\<exists>c. Some c \<in> set items \<and> si_name c = si_name sub)"
    unfolding image_iff Bex_def some_in_list by metis
  with 4 show ?case by (auto split: option.splits if_splits)
qed auto

end
