(* ===== verification/Quantity.thy ===== *)
theory Quantity
  imports Float64
begin

text \<open>
  The resource quantities of a spec (\<open>inutil/cpu.go\<close>, \<open>inutil/bytes.go\<close>). The parsers compute in
  \<open>float64\<close>: at most two decimals are read, as a digit divided by 10 and by 100, so every value they
  reach is a multiple of 2^(-59) and is held here as that multiple, rounded to 53 significant bits after each
  operation (no fused multiply-add). A value too large for \<open>float64\<close> only converts to the smallest
  \<open>int64\<close>, as does infinity. The strings are ASCII.
\<close>

definition fx :: "int \<Rightarrow> int" where
  "fx n = n * 2 ^ 59"

text \<open>The quotient of two integers as a float.\<close>

definition fdiv :: "int \<Rightarrow> int \<Rightarrow> int" where
  "fdiv n d =
     (let m = fx n; e = bitlen (m div d) - 53; u = d * 2 ^ e; q = m div u; r = m mod u in
      if 2 * r < u \<or> (2 * r = u \<and> even q) then q * 2 ^ e else (q + 1) * 2 ^ e)"

definition to_int64 :: "int \<Rightarrow> int" where
  "to_int64 v = f2i (v div 2 ^ 59)"

definition is_space :: "char \<Rightarrow> bool" where
  "is_space c \<longleftrightarrow> c \<in> {CHR 0x09, CHR 0x0A, CHR 0x0B, CHR 0x0C, CHR 0x0D, CHR '' ''}"

definition TrimSpace :: "string \<Rightarrow> string" where
  "TrimSpace s = rev (dropWhile is_space (rev (dropWhile is_space s)))"

definition lower_char :: "char \<Rightarrow> char" where
  "lower_char c = (let n = (of_char c :: nat) in if 65 \<le> n \<and> n \<le> 90 then char_of (n + 32) else c)"

text \<open>\<open>strings.ToLower\<close>; the mapping of text beyond ASCII is an argument.\<close>

definition ToLower :: "(string \<Rightarrow> string) \<Rightarrow> string \<Rightarrow> string" where
  "ToLower beyond s = (if \<forall>c \<in> set s. (of_char c :: nat) < 128 then map lower_char s else beyond s)"

text \<open>One more digit, in the integral part or, while \<open>dv\<close> counts, in the decimals.\<close>

definition push_digit :: "nat \<Rightarrow> int \<times> int \<Rightarrow> int \<times> int" where
  "push_digit d s =
     (case s of (value, dv) \<Rightarrow>
        if dv > 0 then (if dv \<le> 100 then (rnd53 (value + fdiv (int d) dv), dv * 10) else (value, dv))
        else (rnd53 (rnd53 (value * 10) + fx (int d)), dv))"

fun cpu_loop :: "string \<Rightarrow> int \<times> int \<Rightarrow> int option" where
  "cpu_loop [] s = Some (to_int64 (rnd53 (fst s * 1000)))"
| "cpu_loop (c # cs) s =
     (if is_digit c then cpu_loop cs (push_digit (digit_val c) s)
      else if c = CHR '','' then cpu_loop cs s
      else if c = CHR ''.'' then (if snd s > 0 then None else cpu_loop cs (fst s, 10))
      else if c = CHR ''m'' then Some (to_int64 (fst s))
      else None)"

definition ParseCPUs :: "string \<Rightarrow> int option" where
  "ParseCPUs s = cpu_loop (TrimSpace s) (0, 0)"

definition byteSizeMap :: "(string \<times> int) list" where
  "byteSizeMap =
     [([], 1), (''b'', 1),
      (''kib'', 1024), (''mib'', 1024 ^ 2), (''gib'', 1024 ^ 3), (''tib'', 1024 ^ 4), (''pib'', 1024 ^ 5), (''eib'', 1024 ^ 6),
      (''ki'', 1024), (''mi'', 1024 ^ 2), (''gi'', 1024 ^ 3), (''ti'', 1024 ^ 4), (''pi'', 1024 ^ 5), (''ei'', 1024 ^ 6),
      (''kb'', 1000), (''mb'', 1000 ^ 2), (''gb'', 1000 ^ 3), (''tb'', 1000 ^ 4), (''pb'', 1000 ^ 5), (''eb'', 1000 ^ 6),
      (''k'', 1000), (''m'', 1000 ^ 2), (''g'', 1000 ^ 3), (''t'', 1000 ^ 4), (''p'', 1000 ^ 5), (''e'', 1000 ^ 6)]"

fun byte_loop :: "string \<Rightarrow> int \<times> int \<Rightarrow> int option" where
  "byte_loop [] s = Some (to_int64 (rnd53 (fst s * 1)))"
| "byte_loop (c # cs) s =
     (if is_digit c then byte_loop cs (push_digit (digit_val c) s)
      else if c = CHR '','' then byte_loop cs s
      else if c = CHR ''.'' then (if snd s > 0 then None else byte_loop cs (fst s, 10))
      else case map_of byteSizeMap (TrimSpace (map lower_char (c # cs))) of
        Some u \<Rightarrow> Some (to_int64 (rnd53 (fst s * u)))
      | None \<Rightarrow> None)"

definition ParseBytes :: "string \<Rightarrow> int option" where
  "ParseBytes s = byte_loop (TrimSpace s) (0, 0)"

section \<open>Whole numbers are read exactly\<close>

lemma bitlen_scale: "0 < n \<Longrightarrow> bitlen (n * 2 ^ k) = bitlen n + k"
proof (induction k)
  case (Suc k)
  have "bitlen (n * 2 ^ Suc k) = Suc (bitlen (n * 2 ^ k))"
    using Suc.prems by (subst bitlen.simps) (simp add: not_le mult.left_commute mult.commute)
  then show ?case using Suc by simp
qed simp

lemma rnd53_fx:
  assumes "0 \<le> n" "n < 2 ^ 53" shows "rnd53 (fx n) = fx n"
proof (cases "n = 0")
  case False
  then have "bitlen (fx n) = bitlen n + 59" unfolding fx_def using assms by (intro bitlen_scale) simp
  then have e: "bitlen (fx n) - 53 \<le> 59" using bitlen_le [of n 53] assms by simp
  define k where "k = bitlen (fx n) - 53"
  have "fx n = (n * 2 ^ (59 - k)) * 2 ^ k" unfolding fx_def using e by (simp add: k_def power_add [symmetric])
  then have "fx n mod 2 ^ k = 0" "fx n div 2 ^ k * 2 ^ k = fx n"
    by (metis mod_mult_self2_is_0) (metis \<open>fx n = n * 2 ^ (59 - k) * 2 ^ k\<close> nonzero_mult_div_cancel_right power_not_zero zero_neq_numeral)
  moreover have "0 \<le> fx n" using assms by (simp add: fx_def)
  ultimately show ?thesis by (simp add: rnd53_def rnd53n_def Let_def k_def [symmetric] del: mod_eq_0_iff_dvd)
qed (simp add: fx_def rnd53_def rnd53n_def bitlen.simps Let_def)

lemma fx_arith: "fx a * 10 = fx (a * 10)" "fx a + fx b = fx (a + b)" "fx a * 1000 = fx (a * 1000)"
  by (simp_all add: fx_def algebra_simps)

lemma push_digit_whole:
  "d < 10 \<Longrightarrow> 10 * n + int d < 2 ^ 53 \<Longrightarrow> 0 \<le> n \<Longrightarrow> push_digit d (fx n, 0) = (fx (10 * n + int d), 0)"
  using rnd53_fx [of "n * 10"] rnd53_fx [of "n * 10 + int d"]
  by (simp add: push_digit_def fx_arith mult.commute)

text \<open>The digits of a number leave its value in the loop, so a whole number of cores or of bytes is read exactly.\<close>

definition digits_value :: "int \<Rightarrow> string \<Rightarrow> int" where
  "digits_value n ds = foldl (\<lambda>n c. 10 * n + int (digit_val c)) n ds"

lemma digits_value_mono: "0 \<le> n \<Longrightarrow> n \<le> digits_value n ds"
proof (induction ds arbitrary: n)
  case (Cons c ds)
  have "n \<le> 10 * n + int (digit_val c)" using Cons.prems by simp
  also have "\<dots> \<le> digits_value (10 * n + int (digit_val c)) ds" using Cons.prems by (intro Cons.IH) simp
  finally show ?case by (simp add: digits_value_def)
qed (simp add: digits_value_def)

lemma digit_val_less: "is_digit c \<Longrightarrow> digit_val c < 10"
  by (auto simp: is_digit_def digit_val_def)

lemma loop_digits:
  assumes "\<And>c cs s. is_digit c \<Longrightarrow> loop (c # cs) s = loop cs (push_digit (digit_val c) s)"
  shows "list_all is_digit ds \<Longrightarrow> 0 \<le> n \<Longrightarrow> digits_value n ds < 2 ^ 53 \<Longrightarrow> loop (ds @ cs) (fx n, 0) = loop cs (fx (digits_value n ds), 0)"
proof (induction ds arbitrary: n)
  case (Cons c ds)
  let ?m = "10 * n + int (digit_val c)"
  have dv: "digits_value n (c # ds) = digits_value ?m ds" by (simp add: digits_value_def)
  have "?m < 2 ^ 53" using digits_value_mono [of ?m ds] Cons.prems unfolding dv by simp
  then have "push_digit (digit_val c) (fx n, 0) = (fx ?m, 0)"
    using Cons.prems digit_val_less [of c] by (intro push_digit_whole) auto
  then have "loop ((c # ds) @ cs) (fx n, 0) = loop (ds @ cs) (fx ?m, 0)" using assms [of c] Cons.prems by simp
  also have "\<dots> = loop cs (fx (digits_value ?m ds), 0)" using Cons.prems unfolding dv by (intro Cons.IH) auto
  finally show ?case unfolding dv .
qed (simp add: digits_value_def)

lemma digits_value_read: "digits_value 0 ds = int (read_nat ds)"
proof -
  have "digits_value (int n) ds = int (foldl (\<lambda>acc c. acc * 10 + digit_val c) n ds)" for n
  proof (induction ds arbitrary: n)
    case (Cons c ds)
    have "10 * int n + int (digit_val c) = int (n * 10 + digit_val c)" by simp
    then show ?case using Cons.IH [of "n * 10 + digit_val c"] by (simp only: digits_value_def foldl_Cons)
  qed (simp add: digits_value_def)
  from this [of 0] show ?thesis by (simp add: read_nat_def)
qed

lemma TrimSpace_id: "s \<noteq> [] \<Longrightarrow> \<not> is_space (hd s) \<Longrightarrow> \<not> is_space (last s) \<Longrightarrow> TrimSpace s = s"
proof -
  assume s: "s \<noteq> []" "\<not> is_space (hd s)" "\<not> is_space (last s)"
  then have "dropWhile is_space s = s" by (cases s) auto
  moreover have "dropWhile is_space (rev s) = rev s" using s by (cases s rule: rev_cases) auto
  ultimately show ?thesis by (simp add: TrimSpace_def)
qed

lemma digit_not_space: "is_digit c \<Longrightarrow> \<not> is_space c"
  by (auto simp: is_digit_def is_space_def)

lemma whole_trim:
  "\<not> is_space (last u) \<Longrightarrow> TrimSpace (show_nat n @ u) = show_nat n @ u"
proof -
  assume u: "\<not> is_space (last u)"
  have d: "\<forall>c \<in> set (show_nat n). \<not> is_space c" using show_nat_digits [of n] digit_not_space by blast
  then have "\<not> is_space (hd (show_nat n @ u))" "\<not> is_space (last (show_nat n @ u))"
    using u show_nat_nonempty [of n] by (auto simp: last_append hd_append)
  then show ?thesis by (intro TrimSpace_id) simp_all
qed

lemma to_int64_fx: "in_i64 n \<Longrightarrow> to_int64 (fx n) = n"
  by (simp add: to_int64_def fx_def f2i_def)

lemma ParseCPUs_milli:
  assumes "n < 2 ^ 53" shows "ParseCPUs (show_nat n @ ''m'') = Some (int n)"
proof -
  have b: "digits_value 0 (show_nat n) < 2 ^ 53" using assms by (simp add: digits_value_read)
  have "cpu_loop (show_nat n @ ''m'') (fx 0, 0) = cpu_loop ''m'' (fx (digits_value 0 (show_nat n)), 0)"
    using b show_nat_digits [of n] by (intro loop_digits) (auto simp: list_all_iff)
  moreover have "TrimSpace (show_nat n @ ''m'') = show_nat n @ ''m''" by (rule whole_trim) (simp add: is_space_def)
  moreover have "in_i64 (int n)" using assms by (simp add: in_i64_def)
  ultimately show ?thesis
    by (simp add: ParseCPUs_def fx_def [of 0] digits_value_read to_int64_fx is_digit_def)
qed

end
