(* ===== verification/Deploy.thy ===== *)
theory Deploy
  imports SpecConfig Placement Quantity
begin

text \<open>
  The deployment calls of the zone service: \<open>service_instance.go\<close> (deploy, info, list and delete of
  application instances with their checks), \<open>service_appspec.go\<close> (versions and listing of specs), the
  package check of \<open>service_package.go\<close> and the replica metrics cache of \<open>metrics.go\<close>. The state is the
  zone's database, the cached instance set and the flag that forces a scheduler run. A call returns the state as
  every branch leaves it, with its result. The name validator and the semantic-version functions are
  third-party code and arguments, as are the clock, the random sources and the iteration orders of maps. The
  fields of a spec that no code here reads (description, image, service ports) are left out.
\<close>

section \<open>Data\<close>

record spec_resources =
  sr_cpu_limit :: string
  sr_mem_limit :: string
  sr_vol_limit :: string
  sr_cpu_min :: string
  sr_cpu_max :: string
  sr_mem_min :: string
  sr_mem_max :: string
  sr_vol_min :: string
  sr_vol_max :: string

record app_spec =
  as_name :: string
  as_version :: string
  as_resources :: "spec_resources option"
  as_depends :: "string option list"
  as_packages :: "(string \<times> string) option list"
  as_configs :: "spec_item option list"
  as_tasks :: "spec_task option list"

record deploy_dep =
  dd_spec :: string
  dd_instance :: string

record app_deploy =
  dy_action :: string
  dy_cpu :: int
  dy_mem :: int
  dy_vol :: int
  dy_configs :: "deploy_item option list"
  dy_cap :: u32
  dy_replicas :: "dreplica option list"
  dy_depends :: "deploy_dep option list"
  dy_st :: app_deploy_stages

record app_meta =
  am_id :: string
  am_name :: string
  am_created :: int
  am_updated :: int

text \<open>Runtime metrics: the time of the sample and the rest of the message.\<close>

record node_metrics =
  nx_updated :: int
  nx_payload :: string

record replica_status =
  rx_id :: u32
  rx_host :: string
  rx_metrics :: "node_metrics option"

record app_instance =
  ai_meta :: "app_meta option"
  ai_spec :: "app_spec option"
  ai_deploy :: "app_deploy option"
  ai_refs :: "string list"
  ai_status :: "replica_status list option"

datatype drow = RowApp app_instance | RowSpec app_spec

record package_row =
  pk_state :: "string option"
  pk_name :: "string option"
  pk_version :: "string option"

record deploy_req =
  rq_name :: string
  rq_spec :: "app_spec option"
  rq_cap :: u32
  rq_deploy :: "app_deploy option"

datatype dep_err =
    DepSvc svc_err
  | DepStore string
  | DepDecode
  | NameRequired
  | NameInvalid string
  | SpecRequired
  | VersionInvalid string
  | VersionLower string string
  | ResourcesRequired
  | QuantityInvalid string
  | BoundsInvalid string
  | RangeEmpty string
  | OutOfRange string int int int
  | TaskInvalid string cfg_err
  | ConfigInvalid string cfg_err
  | ValuesInvalid cfg_err
  | DependNameRequired
  | DependMissing string
  | DependInstanceRequired string
  | DependNotFound string string
  | DependMismatch string string
  | DependSelf string
  | PackageNameRequired
  | PackageMissing string string
  | ReadOnly string
  | NoResources
  | InUse string
  | InstanceMissing

record 'db dstate =
  d_db :: 'db
  d_set :: "(nat \<times> app_instance) list"
  d_set_version :: nat
  d_force :: bool

record deploy_env =
  de_zone :: string
  de_dns :: "string \<Rightarrow> bool"
  de_semver_valid :: "string \<Rightarrow> bool"
  de_semver_cmp :: "string \<Rightarrow> string \<Rightarrow> int"
  de_start :: int
  de_ms :: "int \<times> int \<times> int"
  de_id_now :: int
  de_id_rnd :: "nat \<Rightarrow> u8 list option"
  de_source :: rsource
  de_cfg_picks :: "nat list"
  de_ref_picks :: "nat list"

definition CPUMin :: int where "CPUMin = 10"
definition CPUMax :: int where "CPUMax = 128000"
definition MemoryMin :: int where "MemoryMin = 16 * 1024 * 1024"
definition MemoryMax :: int where "MemoryMax = 512 * 1024 * 1024 * 1024"
definition VolumeMin :: int where "VolumeMin = 100 * 1024 * 1024"
definition VolumeMax :: int where "VolumeMax = 10 * 1024 * 1024 * 1024 * 1024"

definition OpActionStart :: string where "OpActionStart = ''start''"
definition OpActionRestart :: string where "OpActionRestart = ''restart''"

definition AppInstanceSoftDeleteTTL :: int where
  "AppInstanceSoftDeleteTTL = 7 * 24 * 3600 * 1000"

definition NsAppSpec :: "string \<Rightarrow> string" where
  "NsAppSpec name = NsPrefix @ ''app/spec/'' @ name"

definition NsPackageInfo :: "string \<Rightarrow> string" where
  "NsPackageInfo pkgId = NsPrefix @ ''pkg/info/'' @ pkgId"

text \<open>Early returns: a failed check ends the call, a value is passed on.\<close>

definition check_then :: "'e option \<Rightarrow> ('e + 'a) \<Rightarrow> 'e + 'a" where
  "check_then c k = (case c of Some e \<Rightarrow> Inl e | None \<Rightarrow> k)"

definition res_bind :: "('e + 'a) \<Rightarrow> ('a \<Rightarrow> 'e + 'b) \<Rightarrow> 'e + 'b" where
  "res_bind r k = (case r of Inl e \<Rightarrow> Inl e | Inr x \<Rightarrow> k x)"

lemma check_then_Inr: "check_then c k = Inr y \<longleftrightarrow> c = None \<and> k = Inr y"
  by (auto simp: check_then_def split: option.splits)

lemma res_bind_Inr: "res_bind r k = Inr y \<longleftrightarrow> (\<exists>x. r = Inr x \<and> k x = Inr y)"
  by (auto simp: res_bind_def split: sum.splits)

section \<open>Versions of a spec\<close>

definition SemverValid :: "(string \<Rightarrow> bool) \<Rightarrow> string \<Rightarrow> bool" where
  "SemverValid isValid version \<longleftrightarrow>
     version \<noteq> [] \<and> isValid (CHR ''v'' # version) \<and>
     length (filter (\<lambda>c. c = CHR ''.'') (takeWhile (\<lambda>c. c \<noteq> CHR ''-'' \<and> c \<noteq> CHR ''+'') version)) = 2"

text \<open>\<open>strconv.Atoi\<close> of a string without a minus sign.\<close>

definition atoi :: "string \<Rightarrow> nat option" where
  "atoi s = (case s of c # r \<Rightarrow> if c = CHR ''+'' then parse_uint 63 r else parse_uint 63 s | [] \<Rightarrow> None)"

definition appSpecSplitVersion :: "string \<Rightarrow> string \<times> nat" where
  "appSpecSplitVersion v =
     (case split_last CHR ''-'' v of
        Some (pre, suf) \<Rightarrow> (case atoi suf of Some n \<Rightarrow> (pre, n) | None \<Rightarrow> (v, 0))
      | None \<Rightarrow> (v, 0))"

definition with_v :: "string \<Rightarrow> string" where
  "with_v a = (if has_prefix a ''v'' then a else CHR ''v'' # a)"

definition appSpecCompareMain :: "(string \<Rightarrow> string \<Rightarrow> int) \<Rightarrow> string \<Rightarrow> string \<Rightarrow> int" where
  "appSpecCompareMain cmp a b = cmp (with_v a) (with_v b)"

definition show_i64 :: "int \<Rightarrow> string" where
  "show_i64 n = (if n < 0 then CHR ''-'' # show_nat (nat (- n)) else show_nat (nat n))"

definition appSpecResolveVersion ::
    "(string \<Rightarrow> bool) \<Rightarrow> (string \<Rightarrow> string \<Rightarrow> int) \<Rightarrow> string \<Rightarrow> string \<Rightarrow> bool \<Rightarrow> dep_err + string" where
  "appSpecResolveVersion isValid cmp reqVersion prevVersion prevExists =
     (let v = (if reqVersion = [] then ''0.0.1'' else reqVersion) in
      if reqVersion \<noteq> [] \<and> \<not> SemverValid isValid reqVersion then Inl (VersionInvalid reqVersion)
      else if \<not> prevExists \<or> prevVersion = [] then Inr v
      else case appSpecSplitVersion prevVersion of
        (prevMain, prevRel) \<Rightarrow>
          let c = appSpecCompareMain cmp (fst (appSpecSplitVersion v)) prevMain in
          if c = 0 then Inr (prevMain @ ''-'' @ show_i64 (i64 (int prevRel + 1)))
          else if c > 0 then Inr v
          else Inl (VersionLower v prevVersion))"

section \<open>Resources\<close>

definition NormalizeLegacy :: "spec_resources \<Rightarrow> spec_resources" where
  "NormalizeLegacy x =
     (case normLegacyPair (sr_cpu_min x) (sr_cpu_max x) (sr_cpu_limit x) of (cn, cx, cl) \<Rightarrow>
      case normLegacyPair (sr_mem_min x) (sr_mem_max x) (sr_mem_limit x) of (mn, mx, ml) \<Rightarrow>
      case normLegacyPair (sr_vol_min x) (sr_vol_max x) (sr_vol_limit x) of (vn, vx, vl) \<Rightarrow>
        \<lparr>sr_cpu_limit = cl, sr_mem_limit = ml, sr_vol_limit = vl, sr_cpu_min = cn, sr_cpu_max = cx,
         sr_mem_min = mn, sr_mem_max = mx, sr_vol_min = vn, sr_vol_max = vx\<rparr>)"

record parsed_resources =
  pr_cpu_min :: int
  pr_cpu_max :: int
  pr_mem_min :: int
  pr_mem_max :: int
  pr_vol_min :: int
  pr_vol_max :: int

definition no_resources :: parsed_resources where
  "no_resources = \<lparr>pr_cpu_min = 0, pr_cpu_max = 0, pr_mem_min = 0, pr_mem_max = 0, pr_vol_min = 0, pr_vol_max = 0\<rparr>"

definition quantity :: "string \<Rightarrow> int option \<Rightarrow> dep_err + int" where
  "quantity what r = (case r of None \<Rightarrow> Inl (QuantityInvalid what) | Some v \<Rightarrow> Inr v)"

definition out_of :: "int \<Rightarrow> int \<Rightarrow> int \<Rightarrow> int \<Rightarrow> bool" where
  "out_of lo hi a b \<longleftrightarrow> a < lo \<or> a > hi \<or> b < lo \<or> b > hi"

definition check_resources :: "parsed_resources \<Rightarrow> dep_err option" where
  "check_resources p =
     (if out_of CPUMin CPUMax (pr_cpu_min p) (pr_cpu_max p) then Some (BoundsInvalid ''cpu'')
      else if out_of MemoryMin MemoryMax (pr_mem_min p) (pr_mem_max p) then Some (BoundsInvalid ''memory'')
      else if out_of VolumeMin VolumeMax (pr_vol_min p) (pr_vol_max p) then Some (BoundsInvalid ''volume'')
      else if pr_cpu_min p > pr_cpu_max p then Some (RangeEmpty ''cpu'')
      else if pr_mem_min p > pr_mem_max p then Some (RangeEmpty ''memory'')
      else if pr_vol_min p > pr_vol_max p then Some (RangeEmpty ''volume'')
      else None)"

definition parseSpecResources :: "spec_resources option \<Rightarrow> dep_err + parsed_resources" where
  "parseSpecResources res =
     (case res of
        None \<Rightarrow> Inl ResourcesRequired
      | Some x \<Rightarrow>
          res_bind (quantity ''cpu_min'' (ParseCPUs (sr_cpu_min x))) (\<lambda>cn.
          res_bind (quantity ''cpu_max'' (ParseCPUs (sr_cpu_max x))) (\<lambda>cx.
          res_bind (quantity ''memory_min'' (ParseBytes (sr_mem_min x))) (\<lambda>mn.
          res_bind (quantity ''memory_max'' (ParseBytes (sr_mem_max x))) (\<lambda>mx.
          res_bind (quantity ''volume_min'' (ParseBytes (sr_vol_min x))) (\<lambda>vn.
          res_bind (quantity ''volume_max'' (ParseBytes (sr_vol_max x))) (\<lambda>vx.
            let p = \<lparr>pr_cpu_min = cn, pr_cpu_max = cx, pr_mem_min = mn, pr_mem_max = mx, pr_vol_min = vn, pr_vol_max = vx\<rparr>
            in check_then (check_resources p) (Inr p))))))))"

definition resolveInRange :: "int \<Rightarrow> int \<Rightarrow> int \<Rightarrow> int" where
  "resolveInRange v lo hi = (if v \<le> 0 then lo else if v < lo then lo else if v > hi then hi else v)"

definition requireInRange :: "string \<Rightarrow> int \<Rightarrow> int \<Rightarrow> int \<Rightarrow> dep_err + int" where
  "requireInRange name v lo hi =
     (if v = 0 then Inr lo else if v < lo \<or> v > hi then Inl (OutOfRange name v lo hi) else Inr v)"

definition clampDeployRes :: "int \<Rightarrow> int \<Rightarrow> int \<Rightarrow> int" where
  "clampDeployRes v lo hi = resolveInRange v lo hi"

section \<open>Instances in the store\<close>

definition InstanceName :: "app_instance \<Rightarrow> string" where
  "InstanceName a = (case ai_meta a of Some m \<Rightarrow> am_name m | None \<Rightarrow> [])"

definition InstanceId :: "app_instance \<Rightarrow> string" where
  "InstanceId a = (case ai_meta a of Some m \<Rightarrow> am_id m | None \<Rightarrow> [])"

definition read_instance :: "('db, drow) kvgo \<Rightarrow> 'db \<Rightarrow> string \<Rightarrow> dep_err + (app_instance \<times> kv_meta) option" where
  "read_instance K db key =
     (case kv_get K db key of
        KvNotFound \<Rightarrow> Inr None
      | KvReadErr e \<Rightarrow> Inl (DepStore e)
      | KvFound m v \<Rightarrow> (case v of Some (RowApp a) \<Rightarrow> Inr (Some (a, m)) | _ \<Rightarrow> Inl DepDecode))"

definition loadInstanceByName ::
    "string \<Rightarrow> ('db, drow) kvgo \<Rightarrow> 'db \<Rightarrow> string \<Rightarrow> dep_err + (app_instance \<times> kv_meta) option" where
  "loadInstanceByName zone K db name = (if name = [] then Inr None else read_instance K db (NsAppInstance zone name))"

definition row_app :: "drow kv_item \<Rightarrow> app_instance option" where
  "row_app it = (case it_val it of Some (RowApp a) \<Rightarrow> Some a | _ \<Rightarrow> None)"

definition instance_rows :: "string \<Rightarrow> ('db, drow) kvgo \<Rightarrow> 'db \<Rightarrow> app_instance list" where
  "instance_rows zone K db =
     (let offset = NsAppInstance zone [] in
      List.map_filter row_app (range_items (kv_range K db offset (upper_of offset) Zonelet_MaxInstances False)))"

definition validateInstanceNameUnique :: "string \<Rightarrow> ('db, drow) kvgo \<Rightarrow> 'db \<Rightarrow> string \<Rightarrow> dep_err option" where
  "validateInstanceNameUnique zone K db name =
     (case loadInstanceByName zone K db name of
        Inl e \<Rightarrow> Some e
      | Inr (Some _) \<Rightarrow> Some (InUse name)
      | Inr None \<Rightarrow> if \<exists>a \<in> set (instance_rows zone K db). InstanceName a = name then Some (InUse name) else None)"

definition available_specs :: "app_instance list \<Rightarrow> string list" where
  "available_specs insts =
     List.map_filter (\<lambda>a. case ai_spec a of Some s \<Rightarrow> if as_name s = [] then None else Some (as_name s) | None \<Rightarrow> None) insts"

definition validateAppDependencies ::
    "string \<Rightarrow> ('db, drow) kvgo \<Rightarrow> 'db \<Rightarrow> string option list \<Rightarrow> dep_err option" where
  "validateAppDependencies zone K db depends =
     (if depends = [] then None
      else let available = available_specs (instance_rows zone K db) in
        first_err (\<lambda>dep. case dep of
            None \<Rightarrow> None
          | Some name \<Rightarrow>
              if name = [] then Some DependNameRequired
              else if name \<notin> set available then Some (DependMissing name) else None) depends)"

definition check_dep :: "string \<Rightarrow> ('db, drow) kvgo \<Rightarrow> 'db \<Rightarrow> string \<Rightarrow> deploy_dep option \<Rightarrow> dep_err option" where
  "check_dep zone K db currentSpecName dep =
     (case dep of
        None \<Rightarrow> None
      | Some d \<Rightarrow>
          if dd_spec d = [] then Some DependNameRequired
          else if dd_instance d = [] then Some (DependInstanceRequired (dd_spec d))
          else case loadInstanceByName zone K db (dd_instance d) of
            Inl e \<Rightarrow> Some e
          | Inr None \<Rightarrow> Some (DependNotFound (dd_spec d) (dd_instance d))
          | Inr (Some (target, _)) \<Rightarrow>
              (case ai_spec target of
                 None \<Rightarrow> Some (DependMismatch (dd_spec d) (dd_instance d))
               | Some s \<Rightarrow>
                   if as_name s \<noteq> dd_spec d then Some (DependMismatch (dd_spec d) (dd_instance d))
                   else if as_name s = currentSpecName then Some (DependSelf (dd_spec d))
                   else None))"

definition validateDeployDependencies ::
    "string \<Rightarrow> ('db, drow) kvgo \<Rightarrow> 'db \<Rightarrow> string \<Rightarrow> deploy_dep option list \<Rightarrow> dep_err option" where
  "validateDeployDependencies zone K db currentSpecName depends = first_err (check_dep zone K db currentSpecName) depends"

definition deployDependInstanceNames :: "app_deploy \<Rightarrow> string list" where
  "deployDependInstanceNames d =
     remdups (filter (\<lambda>n. n \<noteq> []) (map dd_instance (List.map_filter (\<lambda>x. x) (dy_depends d))))"

section \<open>Packages\<close>

fun split_dots :: "string \<Rightarrow> string list" where
  "split_dots [] = [[]]"
| "split_dots (c # s) =
     (if c = CHR ''.'' then [] # split_dots s
      else case split_dots s of p # ps \<Rightarrow> (c # p) # ps | [] \<Rightarrow> [[c]])"

definition versionMatch :: "string \<Rightarrow> string \<Rightarrow> bool" where
  "versionMatch filt version \<longleftrightarrow>
     (if filt = [] then True
      else if version = [] then False
      else let fp = split_dots filt; vp = split_dots version in
        if length fp \<ge> 3 then filt = version
        else length fp \<le> length vp \<and> take (length fp) vp = fp)"

definition available_packages :: "package_row kv_item list \<Rightarrow> (string \<times> string) list" where
  "available_packages its =
     List.map_filter (\<lambda>it. case it_val it of
         None \<Rightarrow> None
       | Some p \<Rightarrow>
           (case (pk_name p, pk_version p) of
              (Some n, Some v) \<Rightarrow> if pk_state p = Some ''complete'' \<and> n \<noteq> [] then Some (n, v) else None
            | _ \<Rightarrow> None)) its"

definition validatePackageDependencies ::
    "('pdb, package_row) kvgo \<Rightarrow> 'pdb \<Rightarrow> (string \<times> string) option list \<Rightarrow> dep_err option" where
  "validatePackageDependencies KP pdb packages =
     (if packages = [] then None
      else let offset = NsPackageInfo [];
               available = available_packages (range_items (kv_range KP pdb offset (upper_of offset) 1000 False)) in
        first_err (\<lambda>dep. case dep of
            None \<Rightarrow> None
          | Some (name, version) \<Rightarrow>
              if name = [] then Some PackageNameRequired
              else if name \<notin> fst ` set available then Some (PackageMissing name version)
              else if version \<noteq> [] \<and> \<not> (\<exists>nv \<in> set available. fst nv = name \<and> versionMatch version (snd nv))
              then Some (PackageMissing name version)
              else None) packages)"

section \<open>Deploy: the spec\<close>

text \<open>The version of the request resolved against the stored spec, with the version of the stored row.\<close>

definition resolve_spec_version ::
    "('db, drow) kvgo \<Rightarrow> deploy_env \<Rightarrow> 'db \<Rightarrow> app_spec \<Rightarrow> dep_err + (string \<times> nat option)" where
  "resolve_spec_version K E db spec =
     (let resolved = (\<lambda>prev ver.
            res_bind (appSpecResolveVersion (de_semver_valid E) (de_semver_cmp E) (as_version spec) prev (ver \<noteq> None))
              (\<lambda>v. Inr (v, ver))) in
      case kv_get K db (NsAppSpec (as_name spec)) of
        KvNotFound \<Rightarrow> resolved [] None
      | KvReadErr e \<Rightarrow> Inl (DepStore e)
      | KvFound m (Some (RowSpec prev)) \<Rightarrow> resolved (as_version prev) (Some (m_version m))
      | KvFound m _ \<Rightarrow> Inl DepDecode)"

definition check_task :: "spec_task option \<Rightarrow> dep_err option" where
  "check_task t =
     (case t of None \<Rightarrow> None | Some x \<Rightarrow> map_option (TaskInvalid (tk_name x)) (ValidateTaskTrigger (Some x)))"

definition check_config :: "spec_item option \<Rightarrow> dep_err option" where
  "check_config c =
     (case c of None \<Rightarrow> None | Some x \<Rightarrow> map_option (ConfigInvalid (si_name x)) (ValidateSpecConfigField (Some x)))"

definition req_depends :: "deploy_req \<Rightarrow> deploy_dep option list" where
  "req_depends rq = (case rq_deploy rq of Some d \<Rightarrow> dy_depends d | None \<Rightarrow> [])"

definition req_configs :: "deploy_req \<Rightarrow> deploy_item option list" where
  "req_configs rq = (case rq_deploy rq of Some d \<Rightarrow> dy_configs d | None \<Rightarrow> [])"

definition check_spec ::
    "('db, drow) kvgo \<Rightarrow> ('pdb, package_row) kvgo \<Rightarrow> deploy_env \<Rightarrow> 'pdb \<Rightarrow> 'db \<Rightarrow> deploy_req \<Rightarrow> app_spec
      \<Rightarrow> dep_err + (app_spec \<times> nat option \<times> parsed_resources)" where
  "check_spec K KP E pdb db rq spec =
     (if \<not> de_dns E (as_name spec) then Inl (NameInvalid ''spec.name'')
      else
        res_bind (resolve_spec_version K E db spec) (\<lambda>(v, ver).
          case as_resources spec of
            None \<Rightarrow> Inl ResourcesRequired
          | Some res \<Rightarrow>
              let spec' = spec\<lparr>as_version := v, as_resources := Some (NormalizeLegacy res)\<rparr> in
              res_bind (parseSpecResources (as_resources spec')) (\<lambda>p.
                check_then (first_err check_task (as_tasks spec))
                (check_then (first_err check_config (as_configs spec))
                (check_then (validateAppDependencies (de_zone E) K db (as_depends spec))
                (check_then (validateDeployDependencies (de_zone E) K db (as_name spec) (req_depends rq))
                (check_then (map_option ValuesInvalid
                   (ValidateDeployConfigItems (de_cfg_picks E) (as_configs spec) (req_configs rq)))
                (check_then (validatePackageDependencies KP pdb (as_packages spec))
                  (Inr (spec', ver, p)))))))))) "

definition create_put :: kv_wopt where
  "create_put = \<lparr>wo_prev = None, wo_create = True, wo_ttl = 0\<rparr>"

text \<open>\<open>refreshAppSpec\<close>: a write that fails is logged and the deployment goes on.\<close>

definition refreshAppSpec :: "('db, drow) kvgo \<Rightarrow> app_spec \<Rightarrow> nat option \<Rightarrow> 'db \<Rightarrow> 'db" where
  "refreshAppSpec K spec ver db =
     fst (kv_put K db (NsAppSpec (as_name spec)) (case ver of None \<Rightarrow> create_put | Some n \<Rightarrow> prev_put n) (RowSpec spec))"

section \<open>Deploy: the instance\<close>

definition zero_deploy :: app_deploy where
  "zero_deploy = \<lparr>dy_action = [], dy_cpu = 0, dy_mem = 0, dy_vol = 0, dy_configs = [], dy_cap = 0, dy_replicas = [],
     dy_depends = [], dy_st = \<lparr>ad_revision = 0, ad_stages = None\<rparr>\<rparr>"

definition resolveDeployConfigFields :: "rsource \<Rightarrow> app_spec option \<Rightarrow> app_deploy \<Rightarrow> app_deploy" where
  "resolveDeployConfigFields R spec d =
     (case spec of None \<Rightarrow> d
      | Some s \<Rightarrow> d\<lparr>dy_configs := fst (resolve_configs R (as_configs s) (dy_configs d, 0))\<rparr>)"

definition mark_pre_host :: "deploy_env \<Rightarrow> app_deploy \<Rightarrow> app_deploy" where
  "mark_pre_host E d =
     (case de_ms E of (m1, m2, m3) \<Rightarrow> d\<lparr>dy_st := appDeployStagesMarkPreHost (de_start E) m1 m2 m3 (dy_st d)\<rparr>)"

text \<open>A limit of the request, 0 when the request has no deployment.\<close>

definition asked :: "(app_deploy \<Rightarrow> int) \<Rightarrow> deploy_req \<Rightarrow> int" where
  "asked sel rq = (case rq_deploy rq of Some d \<Rightarrow> sel d | None \<Rightarrow> 0)"

definition has_override :: "deploy_req \<Rightarrow> bool" where
  "has_override rq \<longleftrightarrow> asked dy_cpu rq > 0 \<or> asked dy_mem rq > 0 \<or> asked dy_vol rq > 0"

definition update_limit :: "string \<Rightarrow> bool \<Rightarrow> int \<Rightarrow> int \<Rightarrow> int \<Rightarrow> int \<Rightarrow> dep_err + int" where
  "update_limit name has_spec want cur lo hi =
     (if want > 0 then requireInRange name want lo hi
      else if has_spec then Inr (clampDeployRes cur lo hi)
      else Inr cur)"

definition update_limits :: "deploy_req \<Rightarrow> parsed_resources \<Rightarrow> app_deploy \<Rightarrow> dep_err + app_deploy" where
  "update_limits rq p d =
     res_bind (update_limit ''deploy.cpu_limit'' (rq_spec rq \<noteq> None) (asked dy_cpu rq) (dy_cpu d) (pr_cpu_min p) (pr_cpu_max p)) (\<lambda>cpu.
     res_bind (update_limit ''deploy.memory_limit'' (rq_spec rq \<noteq> None) (asked dy_mem rq) (dy_mem d) (pr_mem_min p) (pr_mem_max p)) (\<lambda>mem.
     res_bind (update_limit ''deploy.volume_limit'' (rq_spec rq \<noteq> None) (asked dy_vol rq) (dy_vol d) (pr_vol_min p) (pr_vol_max p)) (\<lambda>vol.
       Inr (d\<lparr>dy_cpu := cpu, dy_mem := mem, dy_vol := vol\<rparr>))))"

definition update_fields :: "deploy_req \<Rightarrow> app_deploy \<Rightarrow> app_deploy" where
  "update_fields rq d =
     (let d1 = (if rq_cap rq > 0 then d\<lparr>dy_cap := min AppReplicaCapMax (rq_cap rq)\<rparr> else d) in
      case rq_deploy rq of
        None \<Rightarrow> d1
      | Some r \<Rightarrow>
          let d2 = (if dy_configs r \<noteq> [] then d1\<lparr>dy_configs := dy_configs r\<rparr> else d1);
              d3 = (if dy_action r = [] then d2
                    else d2\<lparr>dy_action := if dy_action r = OpActionRestart then OpActionStart else dy_action r\<rparr>)
          in if dy_depends r \<noteq> [] then d3\<lparr>dy_depends := dy_depends r\<rparr> else d3)"

definition bump :: "app_deploy \<Rightarrow> app_deploy" where
  "bump d = d\<lparr>dy_st := (dy_st d)\<lparr>ad_revision := nat ((int (ad_revision (dy_st d)) + 1) mod 2 ^ 64)\<rparr>\<rparr>"

definition normalize_spec :: "app_spec \<Rightarrow> app_spec" where
  "normalize_spec s = s\<lparr>as_resources := map_option NormalizeLegacy (as_resources s)\<rparr>"

text \<open>
  The ranges an update checks against, with the instance's spec: the request's spec replaces the spec; without
  one, an override is checked against the stored spec, which is normalised in place.
\<close>

definition update_ranges ::
    "deploy_req \<Rightarrow> (app_spec \<times> parsed_resources) option \<Rightarrow> app_instance \<Rightarrow> dep_err + (app_spec option \<times> parsed_resources)" where
  "update_ranges rq spec a =
     (case spec of
        Some (s, p) \<Rightarrow> Inr (Some s, p)
      | None \<Rightarrow>
          if \<not> has_override rq then Inr (ai_spec a, no_resources)
          else case ai_spec a of
            None \<Rightarrow> Inl NoResources
          | Some s \<Rightarrow>
              if as_resources s = None then Inl NoResources
              else res_bind (parseSpecResources (as_resources (normalize_spec s))) (\<lambda>p. Inr (Some (normalize_spec s), p)))"

text \<open>The end of an update: configuration, revision and stages.\<close>

definition finish_update :: "deploy_env \<Rightarrow> deploy_req \<Rightarrow> app_instance \<Rightarrow> app_spec option \<Rightarrow> app_deploy \<Rightarrow> app_instance" where
  "finish_update E rq a sp d =
     a\<lparr>ai_spec := sp,
       ai_deploy := Some (mark_pre_host E (bump (resolveDeployConfigFields (de_source E) sp (update_fields rq d))))\<rparr>"

definition update_instance ::
    "deploy_env \<Rightarrow> deploy_req \<Rightarrow> (app_spec \<times> parsed_resources) option \<Rightarrow> app_instance \<Rightarrow> dep_err + app_instance" where
  "update_instance E rq spec a =
     (let d0 = (case ai_deploy a of Some d \<Rightarrow> d | None \<Rightarrow> zero_deploy) in
      if dy_action d0 = OpActionDelete then Inl (ReadOnly (rq_name rq))
      else
        res_bind (update_ranges rq spec a) (\<lambda>(sp, p).
        res_bind (if rq_spec rq \<noteq> None \<or> has_override rq then update_limits rq p d0 else Inr d0) (\<lambda>d1.
          Inr (finish_update E rq a sp d1))))"

definition create_limit :: "string \<Rightarrow> deploy_req \<Rightarrow> (app_deploy \<Rightarrow> int) \<Rightarrow> int \<Rightarrow> int \<Rightarrow> dep_err + int" where
  "create_limit name rq sel lo hi = (case rq_deploy rq of None \<Rightarrow> Inr lo | Some d \<Rightarrow> requireInRange name (sel d) lo hi)"

definition new_deploy :: "deploy_req \<Rightarrow> int \<Rightarrow> int \<Rightarrow> int \<Rightarrow> app_deploy" where
  "new_deploy rq cpu mem vol =
     zero_deploy\<lparr>dy_action := OpActionStart, dy_cpu := cpu, dy_mem := mem, dy_vol := vol,
       dy_cap := max 1 (min AppReplicaCapMax (rq_cap rq)), dy_st := \<lparr>ad_revision = 1, ad_stages = None\<rparr>,
       dy_configs := req_configs rq, dy_depends := req_depends rq\<rparr>"

definition create_instance ::
    "deploy_env \<Rightarrow> deploy_req \<Rightarrow> app_spec option \<Rightarrow> parsed_resources \<Rightarrow> dep_err + app_instance" where
  "create_instance E rq spec p =
     res_bind (create_limit ''deploy.cpu_limit'' rq dy_cpu (pr_cpu_min p) (pr_cpu_max p)) (\<lambda>cpu.
     res_bind (create_limit ''deploy.memory_limit'' rq dy_mem (pr_mem_min p) (pr_mem_max p)) (\<lambda>mem.
     res_bind (create_limit ''deploy.volume_limit'' rq dy_vol (pr_vol_min p) (pr_vol_max p)) (\<lambda>vol.
       let now = godiv (de_start E) 1000
       in Inr \<lparr>ai_meta = Some \<lparr>am_id = SeqRandHexString 4 8 (de_id_now E) (de_id_rnd E), am_name = rq_name rq,
                 am_created = now, am_updated = now\<rparr>,
               ai_spec = spec,
               ai_deploy = Some (mark_pre_host E (resolveDeployConfigFields (de_source E) spec (new_deploy rq cpu mem vol))),
               ai_refs = [], ai_status = None\<rparr>)))"

section \<open>Reverse references\<close>

text \<open>One dependency: read the row, add or remove the name, write it back when that changes it.\<close>

definition update_ref ::
    "('db, drow) kvgo \<Rightarrow> string \<Rightarrow> string \<Rightarrow> string \<times> bool \<Rightarrow> 'db \<Rightarrow> 'db \<times> dep_err option" where
  "update_ref K zone instanceName na db =
     (case na of (name, add) \<Rightarrow>
      case read_instance K db (NsAppInstance zone name) of
        Inl e \<Rightarrow> (db, Some e)
      | Inr None \<Rightarrow> (db, None)
      | Inr (Some (a, m)) \<Rightarrow>
          if add \<longleftrightarrow> instanceName \<in> set (ai_refs a) then (db, None)
          else
            let a' = a\<lparr>ai_refs := if add then ai_refs a @ [instanceName] else filter (\<lambda>v. v \<noteq> instanceName) (ai_refs a)\<rparr> in
            (case kv_put K db (NsAppInstance zone name) (prev_put (m_version m)) (RowApp a') of
               (db', KvWriteErr e) \<Rightarrow> (db', Some (DepStore e))
             | (db', KvWritten _) \<Rightarrow> (db', None)))"

definition ref_changes :: "string list \<Rightarrow> string list \<Rightarrow> (string \<times> bool) list" where
  "ref_changes prev next = map (\<lambda>n. (n, True)) next @ map (\<lambda>n. (n, False)) (filter (\<lambda>n. n \<notin> set next) prev)"

definition updateDependencyReverseRefs ::
    "('db, drow) kvgo \<Rightarrow> deploy_env \<Rightarrow> string \<Rightarrow> string list \<Rightarrow> string list \<Rightarrow> 'db \<Rightarrow> 'db \<times> dep_err option" where
  "updateDependencyReverseRefs K E instanceName prev next db =
     for_each (update_ref K (de_zone E) instanceName) (shuffle (de_ref_picks E) (ref_changes prev next)) db"

section \<open>The calls\<close>

definition AuthScope_App_Write :: string where "AuthScope_App_Write = ''app:rw''"
definition AuthScope_App_Read :: string where "AuthScope_App_Read = ''app:ro''"

definition call_guard :: "app_validator \<Rightarrow> string \<Rightarrow> bool \<Rightarrow> deploy_env \<Rightarrow> string \<Rightarrow> dep_err option" where
  "call_guard av scope leader E name =
     (case svc_guard av scope leader of
        Some e \<Rightarrow> Some (DepSvc e)
      | None \<Rightarrow> if name = [] then Some NameRequired else if \<not> de_dns E name then Some (NameInvalid ''name'') else None)"

text \<open>
  What the update branch writes. The dependency names before and after are read from the same deployment, which
  the branch has already changed.
\<close>

definition deploy_update ::
    "('db, drow) kvgo \<Rightarrow> deploy_env \<Rightarrow> deploy_req \<Rightarrow> (app_spec \<times> parsed_resources) option \<Rightarrow> app_instance \<Rightarrow> kv_meta
      \<Rightarrow> 'db \<Rightarrow> 'db \<times> (dep_err + app_instance)" where
  "deploy_update K E rq spec a m db =
     (case update_instance E rq spec a of
        Inl e \<Rightarrow> (db, Inl e)
      | Inr a' \<Rightarrow>
          (case kv_put K db (NsAppInstance (de_zone E) (InstanceName a)) (prev_put (m_version m)) (RowApp a') of
             (db1, KvWriteErr e) \<Rightarrow> (db1, Inl (DepStore e))
           | (db1, KvWritten _) \<Rightarrow>
               let names = deployDependInstanceNames (the (ai_deploy a'))
               in (fst (updateDependencyReverseRefs K E (InstanceName a) names names db1), Inr a')))"

definition deploy_create ::
    "('db, drow) kvgo \<Rightarrow> deploy_env \<Rightarrow> deploy_req \<Rightarrow> (app_spec \<times> parsed_resources) option
      \<Rightarrow> 'db \<Rightarrow> 'db \<times> (dep_err + app_instance)" where
  "deploy_create K E rq spec db =
     (case validateInstanceNameUnique (de_zone E) K db (rq_name rq) of
        Some e \<Rightarrow> (db, Inl e)
      | None \<Rightarrow>
          (case create_instance E rq (map_option fst spec) (case spec of Some (_, p) \<Rightarrow> p | None \<Rightarrow> no_resources) of
             Inl e \<Rightarrow> (db, Inl e)
           | Inr a \<Rightarrow>
               (case kv_put K db (NsAppInstance (de_zone E) (InstanceName a)) create_put (RowApp a) of
                  (db1, KvWriteErr e) \<Rightarrow> (db1, Inl (DepStore e))
                | (db1, KvWritten _) \<Rightarrow>
                    (fst (updateDependencyReverseRefs K E (InstanceName a) []
                       (deployDependInstanceNames (the (ai_deploy a))) db1), Inr a))))"

definition deploy_spec ::
    "('db, drow) kvgo \<Rightarrow> ('pdb, package_row) kvgo \<Rightarrow> deploy_env \<Rightarrow> 'pdb \<Rightarrow> deploy_req \<Rightarrow> 'db
      \<Rightarrow> 'db \<times> (dep_err + (app_spec \<times> parsed_resources) option)" where
  "deploy_spec K KP E pdb rq db =
     (case rq_spec rq of
        None \<Rightarrow> (db, Inr None)
      | Some spec \<Rightarrow>
          (case check_spec K KP E pdb db rq spec of
             Inl e \<Rightarrow> (db, Inl e)
           | Inr (spec', ver, p) \<Rightarrow> (refreshAppSpec K spec' ver db, Inr (Some (spec', p)))))"

definition deploy_run ::
    "('db, drow) kvgo \<Rightarrow> ('pdb, package_row) kvgo \<Rightarrow> deploy_env \<Rightarrow> 'pdb \<Rightarrow> deploy_req \<Rightarrow> 'db
      \<Rightarrow> 'db \<times> (dep_err + app_instance)" where
  "deploy_run K KP E pdb rq db =
     (case loadInstanceByName (de_zone E) K db (rq_name rq) of
        Inl e \<Rightarrow> (db, Inl e)
      | Inr existing \<Rightarrow>
          if Option.is_none existing \<and> rq_spec rq = None then (db, Inl SpecRequired)
          else case deploy_spec K KP E pdb rq db of
            (db1, Inl e) \<Rightarrow> (db1, Inl e)
          | (db1, Inr spec) \<Rightarrow>
              (case existing of
                 Some (a, m) \<Rightarrow> deploy_update K E rq spec a m db1
               | None \<Rightarrow> deploy_create K E rq spec db1))"

definition AppInstanceDeploy ::
    "('db, drow) kvgo \<Rightarrow> ('pdb, package_row) kvgo \<Rightarrow> app_validator \<Rightarrow> bool \<Rightarrow> deploy_env \<Rightarrow> 'pdb \<Rightarrow> deploy_req \<Rightarrow> 'db dstate
      \<Rightarrow> 'db dstate \<times> (dep_err + string \<times> string)" where
  "AppInstanceDeploy K KP av leader E pdb rq s =
     (case call_guard av AuthScope_App_Write leader E (rq_name rq) of
        Some e \<Rightarrow> (s, Inl e)
      | None \<Rightarrow>
          (case deploy_run K KP E pdb rq (d_db s) of
             (db', Inl e) \<Rightarrow> (s\<lparr>d_db := db'\<rparr>, Inl e)
           | (db', Inr a) \<Rightarrow> (s\<lparr>d_db := db', d_force := True\<rparr>, Inr (InstanceId a, InstanceName a))))"

definition delete_put :: "nat \<Rightarrow> kv_wopt" where
  "delete_put ver = \<lparr>wo_prev = Some ver, wo_create = False, wo_ttl = AppInstanceSoftDeleteTTL\<rparr>"

text \<open>\<open>appInstanceSet.Store\<close>.\<close>

fun iset_put :: "app_instance \<Rightarrow> nat \<Rightarrow> (nat \<times> app_instance) list \<Rightarrow> (nat \<times> app_instance) list \<times> bool" where
  "iset_put a ver [] = ([(ver, a)], True)"
| "iset_put a ver ((v, b) # es) =
     (if InstanceName b = InstanceName a then (if ver \<le> v then ((v, b) # es, False) else ((ver, a) # es, True))
      else case iset_put a ver es of (es', changed) \<Rightarrow> ((v, b) # es', changed))"

definition iset_store :: "app_instance \<Rightarrow> nat \<Rightarrow> 'db dstate \<Rightarrow> 'db dstate" where
  "iset_store a ver s =
     (case iset_put a ver (d_set s) of
        (es, True) \<Rightarrow> s\<lparr>d_set := es, d_set_version := max (d_set_version s) ver\<rparr>
      | (es, False) \<Rightarrow> s)"

definition mark_deleted :: "app_instance \<Rightarrow> app_instance" where
  "mark_deleted a =
     a\<lparr>ai_deploy := Some ((case ai_deploy a of Some d \<Rightarrow> d | None \<Rightarrow> zero_deploy)\<lparr>dy_action := OpActionDelete\<rparr>)\<rparr>"

definition deleted :: "app_instance \<Rightarrow> bool" where
  "deleted a \<longleftrightarrow> (case ai_deploy a of Some d \<Rightarrow> dy_action d = OpActionDelete | None \<Rightarrow> False)"

definition AppInstanceDelete ::
    "('db, drow) kvgo \<Rightarrow> app_validator \<Rightarrow> bool \<Rightarrow> deploy_env \<Rightarrow> string \<Rightarrow> 'db dstate \<Rightarrow> 'db dstate \<times> dep_err option" where
  "AppInstanceDelete K av leader E name s =
     (case call_guard av AuthScope_App_Write leader E name of
        Some e \<Rightarrow> (s, Some e)
      | None \<Rightarrow>
          (case loadInstanceByName (de_zone E) K (d_db s) name of
             Inl e \<Rightarrow> (s, Some e)
           | Inr None \<Rightarrow> (s, Some InstanceMissing)
           | Inr (Some (a, m)) \<Rightarrow>
               if deleted a then (s, Some (ReadOnly name))
               else
                 (case kv_put K (d_db s) (NsAppInstance (de_zone E) name) (delete_put (m_version m)) (RowApp (mark_deleted a)) of
                    (db', KvWriteErr e) \<Rightarrow> (s\<lparr>d_db := db'\<rparr>, Some (DepStore e))
                  | (db', KvWritten m') \<Rightarrow>
                      ((iset_store (mark_deleted a) (m_version m') (s\<lparr>d_db := db'\<rparr>))\<lparr>d_force := True\<rparr>, None))))"

section \<open>Reading\<close>

type_synonym metrics_cache = "string \<rightharpoonup> node_metrics"

definition replica_metrics_store :: "string \<Rightarrow> node_metrics option \<Rightarrow> metrics_cache \<Rightarrow> metrics_cache" where
  "replica_metrics_store name m c = (case m of Some x \<Rightarrow> if name = [] then c else c(name \<mapsto> x) | None \<Rightarrow> c)"

definition replica_metrics_sweep :: "int \<Rightarrow> int \<Rightarrow> metrics_cache \<Rightarrow> metrics_cache" where
  "replica_metrics_sweep now maxAge c =
     (\<lambda>k. case c k of Some m \<Rightarrow> if i64 (now - nx_updated m) > maxAge then None else Some m | None \<Rightarrow> None)"

definition mergeInto :: "metrics_cache \<Rightarrow> app_instance \<Rightarrow> app_instance" where
  "mergeInto c a =
     (case ai_deploy a of
        None \<Rightarrow> a
      | Some d \<Rightarrow>
          if dy_replicas d = [] \<or> InstanceName a = [] then a
          else a\<lparr>ai_status := Some (map (\<lambda>r. \<lparr>rx_id = dr_id r, rx_host = dr_host r,
                 rx_metrics = c (ContainerName (InstanceName a) (unat (dr_id r)))\<rparr>) (List.map_filter (\<lambda>x. x) (dy_replicas d)))\<rparr>)"

definition AppInstanceInfo ::
    "('db, drow) kvgo \<Rightarrow> app_validator \<Rightarrow> bool \<Rightarrow> deploy_env \<Rightarrow> metrics_cache \<Rightarrow> string \<Rightarrow> 'db dstate \<Rightarrow> dep_err + app_instance" where
  "AppInstanceInfo K av leader E c name s =
     check_then (call_guard av AuthScope_App_Read leader E name)
       (case read_instance K (d_db s) (NsAppInstance (de_zone E) name) of
          Inl e \<Rightarrow> Inl e
        | Inr None \<Rightarrow> Inl InstanceMissing
        | Inr (Some (a, _)) \<Rightarrow> Inr (mergeInto c a))"

definition AppInstanceList ::
    "('db, drow) kvgo \<Rightarrow> app_validator \<Rightarrow> bool \<Rightarrow> deploy_env \<Rightarrow> metrics_cache \<Rightarrow> 'db dstate \<Rightarrow> dep_err + app_instance list" where
  "AppInstanceList K av leader E c s =
     check_then (map_option DepSvc (svc_guard av AuthScope_App_Read leader))
       (Inr (map (mergeInto c) (instance_rows (de_zone E) K (d_db s))))"

definition AppSpecList ::
    "('db, drow) kvgo \<Rightarrow> app_validator \<Rightarrow> bool \<Rightarrow> deploy_env \<Rightarrow> string \<Rightarrow> 'db dstate \<Rightarrow> dep_err + app_spec list" where
  "AppSpecList K av leader E name s =
     check_then (map_option DepSvc (svc_guard av AuthScope_App_Read leader))
       (if name \<noteq> [] then
          (if \<not> de_dns E name then Inl (NameInvalid ''name'')
           else case kv_get K (d_db s) (NsAppSpec name) of
             KvNotFound \<Rightarrow> Inr []
           | KvReadErr e \<Rightarrow> Inl (DepStore e)
           | KvFound _ v \<Rightarrow> (case v of Some (RowSpec x) \<Rightarrow> Inr [x] | _ \<Rightarrow> Inl DepDecode))
        else
          let offset = NsAppSpec [] in
          Inr (List.map_filter (\<lambda>it. case it_val it of Some (RowSpec x) \<Rightarrow> Some x | _ \<Rightarrow> None)
            (range_items (kv_range K (d_db s) offset (upper_of offset) 1000 False))))"

section \<open>Ranges\<close>

definition bounded :: "parsed_resources \<Rightarrow> bool" where
  "bounded p \<longleftrightarrow>
     CPUMin \<le> pr_cpu_min p \<and> pr_cpu_min p \<le> pr_cpu_max p \<and> pr_cpu_max p \<le> CPUMax \<and>
     MemoryMin \<le> pr_mem_min p \<and> pr_mem_min p \<le> pr_mem_max p \<and> pr_mem_max p \<le> MemoryMax \<and>
     VolumeMin \<le> pr_vol_min p \<and> pr_vol_min p \<le> pr_vol_max p \<and> pr_vol_max p \<le> VolumeMax"

definition limits_ok :: "parsed_resources \<Rightarrow> app_deploy \<Rightarrow> bool" where
  "limits_ok p d \<longleftrightarrow>
     dy_cpu d \<in> {pr_cpu_min p .. pr_cpu_max p} \<and> dy_mem d \<in> {pr_mem_min p .. pr_mem_max p} \<and>
     dy_vol d \<in> {pr_vol_min p .. pr_vol_max p}"

text \<open>
  The type of a stored instance: its spec has a range of resources inside the system bounds, its limits lie in
  that range, and it asks for 1 to 128 replicas.
\<close>

definition inst_typed :: "app_instance \<Rightarrow> bool" where
  "inst_typed a \<longleftrightarrow>
     (\<exists>s r p d. ai_spec a = Some s \<and> as_resources s = Some r \<and> parseSpecResources (Some (NormalizeLegacy r)) = Inr p
        \<and> bounded p \<and> ai_deploy a = Some d \<and> limits_ok p d \<and> 1 \<le> dy_cap d \<and> dy_cap d \<le> AppReplicaCapMax)"

lemma parse_bounded:
  assumes "parseSpecResources res = Inr p" shows "bounded p"
proof -
  have "check_resources p = None"
    using assms by (auto simp: parseSpecResources_def res_bind_Inr check_then_Inr Let_def split: option.splits)
  then show ?thesis by (auto simp: check_resources_def bounded_def out_of_def split: if_splits)
qed

lemma normLegacyPair_fix:
  "normLegacyPair mn mx l = (mn', mx', l') \<Longrightarrow> normLegacyPair mn' mx' l' = (mn', mx', l')"
  by (auto simp: normLegacyPair_def split: if_splits)

lemma NormalizeLegacy_idem [simp]: "NormalizeLegacy (NormalizeLegacy x) = NormalizeLegacy x"
proof -
  obtain cn cx cl mn mx ml vn vx vl where n:
      "normLegacyPair (sr_cpu_min x) (sr_cpu_max x) (sr_cpu_limit x) = (cn, cx, cl)"
      "normLegacyPair (sr_mem_min x) (sr_mem_max x) (sr_mem_limit x) = (mn, mx, ml)"
      "normLegacyPair (sr_vol_min x) (sr_vol_max x) (sr_vol_limit x) = (vn, vx, vl)"
    by (metis prod_cases3)
  show ?thesis by (simp add: NormalizeLegacy_def n n [THEN normLegacyPair_fix])
qed

lemma requireInRange_ok: "requireInRange name v lo hi = Inr w \<Longrightarrow> lo \<le> hi \<Longrightarrow> w \<in> {lo .. hi}"
  by (auto simp: requireInRange_def split: if_splits)

lemma clampDeployRes_ok: "lo \<le> hi \<Longrightarrow> clampDeployRes v lo hi \<in> {lo .. hi}"
  by (auto simp: clampDeployRes_def resolveInRange_def)

lemma clampDeployRes_keeps: "0 < lo \<Longrightarrow> v \<in> {lo .. hi} \<Longrightarrow> clampDeployRes v lo hi = v"
  by (auto simp: clampDeployRes_def resolveInRange_def)

lemma update_limit_ok:
  "update_limit name has_spec want cur lo hi = Inr w \<Longrightarrow> lo \<le> hi \<Longrightarrow> has_spec \<or> cur \<in> {lo .. hi} \<Longrightarrow> w \<in> {lo .. hi}"
  using requireInRange_ok [of name want lo hi w] clampDeployRes_ok [of lo hi cur]
  by (auto simp: update_limit_def split: if_splits)

lemma update_limits_ok:
  assumes "update_limits rq p d = Inr d'" "bounded p" "rq_spec rq \<noteq> None \<or> limits_ok p d"
  shows "limits_ok p d'" "dy_cap d' = dy_cap d"
proof -
  obtain cpu mem vol where l:
      "update_limit ''deploy.cpu_limit'' (rq_spec rq \<noteq> None) (asked dy_cpu rq) (dy_cpu d) (pr_cpu_min p) (pr_cpu_max p) = Inr cpu"
      "update_limit ''deploy.memory_limit'' (rq_spec rq \<noteq> None) (asked dy_mem rq) (dy_mem d) (pr_mem_min p) (pr_mem_max p) = Inr mem"
      "update_limit ''deploy.volume_limit'' (rq_spec rq \<noteq> None) (asked dy_vol rq) (dy_vol d) (pr_vol_min p) (pr_vol_max p) = Inr vol"
      "d' = d\<lparr>dy_cpu := cpu, dy_mem := mem, dy_vol := vol\<rparr>"
    using assms(1) unfolding update_limits_def by (auto simp: res_bind_Inr)
  show "limits_ok p d'" unfolding limits_ok_def
    using l(1-3) [THEN update_limit_ok] assms(2,3) by (auto simp: l(4) bounded_def limits_ok_def)
  show "dy_cap d' = dy_cap d" by (simp add: l(4))
qed

lemma update_fields_limits [simp]: "limits_ok p (update_fields rq d) = limits_ok p d"
  by (auto simp: update_fields_def limits_ok_def Let_def split: option.splits)

lemma update_fields_cap:
  "1 \<le> dy_cap d \<Longrightarrow> dy_cap d \<le> AppReplicaCapMax
    \<Longrightarrow> 1 \<le> dy_cap (update_fields rq d) \<and> dy_cap (update_fields rq d) \<le> AppReplicaCapMax"
  by (auto simp: update_fields_def Let_def AppReplicaCapMax_def min_def word_gt_0 word_le_nat_alt unat_gt_0 Suc_le_eq
      split: option.splits)

lemma finish_limits [simp]:
  "limits_ok p (mark_pre_host E d) = limits_ok p d" "dy_cap (mark_pre_host E d) = dy_cap d"
  "limits_ok p (bump d) = limits_ok p d" "dy_cap (bump d) = dy_cap d"
  "limits_ok p (resolveDeployConfigFields R sp d) = limits_ok p d" "dy_cap (resolveDeployConfigFields R sp d) = dy_cap d"
  by (simp_all add: mark_pre_host_def bump_def resolveDeployConfigFields_def limits_ok_def split: prod.split option.split)

lemma check_spec_ok:
  "check_spec K KP E pdb db rq spec = Inr (spec', ver, p) \<Longrightarrow>
     \<exists>r. as_resources spec' = Some (NormalizeLegacy r) \<and> parseSpecResources (Some (NormalizeLegacy r)) = Inr p"
  by (auto simp: check_spec_def res_bind_Inr check_then_Inr Let_def split: if_splits option.splits prod.splits) metis

text \<open>What the spec part hands to the instance part.\<close>

definition spec_ok :: "deploy_req \<Rightarrow> (app_spec \<times> parsed_resources) option \<Rightarrow> bool" where
  "spec_ok rq spec \<longleftrightarrow> (rq_spec rq = None \<longleftrightarrow> spec = None) \<and>
     (\<forall>s p. spec = Some (s, p) \<longrightarrow>
        (\<exists>r. as_resources s = Some (NormalizeLegacy r) \<and> parseSpecResources (Some (NormalizeLegacy r)) = Inr p))"

lemma deploy_spec_ok: "deploy_spec K KP E pdb rq db = (db', Inr spec) \<Longrightarrow> spec_ok rq spec"
  unfolding spec_ok_def deploy_spec_def
  by (auto dest: check_spec_ok split: option.splits sum.splits prod.splits)

lemma update_ranges_spec:
  "update_ranges rq spec a = Inr (sp, p) \<Longrightarrow> spec_ok rq spec \<Longrightarrow> inst_typed a \<Longrightarrow>
     \<exists>s r q. sp = Some s \<and> as_resources s = Some r \<and> parseSpecResources (Some (NormalizeLegacy r)) = Inr q
       \<and> (rq_spec rq \<noteq> None \<or> has_override rq \<longrightarrow> p = q)
       \<and> (rq_spec rq = None \<longrightarrow> limits_ok q (the (ai_deploy a)))"
  by (cases spec)
     (auto simp: update_ranges_def spec_ok_def inst_typed_def normalize_spec_def res_bind_Inr split: if_splits, metis NormalizeLegacy_idem)

lemma update_instance_typed:
  assumes u: "update_instance E rq spec a = Inr a'" and spec: "spec_ok rq spec" and a: "inst_typed a"
  shows "inst_typed a'"
proof -
  obtain d where d: "ai_deploy a = Some d" "1 \<le> dy_cap d" "dy_cap d \<le> AppReplicaCapMax"
    using a by (auto simp: inst_typed_def)
  have "dy_action d \<noteq> OpActionDelete" using u by (auto simp: update_instance_def d(1))
  then obtain sp p d1 where r: "update_ranges rq spec a = Inr (sp, p)"
      and l: "(if rq_spec rq \<noteq> None \<or> has_override rq then update_limits rq p d else Inr d) = Inr d1"
      and a': "a' = finish_update E rq a sp d1"
    using u unfolding update_instance_def by (auto simp: d(1) res_bind_Inr Let_def simp del: not_None_eq)
  obtain s r q where q: "sp = Some s" "as_resources s = Some r" "parseSpecResources (Some (NormalizeLegacy r)) = Inr q"
      "rq_spec rq \<noteq> None \<or> has_override rq \<longrightarrow> p = q" "rq_spec rq = None \<longrightarrow> limits_ok q d"
    using update_ranges_spec [OF r spec a] d(1) by auto
  have b: "bounded q" using q(3) by (rule parse_bounded)
  have "limits_ok q d1 \<and> dy_cap d1 = dy_cap d"
  proof (cases "rq_spec rq \<noteq> None \<or> has_override rq")
    case True
    then have "update_limits rq q d = Inr d1" using l q(4) by simp
    then show ?thesis using update_limits_ok [OF _ b] q(5) by blast
  next
    case False
    then show ?thesis using l q(5) by simp
  qed
  then show ?thesis
    using update_fields_cap [of d1 rq] d b q unfolding inst_typed_def a' finish_update_def by auto
qed

lemma create_limit_ok: "create_limit name rq sel lo hi = Inr w \<Longrightarrow> lo \<le> hi \<Longrightarrow> w \<in> {lo .. hi}"
  using requireInRange_ok by (auto simp: create_limit_def split: option.splits)

lemma cap_clamped: "1 \<le> max 1 (min AppReplicaCapMax (c :: u32))" "max 1 (min AppReplicaCapMax (c :: u32)) \<le> AppReplicaCapMax"
  by (auto simp: AppReplicaCapMax_def)

lemma create_instance_typed:
  assumes c: "create_instance E rq (Some s) p = Inr a"
    and s: "as_resources s = Some (NormalizeLegacy r)" "parseSpecResources (Some (NormalizeLegacy r)) = Inr p"
  shows "inst_typed a" "InstanceName a = rq_name rq"
proof -
  have b: "bounded p" using s(2) by (rule parse_bounded)
  obtain cpu mem vol where l:
      "create_limit ''deploy.cpu_limit'' rq dy_cpu (pr_cpu_min p) (pr_cpu_max p) = Inr cpu"
      "create_limit ''deploy.memory_limit'' rq dy_mem (pr_mem_min p) (pr_mem_max p) = Inr mem"
      "create_limit ''deploy.volume_limit'' rq dy_vol (pr_vol_min p) (pr_vol_max p) = Inr vol"
      "ai_spec a = Some s"
      "ai_deploy a = Some (mark_pre_host E (resolveDeployConfigFields (de_source E) (Some s) (new_deploy rq cpu mem vol)))"
      "InstanceName a = rq_name rq"
    using c unfolding create_instance_def by (auto simp: res_bind_Inr Let_def InstanceName_def)
  have "limits_ok p (new_deploy rq cpu mem vol)"
    using l(1-3) [THEN create_limit_ok] b by (simp add: limits_ok_def new_deploy_def bounded_def)
  then show "inst_typed a"
    using b s cap_clamped [of "rq_cap rq"] by (simp add: inst_typed_def l(4,5)) (simp add: new_deploy_def)
  show "InstanceName a = rq_name rq" by (rule l(6))
qed

section \<open>What the calls may do to the store\<close>

text \<open>
  A change of a stored instance that the calls make: the name and id stay, a well-typed instance stays
  well-typed, and a deleted instance keeps its spec and its deployment.
\<close>

definition allowed :: "app_instance \<Rightarrow> app_instance \<Rightarrow> bool" where
  "allowed a a' \<longleftrightarrow> ai_meta a' = ai_meta a \<and> (inst_typed a \<longrightarrow> inst_typed a') \<and>
     (deleted a \<longrightarrow> ai_spec a' = ai_spec a \<and> ai_deploy a' = ai_deploy a)"

inductive store_step :: "('db, drow) kvgo \<Rightarrow> string \<Rightarrow> 'db \<Rightarrow> 'db \<Rightarrow> bool" for K zone where
  step_spec: "kv_put K db (NsAppSpec n) opt (RowSpec s) = (db', r) \<Longrightarrow> store_step K zone db db'"
| step_change: "kv_get K db (NsAppInstance zone n) = KvFound m (Some (RowApp a)) \<Longrightarrow> allowed a a'
    \<Longrightarrow> kv_put K db (NsAppInstance zone n) opt (RowApp a') = (db', r) \<Longrightarrow> store_step K zone db db'"
| step_create: "kv_get K db (NsAppInstance zone n) = KvNotFound \<Longrightarrow> inst_typed a' \<Longrightarrow> InstanceName a' = n
    \<Longrightarrow> kv_put K db (NsAppInstance zone n) opt (RowApp a') = (db', r) \<Longrightarrow> store_step K zone db db'"

abbreviation store_steps :: "('db, drow) kvgo \<Rightarrow> string \<Rightarrow> 'db \<Rightarrow> 'db \<Rightarrow> bool" where
  "store_steps K zone \<equiv> (store_step K zone)\<^sup>*\<^sup>*"

text \<open>The rows of the instances of a zone: well-typed, and stored under their names.\<close>

definition rows_typed :: "('db, drow) kvgo \<Rightarrow> string \<Rightarrow> 'db \<Rightarrow> bool" where
  "rows_typed K zone db \<longleftrightarrow>
     (\<forall>n m a. kv_get K db (NsAppInstance zone n) = KvFound m (Some (RowApp a)) \<longrightarrow> inst_typed a)"

definition rows_named :: "('db, drow) kvgo \<Rightarrow> string \<Rightarrow> 'db \<Rightarrow> bool" where
  "rows_named K zone db \<longleftrightarrow>
     (\<forall>n m a. kv_get K db (NsAppInstance zone n) = KvFound m (Some (RowApp a)) \<longrightarrow> InstanceName a = n)"

text \<open>The row of a deleted instance is there, with the spec and the deployment it had.\<close>

definition frozen :: "('db, drow) kvgo \<Rightarrow> string \<Rightarrow> string \<Rightarrow> app_instance \<Rightarrow> 'db \<Rightarrow> bool" where
  "frozen K zone n a db \<longleftrightarrow>
     (\<exists>m a'. kv_get K db (NsAppInstance zone n) = KvFound m (Some (RowApp a'))
        \<and> ai_meta a' = ai_meta a \<and> ai_spec a' = ai_spec a \<and> ai_deploy a' = ai_deploy a)"

lemma ns_inj [simp]: "NsAppInstance zone n = NsAppInstance zone n' \<longleftrightarrow> n = n'"
  by (simp add: NsAppInstance_def)

lemma ns_spec_other [simp]: "NsAppInstance zone n \<noteq> NsAppSpec n'" "NsAppSpec n' \<noteq> NsAppInstance zone n"
  by (simp_all add: NsAppInstance_def NsAppSpec_def NsPrefix_def)

lemma put_cases:
  assumes K: "kv_lawful K" and p: "kv_put K db k opt v = (db', r)"
  shows "kv_get K db' k' = kv_get K db k' \<or> (k' = k \<and> (\<exists>m. kv_get K db' k' = KvFound m (Some v)))"
proof (cases r)
  case (KvWritten m)
  with p have w: "kv_put K db k opt v = (db', KvWritten m)" by simp
  show ?thesis using kv_put_read [OF K w] kv_put_other [OF K w, of k'] by (cases "k' = k") auto
next
  case (KvWriteErr e)
  with p have w: "kv_put K db k opt v = (db', KvWriteErr e)" by simp
  show ?thesis using kv_put_fail [OF K w, of k'] by simp
qed

text \<open>What one step does to one instance row: nothing, an allowed change, or a new row.\<close>

lemma step_row:
  assumes K: "kv_lawful K" and s: "store_step K zone db db'"
    and row: "kv_get K db' (NsAppInstance zone n) = KvFound m (Some (RowApp a'))"
  shows "kv_get K db (NsAppInstance zone n) = KvFound m (Some (RowApp a'))
    \<or> (\<exists>m0 a. kv_get K db (NsAppInstance zone n) = KvFound m0 (Some (RowApp a)) \<and> allowed a a')
    \<or> (kv_get K db (NsAppInstance zone n) = KvNotFound \<and> inst_typed a' \<and> InstanceName a' = n)"
  using s
proof cases
  case (step_spec n1 opt sp r)
  then show ?thesis using put_cases [OF K step_spec, of "NsAppInstance zone n"] row by auto
next
  case (step_change n1 m1 a1 a1' opt r)
  then show ?thesis using put_cases [OF K step_change(3), of "NsAppInstance zone n"] row by auto
next
  case (step_create n1 a1' opt r)
  then show ?thesis using put_cases [OF K step_create(4), of "NsAppInstance zone n"] row by auto
qed

lemma step_typed: "kv_lawful K \<Longrightarrow> store_step K zone db db' \<Longrightarrow> rows_typed K zone db \<Longrightarrow> rows_typed K zone db'"
  unfolding rows_typed_def by (meson step_row allowed_def)

lemma allowed_name: "allowed a a' \<Longrightarrow> InstanceName a' = InstanceName a"
  by (simp add: allowed_def InstanceName_def)

lemma step_named: "kv_lawful K \<Longrightarrow> store_step K zone db db' \<Longrightarrow> rows_named K zone db \<Longrightarrow> rows_named K zone db'"
  unfolding rows_named_def by (metis step_row allowed_name)

lemma deleted_same: "ai_deploy a' = ai_deploy a \<Longrightarrow> deleted a' = deleted a"
  by (simp add: deleted_def)

lemma step_frozen:
  assumes K: "kv_lawful K" and s: "store_step K zone db db'" and d: "deleted a" and f: "frozen K zone n a db"
  shows "frozen K zone n a db'"
proof -
  obtain m b where b: "kv_get K db (NsAppInstance zone n) = KvFound m (Some (RowApp b))"
      "ai_meta b = ai_meta a" "ai_spec b = ai_spec a" "ai_deploy b = ai_deploy a"
    using f unfolding frozen_def by blast
  have db: "deleted b" using d deleted_same [OF b(4)] by simp
  have keep: "frozen K zone n a db'" if "kv_get K db' (NsAppInstance zone n) = kv_get K db (NsAppInstance zone n)"
    using b that unfolding frozen_def by auto
  from s show ?thesis
  proof cases
    case (step_spec n1 opt sp r)
    then show ?thesis using put_cases [OF K step_spec, of "NsAppInstance zone n"] keep by auto
  next
    case (step_change n1 m1 a1 a1' opt r)
    from put_cases [OF K step_change(3), of "NsAppInstance zone n"] show ?thesis
    proof
      assume "NsAppInstance zone n = NsAppInstance zone n1 \<and> (\<exists>m. kv_get K db' (NsAppInstance zone n) = KvFound m (Some (RowApp a1')))"
      then show ?thesis using step_change(1,2) b db by (auto simp: frozen_def allowed_def)
    qed (rule keep)
  next
    case (step_create n1 a1' opt r)
    then have "n \<noteq> n1" using b(1) by auto
    then show ?thesis using put_cases [OF K step_create(4), of "NsAppInstance zone n"] keep by auto
  qed
qed

lemma steps_inv:
  assumes "store_steps K zone db db'" "\<And>x y. store_step K zone x y \<Longrightarrow> P x \<Longrightarrow> P y" "P db"
  shows "P db'"
  using assms(1,3) by (induction rule: rtranclp_induct) (auto intro: assms(2))

lemma read_instance_iff:
  "read_instance K db k = Inr (Some (a, m)) \<longleftrightarrow> kv_get K db k = KvFound m (Some (RowApp a))"
  "read_instance K db k = Inr None \<longleftrightarrow> kv_get K db k = KvNotFound"
  by (auto simp: read_instance_def split: kv_read.splits option.splits drow.splits)

lemma refs_allowed: "allowed a (a\<lparr>ai_refs := rs\<rparr>)"
  by (simp add: allowed_def inst_typed_def)

lemma update_ref_steps: "store_steps K zone db (fst (update_ref K zone nm na db))"
proof -
  obtain name add where na: "na = (name, add)" by (cases na)
  show ?thesis
  proof (cases "\<exists>a m. read_instance K db (NsAppInstance zone name) = Inr (Some (a, m)) \<and> (add \<longleftrightarrow> nm \<notin> set (ai_refs a))")
    case True
    then obtain a m where a: "read_instance K db (NsAppInstance zone name) = Inr (Some (a, m))" "add \<longleftrightarrow> nm \<notin> set (ai_refs a)"
      by blast
    define a' where "a' = a\<lparr>ai_refs := if add then ai_refs a @ [nm] else filter (\<lambda>v. v \<noteq> nm) (ai_refs a)\<rparr>"
    obtain db' r where p: "kv_put K db (NsAppInstance zone name) (prev_put (m_version m)) (RowApp a') = (db', r)" by fastforce
    have "fst (update_ref K zone nm na db) = db'"
      unfolding update_ref_def na using a p unfolding a'_def by (cases r) (auto simp: Let_def)
    moreover have "store_step K zone db db'"
      using a(1) p refs_allowed unfolding a'_def by (intro step_change [where n = name and a = a]) (auto simp: read_instance_iff)
    ultimately show ?thesis by auto
  next
    case False
    then have "fst (update_ref K zone nm na db) = db"
      unfolding update_ref_def na by (auto split: sum.splits option.splits)
    then show ?thesis by simp
  qed
qed

lemma reverse_refs_steps: "store_steps K (de_zone E) db (fst (updateDependencyReverseRefs K E nm prev next db))"
proof -
  have "store_steps K (de_zone E) db (fst (for_each (update_ref K (de_zone E) nm) xs s))"
    if "store_steps K (de_zone E) db s" for xs s
    using that
  proof (induction xs arbitrary: s)
    case (Cons x xs)
    have "store_steps K (de_zone E) db (fst (update_ref K (de_zone E) nm x s))"
      using Cons.prems update_ref_steps by (rule rtranclp_trans)
    then show ?case using Cons.IH by (auto split: prod.splits option.splits)
  qed simp
  then show ?thesis unfolding updateDependencyReverseRefs_def by simp
qed

lemma update_allowed: "update_instance E rq spec a = Inr a' \<Longrightarrow> spec_ok rq spec \<Longrightarrow> allowed a a'"
proof -
  assume u: "update_instance E rq spec a = Inr a'" and s: "spec_ok rq spec"
  have "\<not> deleted a" using u by (auto simp: update_instance_def deleted_def split: option.splits)
  moreover have "ai_meta a' = ai_meta a"
    using u by (auto simp: update_instance_def res_bind_Inr Let_def finish_update_def split: if_splits)
  ultimately show ?thesis using update_instance_typed [OF u s] by (simp add: allowed_def)
qed

lemma deploy_update_steps:
  assumes row: "kv_get K db (NsAppInstance (de_zone E) (InstanceName a)) = KvFound m (Some (RowApp a))" and s: "spec_ok rq spec"
  shows "store_steps K (de_zone E) db (fst (deploy_update K E rq spec a m db))"
proof (cases "update_instance E rq spec a")
  case (Inr a')
  obtain db1 r where p: "kv_put K db (NsAppInstance (de_zone E) (InstanceName a)) (prev_put (m_version m)) (RowApp a') = (db1, r)"
    by fastforce
  have st: "store_step K (de_zone E) db db1" using row update_allowed [OF Inr s] p by (rule step_change)
  then show ?thesis
    using reverse_refs_steps [of K E db1] converse_rtranclp_into_rtranclp [of "store_step K (de_zone E)" db db1]
    by (cases r) (auto simp: deploy_update_def Inr p Let_def)
qed (simp add: deploy_update_def)

lemma deploy_create_steps:
  assumes s: "spec_ok rq spec" and "rq_spec rq \<noteq> None" "rq_name rq \<noteq> []"
  shows "store_steps K (de_zone E) db (fst (deploy_create K E rq spec db))"
proof (cases "validateInstanceNameUnique (de_zone E) K db (rq_name rq)")
  case None
  then have free: "kv_get K db (NsAppInstance (de_zone E) (rq_name rq)) = KvNotFound"
    using assms(3) by (auto simp: validateInstanceNameUnique_def loadInstanceByName_def read_instance_iff split: sum.splits option.splits)
  obtain sp p r where sp: "spec = Some (sp, p)" "as_resources sp = Some (NormalizeLegacy r)"
      "parseSpecResources (Some (NormalizeLegacy r)) = Inr p"
    using s assms(2) unfolding spec_ok_def by (metis option.exhaust prod.exhaust)
  show ?thesis
  proof (cases "create_instance E rq (Some sp) p")
    case (Inr a)
    note a = create_instance_typed [OF Inr sp(2,3)]
    obtain db1 w where p: "kv_put K db (NsAppInstance (de_zone E) (rq_name rq)) create_put (RowApp a) = (db1, w)" by fastforce
    have st: "store_step K (de_zone E) db db1" using free a p by (rule step_create)
    then show ?thesis
      using reverse_refs_steps [of K E db1] converse_rtranclp_into_rtranclp [of "store_step K (de_zone E)" db db1]
      by (cases w) (auto simp: deploy_create_def None sp(1) Inr a(2) p)
  qed (simp add: deploy_create_def None sp(1))
qed (simp add: deploy_create_def)

lemma deploy_spec_steps:
  assumes K: "kv_lawful K" and d: "deploy_spec K KP E pdb rq db = (db1, res)"
  shows "store_steps K zone db db1" "kv_get K db1 (NsAppInstance zone n) = kv_get K db (NsAppInstance zone n)"
proof -
  have "db1 = db \<or> (\<exists>n opt s r. kv_put K db (NsAppSpec n) opt (RowSpec s) = (db1, r))"
    using d by (auto simp: deploy_spec_def refreshAppSpec_def split: option.splits sum.splits prod.splits) (metis prod.collapse)+
  then show "store_steps K zone db db1" "kv_get K db1 (NsAppInstance zone n) = kv_get K db (NsAppInstance zone n)"
    using put_cases [OF K] by (auto intro: step_spec) (metis ns_spec_other(1))
qed

lemma deploy_run_steps:
  assumes K: "kv_lawful K" and named: "rows_named K (de_zone E) db" and name: "rq_name rq \<noteq> []"
  shows "store_steps K (de_zone E) db (fst (deploy_run K KP E pdb rq db))"
proof (cases "loadInstanceByName (de_zone E) K db (rq_name rq)")
  case (Inr existing)
  obtain db1 res where d: "deploy_spec K KP E pdb rq db = (db1, res)" by fastforce
  note st = deploy_spec_steps [OF K d, of "de_zone E"]
  show ?thesis
  proof (cases "\<exists>spec. res = Inr spec \<and> \<not> (existing = None \<and> rq_spec rq = None)")
    case True
    then obtain spec where spec: "res = Inr spec" "\<not> (existing = None \<and> rq_spec rq = None)" by blast
    have ok: "spec_ok rq spec" using d spec(1) by (intro deploy_spec_ok) simp
    have "store_steps K (de_zone E) db1 (fst (deploy_run K KP E pdb rq db))"
    proof (cases existing)
      case None
      then show ?thesis using deploy_create_steps [OF ok _ name, of K E db1] Inr d spec by (auto simp: deploy_run_def Option.is_none_def)
    next
      case (Some am)
      obtain a m where am: "am = (a, m)" by (cases am)
      have row: "kv_get K db (NsAppInstance (de_zone E) (rq_name rq)) = KvFound m (Some (RowApp a))"
        using Inr name by (simp add: loadInstanceByName_def Some am read_instance_iff)
      then have "InstanceName a = rq_name rq" using named unfolding rows_named_def by blast
      then have "kv_get K db1 (NsAppInstance (de_zone E) (InstanceName a)) = KvFound m (Some (RowApp a))"
        using row st(2) by simp
      then show ?thesis using deploy_update_steps [OF _ ok] Inr d spec by (simp add: deploy_run_def Some am Option.is_none_def)
    qed
    then show ?thesis using st(1) by (rule rtranclp_trans [rotated])
  next
    case False
    then show ?thesis using st(1) Inr d by (cases res) (auto simp: deploy_run_def Option.is_none_def)
  qed
qed (simp add: deploy_run_def)

lemma mark_deleted_allowed: "\<not> deleted a \<Longrightarrow> allowed a (mark_deleted a)"
  by (auto simp: allowed_def mark_deleted_def inst_typed_def limits_ok_def)

datatype 'pdb deploy_call =
    CallDeploy app_validator bool deploy_env 'pdb deploy_req
  | CallDelete app_validator bool deploy_env string

primrec call_zone :: "'pdb deploy_call \<Rightarrow> string" where
  "call_zone (CallDeploy av leader E pdb rq) = de_zone E"
| "call_zone (CallDelete av leader E name) = de_zone E"

primrec run_call ::
    "('db, drow) kvgo \<Rightarrow> ('pdb, package_row) kvgo \<Rightarrow> 'pdb deploy_call \<Rightarrow> 'db dstate \<Rightarrow> 'db dstate" where
  "run_call K KP (CallDeploy av leader E pdb rq) s = fst (AppInstanceDeploy K KP av leader E pdb rq s)"
| "run_call K KP (CallDelete av leader E name) s = fst (AppInstanceDelete K av leader E name s)"

lemma iset_store_db [simp]: "d_db (iset_store a ver s) = d_db s"
  by (auto simp: iset_store_def split: prod.splits bool.splits)

lemma call_guard_name: "call_guard av scope leader E name = None \<Longrightarrow> name \<noteq> []"
  by (auto simp: call_guard_def split: option.splits)

lemma delete_steps: "store_steps K (de_zone E) (d_db s) (d_db (fst (AppInstanceDelete K av leader E name s)))"
proof (cases "\<exists>a m. call_guard av AuthScope_App_Write leader E name = None \<and> \<not> deleted a
    \<and> loadInstanceByName (de_zone E) K (d_db s) name = Inr (Some (a, m))")
  case True
  then obtain a m where a: "call_guard av AuthScope_App_Write leader E name = None" "\<not> deleted a"
      "loadInstanceByName (de_zone E) K (d_db s) name = Inr (Some (a, m))" by blast
  have row: "kv_get K (d_db s) (NsAppInstance (de_zone E) name) = KvFound m (Some (RowApp a))"
    using a(3) call_guard_name [OF a(1)] by (simp add: loadInstanceByName_def read_instance_iff)
  obtain db' r where p: "kv_put K (d_db s) (NsAppInstance (de_zone E) name) (delete_put (m_version m)) (RowApp (mark_deleted a)) = (db', r)"
    by fastforce
  have "store_step K (de_zone E) (d_db s) db'" using row mark_deleted_allowed [OF a(2)] p by (rule step_change)
  then show ?thesis by (cases r) (auto simp: AppInstanceDelete_def a p)
next
  case False
  then have "d_db (fst (AppInstanceDelete K av leader E name s)) = d_db s"
    by (auto simp: AppInstanceDelete_def split: option.splits sum.splits)
  then show ?thesis by simp
qed

lemma run_call_steps:
  assumes K: "kv_lawful K" and named: "rows_named K (call_zone c) (d_db s)"
  shows "store_steps K (call_zone c) (d_db s) (d_db (run_call K KP c s))"
proof (cases c)
  case (CallDeploy av leader E pdb rq)
  show ?thesis
  proof (cases "call_guard av AuthScope_App_Write leader E (rq_name rq)")
    case None
    then show ?thesis
      using deploy_run_steps [OF K, of E "d_db s" rq KP pdb] call_guard_name [OF None] named
      by (auto simp: CallDeploy AppInstanceDeploy_def split: prod.splits sum.splits)
  qed (simp add: CallDeploy AppInstanceDeploy_def)
next
  case (CallDelete av leader E name)
  then show ?thesis using delete_steps by simp
qed

lemma run_calls_steps:
  assumes K: "kv_lawful K"
  shows "rows_named K zone (d_db s) \<Longrightarrow> \<forall>c \<in> set cs. call_zone c = zone
    \<Longrightarrow> store_steps K zone (d_db s) (d_db (fold (run_call K KP) cs s))"
proof (induction cs arbitrary: s)
  case (Cons c cs)
  have st: "store_steps K zone (d_db s) (d_db (run_call K KP c s))"
    using run_call_steps [OF K, of c s KP] Cons.prems by simp
  then have "rows_named K zone (d_db (run_call K KP c s))"
    using step_named [OF K] Cons.prems(1) by (rule steps_inv)
  then show ?case using Cons st by (auto intro: rtranclp_trans)
qed simp

section \<open>The stored instances\<close>

definition demo_caller :: app_validator where
  "demo_caller = \<lparr>av_at = None, av_ak = Some (empty_key\<lparr>ak_scopes := [''*'']\<rparr>)\<rparr>"

definition demo_denv :: deploy_env where
  "demo_denv = \<lparr>de_zone = ''z'', de_dns = (\<lambda>n. n \<noteq> []), de_semver_valid = (\<lambda>_. True), de_semver_cmp = (\<lambda>_ _. 0),
     de_start = 5000, de_ms = (5001, 5002, 5003), de_id_now = 5, de_id_rnd = (\<lambda>n. Some (replicate n 0)),
     de_source = demo_source, de_cfg_picks = [], de_ref_picks = []\<rparr>"

definition demo_app_spec :: "string \<Rightarrow> string \<Rightarrow> app_spec" where
  "demo_app_spec cpu1 cpu2 = \<lparr>as_name = ''nginx'', as_version = [],
     as_resources = Some \<lparr>sr_cpu_limit = [], sr_mem_limit = [], sr_vol_limit = ''1GB'', sr_cpu_min = cpu1, sr_cpu_max = cpu2,
       sr_mem_min = ''64MiB'', sr_mem_max = ''1.5 GiB'', sr_vol_min = [], sr_vol_max = []\<rparr>,
     as_depends = [], as_packages = [], as_configs = [], as_tasks = []\<rparr>"

definition demo_app :: "string \<Rightarrow> app_instance" where
  "demo_app act = \<lparr>ai_meta = Some \<lparr>am_id = ''7'', am_name = ''web'', am_created = 1, am_updated = 1\<rparr>,
     ai_spec = Some (demo_app_spec ''1'' ''2''),
     ai_deploy = Some (zero_deploy\<lparr>dy_action := act, dy_cpu := 1000, dy_mem := 67108864, dy_vol := 1000000000, dy_cap := 3\<rparr>),
     ai_refs = [], ai_status = None\<rparr>"

definition demo_dstate :: "string \<Rightarrow> drow mem_db dstate" where
  "demo_dstate act = \<lparr>d_db = (1, [(NsAppInstance ''z'' ''web'', 1, RowApp (demo_app act))]), d_set = [], d_set_version = 0,
     d_force = False\<rparr>"

definition demo_call :: "package_row mem_db deploy_call" where
  "demo_call = CallDeploy demo_caller True demo_denv (0, [])
     \<lparr>rq_name = ''web'', rq_spec = Some (demo_app_spec ''1.5'' ''4''), rq_cap = 200,
      rq_deploy = Some (zero_deploy\<lparr>dy_mem := 134217728\<rparr>)\<rparr>"

definition demo_limits :: "drow mem_db dstate \<Rightarrow> (string \<times> int \<times> int \<times> int \<times> u32) option" where
  "demo_limits s = (case kv_get mem_kv (d_db s) (NsAppInstance ''z'' ''web'') of
     KvFound _ (Some (RowApp a)) \<Rightarrow>
       (case ai_deploy a of Some d \<Rightarrow> Some (dy_action d, dy_cpu d, dy_mem d, dy_vol d, dy_cap d) | None \<Rightarrow> None)
   | _ \<Rightarrow> None)"

lemma demo_typed: "inst_typed (demo_app act)"
proof -
  have "parseSpecResources (Some (NormalizeLegacy (the (as_resources (demo_app_spec ''1'' ''2''))))) =
      Inr \<lparr>pr_cpu_min = 1000, pr_cpu_max = 2000, pr_mem_min = 67108864, pr_mem_max = 1610612736,
        pr_vol_min = 1000000000, pr_vol_max = 1000000000\<rparr>"
    by code_simp
  then show ?thesis
    by (auto simp: inst_typed_def demo_app_def demo_app_spec_def limits_ok_def bounded_def CPUMin_def CPUMax_def
        MemoryMin_def MemoryMax_def VolumeMin_def VolumeMax_def AppReplicaCapMax_def)
qed

lemma demo_row:
  "kv_get mem_kv (d_db (demo_dstate act)) k =
     (if k = NsAppInstance ''z'' ''web'' then KvFound \<lparr>m_version = 1, m_updated = 0\<rparr> (Some (RowApp (demo_app act))) else KvNotFound)"
  by (simp add: demo_dstate_def mem_kv_def mem_get_def)

lemma demo_rows: "rows_named mem_kv ''z'' (d_db (demo_dstate act))" "rows_typed mem_kv ''z'' (d_db (demo_dstate act))"
  by (auto simp: rows_named_def rows_typed_def demo_row demo_typed split: if_splits) (simp add: InstanceName_def demo_app_def)

text \<open>
  C9: Every stored instance of a zone is well-typed after any sequence of deploy and delete calls, failed ones
  included, on a store whose instances are: its spec has a parsable resource range inside the system bounds (10 to
  128000 millicores, 16 MiB to 512 GiB, 100 MiB to 10 TiB), its CPU, memory and volume limits lie in that range
  and it asks for 1 to 128 replicas, whatever the requests carry (values out of range, negative, a narrowed
  range, no spec, no deployment).
\<close>

theorem stored_instances_typed:
  assumes K: "kv_lawful K" and named: "rows_named K zone (d_db s)" and typed: "rows_typed K zone (d_db s)"
    and zone: "\<forall>c \<in> set cs. call_zone c = zone"
  shows "rows_typed K zone (d_db (fold (run_call K KP) cs s))"
  using run_calls_steps [OF K named zone] step_typed [OF K] typed by (rule steps_inv)

theorem stored_instances_typed_witness:
  "rows_typed mem_kv ''z'' (d_db (run_call mem_kv mem_kv demo_call (demo_dstate ''start'')))
   \<and> demo_limits (run_call mem_kv mem_kv demo_call (demo_dstate ''start'')) = Some (''start'', 1500, 134217728, 1000000000, 128)"
proof -
  have z: "\<forall>c \<in> set [demo_call]. call_zone c = ''z''" by code_simp
  have v: "demo_limits (run_call mem_kv mem_kv demo_call (demo_dstate ''start'')) = Some (''start'', 1500, 134217728, 1000000000, 128)"
    by code_simp
  show ?thesis
    using stored_instances_typed [OF mem_kv_lawful demo_rows [of "''start''"] z, of "mem_kv :: (package_row mem_db, package_row) kvgo"]
      v by simp
qed

lemma deploy_frozen:
  assumes K: "kv_lawful K" and f: "frozen K (de_zone E) (rq_name rq) a (d_db s)" and d: "deleted a"
  shows "\<exists>e. snd (AppInstanceDeploy K KP av leader E pdb rq s) = Inl e"
proof (cases "call_guard av AuthScope_App_Write leader E (rq_name rq)")
  case None
  obtain m b where b: "kv_get K (d_db s) (NsAppInstance (de_zone E) (rq_name rq)) = KvFound m (Some (RowApp b))"
      "ai_deploy b = ai_deploy a"
    using f unfolding frozen_def by blast
  obtain dp where dp: "ai_deploy b = Some dp" "dy_action dp = OpActionDelete"
    using d b(2) by (auto simp: deleted_def split: option.splits)
  have ld: "loadInstanceByName (de_zone E) K (d_db s) (rq_name rq) = Inr (Some (b, m))"
    using b(1) call_guard_name [OF None] by (simp add: loadInstanceByName_def read_instance_iff)
  have u: "update_instance E rq spec b = Inl (ReadOnly (rq_name rq))" for spec
    by (simp add: update_instance_def dp)
  show ?thesis
    by (auto simp: AppInstanceDeploy_def None deploy_run_def ld deploy_update_def u split: prod.splits sum.splits)
qed (simp add: AppInstanceDeploy_def)

lemma delete_frozen:
  assumes K: "kv_lawful K" and f: "frozen K (de_zone E) name a (d_db s)" and d: "deleted a"
  shows "\<exists>e. AppInstanceDelete K av leader E name s = (s, Some e)"
proof (cases "call_guard av AuthScope_App_Write leader E name")
  case None
  obtain m b where b: "kv_get K (d_db s) (NsAppInstance (de_zone E) name) = KvFound m (Some (RowApp b))"
      "ai_deploy b = ai_deploy a"
    using f unfolding frozen_def by blast
  have "loadInstanceByName (de_zone E) K (d_db s) name = Inr (Some (b, m))"
    using b(1) call_guard_name [OF None] by (simp add: loadInstanceByName_def read_instance_iff)
  moreover have "deleted b" using d deleted_same [OF b(2)] by simp
  ultimately show ?thesis by (simp add: AppInstanceDelete_def None)
qed (simp add: AppInstanceDelete_def)

text \<open>
  C13: A soft-deleted instance is read-only. Whatever deploy and delete calls follow, on this and on other
  instances of the zone, its row keeps its metadata, its spec and its deployment (only the list of instances that
  refer to it may change), and every deploy or delete call that names it fails.
\<close>

theorem deleted_instance_read_only:
  assumes K: "kv_lawful K" and named: "rows_named K zone (d_db s)"
    and row: "kv_get K (d_db s) (NsAppInstance zone n) = KvFound m (Some (RowApp a))" and d: "deleted a"
    and zone: "\<forall>c \<in> set cs. call_zone c = zone" and s': "s' = fold (run_call K KP) cs s"
  shows "frozen K zone n a (d_db s')
    \<and> (\<forall>E rq av leader pdb. de_zone E = zone \<and> rq_name rq = n \<longrightarrow> (\<exists>e. snd (AppInstanceDeploy K KP av leader E pdb rq s') = Inl e))
    \<and> (\<forall>E av leader. de_zone E = zone \<longrightarrow> (\<exists>e. AppInstanceDelete K av leader E n s' = (s', Some e)))"
proof (intro conjI allI impI)
  have "frozen K zone n a (d_db s)" using row unfolding frozen_def by blast
  with run_calls_steps [OF K named zone, of KP] show f: "frozen K zone n a (d_db s')"
    unfolding s' using step_frozen [OF K _ d] by (elim steps_inv [where P = "frozen K zone n a"]) blast
  show "\<exists>e. snd (AppInstanceDeploy K KP av leader E pdb rq s') = Inl e" if "de_zone E = zone \<and> rq_name rq = n" for E rq av leader pdb
    using deploy_frozen [OF K _ d, of E rq s' KP av leader pdb] f that by simp
  show "\<exists>e. AppInstanceDelete K av leader E n s' = (s', Some e)" if "de_zone E = zone" for E av leader
    using delete_frozen [OF K _ d, of E n s' av leader] f that by simp
qed

theorem deleted_instance_read_only_witness:
  "\<exists>e. AppInstanceDelete mem_kv demo_caller True demo_denv ''web'' (run_call mem_kv mem_kv demo_call (demo_dstate ''delete''))
     = (run_call mem_kv mem_kv demo_call (demo_dstate ''delete''), Some e)"
proof -
  have z: "\<forall>c \<in> set [demo_call]. call_zone c = ''z''" by code_simp
  have d: "deleted (demo_app ''delete'')" by code_simp
  have e: "de_zone demo_denv = ''z''" by code_simp
  have r: "kv_get mem_kv (d_db (demo_dstate ''delete'')) (NsAppInstance ''z'' ''web'')
      = KvFound \<lparr>m_version = 1, m_updated = 0\<rparr> (Some (RowApp (demo_app ''delete'')))" by (simp add: demo_row)
  have f: "run_call mem_kv mem_kv demo_call (demo_dstate ''delete'') = fold (run_call mem_kv mem_kv) [demo_call] (demo_dstate ''delete'')"
    by simp
  show ?thesis using deleted_instance_read_only [OF mem_kv_lawful demo_rows(1) r d z f] e by blast
qed

text \<open>
  An update that changes the dependencies never removes the instance from the reference lists of the dependencies
  it gave up: the names before and after are read from one deployment, so there is nothing to remove.
\<close>

lemma no_reference_removed: "ref_changes names names = map (\<lambda>n. (n, True)) names"
  by (simp add: ref_changes_def filter_empty_conv)

text \<open>A second deployment of the same main version gets the next release number.\<close>

lemma resolve_version_next:
  assumes "prev \<noteq> []" "reqv = [] \<or> SemverValid isValid reqv" "appSpecSplitVersion prev = (main, rel)"
    "appSpecCompareMain cmp (fst (appSpecSplitVersion (if reqv = [] then ''0.0.1'' else reqv))) main = 0"
    "int rel + 1 < 2 ^ 63"
  shows "\<exists>v. appSpecResolveVersion isValid cmp reqv prev True = Inr v \<and> appSpecSplitVersion v = (main, rel + 1)"
proof -
  have n: "i64 (int rel + 1) = int (rel + 1)" using assms(5) by (simp add: i64_id in_i64_def)
  have "CHR ''-'' \<notin> set (show_nat (rel + 1))" using show_nat_digits [of "rel + 1"] by (auto simp: is_digit_def)
  then have sp: "split_last CHR ''-'' (main @ ''-'' @ show_nat (rel + 1)) = Some (main, show_nat (rel + 1))"
    using split_last_append by simp
  have "rel + 1 < 2 ^ 63" using assms(5) by (metis of_nat_1 of_nat_add of_nat_less_iff of_nat_numeral of_nat_power)
  then have "parse_uint 63 (show_nat (rel + 1)) = Some (rel + 1)" by (rule parse_uint_show_nat)
  moreover obtain c r where cr: "show_nat (rel + 1) = c # r" by (meson neq_Nil_conv show_nat_nonempty)
  moreover have "c \<noteq> CHR ''+''" using show_nat_digits [of "rel + 1"] cr by (auto simp: is_digit_def)
  ultimately have "atoi (show_nat (rel + 1)) = Some (rel + 1)" by (simp add: atoi_def)
  then show ?thesis
    using assms(1-4) sp n by (auto simp: appSpecResolveVersion_def Let_def show_i64_def appSpecSplitVersion_def [of "main @ _"] nat_add_distrib)
qed

end
