(* ===== verification/Alerts.thy ===== *)
theory Alerts
  imports Users Stage Sliding "HOL-Library.AList" "HOL-Library.Sublist"
begin

text \<open>
  The built-in alerts of the zone leader: \<open>internal/zonelet/alerts.go\<close> (rules, streak counters, crash-loop
  windows, persistence and webhook notifications), the listing call in \<open>service_metrics.go\<close> and the rule
  parameters of \<open>config.go\<close>. The runtime is a record with the database; the entries and the restart
  trackers are association lists whose iteration order is an argument. The text of a message is kept as the
  values it is formatted from. A webhook delivery runs concurrently: starting one counts it as in flight, and its
  end is a step of its own; what is posted is recorded in order.
\<close>

section \<open>Data\<close>

datatype alert_msg =
    NoMsg
  | MsgAge int int
  | MsgDisk int int int
  | MsgRestarts nat int
  | MsgText string

record alert =
  al_zone :: string
  al_rule :: string
  al_target :: string
  al_state :: string
  al_start :: int
  al_update :: int
  al_breach :: int
  al_msg :: alert_msg

record alert_entry =
  en_alert :: alert
  en_pos :: int
  en_neg :: int
  en_write :: int

record host_stat =
  ht_updated :: int
  ht_disk_total :: int
  ht_disk_free :: int

datatype arow = RowAlert alert | RowStat host_stat

record restart_tracker =
  rt_instance :: string
  rt_seen :: bool
  rt_last :: int
  rt_events :: "int list"

record 'db alerts_rt =
  art_db :: 'db
  art_loaded :: bool
  art_entries :: "(string \<times> alert_entry) list"
  art_status :: "string \<rightharpoonup> host_stat option"
  art_restarts :: "(string \<times> restart_tracker) list"
  art_flight :: int
  art_sent :: "alert list"

record alerts_config =
  ac_host_down :: int
  ac_disk_free :: int
  ac_window :: int
  ac_restarts :: int
  ac_webhook :: string

text \<open>
  What the leader holds in memory elsewhere: the registered hosts, the reports of hosts, the restart counters in
  the replica metrics (in the order the map is walked) and the instances.
\<close>

record alerts_env =
  av_zone :: string
  av_config :: alerts_config
  av_hosts :: "string list"
  av_reports :: "string \<rightharpoonup> host_stat"
  av_counters :: "(string \<times> int) list"
  av_instances :: "string list"
  av_sweep_picks :: "nat list"
  av_restart_picks :: "nat list"

definition AlertRuleHostDown :: string where "AlertRuleHostDown = ''host_down''"
definition AlertRuleDiskFull :: string where "AlertRuleDiskFull = ''disk_full''"
definition AlertRuleReplicaCrashloop :: string where "AlertRuleReplicaCrashloop = ''replica_crashloop''"
definition AlertStateFiring :: string where "AlertStateFiring = ''firing''"
definition AlertStateResolved :: string where "AlertStateResolved = ''resolved''"
definition alertResolvedTTLMs :: int where "alertResolvedTTLMs = 30 * 86400 * 1000"
definition alertFiringRefreshSec :: int where "alertFiringRefreshSec = 60"
definition alertNotifyMaxInFlight :: int where "alertNotifyMaxInFlight = 16"

lemmas alert_consts = AlertRuleHostDown_def AlertRuleDiskFull_def AlertRuleReplicaCrashloop_def AlertStateFiring_def
  AlertStateResolved_def

definition i32 :: "int \<Rightarrow> int" where
  "i32 x = (x + 2 ^ 31) mod 2 ^ 32 - 2 ^ 31"

definition HostDownSec :: "alerts_config \<Rightarrow> int" where
  "HostDownSec c = (if ac_host_down c \<le> 0 then 30 else ac_host_down c)"

definition DiskFreePercentV :: "alerts_config \<Rightarrow> int" where
  "DiskFreePercentV c = (if ac_disk_free c \<le> 0 \<or> ac_disk_free c \<ge> 100 then 10 else ac_disk_free c)"

definition CrashloopWindowSec :: "alerts_config \<Rightarrow> int" where
  "CrashloopWindowSec c = (if ac_window c \<le> 0 then 600 else ac_window c)"

definition CrashloopRestartsV :: "alerts_config \<Rightarrow> int" where
  "CrashloopRestartsV c = (if ac_restarts c \<le> 0 then 3 else i32 (ac_restarts c))"

text \<open>The rule table: the streaks of evaluations after which a rule fires and resolves.\<close>

definition alertRuleSpecOf :: "string \<Rightarrow> (int \<times> int) option" where
  "alertRuleSpecOf rule =
     map_of [(AlertRuleHostDown, (1, 2)), (AlertRuleDiskFull, (2, 1)), (AlertRuleReplicaCrashloop, (1, 1))] rule"

definition NsZoneletAlert :: "string \<Rightarrow> string \<Rightarrow> string" where
  "NsZoneletAlert zone aid = NsPrefix @ ''zone/'' @ zone @ ''/alert/'' @ aid"

definition NsZoneletAlertPrefix :: "string \<Rightarrow> string" where
  "NsZoneletAlertPrefix zone = NsPrefix @ ''zone/'' @ zone @ ''/alert/''"

definition NsHostStatus :: "string \<Rightarrow> string \<Rightarrow> string" where
  "NsHostStatus zone host = NsPrefix @ ''host/'' @ zone @ ''/status/'' @ host"

definition alert_id :: "string \<Rightarrow> string \<Rightarrow> string" where
  "alert_id rule target = rule @ ''/'' @ target"

section \<open>Transitions of one alert\<close>

definition alertsWrite :: "('db, arow) kvgo \<Rightarrow> alert \<Rightarrow> int \<Rightarrow> 'db alerts_rt \<Rightarrow> 'db alerts_rt" where
  "alertsWrite K a ttlMs r =
     r\<lparr>art_db := fst (kv_put K (art_db r) (NsZoneletAlert (al_zone a) (alert_id (al_rule a) (al_target a)))
         (if ttlMs > 0 then plain_put\<lparr>wo_ttl := ttlMs\<rparr> else plain_put) (RowAlert a))\<rparr>"

definition alertNotify :: "alerts_env \<Rightarrow> alert \<Rightarrow> 'db alerts_rt \<Rightarrow> 'db alerts_rt" where
  "alertNotify V a r =
     (if ac_webhook (av_config V) = [] then r
      else if art_flight r \<ge> alertNotifyMaxInFlight then r
      else r\<lparr>art_flight := i32 (art_flight r + 1), art_sent := art_sent r @ [a]\<rparr>)"

definition webhook_done :: "'db alerts_rt \<Rightarrow> 'db alerts_rt" where
  "webhook_done r = r\<lparr>art_flight := i32 (art_flight r - 1)\<rparr>"

definition with_msg :: "alert_msg \<Rightarrow> alert \<Rightarrow> alert" where
  "with_msg msg a = (if msg \<noteq> NoMsg then a\<lparr>al_msg := msg\<rparr> else a)"

definition alertResolve ::
    "('db, arow) kvgo \<Rightarrow> alerts_env \<Rightarrow> string \<Rightarrow> alert_entry \<Rightarrow> int \<Rightarrow> alert_msg \<Rightarrow> 'db alerts_rt \<Rightarrow> 'db alerts_rt" where
  "alertResolve K V aid e now msg r =
     (let a = with_msg msg ((en_alert e)\<lparr>al_state := AlertStateResolved, al_update := now\<rparr>);
          r1 = alertNotify V a (alertsWrite K a alertResolvedTTLMs r)
      in r1\<lparr>art_entries := AList.delete aid (art_entries r1)\<rparr>)"

definition put_entry :: "string \<Rightarrow> alert_entry \<Rightarrow> 'db alerts_rt \<Rightarrow> 'db alerts_rt" where
  "put_entry aid e r = r\<lparr>art_entries := AList.update aid e (art_entries r)\<rparr>"

definition new_entry :: "string \<Rightarrow> string \<Rightarrow> string \<Rightarrow> alert_entry" where
  "new_entry zone rule target =
     \<lparr>en_alert = \<lparr>al_zone = zone, al_rule = rule, al_target = target, al_state = [], al_start = 0, al_update = 0,
        al_breach = 0, al_msg = NoMsg\<rparr>, en_pos = 0, en_neg = 0, en_write = 0\<rparr>"

definition eval_positive ::
    "('db, arow) kvgo \<Rightarrow> alerts_env \<Rightarrow> string \<Rightarrow> int \<Rightarrow> alert_entry \<Rightarrow> int \<Rightarrow> alert_msg \<Rightarrow> 'db alerts_rt \<Rightarrow> 'db alerts_rt" where
  "eval_positive K V aid fireStreak e0 now msg r =
     (let e = e0\<lparr>en_neg := 0, en_pos := i64 (en_pos e0 + 1), en_alert := with_msg msg ((en_alert e0)\<lparr>al_update := now\<rparr>)\<rparr> in
      if al_state (en_alert e) = AlertStateFiring then
        let a = (en_alert e)\<lparr>al_breach := i32 (al_breach (en_alert e) + 1)\<rparr> in
        if i64 (now - en_write e) \<ge> alertFiringRefreshSec
        then put_entry aid (e\<lparr>en_alert := a, en_write := now\<rparr>) (alertsWrite K a 0 r)
        else put_entry aid (e\<lparr>en_alert := a\<rparr>) r
      else if en_pos e \<ge> fireStreak then
        let a = (en_alert e)\<lparr>al_state := AlertStateFiring, al_start := now, al_breach := 1\<rparr> in
        put_entry aid (e\<lparr>en_alert := a, en_write := now\<rparr>) (alertNotify V a (alertsWrite K a 0 r))
      else put_entry aid e r)"

definition eval_negative ::
    "('db, arow) kvgo \<Rightarrow> alerts_env \<Rightarrow> string \<Rightarrow> int \<Rightarrow> alert_entry \<Rightarrow> int \<Rightarrow> 'db alerts_rt \<Rightarrow> 'db alerts_rt" where
  "eval_negative K V aid resolveStreak e0 now r =
     (let e = e0\<lparr>en_pos := 0\<rparr> in
      if al_state (en_alert e) \<noteq> AlertStateFiring then r\<lparr>art_entries := AList.delete aid (art_entries r)\<rparr>
      else
        let e1 = e\<lparr>en_neg := i64 (en_neg e + 1)\<rparr> in
        if en_neg e1 \<ge> resolveStreak then alertResolve K V aid e1 now (MsgText ''condition cleared'') r
        else put_entry aid e1 r)"

definition alertEvalCondition ::
    "('db, arow) kvgo \<Rightarrow> alerts_env \<Rightarrow> string \<Rightarrow> string \<Rightarrow> bool \<Rightarrow> int \<Rightarrow> alert_msg \<Rightarrow> 'db alerts_rt \<Rightarrow> 'db alerts_rt" where
  "alertEvalCondition K V rule target positive now msg r =
     (case alertRuleSpecOf rule of
        None \<Rightarrow> r
      | Some (fireStreak, resolveStreak) \<Rightarrow>
          let aid = alert_id rule target in
          case map_of (art_entries r) aid of
            None \<Rightarrow>
              if \<not> positive then r
              else eval_positive K V aid fireStreak (new_entry (av_zone V) rule target) now msg r
          | Some e \<Rightarrow>
              if positive then eval_positive K V aid fireStreak e now msg r
              else eval_negative K V aid resolveStreak e now r)"

section \<open>The rules\<close>

text \<open>\<open>alertHostStatus\<close>: the reports first, then one read of the store per host and term.\<close>

definition alertHostStatus ::
    "('db, arow) kvgo \<Rightarrow> alerts_env \<Rightarrow> string \<Rightarrow> 'db alerts_rt \<Rightarrow> 'db alerts_rt \<times> host_stat option" where
  "alertHostStatus K V host r =
     (case av_reports V host of
        Some hs \<Rightarrow> (r, Some hs)
      | None \<Rightarrow>
          case art_status r host of
            Some cached \<Rightarrow> (r, cached)
          | None \<Rightarrow>
              let found = (case kv_get K (art_db r) (NsHostStatus (av_zone V) host) of
                    KvFound _ (Some (RowStat hs)) \<Rightarrow> if ht_updated hs > 0 then Some hs else None
                  | _ \<Rightarrow> None)
              in (r\<lparr>art_status := (art_status r)(host \<mapsto> found)\<rparr>, found))"

definition down_breach :: "alerts_env \<Rightarrow> int \<Rightarrow> host_stat option \<Rightarrow> bool \<times> alert_msg" where
  "down_breach V now hs =
     (case hs of
        Some h \<Rightarrow>
          let age = i64 (now - ht_updated h); lim = HostDownSec (av_config V) in
          if age > lim then (True, MsgAge age lim) else (False, NoMsg)
      | None \<Rightarrow> (False, NoMsg))"

definition disk_breach :: "alerts_env \<Rightarrow> host_stat option \<Rightarrow> bool \<times> alert_msg" where
  "disk_breach V hs =
     (case hs of
        Some h \<Rightarrow>
          let lim = DiskFreePercentV (av_config V) in
          if ht_disk_total h > 0 \<and> i64 (ht_disk_free h * 100) < i64 (lim * ht_disk_total h)
          then (True, MsgDisk (ht_disk_free h) (ht_disk_total h) lim) else (False, NoMsg)
      | None \<Rightarrow> (False, NoMsg))"

definition eval_host :: "('db, arow) kvgo \<Rightarrow> alerts_env \<Rightarrow> int \<Rightarrow> string \<Rightarrow> 'db alerts_rt \<Rightarrow> 'db alerts_rt" where
  "eval_host K V now host r =
     (if host = [] then r
      else case alertHostStatus K V host r of
        (r1, hs) \<Rightarrow>
          let (d, dm) = down_breach V now hs; (f, fm) = disk_breach V hs
          in alertEvalCondition K V AlertRuleDiskFull host f now fm
               (alertEvalCondition K V AlertRuleHostDown host d now dm r1))"

definition sweep_entry :: "('db, arow) kvgo \<Rightarrow> alerts_env \<Rightarrow> int \<Rightarrow> string \<times> alert_entry \<Rightarrow> 'db alerts_rt \<Rightarrow> 'db alerts_rt" where
  "sweep_entry K V now ie r =
     (case ie of (aid, e) \<Rightarrow>
        if al_rule (en_alert e) = AlertRuleReplicaCrashloop then r
        else if al_target (en_alert e) \<in> set (filter (\<lambda>h. h \<noteq> []) (av_hosts V)) then r
        else alertResolve K V aid e now (MsgText ''target removed from zone'') r)"

definition alertsEvalHosts :: "('db, arow) kvgo \<Rightarrow> alerts_env \<Rightarrow> int \<Rightarrow> 'db alerts_rt \<Rightarrow> 'db alerts_rt" where
  "alertsEvalHosts K V now r =
     (let r1 = fold (eval_host K V now) (av_hosts V) r
      in fold (sweep_entry K V now) (shuffle (av_sweep_picks V) (art_entries r1)) r1)"

definition track :: "int \<Rightarrow> string \<times> int \<Rightarrow> (string \<times> restart_tracker) list \<Rightarrow> (string \<times> restart_tracker) list" where
  "track now nc trs =
     (case nc of (name, cnt) \<Rightarrow>
      case ParseContainerName name of
        None \<Rightarrow> trs
      | Some (inst, _) \<Rightarrow>
          let tr = (case map_of trs name of Some t \<Rightarrow> t
                    | None \<Rightarrow> \<lparr>rt_instance = inst, rt_seen = False, rt_last = 0, rt_events = []\<rparr>);
              tr' = (if \<not> rt_seen tr then tr\<lparr>rt_seen := True, rt_last := cnt\<rparr>
                     else if cnt > rt_last tr
                     then tr\<lparr>rt_events := rt_events tr @ replicate (nat (cnt - rt_last tr)) now, rt_last := cnt\<rparr>
                     else if cnt < rt_last tr then tr\<lparr>rt_events := [], rt_last := cnt\<rparr>
                     else tr)
          in AList.update name tr' trs)"

definition eval_replica ::
    "('db, arow) kvgo \<Rightarrow> alerts_env \<Rightarrow> int \<Rightarrow> string \<times> restart_tracker \<Rightarrow> 'db alerts_rt \<Rightarrow> 'db alerts_rt" where
  "eval_replica K V now nt r =
     (case nt of (name, tr) \<Rightarrow>
        if rt_instance tr \<in> set (av_instances V) then
          let window = CrashloopWindowSec (av_config V);
              fresh = filter (\<lambda>ts. i64 (now - ts) \<le> window) (rt_events tr);
              r1 = r\<lparr>art_restarts := AList.update name (tr\<lparr>rt_events := fresh\<rparr>) (art_restarts r)\<rparr>;
              breach = int (length fresh) \<ge> CrashloopRestartsV (av_config V)
          in alertEvalCondition K V AlertRuleReplicaCrashloop name breach now
               (if breach then MsgRestarts (length fresh) window else NoMsg) r1
        else
          let aid = alert_id AlertRuleReplicaCrashloop name;
              r1 = r\<lparr>art_restarts := AList.delete name (art_restarts r)\<rparr>
          in case map_of (art_entries r1) aid of
               Some e \<Rightarrow> alertResolve K V aid e now (MsgText ''replica removed'') r1
             | None \<Rightarrow> r1)"

definition alertsEvalCrashloop :: "('db, arow) kvgo \<Rightarrow> alerts_env \<Rightarrow> int \<Rightarrow> 'db alerts_rt \<Rightarrow> 'db alerts_rt" where
  "alertsEvalCrashloop K V now r =
     (let r1 = r\<lparr>art_restarts := fold (track now) (av_counters V) (art_restarts r)\<rparr>
      in fold (eval_replica K V now) (shuffle (av_restart_picks V) (art_restarts r1)) r1)"

section \<open>The pass and the listing\<close>

definition AlertScanLimit :: nat where "AlertScanLimit = 4096"

definition load_alert :: "arow kv_item \<Rightarrow> (string \<times> alert_entry) list \<Rightarrow> (string \<times> alert_entry) list" where
  "load_alert it es =
     (case it_val it of
        Some (RowAlert a) \<Rightarrow>
          if al_state a \<noteq> AlertStateFiring \<or> al_rule a = [] \<or> al_target a = [] then es
          else AList.update (alert_id (al_rule a) (al_target a))
                 \<lparr>en_alert = a, en_pos = al_breach a, en_neg = 0, en_write = al_update a\<rparr> es
      | _ \<Rightarrow> es)"

definition alertsLoadFromStore :: "('db, arow) kvgo \<Rightarrow> alerts_env \<Rightarrow> 'db alerts_rt \<Rightarrow> 'db alerts_rt \<times> string option" where
  "alertsLoadFromStore K V r =
     (let r0 = r\<lparr>art_entries := [], art_status := Map.empty, art_restarts := []\<rparr>;
          pre = NsZoneletAlertPrefix (av_zone V)
      in case kv_range K (art_db r) pre (upper_of pre) AlertScanLimit False of
           KvRangeErr e \<Rightarrow> (r0, Some e)
         | KvItems its _ \<Rightarrow> (r0\<lparr>art_entries := fold load_alert its []\<rparr>, None))"

definition alerts_reset :: "'db alerts_rt \<Rightarrow> 'db alerts_rt" where
  "alerts_reset r = r\<lparr>art_loaded := False, art_entries := [], art_status := Map.empty, art_restarts := []\<rparr>"

definition alertsRefresh :: "('db, arow) kvgo \<Rightarrow> alerts_env \<Rightarrow> bool \<Rightarrow> int \<Rightarrow> 'db alerts_rt \<Rightarrow> 'db alerts_rt" where
  "alertsRefresh K V leader now r =
     (if av_zone V = [] then r
      else if \<not> leader then (if art_loaded r then alerts_reset r else r)
      else
        case (if art_loaded r then (r, None)
              else case alertsLoadFromStore K V r of
                     (r', None) \<Rightarrow> (r'\<lparr>art_loaded := True, art_restarts := []\<rparr>, None)
                   | (r', Some e) \<Rightarrow> (r', Some e)) of
          (r1, Some e) \<Rightarrow> r1
        | (r1, None) \<Rightarrow>
            if av_hosts V = [] then r1 else alertsEvalCrashloop K V now (alertsEvalHosts K V now r1))"

record alert_list_req =
  lq_state :: string
  lq_rule :: string
  lq_page :: int
  lq_token :: string

text \<open>\<open>AlertList\<close>: the page, and the id of its last item when more rows match.\<close>

fun alert_page :: "alert_list_req \<Rightarrow> nat \<Rightarrow> arow kv_item list \<Rightarrow> alert list \<Rightarrow> alert list \<times> string" where
  "alert_page q n [] acc = (acc, [])"
| "alert_page q n (it # its) acc =
     (case it_val it of
        Some (RowAlert a) \<Rightarrow>
          let aid = alert_id (al_rule a) (al_target a) in
          if al_rule a = [] \<or> al_target a = [] \<or> (lq_rule q \<noteq> [] \<and> al_rule a \<noteq> lq_rule q)
            \<or> (lq_state q \<noteq> [] \<and> al_state a \<noteq> lq_state q) \<or> (lq_token q \<noteq> [] \<and> str_le aid (lq_token q))
          then alert_page q n its acc
          else if length acc \<ge> n then (acc, alert_id (al_rule (last acc)) (al_target (last acc)))
          else alert_page q n its (acc @ [a])
      | _ \<Rightarrow> alert_page q n its acc)"

definition AlertList ::
    "('db, arow) kvgo \<Rightarrow> app_validator \<Rightarrow> bool \<Rightarrow> string \<Rightarrow> alert_list_req \<Rightarrow> 'db \<Rightarrow> svc_err + (alert list \<times> string)" where
  "AlertList K av leader zone q db =
     (case svc_guard av ''zone:ro'' leader of
        Some e \<Rightarrow> Inl e
      | None \<Rightarrow>
          if lq_state q \<noteq> [] \<and> lq_state q \<noteq> AlertStateFiring \<and> lq_state q \<noteq> AlertStateResolved
          then Inl (BadRequest ''invalid state filter'')
          else
            let n = (if lq_page q \<le> 0 then 100 else if lq_page q > 1000 then 1000 else lq_page q);
                pre = NsZoneletAlertPrefix zone
            in case kv_range K db pre (upper_of pre) AlertScanLimit False of
                 KvRangeErr e \<Rightarrow> Inl (StoreErr e)
               | KvItems its _ \<Rightarrow> Inr (alert_page q (nat n) its []))"

lemma alert_page_bounded: "length acc \<le> n \<Longrightarrow> length (fst (alert_page q n its acc)) \<le> n"
  by (induction q n its acc rule: alert_page.induct) (auto simp: Let_def split: option.splits arow.splits)

text \<open>
  The sweep resolves whatever entry of a target is left, a candidate that never fired included: it is recorded
  and announced as resolved.
\<close>

lemma sweep_resolves_candidate:
  assumes "al_rule (en_alert e) \<noteq> AlertRuleReplicaCrashloop" "al_target (en_alert e) \<notin> set (av_hosts V)"
    "ac_webhook (av_config V) \<noteq> []" "art_flight r < alertNotifyMaxInFlight"
  shows "\<exists>a. art_sent (sweep_entry K V now (aid, e) r) = art_sent r @ [a] \<and> al_state a = AlertStateResolved"
  using assms by (simp add: sweep_entry_def alertResolve_def alertNotify_def alertsWrite_def with_msg_def Let_def)

section \<open>Streaks\<close>

text \<open>
  The machine of one alert, without its data: a candidate with the number of positive evaluations in a row, or
  a firing alert with the number of negative ones.
\<close>

datatype streak = Cand int | Fire int

fun streak_step :: "int \<Rightarrow> int \<Rightarrow> bool \<Rightarrow> streak \<Rightarrow> streak" where
  "streak_step f v True (Cand p) = (if p + 1 \<ge> f then Fire 0 else Cand (p + 1))"
| "streak_step f v True (Fire n) = Fire 0"
| "streak_step f v False (Cand p) = Cand 0"
| "streak_step f v False (Fire n) = (if n + 1 \<ge> v then Cand 0 else Fire (n + 1))"

text \<open>The length of the run of a value at the end of a history.\<close>

definition run_at_end :: "bool \<Rightarrow> bool list \<Rightarrow> nat" where
  "run_at_end b h = length (takeWhile (\<lambda>x. x = b) (rev h))"

lemma run_at_end_simps [simp]:
  "run_at_end b [] = 0" "run_at_end b (h @ [x]) = (if x = b then Suc (run_at_end b h) else 0)"
  by (simp_all add: run_at_end_def)

lemma prefix_replicate: "prefix (replicate k b) zs \<longleftrightarrow> k \<le> length (takeWhile (\<lambda>x. x = b) zs)"
proof (induction k arbitrary: zs)
  case (Suc k)
  then show ?case by (cases zs) auto
qed simp

lemma suffix_replicate: "suffix (replicate k b) h \<longleftrightarrow> k \<le> run_at_end b h"
  using prefix_replicate [of k b "rev h"] by (simp add: suffix_to_prefix run_at_end_def)

lemma sublist_replicate_snoc:
  "sublist (replicate k b) (h @ [x]) \<longleftrightarrow> sublist (replicate k b) h \<or> k \<le> run_at_end b (h @ [x])"
proof -
  have "sublist (replicate k b) (h @ [x]) \<longleftrightarrow> sublist (replicate k b) (x # rev h)"
    by (metis rev.simps(2) rev_replicate rev_rev_ident sublist_rev)
  also have "\<dots> \<longleftrightarrow> prefix (replicate k b) (x # rev h) \<or> sublist (replicate k b) (rev h)"
    by (simp add: sublist_Cons_right)
  also have "sublist (replicate k b) (rev h) \<longleftrightarrow> sublist (replicate k b) h"
    by (metis rev_replicate sublist_rev)
  also have "prefix (replicate k b) (x # rev h) \<longleftrightarrow> k \<le> run_at_end b (h @ [x])"
    by (simp add: prefix_replicate run_at_end_def)
  finally show ?thesis by blast
qed

text \<open>
  A history is alarming when it contains a streak of positive evaluations of the length that fires, and after it
  no streak of negative ones of the length that resolves.
\<close>

definition alarming :: "int \<Rightarrow> int \<Rightarrow> bool list \<Rightarrow> bool" where
  "alarming f v h \<longleftrightarrow>
     (\<exists>h1 h2. h = h1 @ replicate (nat f) True @ h2 \<and> \<not> sublist (replicate (nat v) False) h2)"

lemma run_at_end_after:
  "k > 0 \<Longrightarrow> run_at_end False (h1 @ replicate k True @ h2) = run_at_end False h2"
proof (induction h2 rule: rev_induct)
  case Nil
  then obtain j where "k = Suc j" by (cases k) auto
  then have "h1 @ replicate k True = (h1 @ replicate j True) @ [True]" by (simp add: replicate_append_same)
  then show ?case using run_at_end_simps(2) [of False "h1 @ replicate j True" True] by simp
next
  case (snoc x h2)
  then show ?case using run_at_end_simps(2) [of False "h1 @ replicate k True @ h2" x] by simp
qed

lemma alarming_pos:
  assumes "f > 0" "v > 0"
  shows "alarming f v (h @ [True]) \<longleftrightarrow> alarming f v h \<or> nat f \<le> run_at_end True (h @ [True])"
proof
  assume "alarming f v (h @ [True])"
  then obtain h1 h2 where h: "h @ [True] = h1 @ replicate (nat f) True @ h2" "\<not> sublist (replicate (nat v) False) h2"
    unfolding alarming_def by blast
  show "alarming f v h \<or> nat f \<le> run_at_end True (h @ [True])"
  proof (cases h2 rule: rev_cases)
    case Nil
    then have "suffix (replicate (nat f) True) (h @ [True])" using h(1) by (simp add: suffix_def)
    then have "nat f \<le> run_at_end True (h @ [True])" unfolding suffix_replicate .
    then show ?thesis ..
  next
    case (snoc h2' x)
    then have "h = h1 @ replicate (nat f) True @ h2'" "\<not> sublist (replicate (nat v) False) h2'"
      using h sublist_replicate_snoc by (auto simp flip: append_assoc)
    then show ?thesis unfolding alarming_def by blast
  qed
next
  assume "alarming f v h \<or> nat f \<le> run_at_end True (h @ [True])"
  then show "alarming f v (h @ [True])"
  proof
    assume "alarming f v h"
    then obtain h1 h2 where h: "h = h1 @ replicate (nat f) True @ h2" "\<not> sublist (replicate (nat v) False) h2"
      unfolding alarming_def by blast
    then have "\<not> sublist (replicate (nat v) False) (h2 @ [True])" using assms by (simp add: sublist_replicate_snoc)
    moreover have "h @ [True] = h1 @ replicate (nat f) True @ (h2 @ [True])" using h by simp
    ultimately show ?thesis unfolding alarming_def by blast
  next
    assume "nat f \<le> run_at_end True (h @ [True])"
    then have "suffix (replicate (nat f) True) (h @ [True])" by (simp only: suffix_replicate)
    then obtain h1 where "h @ [True] = h1 @ replicate (nat f) True @ []" by (auto simp: suffix_def)
    moreover have "\<not> sublist (replicate (nat v) False) []" using assms by (simp add: sublist_def)
    ultimately show ?thesis unfolding alarming_def by blast
  qed
qed

lemma alarming_neg:
  assumes "f > 0" "v > 0"
  shows "alarming f v (h @ [False]) \<longleftrightarrow> alarming f v h \<and> int (run_at_end False h) + 1 < v"
proof
  assume "alarming f v (h @ [False])"
  then obtain h1 h2 where h: "h @ [False] = h1 @ replicate (nat f) True @ h2" "\<not> sublist (replicate (nat v) False) h2"
    unfolding alarming_def by blast
  obtain h2' where h2: "h2 = h2' @ [False]"
  proof (cases h2 rule: rev_cases)
    case Nil
    then have "last (h @ [False]) = last (h1 @ replicate (nat f) True)" using h(1) by simp
    then have "False = True" using assms(1) by simp
    then show ?thesis by simp
  next
    case (snoc ys y)
    then show ?thesis using h(1) that by (auto simp flip: append_assoc)
  qed
  then have *: "h = h1 @ replicate (nat f) True @ h2'" using h(1) by (simp flip: append_assoc)
  have "\<not> sublist (replicate (nat v) False) h2' \<and> \<not> nat v \<le> Suc (run_at_end False h2')"
    using h(2) unfolding h2 by (simp add: sublist_replicate_snoc)
  moreover have "run_at_end False h = run_at_end False h2'" unfolding * using assms by (simp add: run_at_end_after)
  ultimately show "alarming f v h \<and> int (run_at_end False h) + 1 < v"
    using * assms unfolding alarming_def by auto
next
  assume a: "alarming f v h \<and> int (run_at_end False h) + 1 < v"
  then obtain h1 h2 where h: "h = h1 @ replicate (nat f) True @ h2" "\<not> sublist (replicate (nat v) False) h2"
    unfolding alarming_def by blast
  have "run_at_end False h = run_at_end False h2" unfolding h(1) using assms by (simp add: run_at_end_after)
  then have "\<not> nat v \<le> Suc (run_at_end False h2)" using a by linarith
  then have "\<not> sublist (replicate (nat v) False) (h2 @ [False])" using h(2) by (simp add: sublist_replicate_snoc)
  moreover have "h @ [False] = h1 @ replicate (nat f) True @ (h2 @ [False])" using h(1) by simp
  ultimately show "alarming f v (h @ [False])" unfolding alarming_def by blast
qed

text \<open>The state of the machine after a history.\<close>

definition streak_after :: "int \<Rightarrow> int \<Rightarrow> bool list \<Rightarrow> streak" where
  "streak_after f v h = fold (streak_step f v) h (Cand 0)"

lemma streak_after_iff:
  assumes "f > 0" "v > 0"
  shows "(case streak_after f v h of
            Cand p \<Rightarrow> \<not> alarming f v h \<and> p = int (run_at_end True h) \<and> p < f
          | Fire n \<Rightarrow> alarming f v h \<and> n = int (run_at_end False h) \<and> n < v)"
proof (induction h rule: rev_induct)
  case Nil
  then show ?case using assms by (simp add: streak_after_def alarming_def)
next
  case (snoc x h)
  have st: "streak_after f v (h @ [x]) = streak_step f v x (streak_after f v h)" by (simp add: streak_after_def)
  show ?case unfolding st using snoc assms
    by (cases x; cases "streak_after f v h") (auto simp: alarming_pos alarming_neg)
qed

section \<open>The code follows the machine\<close>

datatype alert_event = AlertEval (ev_rule: string) (ev_target: string) (ev_pos: bool) (ev_now: int) (ev_msg: alert_msg)

definition eval_event :: "('db, arow) kvgo \<Rightarrow> alerts_env \<Rightarrow> alert_event \<Rightarrow> 'db alerts_rt \<Rightarrow> 'db alerts_rt" where
  "eval_event K V ev = alertEvalCondition K V (ev_rule ev) (ev_target ev) (ev_pos ev) (ev_now ev) (ev_msg ev)"

definition about_alert :: "string \<Rightarrow> string \<Rightarrow> alert_event \<Rightarrow> bool" where
  "about_alert rule target ev \<longleftrightarrow> ev_rule ev = rule \<and> ev_target ev = target"

text \<open>The evaluations of one alert, in order.\<close>

definition own_history :: "string \<Rightarrow> string \<Rightarrow> alert_event list \<Rightarrow> bool list" where
  "own_history rule target evs = map ev_pos (filter (about_alert rule target) evs)"

definition firing :: "string \<Rightarrow> 'db alerts_rt \<Rightarrow> bool" where
  "firing aid r \<longleftrightarrow> (\<exists>e. map_of (art_entries r) aid = Some e \<and> al_state (en_alert e) = AlertStateFiring)"

definition alert_key :: "alert \<Rightarrow> string" where
  "alert_key a = NsZoneletAlert (al_zone a) (alert_id (al_rule a) (al_target a))"

definition entries_ok :: "alerts_env \<Rightarrow> 'db alerts_rt \<Rightarrow> bool" where
  "entries_ok V r \<longleftrightarrow> (\<forall>aid e. map_of (art_entries r) aid = Some e \<longrightarrow>
     al_zone (en_alert e) = av_zone V \<and> alert_id (al_rule (en_alert e)) (al_target (en_alert e)) = aid
     \<and> alertRuleSpecOf (al_rule (en_alert e)) \<noteq> None)"

text \<open>The record of an alert in the store, and what a firing entry has in common with it.\<close>

definition stored_alert :: "('db, arow) kvgo \<Rightarrow> alerts_env \<Rightarrow> string \<Rightarrow> 'db \<Rightarrow> alert option" where
  "stored_alert K V aid db =
     (case kv_get K db (NsZoneletAlert (av_zone V) aid) of KvFound _ (Some (RowAlert a)) \<Rightarrow> Some a | _ \<Rightarrow> None)"

definition same_incident :: "alert \<Rightarrow> alert \<Rightarrow> bool" where
  "same_incident a b \<longleftrightarrow> al_state a = al_state b \<and> al_start a = al_start b \<and> al_zone a = al_zone b
     \<and> al_rule a = al_rule b \<and> al_target a = al_target b"

definition follows :: "('db, arow) kvgo \<Rightarrow> alerts_env \<Rightarrow> int \<Rightarrow> int \<Rightarrow> string \<Rightarrow> 'db alerts_rt \<Rightarrow> streak \<Rightarrow> bool" where
  "follows K V f v aid r s \<longleftrightarrow>
     (case map_of (art_entries r) aid of
        None \<Rightarrow> s = Cand 0
      | Some e \<Rightarrow> s = (if al_state (en_alert e) = AlertStateFiring then Fire (en_neg e) else Cand (en_pos e))) \<and>
     (case s of
        Cand p \<Rightarrow> 0 \<le> p \<and> p < f \<and> (\<forall>a. stored_alert K V aid (art_db r) = Some a \<longrightarrow> al_state a \<noteq> AlertStateFiring)
      | Fire n \<Rightarrow> 0 \<le> n \<and> n < v \<and> (\<exists>a e. stored_alert K V aid (art_db r) = Some a
                     \<and> map_of (art_entries r) aid = Some e \<and> same_incident a (en_alert e)))"

lemma kv_accepts_put:
  assumes "kv_lawful K" "kv_accepts K"
  shows "kv_get K (fst (kv_put K db k (plain_put\<lparr>wo_ttl := ttl\<rparr>) x)) k' =
    (if k' = k then KvFound (case snd (kv_put K db k (plain_put\<lparr>wo_ttl := ttl\<rparr>) x) of KvWritten m \<Rightarrow> m) (Some x) else kv_get K db k')"
proof -
  obtain db' m where p: "kv_put K db k (plain_put\<lparr>wo_ttl := ttl\<rparr>) x = (db', KvWritten m)"
    using assms(2) unfolding kv_accepts_def by blast
  then show ?thesis using kv_put_read [OF assms(1) p] kv_put_other [OF assms(1) p, of k'] by simp
qed

lemma ns_alert_inj [simp]: "NsZoneletAlert zone a = NsZoneletAlert zone b \<longleftrightarrow> a = b"
  by (simp add: NsZoneletAlert_def)

lemma alertsWrite_stored:
  assumes K: "kv_lawful K" "kv_accepts K" and z: "al_zone a = av_zone V"
  shows "stored_alert K V aid (art_db (alertsWrite K a ttl r)) =
    (if alert_id (al_rule a) (al_target a) = aid then Some a else stored_alert K V aid (art_db r))"
proof -
  have "(if ttl > 0 then plain_put\<lparr>wo_ttl := ttl\<rparr> else plain_put) = plain_put\<lparr>wo_ttl := if ttl > 0 then ttl else 0\<rparr>"
    by (simp add: plain_put_def)
  then show ?thesis by (simp add: alertsWrite_def stored_alert_def kv_accepts_put [OF K] z)
qed

lemma alertsWrite_sel [simp]: "art_entries (alertsWrite K a ttl r) = art_entries r"
  by (simp add: alertsWrite_def)

lemma alertNotify_sel [simp]: "art_entries (alertNotify V a r) = art_entries r" "art_db (alertNotify V a r) = art_db r"
  by (simp_all add: alertNotify_def)

lemma put_entry_sel [simp]: "art_db (put_entry aid e r) = art_db r"
  "map_of (art_entries (put_entry aid e r)) = (map_of (art_entries r))(aid \<mapsto> e)"
  by (simp_all add: put_entry_def update_conv')

lemma with_msg_sel [simp]: "al_state (with_msg m a) = al_state a" "al_start (with_msg m a) = al_start a"
  "al_zone (with_msg m a) = al_zone a" "al_rule (with_msg m a) = al_rule a" "al_target (with_msg m a) = al_target a"
  "al_breach (with_msg m a) = al_breach a"
  by (simp_all add: with_msg_def)

lemma new_entry_sel [simp]: "al_state (en_alert (new_entry z rl t)) = []" "al_zone (en_alert (new_entry z rl t)) = z"
  "al_rule (en_alert (new_entry z rl t)) = rl" "al_target (en_alert (new_entry z rl t)) = t"
  "en_pos (new_entry z rl t) = 0" "en_neg (new_entry z rl t) = 0"
  by (simp_all add: new_entry_def)

text \<open>What one evaluation leaves of the entries and of the stored records.\<close>

definition entry_for :: "alerts_env \<Rightarrow> string \<Rightarrow> string \<Rightarrow> 'db alerts_rt \<Rightarrow> alert_entry" where
  "entry_for V rule target r =
     (case map_of (art_entries r) (alert_id rule target) of Some e \<Rightarrow> e | None \<Rightarrow> new_entry (av_zone V) rule target)"

lemma entry_for_ok:
  "entries_ok V r \<Longrightarrow> al_zone (en_alert (entry_for V rule target r)) = av_zone V \<and>
     alert_id (al_rule (en_alert (entry_for V rule target r))) (al_target (en_alert (entry_for V rule target r))) = alert_id rule target"
  by (auto simp: entry_for_def entries_ok_def split: option.split)

lemma entry_for_known:
  "entries_ok V r \<Longrightarrow> alertRuleSpecOf rule \<noteq> None
    \<Longrightarrow> alertRuleSpecOf (al_rule (en_alert (entry_for V rule target r))) \<noteq> None"
  unfolding entry_for_def entries_ok_def by (cases "map_of (art_entries r) (alert_id rule target)") fastforce+

lemma eval_positive_out:
  assumes K: "kv_lawful K" "kv_accepts K" and e: "al_zone (en_alert e) = av_zone V"
      "alert_id (al_rule (en_alert e)) (al_target (en_alert e)) = aid"
  obtains e' where
    "map_of (art_entries (eval_positive K V aid f e now msg r)) = (map_of (art_entries r))(aid \<mapsto> e')"
    "al_zone (en_alert e') = av_zone V" "alert_id (al_rule (en_alert e')) (al_target (en_alert e')) = aid"
    "en_neg e' = 0" "al_state (en_alert e) \<noteq> AlertStateFiring \<Longrightarrow> en_pos e' = i64 (en_pos e + 1)"
    "al_state (en_alert e') = (if al_state (en_alert e) = AlertStateFiring \<or> i64 (en_pos e + 1) \<ge> f then AlertStateFiring
       else al_state (en_alert e))"
    "stored_alert K V aid (art_db (eval_positive K V aid f e now msg r)) = Some (en_alert e')
      \<or> (stored_alert K V aid (art_db (eval_positive K V aid f e now msg r)) = stored_alert K V aid (art_db r)
         \<and> (al_state (en_alert e) = AlertStateFiring \<longrightarrow> same_incident (en_alert e) (en_alert e'))
         \<and> (al_state (en_alert e) \<noteq> AlertStateFiring \<longrightarrow> al_state (en_alert e') \<noteq> AlertStateFiring))"
    "\<And>k. k \<noteq> aid \<Longrightarrow> stored_alert K V k (art_db (eval_positive K V aid f e now msg r)) = stored_alert K V k (art_db r)"
    "al_rule (en_alert e') = al_rule (en_alert e)"
proof -
  let ?r = "eval_positive K V aid f e now msg r"
  let ?e1 = "e\<lparr>en_neg := 0, en_pos := i64 (en_pos e + 1), en_alert := with_msg msg ((en_alert e)\<lparr>al_update := now\<rparr>)\<rparr>"
  let ?a = "en_alert ?e1"
  consider (refresh) "al_state (en_alert e) = AlertStateFiring" "i64 (now - en_write e) \<ge> alertFiringRefreshSec"
    | (steady) "al_state (en_alert e) = AlertStateFiring" "\<not> i64 (now - en_write e) \<ge> alertFiringRefreshSec"
    | (fire) "al_state (en_alert e) \<noteq> AlertStateFiring" "i64 (en_pos e + 1) \<ge> f"
    | (count) "al_state (en_alert e) \<noteq> AlertStateFiring" "\<not> i64 (en_pos e + 1) \<ge> f" by blast
  then show thesis
  proof cases
    case refresh
    let ?b = "?a\<lparr>al_breach := i32 (al_breach ?a + 1)\<rparr>"
    have r: "?r = put_entry aid (?e1\<lparr>en_alert := ?b, en_write := now\<rparr>) (alertsWrite K ?b 0 r)"
      using refresh by (simp add: eval_positive_def Let_def)
    show thesis
      by (rule that [of "?e1\<lparr>en_alert := ?b, en_write := now\<rparr>"]; use refresh e in \<open>simp add: r alertsWrite_stored [OF K]\<close>)
  next
    case steady
    let ?b = "?a\<lparr>al_breach := i32 (al_breach ?a + 1)\<rparr>"
    have r: "?r = put_entry aid (?e1\<lparr>en_alert := ?b\<rparr>) r" using steady by (simp add: eval_positive_def Let_def)
    show thesis
      by (rule that [of "?e1\<lparr>en_alert := ?b\<rparr>"]; use steady e in \<open>simp add: r same_incident_def\<close>)
  next
    case fire
    let ?b = "?a\<lparr>al_state := AlertStateFiring, al_start := now, al_breach := 1\<rparr>"
    have r: "?r = put_entry aid (?e1\<lparr>en_alert := ?b, en_write := now\<rparr>) (alertNotify V ?b (alertsWrite K ?b 0 r))"
      using fire by (simp add: eval_positive_def Let_def)
    show thesis
      by (rule that [of "?e1\<lparr>en_alert := ?b, en_write := now\<rparr>"]; use fire e in \<open>simp add: r alertsWrite_stored [OF K]\<close>)
  next
    case count
    have r: "?r = put_entry aid ?e1 r" using count by (simp add: eval_positive_def Let_def)
    show thesis by (rule that [of ?e1]; use count e in \<open>simp add: r\<close>)
  qed
qed

lemma eval_negative_out:
  fixes v now :: int
  assumes K: "kv_lawful K" "kv_accepts K" and e: "al_zone (en_alert e) = av_zone V"
      "alert_id (al_rule (en_alert e)) (al_target (en_alert e)) = aid"
    and m: "map_of (art_entries r) aid = Some e"
  defines "r' \<equiv> eval_negative K V aid v e now r"
  shows "al_state (en_alert e) \<noteq> AlertStateFiring \<Longrightarrow>
      map_of (art_entries r') = (map_of (art_entries r))(aid := None) \<and> art_db r' = art_db r"
    and "al_state (en_alert e) = AlertStateFiring \<Longrightarrow> i64 (en_neg e + 1) \<ge> v \<Longrightarrow>
      map_of (art_entries r') = (map_of (art_entries r))(aid := None)
      \<and> (\<exists>a. stored_alert K V aid (art_db r') = Some a \<and> al_state a = AlertStateResolved)
      \<and> (\<forall>k. k \<noteq> aid \<longrightarrow> stored_alert K V k (art_db r') = stored_alert K V k (art_db r))"
    and "al_state (en_alert e) = AlertStateFiring \<Longrightarrow> \<not> i64 (en_neg e + 1) \<ge> v \<Longrightarrow>
      map_of (art_entries r') = (map_of (art_entries r))(aid \<mapsto> e\<lparr>en_pos := 0, en_neg := i64 (en_neg e + 1)\<rparr>) \<and> art_db r' = art_db r"
  using e by (simp_all add: r'_def eval_negative_def Let_def delete_conv' alertResolve_def alertsWrite_stored [OF K])

lemma rule_streaks: "alertRuleSpecOf rule = Some (f, v) \<Longrightarrow> 0 < f \<and> f \<le> 2 \<and> 0 < v \<and> v \<le> 2"
  by (auto simp: alertRuleSpecOf_def split: if_splits)

lemma alert_id_inj:
  "alertRuleSpecOf rule = Some x \<Longrightarrow> alertRuleSpecOf rule' = Some x' \<Longrightarrow>
     alert_id rule t = alert_id rule' t' \<longleftrightarrow> rule = rule' \<and> t = t'"
  by (auto simp: alertRuleSpecOf_def alert_id_def alert_consts split: if_splits)

text \<open>An evaluation changes at most the entry and the stored record of its own alert.\<close>

lemma eval_event_other:
  assumes K: "kv_lawful K" "kv_accepts K" and ok: "entries_ok V r" and aid: "aid \<noteq> alert_id (ev_rule ev) (ev_target ev)"
  shows "map_of (art_entries (eval_event K V ev r)) aid = map_of (art_entries r) aid"
    and "stored_alert K V aid (art_db (eval_event K V ev r)) = stored_alert K V aid (art_db r)"
proof -
  let ?id = "alert_id (ev_rule ev) (ev_target ev)"
  let ?e = "entry_for V (ev_rule ev) (ev_target ev) r"
  note e = entry_for_ok [OF ok, of "ev_rule ev" "ev_target ev", THEN conjunct1] entry_for_ok [OF ok, of "ev_rule ev" "ev_target ev", THEN conjunct2]
  have pos: "map_of (art_entries (eval_positive K V ?id f ?e now msg r)) aid = map_of (art_entries r) aid
      \<and> stored_alert K V aid (art_db (eval_positive K V ?id f ?e now msg r)) = stored_alert K V aid (art_db r)" for f now msg
    by (rule eval_positive_out [OF K e, where r = r and f = f and now = now and msg = msg]) (use aid in auto)
  have neg: "map_of (art_entries (eval_negative K V ?id v ?e now r)) aid = map_of (art_entries r) aid
      \<and> stored_alert K V aid (art_db (eval_negative K V ?id v ?e now r)) = stored_alert K V aid (art_db r)"
    if m: "map_of (art_entries r) ?id = Some ?e" for v now
    using eval_negative_out [OF K e m, where v = v and now = now] aid
    by (cases "al_state (en_alert ?e) = AlertStateFiring"; cases "i64 (en_neg ?e + 1) \<ge> v") auto
  have "map_of (art_entries (eval_event K V ev r)) aid = map_of (art_entries r) aid
      \<and> stored_alert K V aid (art_db (eval_event K V ev r)) = stored_alert K V aid (art_db r)"
    using pos neg
    by (auto simp: eval_event_def alertEvalCondition_def Let_def entry_for_def split: option.splits prod.splits)
  then show "map_of (art_entries (eval_event K V ev r)) aid = map_of (art_entries r) aid"
    "stored_alert K V aid (art_db (eval_event K V ev r)) = stored_alert K V aid (art_db r)" by blast+
qed

lemma entries_ok_upd:
  assumes "entries_ok V r" "map_of (art_entries r') = (map_of (art_entries r))(aid := x)"
    "\<And>e. x = Some e \<Longrightarrow> al_zone (en_alert e) = av_zone V \<and> alert_id (al_rule (en_alert e)) (al_target (en_alert e)) = aid
       \<and> alertRuleSpecOf (al_rule (en_alert e)) \<noteq> None"
  shows "entries_ok V r'"
  using assms unfolding entries_ok_def by auto

text \<open>One evaluation of an alert of the table moves its machine.\<close>

lemma eval_event_own:
  assumes K: "kv_lawful K" "kv_accepts K" and spec: "alertRuleSpecOf (ev_rule ev) = Some (f, v)"
    and ok: "entries_ok V r" and fo: "follows K V f v (alert_id (ev_rule ev) (ev_target ev)) r s"
  shows "entries_ok V (eval_event K V ev r)"
    and "follows K V f v (alert_id (ev_rule ev) (ev_target ev)) (eval_event K V ev r) (streak_step f v (ev_pos ev) s)"
proof -
  let ?id = "alert_id (ev_rule ev) (ev_target ev)"
  let ?e = "entry_for V (ev_rule ev) (ev_target ev) r"
  note b = rule_streaks [OF spec]
  note e = entry_for_ok [OF ok, of "ev_rule ev" "ev_target ev", THEN conjunct1] entry_for_ok [OF ok, of "ev_rule ev" "ev_target ev", THEN conjunct2]
  have nf: "([] :: string) \<noteq> AlertStateFiring" by (simp add: AlertStateFiring_def)
  have kn: "alertRuleSpecOf (al_rule (en_alert ?e)) \<noteq> None" using entry_for_known [OF ok] spec by simp
  have s: "s = (if al_state (en_alert ?e) = AlertStateFiring then Fire (en_neg ?e) else Cand (en_pos ?e))"
    using fo nf by (auto simp: follows_def entry_for_def split: option.splits)
  have "entries_ok V (eval_event K V ev r) \<and> follows K V f v ?id (eval_event K V ev r) (streak_step f v (ev_pos ev) s)"
  proof (cases "ev_pos ev")
    case True
    have ev: "eval_event K V ev r = eval_positive K V ?id f ?e (ev_now ev) (ev_msg ev) r"
      using True by (auto simp: eval_event_def alertEvalCondition_def spec Let_def entry_for_def split: option.split)
    obtain e' where out:
      "map_of (art_entries (eval_event K V ev r)) = (map_of (art_entries r))(?id \<mapsto> e')"
      "al_zone (en_alert e') = av_zone V" "alert_id (al_rule (en_alert e')) (al_target (en_alert e')) = ?id"
      "en_neg e' = 0" "al_state (en_alert ?e) \<noteq> AlertStateFiring \<Longrightarrow> en_pos e' = i64 (en_pos ?e + 1)"
      "al_state (en_alert e') = (if al_state (en_alert ?e) = AlertStateFiring \<or> i64 (en_pos ?e + 1) \<ge> f then AlertStateFiring
         else al_state (en_alert ?e))"
      "stored_alert K V ?id (art_db (eval_event K V ev r)) = Some (en_alert e')
        \<or> (stored_alert K V ?id (art_db (eval_event K V ev r)) = stored_alert K V ?id (art_db r)
           \<and> (al_state (en_alert ?e) = AlertStateFiring \<longrightarrow> same_incident (en_alert ?e) (en_alert e'))
           \<and> (al_state (en_alert ?e) \<noteq> AlertStateFiring \<longrightarrow> al_state (en_alert e') \<noteq> AlertStateFiring))"
      "al_rule (en_alert e') = al_rule (en_alert ?e)"
      unfolding ev by (rule eval_positive_out [OF K e, where r = r and f = f and now = "ev_now ev" and msg = "ev_msg ev"]) blast
    have okk: "entries_ok V (eval_event K V ev r)" using out(2,3,8) kn by (intro entries_ok_upd [OF ok out(1)]) auto
    have "follows K V f v ?id (eval_event K V ev r) (streak_step f v True s)"
    proof (cases "al_state (en_alert ?e) = AlertStateFiring")
      case F: True
      then have sF: "s = Fire (en_neg ?e)" using s by simp
      obtain a where a: "stored_alert K V ?id (art_db r) = Some a" "same_incident a (en_alert ?e)"
        using fo F nf unfolding follows_def sF entry_for_def by (auto split: option.splits)
      have "\<exists>a. stored_alert K V ?id (art_db (eval_event K V ev r)) = Some a \<and> same_incident a (en_alert e')"
        using out(7) a F by (auto simp: same_incident_def)
      then show ?thesis using out(1,4,6) F b by (auto simp: follows_def sF)
    next
      case F: False
      then have sC: "s = Cand (en_pos ?e)" using s by simp
      have p: "0 \<le> en_pos ?e" "en_pos ?e < f" "\<forall>a. stored_alert K V ?id (art_db r) = Some a \<longrightarrow> al_state a \<noteq> AlertStateFiring"
        using fo unfolding follows_def sC by auto
      then have i: "i64 (en_pos ?e + 1) = en_pos ?e + 1" using b by (simp add: in_i64_def)
      have same: "same_incident (en_alert e') (en_alert e')" by (simp add: same_incident_def)
      show ?thesis
        using out(1,4,5,6,7) F p b i same by (auto simp: follows_def sC)
    qed
    then show ?thesis using okk True by simp
  next
    case False
    show ?thesis
    proof (cases "map_of (art_entries r) ?id")
      case None
      then have ev: "eval_event K V ev r = r" using False by (simp add: eval_event_def alertEvalCondition_def spec)
      have "s = Cand 0" using fo None by (simp add: follows_def)
      then show ?thesis using ok fo False unfolding ev by simp
    next
      case (Some e0)
      then have e0: "?e = e0" by (simp add: entry_for_def)
      then have m: "map_of (art_entries r) ?id = Some ?e" using Some by simp
      have ev: "eval_event K V ev r = eval_negative K V ?id v ?e (ev_now ev) r"
        using False Some e0 by (simp add: eval_event_def alertEvalCondition_def spec)
      note out = eval_negative_out [OF K e m, where v = v and now = "ev_now ev", folded ev]
      show ?thesis
      proof (cases "al_state (en_alert ?e) = AlertStateFiring")
        case F: False
        then have sC: "s = Cand (en_pos ?e)" using s by simp
        have "entries_ok V (eval_event K V ev r)" using out(1) [OF F] by (intro entries_ok_upd [OF ok, where x = None]) auto
        then show ?thesis using out(1) [OF F] False fo b by (auto simp: follows_def sC)
      next
        case F: True
        then have sF: "s = Fire (en_neg ?e)" using s by simp
        have n: "0 \<le> en_neg ?e" "en_neg ?e < v" using fo unfolding follows_def sF by auto
        obtain a where a: "stored_alert K V ?id (art_db r) = Some a" "same_incident a (en_alert ?e)"
          using fo m unfolding follows_def sF by auto
        have i: "i64 (en_neg ?e + 1) = en_neg ?e + 1" using n b by (simp add: in_i64_def)
        show ?thesis
        proof (cases "en_neg ?e + 1 \<ge> v")
          case True
          then have o: "map_of (art_entries (eval_event K V ev r)) = (map_of (art_entries r))(?id := None)"
              "\<exists>a. stored_alert K V ?id (art_db (eval_event K V ev r)) = Some a \<and> al_state a = AlertStateResolved"
            using out(2) [OF F] i by auto
          have "entries_ok V (eval_event K V ev r)" by (rule entries_ok_upd [OF ok o(1)]) simp
          moreover have "AlertStateResolved \<noteq> AlertStateFiring" by (simp add: alert_consts)
          ultimately show ?thesis using o True False b by (auto simp: follows_def sF)
        next
          case N: False
          then have o: "map_of (art_entries (eval_event K V ev r)) = (map_of (art_entries r))(?id \<mapsto> ?e\<lparr>en_pos := 0, en_neg := en_neg ?e + 1\<rparr>)"
              "art_db (eval_event K V ev r) = art_db r"
            using out(3) [OF F] i by auto
          have "entries_ok V (eval_event K V ev r)" by (rule entries_ok_upd [OF ok o(1)]) (use e kn in auto)
          then show ?thesis using o N False n a F by (auto simp: follows_def sF)
        qed
      qed
    qed
  qed
  then show "entries_ok V (eval_event K V ev r)"
    "follows K V f v ?id (eval_event K V ev r) (streak_step f v (ev_pos ev) s)" by blast+
qed

definition own_step :: "int \<Rightarrow> int \<Rightarrow> string \<Rightarrow> string \<Rightarrow> alert_event \<Rightarrow> streak \<Rightarrow> streak" where
  "own_step f v rule target ev s = (if about_alert rule target ev then streak_step f v (ev_pos ev) s else s)"

definition tracked ::
    "('db, arow) kvgo \<Rightarrow> alerts_env \<Rightarrow> int \<Rightarrow> int \<Rightarrow> string \<Rightarrow> string \<Rightarrow> 'db alerts_rt \<Rightarrow> streak \<Rightarrow> bool" where
  "tracked K V f v rule target r s \<longleftrightarrow> kv_lawful K \<and> kv_accepts K \<and> alertRuleSpecOf rule = Some (f, v) \<and> entries_ok V r
     \<and> follows K V f v (alert_id rule target) r s"

lemma eval_event_entries_ok:
  assumes K: "kv_lawful K" "kv_accepts K" and ok: "entries_ok V r"
  shows "entries_ok V (eval_event K V ev r)"
proof -
  let ?id = "alert_id (ev_rule ev) (ev_target ev)"
  let ?e = "entry_for V (ev_rule ev) (ev_target ev) r"
  note e = entry_for_ok [OF ok, of "ev_rule ev" "ev_target ev", THEN conjunct1] entry_for_ok [OF ok, of "ev_rule ev" "ev_target ev", THEN conjunct2]
  note kn = entry_for_known [OF ok, of "ev_rule ev" "ev_target ev"]
  have pos: "entries_ok V (eval_positive K V ?id f ?e now msg r)" if "alertRuleSpecOf (ev_rule ev) \<noteq> None" for f now msg
    by (rule eval_positive_out [OF K e, where r = r and f = f and now = now and msg = msg])
       (rule entries_ok_upd [OF ok], assumption, use kn [OF that] in simp)
  have neg: "entries_ok V (eval_negative K V ?id v ?e now r)"
    if m: "map_of (art_entries r) ?id = Some ?e" and k: "alertRuleSpecOf (ev_rule ev) \<noteq> None" for v now
  proof -
    obtain x where x: "map_of (art_entries (eval_negative K V ?id v ?e now r)) = (map_of (art_entries r))(?id := x)"
        "\<forall>e'. x = Some e' \<longrightarrow> en_alert e' = en_alert ?e"
      using eval_negative_out [OF K e m, where v = v and now = now]
      by (cases "al_state (en_alert ?e) = AlertStateFiring"; cases "i64 (en_neg ?e + 1) \<ge> v") auto
    show ?thesis by (rule entries_ok_upd [OF ok x(1)]) (use x(2) e kn [OF k] in auto)
  qed
  show ?thesis
    using pos neg ok by (auto simp: eval_event_def alertEvalCondition_def Let_def entry_for_def split: option.splits prod.splits)
qed

lemma eval_event_unknown: "alertRuleSpecOf (ev_rule ev) = None \<Longrightarrow> eval_event K V ev r = r"
  by (simp add: eval_event_def alertEvalCondition_def)

lemma tracked_step:
  assumes t: "tracked K V f v rule target r s"
  shows "tracked K V f v rule target (eval_event K V ev r) (own_step f v rule target ev s)"
proof (cases "about_alert rule target ev")
  case True
  then have "ev_rule ev = rule" "ev_target ev = target" by (simp_all add: about_alert_def)
  then show ?thesis
    using eval_event_own [of K ev f v V r s] t True by (auto simp: tracked_def own_step_def)
next
  case False
  show ?thesis
  proof (cases "alertRuleSpecOf (ev_rule ev)")
    case None
    then show ?thesis using t False by (simp add: eval_event_unknown own_step_def)
  next
    case (Some fv)
    have spec: "alertRuleSpecOf rule = Some (f, v)" using t by (simp add: tracked_def)
    have ne: "alert_id rule target \<noteq> alert_id (ev_rule ev) (ev_target ev)"
      using alert_id_inj [OF spec Some] False by (auto simp: about_alert_def)
    have K: "kv_lawful K" "kv_accepts K" "entries_ok V r" using t by (simp_all add: tracked_def)
    have "follows K V f v (alert_id rule target) (eval_event K V ev r) s = follows K V f v (alert_id rule target) r s"
      by (simp only: follows_def eval_event_other [OF K ne])
    then show ?thesis using t False eval_event_entries_ok [OF K, of ev] by (simp add: tracked_def own_step_def)
  qed
qed

interpretation alerts: forward_sim "\<lambda>ev r. Some (eval_event K V ev r)" "own_step f v rule target" "\<lambda>_ _. True"
  "tracked K V f v rule target" for K V f v rule target
  by unfold_locales (use tracked_step in blast)

lemma alerts_crun: "alerts.crun K V evs r = Some (fold (eval_event K V) evs r)"
  by (induction evs arbitrary: r) auto

lemma alerts_admissible: "alerts.admissible f v rule target evs s"
  by (induction evs arbitrary: s) auto

lemma alerts_arun: "alerts.arun f v rule target evs s = fold (streak_step f v) (own_history rule target evs) s"
  by (induction evs arbitrary: s) (auto simp: own_step_def own_history_def)

lemma tracked_run:
  "tracked K V f v rule target r s \<Longrightarrow>
     tracked K V f v rule target (fold (eval_event K V) evs r) (fold (streak_step f v) (own_history rule target evs) s)"
  using alerts.run_sim [OF _ alerts_admissible, of K V f v rule target r s evs] by (simp add: alerts_crun alerts_arun)

section \<open>A new leader\<close>

text \<open>Every alert record of the store is one of the zone, under its own key.\<close>

definition alerts_keyed :: "('db, arow) kvgo \<Rightarrow> alerts_env \<Rightarrow> 'db \<Rightarrow> bool" where
  "alerts_keyed K V db \<longleftrightarrow>
     (\<forall>k m a. kv_get K db k = KvFound m (Some (RowAlert a)) \<longrightarrow>
       al_zone a = av_zone V \<and> k = alert_key a \<and> alertRuleSpecOf (al_rule a) \<noteq> None)"

lemma alertsWrite_keyed:
  assumes K: "kv_lawful K" "kv_accepts K" and z: "al_zone a = av_zone V"
      and rl: "alertRuleSpecOf (al_rule a) \<noteq> None" and db: "alerts_keyed K V (art_db r)"
  shows "alerts_keyed K V (art_db (alertsWrite K a ttl r))"
proof -
  have "(if ttl > 0 then plain_put\<lparr>wo_ttl := ttl\<rparr> else plain_put) = plain_put\<lparr>wo_ttl := if ttl > 0 then ttl else 0\<rparr>"
    by (simp add: plain_put_def)
  then have w: "art_db (alertsWrite K a ttl r) = fst (kv_put K (art_db r) (alert_key a)
      (plain_put\<lparr>wo_ttl := if ttl > 0 then ttl else 0\<rparr>) (RowAlert a))"
    by (simp add: alertsWrite_def alert_key_def)
  show ?thesis
    unfolding alerts_keyed_def w kv_accepts_put [OF K]
  proof (intro allI impI)
    fix k m b
    assume "(if k = alert_key a then KvFound (case snd (kv_put K (art_db r) (alert_key a)
        (plain_put\<lparr>wo_ttl := if ttl > 0 then ttl else 0\<rparr>) (RowAlert a)) of KvWritten m \<Rightarrow> m) (Some (RowAlert a))
        else kv_get K (art_db r) k) = KvFound m (Some (RowAlert b))"
    then show "al_zone b = av_zone V \<and> k = alert_key b \<and> alertRuleSpecOf (al_rule b) \<noteq> None"
      using db z rl unfolding alerts_keyed_def by (cases "k = alert_key a") auto
  qed
qed

lemma put_entry_db [simp]: "art_db (put_entry aid e r) = art_db r"
  by (simp add: put_entry_def)

lemma eval_event_keyed:
  assumes K: "kv_lawful K" "kv_accepts K" and ok: "entries_ok V r" and db: "alerts_keyed K V (art_db r)"
  shows "alerts_keyed K V (art_db (eval_event K V ev r))"
proof -
  have pos: "alerts_keyed K V (art_db (eval_positive K V aid f e now msg r))" 
    if "al_zone (en_alert e) = av_zone V" "alertRuleSpecOf (al_rule (en_alert e)) \<noteq> None" for aid f e now msg
    using that db by (auto simp: eval_positive_def Let_def intro!: alertsWrite_keyed [OF K])
  have neg: "alerts_keyed K V (art_db (eval_negative K V aid v e now r))" 
    if "al_zone (en_alert e) = av_zone V" "alertRuleSpecOf (al_rule (en_alert e)) \<noteq> None" for aid v e now
    using that db by (auto simp: eval_negative_def alertResolve_def Let_def intro!: alertsWrite_keyed [OF K])
  show ?thesis
    using pos neg db ok
    by (auto simp: eval_event_def alertEvalCondition_def Let_def entries_ok_def split: option.splits prod.splits)
qed

lemma eval_events_keyed:
  assumes K: "kv_lawful K" "kv_accepts K"
  shows "entries_ok V r \<Longrightarrow> alerts_keyed K V (art_db r) \<Longrightarrow> alerts_keyed K V (art_db (fold (eval_event K V) evs r))"
  by (induction evs arbitrary: r) (auto simp: eval_event_keyed [OF K] eval_event_entries_ok [OF K])

definition loads :: "string \<Rightarrow> arow kv_item \<Rightarrow> bool" where
  "loads aid it \<longleftrightarrow> (\<exists>a. it_val it = Some (RowAlert a) \<and> al_state a = AlertStateFiring \<and> al_rule a \<noteq> [] \<and> al_target a \<noteq> []
     \<and> alert_id (al_rule a) (al_target a) = aid)"

lemma load_alerts:
  "(\<exists>e. map_of (fold load_alert its es) aid = Some e \<and> al_state (en_alert e) = AlertStateFiring) \<longleftrightarrow>
     (\<exists>it \<in> set its. loads aid it) \<or> (\<exists>e. map_of es aid = Some e \<and> al_state (en_alert e) = AlertStateFiring)"
proof (induction its arbitrary: es)
  case (Cons it its)
  have "(\<exists>e. map_of (load_alert it es) aid = Some e \<and> al_state (en_alert e) = AlertStateFiring) \<longleftrightarrow>
      loads aid it \<or> (\<exists>e. map_of es aid = Some e \<and> al_state (en_alert e) = AlertStateFiring)"
    by (auto simp: load_alert_def loads_def update_conv' split: option.splits arow.splits)
  then show ?case using Cons.IH [of "load_alert it es"] by auto
qed simp

lemma reload_firing:
  assumes range: "kv_range K (art_db r) pre (upper_of pre) AlertScanLimit False = KvItems its last_page"
    and pre: "pre = NsZoneletAlertPrefix (av_zone V)"
    and all: "kv_listing K (art_db r) pre (upper_of pre) its"
    and keyed: "alerts_keyed K V (art_db r)" and spec: "alertRuleSpecOf rule = Some fv" and target: "target \<noteq> []"
  shows "firing (alert_id rule target) (fst (alertsLoadFromStore K V r)) \<longleftrightarrow>
    (\<exists>a. stored_alert K V (alert_id rule target) (art_db r) = Some a \<and> al_state a = AlertStateFiring)"
proof -
  let ?id = "alert_id rule target" let ?k = "NsZoneletAlert (av_zone V) (alert_id rule target)"
  have rule: "rule \<noteq> []" and inr: "in_range pre (upper_of pre) ?k"
    using spec unfolding pre
    by (auto simp: alertRuleSpecOf_def alert_consts in_range_def str_lt_def upper_of_def NsZoneletAlertPrefix_def NsZoneletAlert_def
        alert_id_def str_le_prefix [of _ "[]", simplified] str_le_prefix split: if_splits)
  have "firing ?id (fst (alertsLoadFromStore K V r)) \<longleftrightarrow> (\<exists>it \<in> set its. loads ?id it)"
    using range load_alerts [of its "[]" ?id] by (simp add: firing_def alertsLoadFromStore_def pre)
  also have "\<dots> \<longleftrightarrow> (\<exists>a. stored_alert K V ?id (art_db r) = Some a \<and> al_state a = AlertStateFiring)"
  proof
    assume "\<exists>it \<in> set its. loads ?id it"
    then obtain it a where it: "it \<in> set its" "it_val it = Some (RowAlert a)" "al_state a = AlertStateFiring"
        "alert_id (al_rule a) (al_target a) = ?id" unfolding loads_def by blast
    then have g: "kv_get K (art_db r) (it_key it) = KvFound (it_meta it) (Some (RowAlert a))"
      using all unfolding kv_listing_def by auto
    then have "it_key it = ?k" using keyed it(4) unfolding alerts_keyed_def alert_key_def by metis
    then show "\<exists>a. stored_alert K V ?id (art_db r) = Some a \<and> al_state a = AlertStateFiring"
      using g it(3) by (simp add: stored_alert_def)
  next
    assume "\<exists>a. stored_alert K V ?id (art_db r) = Some a \<and> al_state a = AlertStateFiring"
    then obtain m a where a: "kv_get K (art_db r) ?k = KvFound m (Some (RowAlert a))" "al_state a = AlertStateFiring"
      by (auto simp: stored_alert_def split: kv_read.splits option.splits arow.splits)
    then have "?k \<in> it_key ` set its" using all inr unfolding kv_listing_def by blast
    then obtain it where it: "it \<in> set its" "it_key it = ?k" by force
    then have v: "it_val it = Some (RowAlert a)" using all a(1) unfolding kv_listing_def by auto
    have i: "alert_id (al_rule a) (al_target a) = ?id" and "alertRuleSpecOf (al_rule a) \<noteq> None"
      using keyed a(1) unfolding alerts_keyed_def alert_key_def by (metis ns_alert_inj, blast)
    then obtain y where "alertRuleSpecOf (al_rule a) = Some y" by blast
    then have "al_rule a = rule" "al_target a = target" using i alert_id_inj [OF _ spec, of "al_rule a" y] by simp_all
    then show "\<exists>it \<in> set its. loads ?id it" using it(1) v a(2) i rule target unfolding loads_def by blast
  qed
  finally show ?thesis .
qed

section \<open>Firing\<close>

definition demo_alerts_env :: alerts_env where
  "demo_alerts_env = \<lparr>av_zone = ''z'', av_config = \<lparr>ac_host_down = 0, ac_disk_free = 0, ac_window = 0, ac_restarts = 0, ac_webhook = ''u''\<rparr>,
     av_hosts = [''h1''], av_reports = Map.empty, av_counters = [], av_instances = [], av_sweep_picks = [], av_restart_picks = []\<rparr>"

definition demo_alerts :: "arow mem_db alerts_rt" where
  "demo_alerts = \<lparr>art_db = (0, []), art_loaded = True, art_entries = [], art_status = Map.empty, art_restarts = [],
     art_flight = 0, art_sent = []\<rparr>"

definition demo_evals :: "alert_event list" where
  "demo_evals =
     [AlertEval ''disk_full'' ''h1'' True 10 (MsgDisk 1 20 10), AlertEval ''host_down'' ''h1'' True 10 (MsgAge 31 30),
      AlertEval ''disk_full'' ''h1'' True 15 (MsgDisk 1 20 10), AlertEval ''host_down'' ''h1'' False 15 NoMsg]"

text \<open>
  C15: Through any sequence of evaluations of any alerts, an alert of the rule table fires exactly when its own
  evaluations contain a positive streak of the length that fires the rule and no negative streak of the length
  that resolves it since; evaluations of other alerts make no difference. The stored record says firing exactly
  then (with the start of the incident that the leader has in memory), so a leader that takes over and reads the
  whole list finds the same alerts firing.
\<close>

theorem alert_fires_iff:
  assumes K: "kv_lawful K" "kv_accepts K" and spec: "alertRuleSpecOf rule = Some (f, v)" and target: "target \<noteq> []"
    and ok: "entries_ok V r" "alerts_keyed K V (art_db r)"
    and fresh: "map_of (art_entries r) (alert_id rule target) = None" "stored_alert K V (alert_id rule target) (art_db r) = None"
    and r': "r' = fold (eval_event K V) evs r"
  shows "(firing (alert_id rule target) r' \<longleftrightarrow> alarming f v (own_history rule target evs))
    \<and> ((\<exists>a. stored_alert K V (alert_id rule target) (art_db r') = Some a \<and> al_state a = AlertStateFiring)
           \<longleftrightarrow> alarming f v (own_history rule target evs))
    \<and> (\<forall>its last_page pre. pre = NsZoneletAlertPrefix (av_zone V) \<and>
         kv_range K (art_db r') pre (upper_of pre) AlertScanLimit False = KvItems its last_page \<and>
         kv_listing K (art_db r') pre (upper_of pre) its \<longrightarrow>
         (firing (alert_id rule target) (fst (alertsLoadFromStore K V r')) \<longleftrightarrow> alarming f v (own_history rule target evs)))"
proof -
  let ?id = "alert_id rule target" let ?h = "own_history rule target evs"
  note b = rule_streaks [OF spec]
  have "tracked K V f v rule target r (Cand 0)"
    using K spec ok fresh b by (simp add: tracked_def follows_def)
  then have t: "tracked K V f v rule target r' (streak_after f v ?h)"
    unfolding r' streak_after_def by (rule tracked_run)
  have s: "case streak_after f v ?h of
            Cand p \<Rightarrow> \<not> alarming f v ?h \<and> p = int (run_at_end True ?h) \<and> p < f
          | Fire n \<Rightarrow> alarming f v ?h \<and> n = int (run_at_end False ?h) \<and> n < v"
    using b by (intro streak_after_iff) auto
  have now: "firing ?id r' \<longleftrightarrow> alarming f v ?h"
    using t s by (auto simp: tracked_def follows_def firing_def split: option.splits streak.splits if_splits)
  have stored: "(\<exists>a. stored_alert K V ?id (art_db r') = Some a \<and> al_state a = AlertStateFiring) \<longleftrightarrow> alarming f v ?h"
    using t s by (auto simp: tracked_def follows_def same_incident_def split: option.splits streak.splits if_splits)
  have later: "firing ?id (fst (alertsLoadFromStore K V r')) \<longleftrightarrow> alarming f v ?h"
    if "kv_range K (art_db r') pre (upper_of pre) AlertScanLimit False = KvItems its last_page"
      "pre = NsZoneletAlertPrefix (av_zone V)" "kv_listing K (art_db r') pre (upper_of pre) its" for its last_page pre
    unfolding stored [symmetric]
    using that eval_events_keyed [OF K ok, of evs] spec target unfolding r' by (rule reload_firing)
  show ?thesis using now stored later by blast
qed

theorem alert_fires_iff_witness:
  "firing ''disk_full/h1'' (fold (eval_event mem_kv demo_alerts_env) demo_evals demo_alerts) \<and>
   alarming 2 1 (own_history ''disk_full'' ''h1'' demo_evals) \<and>
   map al_target (art_sent (fold (eval_event mem_kv demo_alerts_env) demo_evals demo_alerts)) = [''h1'', ''h1'']"
proof -
  have spec: "alertRuleSpecOf ''disk_full'' = Some (2, 1)" by code_simp
  have ok: "entries_ok demo_alerts_env demo_alerts" "alerts_keyed mem_kv demo_alerts_env (art_db demo_alerts)"
    "map_of (art_entries demo_alerts) (alert_id ''disk_full'' ''h1'') = None"
    "stored_alert mem_kv demo_alerts_env (alert_id ''disk_full'' ''h1'') (art_db demo_alerts) = None"
    by (simp_all add: entries_ok_def demo_alerts_def alerts_keyed_def mem_kv_def mem_get_def stored_alert_def)
  have h: "own_history ''disk_full'' ''h1'' demo_evals = [True, True]" by code_simp
  have "[True, True] = [] @ replicate (nat 2) True @ [] \<and> \<not> sublist (replicate (nat 1) False) ([] :: bool list)"
    by (simp add: numeral_2_eq_2)
  then have a: "alarming 2 1 (own_history ''disk_full'' ''h1'' demo_evals)" unfolding alarming_def h by blast
  have "firing (alert_id ''disk_full'' ''h1'') (fold (eval_event mem_kv demo_alerts_env) demo_evals demo_alerts)"
    using alert_fires_iff [OF mem_kv_lawful mem_kv_accepts spec _ ok refl, of demo_evals] a by simp
  moreover have "map al_target (art_sent (fold (eval_event mem_kv demo_alerts_env) demo_evals demo_alerts)) = [''h1'', ''h1'']"
    by code_simp
  ultimately show ?thesis using a by (simp add: alert_id_def)
qed

end
