(* ===== verification/GoPath.thy ===== *)
theory GoPath
  imports Prelude
begin

text \<open>
  Slash-separated paths as the gateway code uses them: \<open>strings.Split\<close> and \<open>strings.Join\<close> with a
  one-byte separator, \<open>path.Clean\<close> (\<open>filepath.Clean\<close> is the same function on this platform),
  \<open>path.Dir\<close> and \<open>path.IsAbs\<close>. The lemmas show what a cleaned path looks like: a rooted one is a slash
  and plain elements, a relative one starts with the parent steps that are left, and \<open>Dir\<close> makes a path
  shorter until it is \<open>/\<close> or \<open>.\<close>.
\<close>

section \<open>Splitting and joining\<close>

fun split_on :: "char \<Rightarrow> string \<Rightarrow> string list" where
  "split_on c [] = [[]]"
| "split_on c (d # s) =
     (if d = c then [] # split_on c s
      else case split_on c s of p # ps \<Rightarrow> (d # p) # ps | [] \<Rightarrow> [[d]])"

fun join_with :: "char \<Rightarrow> string list \<Rightarrow> string" where
  "join_with c [] = []"
| "join_with c [p] = p"
| "join_with c (p # q # ps) = p @ c # join_with c (q # ps)"

lemma split_on_nonempty [simp]: "split_on c s \<noteq> []"
  by (induction s) (auto split: list.splits)

lemma split_on_no_sep: "p \<in> set (split_on c s) \<Longrightarrow> c \<notin> set p"
proof (induction s arbitrary: p)
  case (Cons d s)
  obtain q qs where q: "split_on c s = q # qs" by (cases "split_on c s") auto
  have IH: "c \<notin> set r" if "r \<in> set (q # qs)" for r using Cons.IH [of r] that by (simp add: q)
  show ?case
  proof (cases "d = c")
    case True then show ?thesis using Cons.prems IH [of p] by (auto simp: q)
  next
    case False
    then have "p = d # q \<or> p \<in> set qs" using Cons.prems by (simp add: q)
    then show ?thesis using IH [of q] IH [of p] False by auto
  qed
qed auto

lemma join_split [simp]: "join_with c (split_on c s) = s"
proof (induction s)
  case (Cons d s)
  obtain q qs where q: "split_on c s = q # qs" by (cases "split_on c s") auto
  show ?case using Cons by (cases qs) (auto simp: q)
qed simp

lemma split_on_plain: "c \<notin> set p \<Longrightarrow> split_on c p = [p]"
  by (induction p) auto

lemma split_on_append: "c \<notin> set p \<Longrightarrow> split_on c (p @ c # s) = p # split_on c s"
  by (induction p) auto

lemma split_on_join:
  "ps \<noteq> [] \<Longrightarrow> (\<And>p. p \<in> set ps \<Longrightarrow> c \<notin> set p) \<Longrightarrow> split_on c (join_with c ps) = ps"
  by (induction c ps rule: join_with.induct) (auto simp: split_on_plain split_on_append)

section \<open>path.Clean\<close>

text \<open>The elements that are left: a parent step takes the last plain element back, or stays at the front.\<close>

fun clean_elems :: "bool \<Rightarrow> string list \<Rightarrow> string list \<Rightarrow> string list" where
  "clean_elems rooted st [] = rev st"
| "clean_elems rooted st (e # es) =
     (if e = [] \<or> e = ''.'' then clean_elems rooted st es
      else if e = ''..'' then
        (case st of
           t # ts \<Rightarrow> if t \<noteq> ''..'' then clean_elems rooted ts es else clean_elems rooted (e # st) es
         | [] \<Rightarrow> if rooted then clean_elems rooted [] es else clean_elems rooted [e] es)
      else clean_elems rooted (e # st) es)"

definition IsAbs :: "string \<Rightarrow> bool" where
  "IsAbs p \<longleftrightarrow> has_prefix p ''/''"

definition Clean :: "string \<Rightarrow> string" where
  "Clean p =
     (let es = clean_elems (IsAbs p) [] (split_on CHR ''/'' p) in
      if IsAbs p then CHR ''/'' # join_with CHR ''/'' es
      else if es = [] then ''.''
      else join_with CHR ''/'' es)"

text \<open>\<open>path.Split\<close> keeps everything up to the last slash.\<close>

definition dir_part :: "string \<Rightarrow> string" where
  "dir_part p = rev (dropWhile (\<lambda>c. c \<noteq> CHR ''/'') (rev p))"

definition Dir :: "string \<Rightarrow> string" where
  "Dir p = Clean (dir_part p)"

definition abs_path :: "string list \<Rightarrow> string" where
  "abs_path es = CHR ''/'' # join_with CHR ''/'' es"

definition plain_elem :: "string \<Rightarrow> bool" where
  "plain_elem e \<longleftrightarrow> e \<noteq> [] \<and> e \<noteq> ''.'' \<and> e \<noteq> ''..'' \<and> CHR ''/'' \<notin> set e"

definition plain_path :: "string list \<Rightarrow> bool" where
  "plain_path es \<longleftrightarrow> list_all plain_elem es"

text \<open>What is left of a relative path: parent steps, then plain elements.\<close>

definition stack_ok :: "bool \<Rightarrow> string list \<Rightarrow> bool" where
  "stack_ok rooted es \<longleftrightarrow>
     (\<exists>n ps. es = replicate n ''..'' @ ps \<and> plain_path ps \<and> (rooted \<longrightarrow> n = 0))"

lemma stack_ok_Nil [simp]: "stack_ok rooted []"
  by (auto simp: stack_ok_def plain_path_def)

lemma stack_ok_snoc: "stack_ok rooted es \<Longrightarrow> plain_elem e \<Longrightarrow> stack_ok rooted (es @ [e])"
proof -
  assume "stack_ok rooted es" and e: "plain_elem e"
  then obtain n ps where "es = replicate n ''..'' @ ps" "plain_path ps" "rooted \<longrightarrow> n = 0" by (auto simp: stack_ok_def)
  then show ?thesis unfolding stack_ok_def using e by (intro exI [of _ n] exI [of _ "ps @ [e]"]) (simp add: plain_path_def)
qed

lemma stack_ok_butlast:
  assumes "stack_ok rooted (es @ [e])" "e \<noteq> ''..''"
  shows "stack_ok rooted es"
proof -
  obtain n ps where n: "es @ [e] = replicate n ''..'' @ ps" "plain_path ps" "rooted \<longrightarrow> n = 0"
    using assms(1) by (auto simp: stack_ok_def)
  show ?thesis
  proof (cases ps rule: rev_cases)
    case Nil
    then have "set (es @ [e]) \<subseteq> {''..''}" using n(1) set_replicate_conv_if [of n "''..''"] by (metis append_Nil2 empty_subsetI order_refl)
    then show ?thesis using assms(2) by simp
  next
    case (snoc qs q)
    have "butlast (es @ [e]) = butlast (replicate n ''..'' @ qs @ [q])" using n(1) by (simp only: snoc)
    then have "es = replicate n ''..'' @ qs" by (simp add: butlast_append)
    then show ?thesis unfolding stack_ok_def using n(2,3) by (intro exI [of _ n] exI [of _ qs]) (simp add: snoc plain_path_def)
  qed
qed

lemma stack_ok_parent:
  assumes "stack_ok False (es @ [''..''])"
  shows "stack_ok False (es @ [''..'', ''..''])"
proof -
  obtain n ps where n: "es @ [''..''] = replicate n ''..'' @ ps" "plain_path ps"
    using assms by (auto simp: stack_ok_def)
  show ?thesis
  proof (cases ps rule: rev_cases)
    case Nil
    then have "es @ [''..'', ''..''] = replicate n ''..'' @ [''..'']" using n(1) by simp
    also have "\<dots> = replicate (Suc n) ''..'' @ []" by (simp add: replicate_append_same)
    finally show ?thesis unfolding stack_ok_def by (intro exI [of _ "Suc n"] exI [of _ "[]"]) (simp add: plain_path_def)
  next
    case (snoc qs q)
    then show ?thesis using n by (auto simp: plain_path_def plain_elem_def)
  qed
qed

lemma stack_rooted_parent: "\<not> stack_ok True (es @ [''..''])"
proof
  assume "stack_ok True (es @ [''..''])"
  then have "plain_path (es @ [''..''])" by (auto simp: stack_ok_def)
  then show False by (simp add: plain_path_def plain_elem_def)
qed

lemma clean_elems_ok:
  "stack_ok rooted (rev st) \<Longrightarrow> (\<And>e. e \<in> set es \<Longrightarrow> CHR ''/'' \<notin> set e)
    \<Longrightarrow> stack_ok rooted (clean_elems rooted st es)"
proof (induction rooted st es rule: clean_elems.induct)
  case (2 rooted st e es)
  note IH = "2.IH" and pre = "2.prems"
  have tail: "\<And>x. x \<in> set es \<Longrightarrow> CHR ''/'' \<notin> set x" and e: "CHR ''/'' \<notin> set e" using pre(2) by auto
  consider (skip) "e = [] \<or> e = ''.''" | (parent) "e = ''..''" | (plain) "plain_elem e"
    using e by (auto simp: plain_elem_def)
  then show ?case
  proof cases
    case skip then show ?thesis using IH(1) [OF skip pre(1) tail] by simp
  next
    case parent
    show ?thesis
    proof (cases st)
      case Nil
      have "stack_ok False [''..'']" unfolding stack_ok_def plain_path_def
        by (rule exI [of _ 1], rule exI [of _ "[]"]) simp
      then show ?thesis using IH(2) [OF _ parent Nil] IH(3) [OF _ parent Nil] tail
        by (cases rooted) (simp_all add: parent Nil)
    next
      case (Cons t ts)
      have st: "stack_ok rooted (rev ts @ [t])" using pre(1) by (simp add: Cons)
      show ?thesis
      proof (cases "t = ''..''")
        case True
        then have r: "\<not> rooted" using st stack_rooted_parent by (cases rooted) auto
        then have "stack_ok rooted (rev (e # st))" using stack_ok_parent [of "rev ts"] st True by (simp add: Cons parent)
        then show ?thesis using IH(5) [OF _ parent Cons] True tail by (simp add: parent Cons)
      next
        case False
        have "stack_ok rooted (rev ts)" using stack_ok_butlast [OF st False] .
        then show ?thesis using IH(4) [OF _ parent Cons False] tail False by (simp add: parent Cons)
      qed
    qed
  next
    case plain
    then have ne: "\<not> (e = [] \<or> e = ''.'')" "e \<noteq> ''..''" by (auto simp: plain_elem_def)
    have "stack_ok rooted (rev (e # st))" using stack_ok_snoc [OF pre(1) plain] by simp
    then show ?thesis using IH(6) [OF ne _ tail] ne by simp
  qed
qed simp

lemma Clean_rooted: "IsAbs p \<Longrightarrow> \<exists>es. plain_path es \<and> Clean p = abs_path es"
proof -
  assume abs: "IsAbs p"
  have "stack_ok True (clean_elems True [] (split_on CHR ''/'' p))"
    by (rule clean_elems_ok) (auto dest: split_on_no_sep)
  then have "plain_path (clean_elems True [] (split_on CHR ''/'' p))" by (auto simp: stack_ok_def)
  then show ?thesis using abs by (auto simp: Clean_def abs_path_def Let_def)
qed

lemma clean_elems_plain: "plain_path es \<Longrightarrow> clean_elems rooted st (es @ r) = clean_elems rooted (rev es @ st) r"
  by (induction es arbitrary: st) (simp_all add: plain_path_def plain_elem_def)

lemma plain_no_slash: "plain_path es \<Longrightarrow> p \<in> set es \<Longrightarrow> CHR ''/'' \<notin> set p"
  by (auto simp: plain_path_def plain_elem_def list_all_iff)

lemma Clean_abs_path:
  assumes "plain_path es" "r \<in> {[], [[]]}"
  shows "Clean (abs_path (es @ r)) = abs_path es"
proof -
  have sep: "CHR ''/'' \<notin> set p" if "p \<in> set (es @ r)" for p
    using that plain_no_slash [OF assms(1)] assms(2) by auto
  have "split_on CHR ''/'' (abs_path (es @ r)) = [] # es @ r \<or> (es @ r = [] \<and> split_on CHR ''/'' (abs_path (es @ r)) = [[], []])"
  proof (cases "es @ r = []")
    case False
    then show ?thesis using split_on_join [OF False sep] by (simp add: abs_path_def)
  qed (simp add: abs_path_def)
  then have "clean_elems True [] (split_on CHR ''/'' (abs_path (es @ r))) = es"
    using clean_elems_plain [OF assms(1), of True "[]" r] assms(2) by auto
  then show ?thesis by (simp add: Clean_def IsAbs_def has_prefix_def abs_path_def)
qed

lemma join_snoc: "join_with c (xs @ [e]) = (if xs = [] then e else join_with c xs @ c # e)"
  by (induction c xs rule: join_with.induct) auto

lemma dir_part_append: "CHR ''/'' \<notin> set e \<Longrightarrow> dir_part (d @ CHR ''/'' # e) = d @ ''/''"
proof -
  assume "CHR ''/'' \<notin> set e"
  then have "dropWhile (\<lambda>c. c \<noteq> CHR ''/'') (rev e @ CHR ''/'' # rev d) = CHR ''/'' # rev d"
    by (subst dropWhile_append2) auto
  then show ?thesis by (simp add: dir_part_def)
qed

lemma Dir_abs_path: "plain_path (es @ [e]) \<Longrightarrow> Dir (abs_path (es @ [e])) = abs_path es"
proof -
  assume p: "plain_path (es @ [e])"
  then have e: "CHR ''/'' \<notin> set e" and es: "plain_path es" by (auto simp: plain_path_def plain_elem_def)
  have "dir_part (abs_path (es @ [e])) = abs_path (es @ [[]])"
  proof (cases "es = []")
    case True
    then show ?thesis using dir_part_append [OF e, of "[]"] by (simp add: abs_path_def)
  next
    case False
    then show ?thesis using dir_part_append [OF e, of "abs_path es"] by (simp add: abs_path_def join_snoc)
  qed
  then show ?thesis using Clean_abs_path [OF es, of "[[]]"] by (simp add: Dir_def)
qed

lemma Dir_root: "Dir (abs_path []) = abs_path []"
  by (simp add: Dir_def dir_part_def abs_path_def Clean_def IsAbs_def has_prefix_def)

text \<open>A cleaned path is no longer than the path, and shorter when the path ends in a slash.\<close>

definition elems_size :: "string list \<Rightarrow> nat" where
  "elems_size es = sum_list (map (\<lambda>e. Suc (length e)) es)"

lemma elems_size_Nil: "elems_size [] = 0"
  by (simp add: elems_size_def)

lemma elems_size_rev: "elems_size (rev es) = elems_size es"
  by (induction es) (simp_all add: elems_size_def)

lemma elems_size_split: "elems_size (split_on c s) = Suc (length s)"
proof (induction s)
  case (Cons d s)
  then show ?case by (cases "split_on c s") (auto simp: elems_size_def)
qed (simp add: elems_size_def)

lemma elems_size_join: "es \<noteq> [] \<Longrightarrow> Suc (length (join_with c es)) = elems_size es"
  by (induction c es rule: join_with.induct) (auto simp: elems_size_def)

lemma elems_size_clean: "elems_size (clean_elems rooted st es) \<le> elems_size st + elems_size es"
proof (induction rooted st es rule: clean_elems.induct)
  case (2 rooted st e es)
  then show ?case by (cases st) (auto simp: elems_size_def split: if_splits)
qed (simp add: elems_size_rev)

lemma clean_elems_snoc_empty: "clean_elems rooted st (es @ [[]]) = clean_elems rooted st es"
  by (induction rooted st es rule: clean_elems.induct) (auto split: list.splits)

lemma split_on_snoc: "split_on c (s @ [c]) = split_on c s @ [[]]"
  by (induction s) (auto split: list.splits)

lemma Clean_shorter:
  assumes "s = d @ ''/''" "Clean s \<noteq> ''/''" "Clean s \<noteq> ''.''"
  shows "length (Clean s) < length s"
proof -
  let ?es = "clean_elems (IsAbs s) [] (split_on CHR ''/'' s)"
  have eq: "?es = clean_elems (IsAbs s) [] (split_on CHR ''/'' d)"
    by (simp add: assms(1) split_on_snoc clean_elems_snoc_empty)
  then have le: "elems_size ?es \<le> Suc (length d)"
    using elems_size_clean [of "IsAbs s" "[]" "split_on CHR ''/'' d"]
    by (simp add: elems_size_split elems_size_Nil)
  show ?thesis
  proof (cases "IsAbs s")
    case False
    then have "?es \<noteq> []" "Clean s = join_with CHR ''/'' ?es" using assms(3) by (auto simp: Clean_def Let_def split: if_splits)
    then show ?thesis using le elems_size_join [of ?es "CHR ''/''"] by (simp add: assms(1))
  next
    case True
    then have cl: "Clean s = CHR ''/'' # join_with CHR ''/'' ?es" by (simp add: Clean_def Let_def)
    have ne: "?es \<noteq> []" using assms(2) by (auto simp: cl)
    then obtain d' where d: "d = CHR ''/'' # d'" using True assms(1,2) eq
      by (cases d) (auto simp: IsAbs_def has_prefix_def cl)
    have "?es = clean_elems True [] (split_on CHR ''/'' d')" using eq True by (simp add: d)
    then have "elems_size ?es \<le> Suc (length d')"
      using elems_size_clean [of True "[]" "split_on CHR ''/'' d'"] by (simp add: elems_size_split elems_size_Nil)
    moreover have "length s = Suc (Suc (length d'))" by (simp add: assms(1) d)
    ultimately show ?thesis using elems_size_join [OF ne, of "CHR ''/''"] arg_cong [OF cl, of length] by simp
  qed
qed

lemma dir_part_split: "\<exists>e. p = dir_part p @ e \<and> (dir_part p = [] \<or> (\<exists>d. dir_part p = d @ ''/''))"
proof (cases "CHR ''/'' \<in> set p")
  case True
  then obtain d e where "p = d @ CHR ''/'' # e" "CHR ''/'' \<notin> set e" by (metis split_list_last)
  then show ?thesis using dir_part_append [of e d] by auto
next
  case False
  then have "dir_part p = []" by (auto simp: dir_part_def dropWhile_eq_Nil_conv)
  then show ?thesis by simp
qed

lemma Dir_shorter: "Dir p \<noteq> ''/'' \<Longrightarrow> Dir p \<noteq> ''.'' \<Longrightarrow> length (Dir p) < length p"
proof -
  assume ne: "Dir p \<noteq> ''/''" "Dir p \<noteq> ''.''"
  obtain e where e: "p = dir_part p @ e" "dir_part p = [] \<or> (\<exists>d. dir_part p = d @ ''/'')"
    using dir_part_split by blast
  have "Clean [] = ''.''" by (simp add: Clean_def IsAbs_def has_prefix_def)
  then obtain d where d: "dir_part p = d @ ''/''" using e(2) ne(2) by (auto simp: Dir_def)
  have "length (Dir p) < length (dir_part p)" using Clean_shorter [OF d] ne by (simp add: Dir_def)
  also have "\<dots> \<le> length p" using arg_cong [OF e(1), of length] by simp
  finally show ?thesis .
qed

lemma join_hd_prefix: "has_prefix (join_with c (e # es)) e"
  by (cases es) (simp_all add: has_prefix_def)

lemma Clean_relative:
  assumes "\<not> IsAbs (Clean p)" "\<not> has_prefix (Clean p) ''..''"
  shows "Clean p = ''.'' \<or> (\<exists>es. es \<noteq> [] \<and> plain_path es \<and> Clean p = join_with CHR ''/'' es)"
proof -
  let ?es = "clean_elems (IsAbs p) [] (split_on CHR ''/'' p)"
  have rel: "\<not> IsAbs p" using assms(1) by (auto simp: Clean_def Let_def IsAbs_def has_prefix_def)
  have "stack_ok False ?es" using rel clean_elems_ok [of False "[]" "split_on CHR ''/'' p"]
    by (auto dest: split_on_no_sep)
  then obtain n ps where n: "?es = replicate n ''..'' @ ps" "plain_path ps" by (auto simp: stack_ok_def)
  show ?thesis
  proof (cases "?es = []")
    case True then show ?thesis using rel by (simp add: Clean_def)
  next
    case False
    then have cl: "Clean p = join_with CHR ''/'' ?es" using rel by (simp add: Clean_def)
    have "n = 0"
    proof (cases n)
      case (Suc m)
      then have "?es = ''..'' # replicate m ''..'' @ ps" using n(1) by simp
      then have "has_prefix (Clean p) ''..''" using join_hd_prefix [of "CHR ''/''" "''..''"] cl by metis
      then show ?thesis using assms(2) by simp
    qed
    then have "plain_path ?es" using n by simp
    then show ?thesis using cl False by blast
  qed
qed

end
