(* ===== verification/Ingress.thy ===== *)
theory Ingress
  imports GoPath Deploy
begin

text \<open>
  The gateway calls of the zone service: \<open>service_gateway.go\<close> (set, delete, info and list of ingress
  records) and \<open>service_internal_gateway.go\<close> (the deployment list the gateways fetch, with the backends
  of every route). An ingress row and an application row live in the same database; the second holds the fields of
  an instance the gateway list reads. The public-suffix list, the IDNA mapping, the name validator and the
  lower-casing of text beyond ASCII are third-party code or tables and arguments, as is the URL
  parser, over an abstract type of parsed URLs. An index out of range and a nil dereference are the error
  \<open>IngPanic\<close>. A call runs alone, so the version guard of the delete holds.
\<close>

section \<open>Data\<close>

record ing_target =
  gt_backend :: string
  gt_weight :: int

record ing_route =
  gr_path :: string
  gr_type :: string
  gr_action :: string
  gr_targets :: "ing_target list"

record ing_meta =
  gm_id :: string
  gm_created :: int
  gm_updated :: int
  gm_version :: nat

record gateway_ingress =
  gi_meta :: "ing_meta option"
  gi_domain :: string
  gi_description :: string
  gi_options :: "bool option"
  gi_action :: string
  gi_routes :: "ing_route list"

text \<open>What the gateway list reads of an instance; a replica has its state besides its host and ports.\<close>

record gw_replica = dreplica +
  gp_state :: string

record gw_app_deploy =
  ga_action :: string
  ga_replicas :: "gw_replica list"

record gw_app =
  ga_name :: string
  ga_deploy :: "gw_app_deploy option"

datatype irow = IngRow gateway_ingress | AppRow gw_app

text \<open>A deployment of an ingress: the backends of a target carry no weight.\<close>

record deploy_route =
  lr_type :: string
  lr_path :: string
  lr_targets :: "string list"

record ingress_deploy =
  gd_domain :: string
  gd_letsencrypt :: bool
  gd_routes :: "deploy_route list"
  gd_revision :: nat

datatype ing_err =
    IngSvc svc_err
  | AuthFail
  | DomainMissing
  | InvalidTLD
  | InvalidDomain
  | DomainTooLong
  | LabelTooLong
  | IngStore string
  | IngDecode
  | IngMetaMissing
  | NotDisabled
  | TooRecent string int
  | BadInstance
  | BadUpstream
  | BadRedirect
  | BadRouteType
  | IngPanic

text \<open>The functions of \<open>net/url\<close> the calls use, over parsed URLs \<open>'u\<close>.\<close>

record 'u url_api =
  ua_request :: "string \<Rightarrow> 'u option"
  ua_parse :: "string \<Rightarrow> 'u option"
  ua_path :: "'u \<Rightarrow> string"
  ua_with_path :: "string \<Rightarrow> 'u \<Rightarrow> 'u"
  ua_string :: "'u \<Rightarrow> string"

record 'u ing_env =
  ge_zone :: string
  ge_suffix :: "string \<Rightarrow> bool"
  ge_idna :: "string \<Rightarrow> bool"
  ge_dns :: "string \<Rightarrow> bool"
  ge_lower :: "string \<Rightarrow> string"
  ge_url :: "'u url_api"
  ge_created :: int
  ge_now :: int
  ge_id_now :: int
  ge_id_rnd :: "nat \<Rightarrow> u8 list option"
  ge_picks :: "nat list"

definition AuthScope_GatewayIngress_Read :: string where "AuthScope_GatewayIngress_Read = ''ingress:ro''"
definition AuthScope_GatewayIngress_Write :: string where "AuthScope_GatewayIngress_Write = ''ingress:rw''"
definition AuthScope_GatewayIngressDeploy_Read :: string where
  "AuthScope_GatewayIngressDeploy_Read = ''ingress-deploy:ro''"
definition GatewayIngressType_Instance :: string where "GatewayIngressType_Instance = ''instance''"
definition GatewayIngressType_Upstream :: string where "GatewayIngressType_Upstream = ''upstream''"
definition GatewayIngressType_Redirect :: string where "GatewayIngressType_Redirect = ''redirect''"
definition GatewayIngressActionEnable :: string where "GatewayIngressActionEnable = ''enable''"
definition GatewayIngressActionDisable :: string where "GatewayIngressActionDisable = ''disable''"
definition GatewayIngressActionDelete :: string where "GatewayIngressActionDelete = ''delete''"
definition GatewayIngressDeleteDelaySeconds :: int where "GatewayIngressDeleteDelaySeconds = 10 * 24 * 3600"

lemmas ingress_consts = GatewayIngressType_Instance_def GatewayIngressType_Upstream_def
  GatewayIngressType_Redirect_def GatewayIngressActionEnable_def GatewayIngressActionDisable_def
  GatewayIngressActionDelete_def

definition NsZoneletGatewayIngress :: "string \<Rightarrow> string \<Rightarrow> string" where
  "NsZoneletGatewayIngress zone name = NsPrefix @ ''zone/'' @ zone @ ''/gateway/default/ingress/'' @ name"

section \<open>Text\<close>

text \<open>\<open>strconv.Atoi\<close>.\<close>

definition Atoi :: "string \<Rightarrow> int option" where
  "Atoi s =
     (case s of
        [] \<Rightarrow> None
      | c # r \<Rightarrow>
          if c = CHR ''-'' then
            (case parse_uint 64 r of Some n \<Rightarrow> if int n \<le> 2 ^ 63 then Some (- int n) else None | None \<Rightarrow> None)
          else map_option int (parse_uint 63 (if c = CHR ''+'' then r else s)))"

text \<open>\<open>sort.Slice\<close> with a descending comparison of text.\<close>

fun ins_desc :: "('a \<Rightarrow> string) \<Rightarrow> 'a \<Rightarrow> 'a list \<Rightarrow> 'a list" where
  "ins_desc key x [] = [x]"
| "ins_desc key x (y # ys) = (if str_le (key y) (key x) then x # y # ys else y # ins_desc key x ys)"

definition sort_desc :: "nat list \<Rightarrow> ('a \<Rightarrow> string) \<Rightarrow> 'a list \<Rightarrow> 'a list" where
  "sort_desc ps key xs = foldr (ins_desc key) (shuffle ps xs) []"

section \<open>Checks of a set request\<close>

definition check_domain :: "'u ing_env \<Rightarrow> string \<Rightarrow> ing_err option" where
  "check_domain E d =
     (if \<not> ge_suffix E d then Some InvalidTLD
      else if \<not> ge_idna E d then Some InvalidDomain
      else if length d > 253 then Some DomainTooLong
      else if \<exists>label \<in> set (split_on CHR ''.'' d). length label > 63 then Some LabelTooLong
      else None)"

definition port_ok :: "string \<Rightarrow> bool" where
  "port_ok s = (case Atoi s of Some p \<Rightarrow> 80 \<le> p \<and> p \<le> 65505 | None \<Rightarrow> False)"

definition instance_backend_ok :: "'u ing_env \<Rightarrow> string \<Rightarrow> bool" where
  "instance_backend_ok E b =
     (case split_on CHR '':'' b of [name, port] \<Rightarrow> ge_dns E name \<and> port_ok port | _ \<Rightarrow> False)"

definition upstream_backend_ok :: "string \<Rightarrow> bool" where
  "upstream_backend_ok b =
     (case split_on CHR '':'' b of
        [host, port] \<Rightarrow> (case ParseIP host of Some ip \<Rightarrow> to4 ip \<noteq> None \<and> port_ok port | None \<Rightarrow> False)
      | _ \<Rightarrow> False)"

definition redirect_backend :: "'u ing_env \<Rightarrow> string \<Rightarrow> string option" where
  "redirect_backend E b =
     (case ua_request (ge_url E) b of
        None \<Rightarrow> None
      | Some u \<Rightarrow>
          let p = Clean (ua_path (ge_url E) u)
          in Some (ua_string (ge_url E) (ua_with_path (ge_url E) (if p = ''.'' then ''/'' else p) u)))"

fun redirect_targets :: "'u ing_env \<Rightarrow> ing_target list \<Rightarrow> ing_target list option" where
  "redirect_targets E [] = Some []"
| "redirect_targets E (t # ts) =
     (case redirect_backend E (gt_backend t) of
        None \<Rightarrow> None
      | Some b \<Rightarrow> (case redirect_targets E ts of None \<Rightarrow> None | Some ts' \<Rightarrow> Some (t\<lparr>gt_backend := b\<rparr> # ts')))"

definition check_route :: "'u ing_env \<Rightarrow> ing_route \<Rightarrow> ing_err + ing_route" where
  "check_route E r =
     (let r1 = r\<lparr>gr_path := Clean (gr_path r)\<rparr> in
      if gr_type r = GatewayIngressType_Instance then
        (if \<forall>t \<in> set (gr_targets r). instance_backend_ok E (gt_backend t) then Inr r1 else Inl BadInstance)
      else if gr_type r = GatewayIngressType_Upstream then
        (if \<forall>t \<in> set (gr_targets r). upstream_backend_ok (gt_backend t) then Inr r1 else Inl BadUpstream)
      else if gr_type r = GatewayIngressType_Redirect then
        (case redirect_targets E (gr_targets r) of Some ts \<Rightarrow> Inr (r1\<lparr>gr_targets := ts\<rparr>) | None \<Rightarrow> Inl BadRedirect)
      else Inl BadRouteType)"

text \<open>A route replaces action, type and targets of the first route with its path, or is added.\<close>

fun put_route :: "ing_route \<Rightarrow> ing_route list \<Rightarrow> ing_route list" where
  "put_route r [] = [r]"
| "put_route r (a # rs) =
     (if gr_path r = gr_path a
      then a\<lparr>gr_action := gr_action r, gr_type := gr_type r, gr_targets := gr_targets r\<rparr> # rs
      else a # put_route r rs)"

fun put_routes :: "'u ing_env \<Rightarrow> ing_route list \<Rightarrow> ing_route list \<Rightarrow> ing_err + ing_route list" where
  "put_routes E [] acc = Inr acc"
| "put_routes E (r # rs) acc =
     (case check_route E r of Inl e \<Rightarrow> Inl e | Inr r' \<Rightarrow> put_routes E rs (put_route r' acc))"

section \<open>Set, delete, info and list\<close>

definition gatewayIngressDeleteEligible :: "gateway_ingress \<Rightarrow> int \<Rightarrow> ing_err option" where
  "gatewayIngressDeleteEligible g now =
     (if gi_action g \<noteq> GatewayIngressActionDisable then Some NotDisabled
      else let elapsed = now - (case gi_meta g of Some m \<Rightarrow> gm_updated m | None \<Rightarrow> 0) in
        if elapsed \<le> GatewayIngressDeleteDelaySeconds then Some (TooRecent (gi_domain g) (godiv elapsed 86400)) else None)"

definition ingress_delete ::
    "('db, irow) kvgo \<Rightarrow> 'u ing_env \<Rightarrow> string \<Rightarrow> 'db \<Rightarrow> 'db \<times> (ing_err + gateway_ingress option)" where
  "ingress_delete K E key db =
     (case kv_get K db key of
        KvNotFound \<Rightarrow> (db, Inl DomainMissing)
      | KvReadErr e \<Rightarrow> (db, Inl (IngStore e))
      | KvFound m (Some (IngRow prev)) \<Rightarrow>
          (case gatewayIngressDeleteEligible prev (ge_now E) of
             Some e \<Rightarrow> (db, Inl e)
           | None \<Rightarrow>
               (case kv_del K db key of
                  (db', KvDeleted) \<Rightarrow> (db', Inr None)
                | (db', KvDelNotFound) \<Rightarrow> (db', Inl (IngStore []))
                | (db', KvDelErr e) \<Rightarrow> (db', Inl (IngStore e))))
      | KvFound m _ \<Rightarrow> (db, Inl IngDecode))"

text \<open>The record a set request starts from. A read that fails is taken for a new domain.\<close>

definition new_ingress :: "'u ing_env \<Rightarrow> string \<Rightarrow> gateway_ingress" where
  "new_ingress E domain =
     \<lparr>gi_meta = Some \<lparr>gm_id = SeqRandHexString 4 8 (ge_id_now E) (ge_id_rnd E), gm_created = ge_created E,
        gm_updated = 0, gm_version = 0\<rparr>,
      gi_domain = domain, gi_description = [], gi_options = None, gi_action = [], gi_routes = []\<rparr>"

definition stored_ingress ::
    "('db, irow) kvgo \<Rightarrow> 'u ing_env \<Rightarrow> string \<Rightarrow> string \<Rightarrow> 'db \<Rightarrow> ing_err + (gateway_ingress \<times> ing_meta)" where
  "stored_ingress K E key domain db =
     (case kv_get K db key of
        KvFound m (Some (IngRow g)) \<Rightarrow>
          (case gi_meta g of None \<Rightarrow> Inl IngMetaMissing | Some gm \<Rightarrow> Inr (g, gm\<lparr>gm_version := m_version m\<rparr>))
      | KvFound m _ \<Rightarrow> Inl IngDecode
      | _ \<Rightarrow> Inr (new_ingress E domain, the (gi_meta (new_ingress E domain))))"

definition merge_request :: "'u ing_env \<Rightarrow> gateway_ingress \<Rightarrow> gateway_ingress \<Rightarrow> ing_meta \<Rightarrow> ing_route list \<Rightarrow> gateway_ingress" where
  "merge_request E rq g gm routes =
     g\<lparr>gi_action := if gi_action rq \<in> {GatewayIngressActionEnable, GatewayIngressActionDisable} then gi_action rq
                    else GatewayIngressActionEnable,
       gi_description := gi_description rq,
       gi_options := if gi_options rq \<noteq> None then gi_options rq else gi_options g,
       gi_routes := sort_desc (ge_picks E) gr_path routes,
       gi_meta := Some (gm\<lparr>gm_updated := ge_now E\<rparr>)\<rparr>"

definition ingress_put ::
    "('db, irow) kvgo \<Rightarrow> 'u ing_env \<Rightarrow> string \<Rightarrow> gateway_ingress \<Rightarrow> 'db \<Rightarrow> 'db \<times> (ing_err + gateway_ingress option)" where
  "ingress_put K E key rq db =
     (case stored_ingress K E key (gi_domain rq) db of
        Inl e \<Rightarrow> (db, Inl e)
      | Inr (g, gm) \<Rightarrow>
          (case put_routes E (gi_routes rq) (gi_routes g) of
             Inl e \<Rightarrow> (db, Inl e)
           | Inr routes \<Rightarrow>
               let g' = merge_request E rq g gm routes in
               (case kv_put K db key (if gm_version gm > 0 then prev_put (gm_version gm) else plain_put) (IngRow g') of
                  (db', KvWriteErr e) \<Rightarrow> (db', Inl (IngStore e))
                | (db', KvWritten _) \<Rightarrow> (db', Inr (Some g')))))"

definition GatewayIngressSet ::
    "('db, irow) kvgo \<Rightarrow> app_validator \<Rightarrow> bool \<Rightarrow> 'u ing_env \<Rightarrow> gateway_ingress option \<Rightarrow> 'db
      \<Rightarrow> 'db \<times> (ing_err + gateway_ingress option)" where
  "GatewayIngressSet K av leader E item db =
     (case svc_guard av AuthScope_GatewayIngress_Write leader of
        Some e \<Rightarrow> (db, Inl (IngSvc e))
      | None \<Rightarrow>
          (case item of
             None \<Rightarrow> (db, Inl DomainMissing)
           | Some rq0 \<Rightarrow>
               if gi_domain rq0 = [] then (db, Inl DomainMissing)
               else
                 let domain = TrimSpace (ToLower (ge_lower E) (gi_domain rq0));
                     rq = rq0\<lparr>gi_domain := domain\<rparr>;
                     key = NsZoneletGatewayIngress (ge_zone E) domain in
                 (case check_domain E domain of
                    Some e \<Rightarrow> (db, Inl e)
                  | None \<Rightarrow>
                      if gi_action rq = GatewayIngressActionDelete then ingress_delete K E key db
                      else ingress_put K E key rq db)))"

definition GatewayIngressInfo ::
    "('db, irow) kvgo \<Rightarrow> app_validator \<Rightarrow> bool \<Rightarrow> string \<Rightarrow> string \<Rightarrow> 'db \<Rightarrow> ing_err + gateway_ingress" where
  "GatewayIngressInfo K av leader zone name db =
     (case svc_guard av AuthScope_GatewayIngress_Read leader of
        Some e \<Rightarrow> Inl (IngSvc e)
      | None \<Rightarrow>
          (case kv_get K db (NsZoneletGatewayIngress zone name) of
             KvNotFound \<Rightarrow> Inl DomainMissing
           | KvReadErr e \<Rightarrow> Inl (IngStore e)
           | KvFound m (Some (IngRow g)) \<Rightarrow> Inr g
           | KvFound m _ \<Rightarrow> Inl IngDecode))"

definition row_ingress :: "irow kv_item \<Rightarrow> gateway_ingress option" where
  "row_ingress it = (case it_val it of Some (IngRow g) \<Rightarrow> Some g | _ \<Rightarrow> None)"

definition updated_of :: "gateway_ingress \<Rightarrow> int" where
  "updated_of g = (case gi_meta g of Some m \<Rightarrow> gm_updated m | None \<Rightarrow> 0)"

text \<open>The range of the list call has the prefix as both bounds.\<close>

definition GatewayIngressList ::
    "('db, irow) kvgo \<Rightarrow> app_validator \<Rightarrow> bool \<Rightarrow> string \<Rightarrow> nat list \<Rightarrow> 'db \<Rightarrow> ing_err + gateway_ingress list" where
  "GatewayIngressList K av leader zone ps db =
     (case svc_guard av AuthScope_GatewayIngress_Read leader of
        Some e \<Rightarrow> Inl (IngSvc e)
      | None \<Rightarrow>
          let offset = NsZoneletGatewayIngress zone [];
              rows = List.map_filter row_ingress (range_items (kv_range K db offset offset 1000 False))
          in Inr (sort_slice ps (\<lambda>g. - updated_of g) (filter (\<lambda>g. gi_meta g \<noteq> None) rows)))"

section \<open>The deployment list\<close>

definition row_gw_app :: "irow kv_item \<Rightarrow> gw_app option" where
  "row_gw_app it = (case it_val it of Some (AppRow a) \<Rightarrow> Some a | _ \<Rightarrow> None)"

text \<open>The enabled records with their row versions, and the instances by name, the last row of a name wins.\<close>

definition enabled_ingress :: "irow kv_item \<Rightarrow> (nat \<times> gateway_ingress) option" where
  "enabled_ingress it =
     (case row_ingress it of
        None \<Rightarrow> None
      | Some g \<Rightarrow>
          if gi_action g \<noteq> GatewayIngressActionEnable \<or> gi_routes g = [] then None
          else Some (m_version (it_meta it), g))"

definition gw_apps :: "irow kv_item list \<Rightarrow> string \<Rightarrow> gw_app option" where
  "gw_apps its = map_of (rev (map (\<lambda>a. (ga_name a, a)) (List.map_filter row_gw_app its)))"

definition peer_ip :: "string \<Rightarrow> string" where
  "peer_ip addr =
     (let ip = takeWhile (\<lambda>c. c \<noteq> CHR '':'') addr in if CHR '':'' \<in> set addr \<and> ip \<noteq> [] then ip else addr)"

definition add_target :: "string \<Rightarrow> string list \<Rightarrow> string list" where
  "add_target addr ts = (if addr \<in> set ts then ts else ts @ [addr])"

definition show_addr :: "string \<Rightarrow> int \<Rightarrow> string" where
  "show_addr ip port = ip @ '':'' @ show_i64 port"

text \<open>The address of a replica for a port of the application.\<close>

definition replica_addr :: "(string \<Rightarrow> string option) \<Rightarrow> u32 \<Rightarrow> gw_replica \<Rightarrow> string option" where
  "replica_addr hosts port rep =
     (if gp_state rep \<noteq> [] \<and> gp_state rep \<noteq> OpActionStart then None
      else case hosts (dr_host rep) of
        None \<Rightarrow> None
      | Some peer \<Rightarrow>
          (case find (\<lambda>p. dp_port p = port) (dr_ports rep) of
             None \<Rightarrow> None
           | Some p \<Rightarrow> Some (show_addr (peer_ip peer) (int (unat (dp_host_port p))))))"

definition add_all :: "('a \<Rightarrow> string option) \<Rightarrow> 'a list \<Rightarrow> string list" where
  "add_all f xs = fold (\<lambda>x ts. case f x of Some a \<Rightarrow> add_target a ts | None \<Rightarrow> ts) xs []"

definition instance_targets ::
    "(string \<Rightarrow> string option) \<Rightarrow> (string \<Rightarrow> gw_app option) \<Rightarrow> string \<Rightarrow> ing_err + string list" where
  "instance_targets hosts apps backend =
     (let ar = split_on CHR '':'' backend in
      case apps (hd ar) of
        None \<Rightarrow> Inr []
      | Some app \<Rightarrow>
          (case ga_deploy app of
             None \<Rightarrow> Inl IngPanic
           | Some d \<Rightarrow>
               if ga_replicas d = [] \<or> ga_action d \<noteq> OpActionStart then Inr []
               else case ar of
                 _ # p # _ \<Rightarrow>
                   (case Atoi p of
                      Some port \<Rightarrow>
                        if port \<le> 0 \<or> port \<ge> 65536 then Inr []
                        else Inr (add_all (replica_addr hosts (word_of_int port)) (ga_replicas d))
                    | None \<Rightarrow> Inr [])
               | _ \<Rightarrow> Inl IngPanic))"

definition upstream_addr :: "ing_target \<Rightarrow> string option" where
  "upstream_addr t =
     (case split_on CHR '':'' (gt_backend t) of
        [host, port] \<Rightarrow>
          (let ip = (case ParseIP host of
                       Some b \<Rightarrow> (case to4 b of Some b4 \<Rightarrow> IP4ToString b4 | None \<Rightarrow> []) | None \<Rightarrow> [])
           in case Atoi port of
                Some v \<Rightarrow> if 0 < v \<and> v < 65536 then Some (show_addr ip v) else None
              | None \<Rightarrow> None)
      | _ \<Rightarrow> None)"

definition redirect_addr :: "'u url_api \<Rightarrow> ing_target \<Rightarrow> string option" where
  "redirect_addr U t = map_option (ua_string U) (ua_parse U (gt_backend t))"

definition route_targets ::
    "'u url_api \<Rightarrow> (string \<Rightarrow> string option) \<Rightarrow> (string \<Rightarrow> gw_app option) \<Rightarrow> ing_route \<Rightarrow> ing_err + string list" where
  "route_targets U hosts apps r =
     (if gr_type r = GatewayIngressType_Instance then instance_targets hosts apps (gt_backend (hd (gr_targets r)))
      else if gr_type r = GatewayIngressType_Upstream then Inr (add_all upstream_addr (gr_targets r))
      else if gr_type r = GatewayIngressType_Redirect then Inr (add_all (redirect_addr U) (gr_targets r))
      else Inr [])"

text \<open>A route whose path is listed already empties that entry first, and refills it only when it has targets.\<close>

fun place_route :: "string \<Rightarrow> string \<Rightarrow> string list \<Rightarrow> deploy_route list \<Rightarrow> deploy_route list" where
  "place_route path ty ts [] = (if ts = [] then [] else [\<lparr>lr_type = ty, lr_path = path, lr_targets = ts\<rparr>])"
| "place_route path ty ts (l # ls) =
     (if path = lr_path l
      then (if ts = [] then l\<lparr>lr_targets := []\<rparr> else l\<lparr>lr_type := ty, lr_targets := ts\<rparr>) # ls
      else l # place_route path ty ts ls)"

fun deploy_routes ::
    "'u url_api \<Rightarrow> (string \<Rightarrow> string option) \<Rightarrow> (string \<Rightarrow> gw_app option) \<Rightarrow> ing_route list \<Rightarrow> deploy_route list
      \<Rightarrow> ing_err + deploy_route list" where
  "deploy_routes U hosts apps [] acc = Inr acc"
| "deploy_routes U hosts apps (r # rs) acc =
     (if gr_targets r = [] \<or> gr_action r \<noteq> GatewayIngressActionEnable then deploy_routes U hosts apps rs acc
      else case route_targets U hosts apps r of
        Inl e \<Rightarrow> Inl e
      | Inr ts \<Rightarrow> deploy_routes U hosts apps rs (place_route (gr_path r) (gr_type r) ts acc))"

definition ingress_deploy_of ::
    "'u url_api \<Rightarrow> (string \<Rightarrow> string option) \<Rightarrow> (string \<Rightarrow> gw_app option) \<Rightarrow> nat \<times> gateway_ingress
      \<Rightarrow> ing_err + ingress_deploy option" where
  "ingress_deploy_of U hosts apps vg =
     (case vg of (ver, g) \<Rightarrow>
        (case deploy_routes U hosts apps (gi_routes g) [] of
           Inl e \<Rightarrow> Inl e
         | Inr [] \<Rightarrow> Inr None
         | Inr (l # ls) \<Rightarrow>
             Inr (Some \<lparr>gd_domain = gi_domain g, gd_letsencrypt = (gi_options g = Some True),
                        gd_routes = l # ls, gd_revision = ver\<rparr>)))"

fun list_deploys :: "('a \<Rightarrow> ing_err + 'b option) \<Rightarrow> 'a list \<Rightarrow> ing_err + 'b list" where
  "list_deploys f [] = Inr []"
| "list_deploys f (x # xs) =
     (case f x of
        Inl e \<Rightarrow> Inl e
      | Inr r \<Rightarrow> (case list_deploys f xs of Inl e \<Rightarrow> Inl e
                 | Inr ys \<Rightarrow> Inr (case r of Some y \<Rightarrow> y # ys | None \<Rightarrow> ys)))"

text \<open>A request with a revision leaves out the records that are not newer.\<close>

definition newer :: "nat \<Rightarrow> nat \<times> gateway_ingress \<Rightarrow> bool" where
  "newer since vg \<longleftrightarrow> \<not> (since > 0 \<and> since \<ge> fst vg)"

definition GatewayIngressDeployList ::
    "('db, irow) kvgo \<Rightarrow> app_validator \<Rightarrow> bool \<Rightarrow> string \<Rightarrow> 'u url_api \<Rightarrow> (string \<Rightarrow> string option) \<Rightarrow> nat \<Rightarrow> 'db
      \<Rightarrow> ing_err + ingress_deploy list" where
  "GatewayIngressDeployList K av leader zone U hosts since db =
     (if \<not> leader then Inl (IngSvc NotLeader)
      else if \<not> validator_allow av [AuthScope_GatewayIngressDeploy_Read] then Inl AuthFail
      else
        let goff = NsZoneletGatewayIngress zone [];
            items = List.map_filter enabled_ingress (range_items (kv_range K db goff (upper_of goff) 10000 False));
            aoff = NsAppInstance zone [];
            apps = gw_apps (range_items (kv_range K db aoff (upper_of aoff) 10000 False))
        in if items = [] then Inr []
           else list_deploys (ingress_deploy_of U hosts apps) (filter (newer since) items))"

section \<open>Well-formed records\<close>

definition backend_wf :: "ing_route \<Rightarrow> bool" where
  "backend_wf r \<longleftrightarrow>
     (gr_type r = GatewayIngressType_Instance \<longrightarrow>
        (\<forall>t \<in> set (gr_targets r). \<exists>name port. split_on CHR '':'' (gt_backend t) = [name, port] \<and> port_ok port)) \<and>
     (gr_type r = GatewayIngressType_Upstream \<longrightarrow> (\<forall>t \<in> set (gr_targets r). upstream_backend_ok (gt_backend t))) \<and>
     gr_type r \<in> {GatewayIngressType_Instance, GatewayIngressType_Upstream, GatewayIngressType_Redirect}"

definition routes_wf :: "ing_route list \<Rightarrow> bool" where
  "routes_wf rs \<longleftrightarrow>
     distinct (map gr_path rs) \<and> (\<forall>r \<in> set rs. backend_wf r \<and> gr_path r \<in> range Clean)"

definition ingress_wf :: "gateway_ingress \<Rightarrow> bool" where
  "ingress_wf g \<longleftrightarrow>
     gi_meta g \<noteq> None \<and> gi_action g \<in> {GatewayIngressActionEnable, GatewayIngressActionDisable} \<and>
     routes_wf (gi_routes g) \<and> sorted_wrt (\<lambda>a b. str_lt (gr_path b) (gr_path a)) (gi_routes g)"

text \<open>Every ingress row is well-formed and filed under its domain, and every instance row has its deployment.\<close>

definition irow_ok :: "string \<Rightarrow> string \<Rightarrow> irow \<Rightarrow> bool" where
  "irow_ok zone k row =
     (case row of
        IngRow g \<Rightarrow> ingress_wf g \<and> k = NsZoneletGatewayIngress zone (gi_domain g)
      | AppRow a \<Rightarrow> ga_deploy a \<noteq> None)"

definition ing_rows_ok :: "string \<Rightarrow> ('db, irow) kvgo \<Rightarrow> 'db \<Rightarrow> bool" where
  "ing_rows_ok zone K db \<longleftrightarrow>
     (\<forall>k m row. kv_get K db k = KvFound m (Some row) \<longrightarrow> irow_ok zone k row)"

text \<open>The calls on the database: an ingress call of a client, and the instance writes of the deploy handlers.\<close>

datatype 'u ing_call =
    SetIngress app_validator bool "'u ing_env" "gateway_ingress option"
  | StoreApp kv_wopt string string gw_app_deploy

fun ing_step :: "string \<Rightarrow> ('db, irow) kvgo \<Rightarrow> 'u ing_call \<Rightarrow> 'db \<Rightarrow> 'db" where
  "ing_step zone K (SetIngress av leader E item) db = fst (GatewayIngressSet K av leader (E\<lparr>ge_zone := zone\<rparr>) item db)"
| "ing_step zone K (StoreApp opt key name d) db =
     fst (kv_put K db (NsAppInstance zone key) opt (AppRow \<lparr>ga_name = name, ga_deploy = Some d\<rparr>))"

lemma ing_ns_inj [simp]: "NsZoneletGatewayIngress z a = NsZoneletGatewayIngress z b \<longleftrightarrow> a = b"
  by (simp add: NsZoneletGatewayIngress_def)

lemma put_route_paths:
  "map gr_path (put_route r rs) = (if gr_path r \<in> set (map gr_path rs) then map gr_path rs else map gr_path rs @ [gr_path r])"
  by (induction r rs rule: put_route.induct) auto

lemma put_route_wf:
  assumes "routes_wf rs" "backend_wf r" "gr_path r \<in> range Clean"
  shows "routes_wf (put_route r rs)"
proof -
  have "\<forall>x \<in> set (put_route r rs). backend_wf x \<and> gr_path x \<in> range Clean"
    using assms by (induction r rs rule: put_route.induct) (auto simp: routes_wf_def backend_wf_def)
  then show ?thesis using assms(1) by (auto simp: routes_wf_def put_route_paths)
qed

lemma check_route_wf:
  assumes "check_route E r = Inr r'"
  shows "backend_wf r' \<and> gr_path r' \<in> range Clean"
proof -
  have name: "\<exists>name port. split_on CHR '':'' b = [name, port] \<and> port_ok port" if "instance_backend_ok E b" for b
    using that by (auto simp: instance_backend_ok_def split: list.splits)
  show ?thesis using assms name
    by (auto simp: check_route_def backend_wf_def Let_def ingress_consts split: if_splits option.splits)
qed

lemma put_routes_wf: "put_routes E rs acc = Inr acc' \<Longrightarrow> routes_wf acc \<Longrightarrow> routes_wf acc'"
proof (induction E rs acc rule: put_routes.induct)
  case (2 E r rs acc)
  then obtain r' where r': "check_route E r = Inr r'" "put_routes E rs (put_route r' acc) = Inr acc'"
    by (auto split: sum.splits)
  show ?case using "2.IH" [OF r'] put_route_wf "2.prems"(2) check_route_wf [OF r'(1)] by blast
qed simp

lemma ins_desc_mset [simp]: "mset (ins_desc key x ys) = add_mset x (mset ys)"
  by (induction key x ys rule: ins_desc.induct) auto

lemma sort_desc_mset [simp]: "mset (sort_desc ps key xs) = mset xs"
proof -
  have "mset (foldr (ins_desc key) ys []) = mset ys" for ys :: "'a list" by (induction ys) auto
  then show ?thesis by (simp add: sort_desc_def)
qed

lemma sort_desc_set [simp]: "set (sort_desc ps key xs) = set xs"
  by (metis sort_desc_mset set_mset_mset)

lemma str_le_total: "str_le a b \<or> str_le b a"
proof (induction a b rule: str_le.induct)
  case (3 a s b t)
  have "a = b" if "(of_char a :: nat) = of_char b" using that by (metis char_of_char)
  then show ?case using 3 by (cases "(of_char a :: nat) < of_char b") (auto simp: not_less le_less)
qed auto

lemma ins_desc_sorted:
  "sorted_wrt (\<lambda>a b. str_le (key b) (key a)) ys \<Longrightarrow> sorted_wrt (\<lambda>a b. str_le (key b) (key a)) (ins_desc key x ys)"
proof (induction key x ys rule: ins_desc.induct)
  case (2 key x y ys)
  have set: "set (ins_desc key x ys) = insert x (set ys)" by (metis ins_desc_mset set_mset_mset set_mset_add_mset_insert)
  show ?case
  proof (cases "str_le (key y) (key x)")
    case True then show ?thesis using 2 str_le_trans by fastforce
  next
    case False
    then have "str_le (key x) (key y)" using str_le_total by blast
    then show ?thesis using 2 False by (auto simp: set)
  qed
qed simp

lemma sort_desc_sorted: "sorted_wrt (\<lambda>a b. str_le (key b) (key a)) (sort_desc ps key xs)"
proof -
  have "sorted_wrt (\<lambda>a b. str_le (key b) (key a)) (foldr (ins_desc key) ys [])" for ys
    by (induction ys) (auto intro: ins_desc_sorted)
  then show ?thesis by (simp add: sort_desc_def)
qed

lemma distinct_strict:
  "sorted_wrt (\<lambda>a b. str_le (key b) (key a)) xs \<Longrightarrow> distinct (map key xs)
    \<Longrightarrow> sorted_wrt (\<lambda>a b. str_lt (key b) (key a)) xs"
proof (induction xs)
  case (Cons x xs)
  have "key y \<noteq> key x" if "y \<in> set xs" for y using Cons.prems(2) imageI [OF that, of key] by (cases "key y = key x") simp_all
  then show ?case using Cons by (auto simp: str_lt_def)
qed simp

lemma routes_wf_sort: "routes_wf rs \<Longrightarrow> routes_wf (sort_desc ps gr_path rs)
    \<and> sorted_wrt (\<lambda>a b. str_lt (gr_path b) (gr_path a)) (sort_desc ps gr_path rs)"
proof -
  assume wf: "routes_wf rs"
  have "mset (map gr_path (sort_desc ps gr_path rs)) = mset (map gr_path rs)" by (metis mset_map sort_desc_mset)
  then have "distinct (map gr_path (sort_desc ps gr_path rs))"
    using wf mset_eq_imp_distinct_iff by (metis routes_wf_def)
  then show ?thesis using wf distinct_strict [OF sort_desc_sorted] by (auto simp: routes_wf_def)
qed

lemma new_ingress_wf: "routes_wf (gi_routes (new_ingress E d)) \<and> gi_domain (new_ingress E d) = d"
  by (simp add: new_ingress_def routes_wf_def)

lemma stored_ingress_ok:
  assumes "stored_ingress K E (NsZoneletGatewayIngress zone d) d db = Inr (g, gm)" "ing_rows_ok zone K db"
  shows "routes_wf (gi_routes g) \<and> gi_domain g = d"
proof (cases "kv_get K db (NsZoneletGatewayIngress zone d)")
  case (KvFound m v)
  then obtain h where h: "v = Some (IngRow h)"
    using assms(1) by (auto simp: stored_ingress_def split: option.splits irow.splits)
  then have "irow_ok zone (NsZoneletGatewayIngress zone d) (IngRow h)" using assms(2) KvFound by (simp add: ing_rows_ok_def)
  then have "ingress_wf h" "gi_domain h = d" by (simp_all add: irow_ok_def)
  then show ?thesis using assms(1) KvFound h by (auto simp: stored_ingress_def ingress_wf_def split: option.splits)
qed (use assms(1) new_ingress_wf in \<open>auto simp: stored_ingress_def\<close>)

lemma merge_request_wf:
  "routes_wf routes \<Longrightarrow> ingress_wf (merge_request E rq g gm routes) \<and> gi_domain (merge_request E rq g gm routes) = gi_domain g"
  using routes_wf_sort by (auto simp: merge_request_def ingress_wf_def)

lemma ing_rows_put:
  assumes K: "kv_lawful K" and ok: "ing_rows_ok zone K db" and put: "kv_put K db k opt row = (db', w)"
    and row: "irow_ok zone k row"
  shows "ing_rows_ok zone K db'"
proof (cases w)
  case (KvWritten m)
  show ?thesis unfolding ing_rows_ok_def
  proof (intro allI impI)
    fix k' m' row' assume get: "kv_get K db' k' = KvFound m' (Some row')"
    show "irow_ok zone k' row'"
    proof (cases "k' = k")
      case True
      then show ?thesis using get kv_put_read [OF K put [unfolded KvWritten]] row by simp
    next
      case False
      then show ?thesis using get kv_put_other [OF K put [unfolded KvWritten] False] ok by (simp add: ing_rows_ok_def)
    qed
  qed
next
  case (KvWriteErr e)
  then show ?thesis using ok kv_put_fail [OF K put [unfolded KvWriteErr]] by (simp add: ing_rows_ok_def)
qed

text \<open>A delete only takes rows away.\<close>

lemma ing_rows_del:
  assumes K: "kv_lawful K" "kv_del_quiet K" and ok: "ing_rows_ok zone K db" and del: "kv_del K db k = (db', d)"
  shows "ing_rows_ok zone K db'"
proof (cases "d = KvDeleted")
  case True
  have "kv_get K db' k' = KvFound m (Some row) \<Longrightarrow> kv_get K db k' = KvFound m (Some row)" for k' m row
    using kv_del_gone [OF K(1) del [unfolded True]] kv_del_other [OF K(1) del [unfolded True], of k'] by (cases "k' = k") auto
  then show ?thesis using ok by (simp add: ing_rows_ok_def)
next
  case False
  then show ?thesis using K(2) del ok unfolding kv_del_quiet_def ing_rows_ok_def by metis
qed

lemma ingress_put_ok:
  assumes K: "kv_lawful K" and ok: "ing_rows_ok zone K db"
  shows "ing_rows_ok zone K (fst (ingress_put K E (NsZoneletGatewayIngress zone (gi_domain rq)) rq db))"
proof -
  let ?k = "NsZoneletGatewayIngress zone (gi_domain rq)"
  show ?thesis
  proof (cases "\<exists>g gm routes. stored_ingress K E ?k (gi_domain rq) db = Inr (g, gm) \<and> put_routes E (gi_routes rq) (gi_routes g) = Inr routes")
    case True
    then obtain g gm routes where g: "stored_ingress K E ?k (gi_domain rq) db = Inr (g, gm)"
        "put_routes E (gi_routes rq) (gi_routes g) = Inr routes" by blast
    let ?g = "merge_request E rq g gm routes" and ?opt = "if gm_version gm > 0 then prev_put (gm_version gm) else plain_put"
    have wf: "ingress_wf ?g" "gi_domain ?g = gi_domain rq"
      using merge_request_wf [OF put_routes_wf [OF g(2)], of E rq g gm] stored_ingress_ok [OF g(1) ok] by simp_all
    obtain db' w where put: "kv_put K db ?k ?opt (IngRow ?g) = (db', w)" by (meson surj_pair)
    have "fst (ingress_put K E ?k rq db) = db'" using g put by (cases w) (simp_all add: ingress_put_def Let_def)
    then show ?thesis using ing_rows_put [OF K ok put] wf by (simp add: irow_ok_def)
  next
    case False
    then have "fst (ingress_put K E ?k rq db) = db" by (auto simp: ingress_put_def split: sum.splits)
    then show ?thesis using ok by simp
  qed
qed

lemma ingress_delete_ok:
  assumes K: "kv_lawful K" "kv_del_quiet K" and ok: "ing_rows_ok zone K db"
  shows "ing_rows_ok zone K (fst (ingress_delete K E k db))"
proof -
  obtain db' d where del: "kv_del K db k = (db', d)" by (meson surj_pair)
  have "fst (ingress_delete K E k db) \<in> {db, db'}"
    using del by (auto simp: ingress_delete_def split: kv_read.splits option.splits irow.splits kv_dr.splits)
  then show ?thesis using ing_rows_del [OF K ok del] ok by auto
qed

lemma ing_step_ok:
  assumes K: "kv_lawful K" "kv_del_quiet K" and ok: "ing_rows_ok zone K db"
  shows "ing_rows_ok zone K (ing_step zone K c db)"
proof (cases c)
  case (StoreApp opt key name d)
  show ?thesis unfolding StoreApp ing_step.simps
    by (rule ing_rows_put [OF K(1) ok prod.collapse [symmetric]]) (simp add: irow_ok_def)
next
  case (SetIngress av leader E item)
  have put: "ing_rows_ok zone K (fst (ingress_put K (E\<lparr>ge_zone := zone\<rparr>) (NsZoneletGatewayIngress zone d) (rq\<lparr>gi_domain := d\<rparr>) db))" for d rq
    using ingress_put_ok [OF K(1) ok, of "E\<lparr>ge_zone := zone\<rparr>" "rq\<lparr>gi_domain := d\<rparr>"] by simp
  show ?thesis
  proof (cases item)
    case (Some rq)
    then show ?thesis using ok put ingress_delete_ok [OF K ok]
      by (auto simp: SetIngress GatewayIngressSet_def Let_def split: option.split)
  qed (use ok in \<open>auto simp: SetIngress GatewayIngressSet_def split: option.split\<close>)
qed

interpretation ing_calls: guarded_calls "ing_step zone K" "\<lambda>_. True" "\<lambda>db. kv_lawful K \<and> kv_del_quiet K \<and> ing_rows_ok zone K db"
  for K and zone
  by unfold_locales (simp add: ing_step_ok)

lemma ing_run_ok:
  "kv_lawful K \<Longrightarrow> kv_del_quiet K \<Longrightarrow> ing_rows_ok zone K db \<Longrightarrow> ing_rows_ok zone K (fold (ing_step zone K) cs db)"
  using ing_calls.calls_keep [of cs K zone db] by simp

section \<open>What the list answers\<close>

lemma set_add_all: "set (add_all f xs) = {a. \<exists>x \<in> set xs. f x = Some a}"
proof -
  have "set (fold (\<lambda>x ts. case f x of Some a \<Rightarrow> add_target a ts | None \<Rightarrow> ts) xs acc)
      = set acc \<union> {a. \<exists>x \<in> set xs. f x = Some a}" for acc
    by (induction xs arbitrary: acc) (auto simp: add_target_def split: option.split)
  then show ?thesis by (simp add: add_all_def)
qed

text \<open>The backends of a route, without the loops: the started replicas of the instance on known hosts that
  publish the port, the parsed addresses of an upstream, the URLs of a redirect.\<close>

definition backend_of ::
    "'u url_api \<Rightarrow> (string \<Rightarrow> string option) \<Rightarrow> (string \<Rightarrow> gw_app option) \<Rightarrow> ing_route \<Rightarrow> string \<Rightarrow> bool" where
  "backend_of U hosts apps r addr \<longleftrightarrow>
     (gr_type r = GatewayIngressType_Instance \<and>
        (\<exists>name p port app d rep.
           split_on CHR '':'' (gt_backend (hd (gr_targets r))) = [name, p] \<and> Atoi p = Some port \<and>
           apps name = Some app \<and> ga_deploy app = Some d \<and> ga_action d = OpActionStart \<and>
           rep \<in> set (ga_replicas d) \<and> replica_addr hosts (word_of_int port) rep = Some addr)) \<or>
     (gr_type r = GatewayIngressType_Upstream \<and> (\<exists>t \<in> set (gr_targets r). upstream_addr t = Some addr)) \<or>
     (gr_type r = GatewayIngressType_Redirect \<and> (\<exists>t \<in> set (gr_targets r). redirect_addr U t = Some addr))"

definition apps_deployed :: "(string \<Rightarrow> gw_app option) \<Rightarrow> bool" where
  "apps_deployed apps \<longleftrightarrow> (\<forall>n a. apps n = Some a \<longrightarrow> ga_deploy a \<noteq> None)"

lemma instance_targets_ok:
  assumes apps: "apps_deployed apps" and b: "split_on CHR '':'' b = [name, p]" "port_ok p"
  shows "\<exists>ts. instance_targets hosts apps b = Inr ts \<and>
    set ts = {addr. \<exists>port app d rep. Atoi p = Some port \<and> apps name = Some app \<and> ga_deploy app = Some d \<and>
       ga_action d = OpActionStart \<and> rep \<in> set (ga_replicas d) \<and> replica_addr hosts (word_of_int port) rep = Some addr}"
proof -
  obtain port where port: "Atoi p = Some port" "80 \<le> port" "port \<le> 65505"
    using b(2) by (auto simp: port_ok_def split: option.splits)
  show ?thesis
  proof (cases "apps name")
    case None
    then show ?thesis by (simp add: instance_targets_def b(1))
  next
    case (Some app)
    then obtain d where d: "ga_deploy app = Some d" using apps by (auto simp: apps_deployed_def)
    show ?thesis using port by (auto simp: instance_targets_def b(1) Some d set_add_all)
  qed
qed

lemma route_targets_ok:
  assumes apps: "apps_deployed apps" and wf: "backend_wf r" "gr_targets r \<noteq> []"
  shows "\<exists>ts. route_targets U hosts apps r = Inr ts \<and> set ts = {addr. backend_of U hosts apps r addr}"
proof (cases "gr_type r = GatewayIngressType_Instance")
  case True
  have "hd (gr_targets r) \<in> set (gr_targets r)" using wf(2) by simp
  then obtain name p where b: "split_on CHR '':'' (gt_backend (hd (gr_targets r))) = [name, p]" "port_ok p"
    using wf(1) True by (auto simp: backend_wf_def)
  show ?thesis using instance_targets_ok [OF apps b, of hosts] True
    by (auto simp: route_targets_def backend_of_def b(1) ingress_consts)
next
  case False
  then show ?thesis using wf(1)
    by (auto simp: route_targets_def backend_of_def backend_wf_def set_add_all ingress_consts)
qed

lemma place_route_new:
  "path \<notin> lr_path ` set ls \<Longrightarrow>
     place_route path ty ts ls = ls @ (if ts = [] then [] else [\<lparr>lr_type = ty, lr_path = path, lr_targets = ts\<rparr>])"
  by (induction path ty ts ls rule: place_route.induct) auto

definition listed_route :: "ing_route \<Rightarrow> bool" where
  "listed_route r \<longleftrightarrow> gr_targets r \<noteq> [] \<and> gr_action r = GatewayIngressActionEnable"

definition listed_entries ::
    "'u url_api \<Rightarrow> (string \<Rightarrow> string option) \<Rightarrow> (string \<Rightarrow> gw_app option) \<Rightarrow> ing_route list \<Rightarrow> deploy_route set" where
  "listed_entries U hosts apps rs =
     {l. \<exists>r \<in> set rs. \<exists>ts. listed_route r \<and> route_targets U hosts apps r = Inr ts \<and> ts \<noteq> [] \<and>
        l = \<lparr>lr_type = gr_type r, lr_path = gr_path r, lr_targets = ts\<rparr>}"

lemma deploy_routes_ok:
  assumes "apps_deployed apps" "routes_wf rs" "lr_path ` set acc \<inter> gr_path ` set rs = {}"
  shows "\<exists>ls. deploy_routes U hosts apps rs acc = Inr ls \<and>
    set ls = set acc \<union> listed_entries U hosts apps rs"
  using assms(2,3)
proof (induction rs arbitrary: acc)
  case (Cons r rs)
  have wf: "routes_wf rs" "backend_wf r" "gr_path r \<notin> gr_path ` set rs" using Cons.prems(1) by (auto simp: routes_wf_def)
  show ?case
  proof (cases "listed_route r")
    case False
    then have eq: "deploy_routes U hosts apps (r # rs) acc = deploy_routes U hosts apps rs acc" by (auto simp: listed_route_def)
    have disj: "lr_path ` set acc \<inter> gr_path ` set rs = {}" using Cons.prems(2) by auto
    show ?thesis unfolding eq
      using Cons.IH [OF wf(1) disj] False by (auto simp: listed_entries_def simp del: deploy_routes.simps)
  next
    case True
    then obtain ts where ts: "route_targets U hosts apps r = Inr ts"
      using route_targets_ok [OF assms(1) wf(2), of U hosts] by (auto simp: listed_route_def)
    let ?l = "\<lparr>lr_type = gr_type r, lr_path = gr_path r, lr_targets = ts\<rparr>"
    let ?acc = "acc @ (if ts = [] then [] else [?l])"
    have "deploy_routes U hosts apps (r # rs) acc = deploy_routes U hosts apps rs ?acc"
      using True Cons.prems(2) by (simp add: listed_route_def ts place_route_new)
    then have eq: "deploy_routes U hosts apps (r # rs) acc = deploy_routes U hosts apps rs ?acc" .
    have disj: "lr_path ` set ?acc \<inter> gr_path ` set rs = {}" using Cons.prems(2) wf(3) by auto
    show ?thesis unfolding eq using Cons.IH [OF wf(1) disj] True ts
      by (auto simp: listed_entries_def simp del: deploy_routes.simps split: if_splits)
  qed
qed (simp add: listed_entries_def)

lemma ingress_deploy_ok:
  assumes apps: "apps_deployed apps" and wf: "routes_wf (gi_routes g)"
  shows "\<exists>r. ingress_deploy_of U hosts apps (ver, g) = Inr r \<and>
    ((\<exists>d l. r = Some d \<and> gd_domain d = host \<and> gd_revision d = v \<and> l \<in> set (gd_routes d) \<and>
        lr_path l = path \<and> lr_type l = ty \<and> addr \<in> set (lr_targets l)) \<longleftrightarrow>
     gi_domain g = host \<and> ver = v \<and>
     (\<exists>x \<in> set (gi_routes g). listed_route x \<and> gr_path x = path \<and> gr_type x = ty \<and> backend_of U hosts apps x addr))"
proof -
  obtain ls where ls: "deploy_routes U hosts apps (gi_routes g) [] = Inr ls"
      "set ls = listed_entries U hosts apps (gi_routes g)"
    using deploy_routes_ok [OF apps wf, of "[]" U hosts] by auto
  have route: "\<exists>ts. route_targets U hosts apps x = Inr ts \<and> set ts = {addr. backend_of U hosts apps x addr}"
    if "x \<in> set (gi_routes g)" "listed_route x" for x
    using that route_targets_ok [OF apps, of x U hosts] wf by (simp add: routes_wf_def listed_route_def)
  have hit: "(\<exists>l \<in> set ls. lr_path l = path \<and> lr_type l = ty \<and> addr \<in> set (lr_targets l)) \<longleftrightarrow>
     (\<exists>x \<in> set (gi_routes g). listed_route x \<and> gr_path x = path \<and> gr_type x = ty \<and> backend_of U hosts apps x addr)"
    (is "?L \<longleftrightarrow> ?R")
  proof
    assume ?L
    then obtain x ts where x: "x \<in> set (gi_routes g)" "listed_route x" "route_targets U hosts apps x = Inr ts"
        "gr_path x = path" "gr_type x = ty" "addr \<in> set ts" by (auto simp: ls(2) listed_entries_def)
    then have "backend_of U hosts apps x addr" using route [OF x(1,2)] by auto
    then show ?R using x by blast
  next
    assume ?R
    then obtain x where x: "x \<in> set (gi_routes g)" "listed_route x" "gr_path x = path" "gr_type x = ty"
        "backend_of U hosts apps x addr" by blast
    then obtain ts where ts: "route_targets U hosts apps x = Inr ts" "addr \<in> set ts"
      using route [OF x(1,2)] by auto
    then have "ts \<noteq> []" by auto
    then have "\<lparr>lr_type = gr_type x, lr_path = gr_path x, lr_targets = ts\<rparr> \<in> set ls"
      unfolding ls(2) listed_entries_def using x(1,2) ts(1) by blast
    then show ?L using x(3,4) ts(2) by (metis deploy_route.select_convs)
  qed
  show ?thesis
  proof (cases ls)
    case Nil
    then have "ingress_deploy_of U hosts apps (ver, g) = Inr None" using ls(1) by (simp add: ingress_deploy_of_def)
    then show ?thesis unfolding hit [symmetric] by (intro exI conjI, assumption) (simp add: Nil)
  next
    case (Cons l ls')
    let ?d = "\<lparr>gd_domain = gi_domain g, gd_letsencrypt = (gi_options g = Some True), gd_routes = ls, gd_revision = ver\<rparr>"
    have "ingress_deploy_of U hosts apps (ver, g) = Inr (Some ?d)"
      using ls(1) by (simp add: ingress_deploy_of_def Cons)
    then show ?thesis unfolding hit [symmetric] by (intro exI conjI, assumption) auto
  qed
qed

lemma list_deploys_ok:
  "(\<And>x. x \<in> set xs \<Longrightarrow> \<exists>r. f x = Inr r) \<Longrightarrow>
     \<exists>ys. list_deploys f xs = Inr ys \<and> set ys = {y. \<exists>x \<in> set xs. f x = Inr (Some y)}"
proof (induction xs)
  case (Cons x xs)
  have "\<exists>r. f x = Inr r" by (rule Cons.prems) simp
  moreover have "\<exists>ys. list_deploys f xs = Inr ys \<and> set ys = {y. \<exists>x \<in> set xs. f x = Inr (Some y)}"
    by (rule Cons.IH, rule Cons.prems) simp
  ultimately obtain r ys where r: "f x = Inr r" "list_deploys f xs = Inr ys"
      "set ys = {y. \<exists>x \<in> set xs. f x = Inr (Some y)}" by blast
  then show ?case by (auto split: option.split)
qed simp

lemma ranged_row:
  assumes "kv_ranged K db" "n > 0" "it \<in> set (range_items (kv_range K db lo hi n False))"
  shows "kv_get K db (it_key it) = KvFound (it_meta it) (it_val it)"
proof -
  obtain its last_page rest where "kv_range K db lo hi n False = KvItems its last_page" "kv_listing K db lo hi (its @ rest)"
    using assms(1,2) unfolding kv_ranged_def by metis
  then show ?thesis using assms(3) by (auto simp: range_items_def kv_listing_def)
qed

lemma gw_apps_deployed:
  assumes "kv_ranged K db" "ing_rows_ok zone K db" "n > 0"
  shows "apps_deployed (gw_apps (range_items (kv_range K db lo hi n False)))"
  unfolding apps_deployed_def
proof (intro allI impI)
  fix name a assume "gw_apps (range_items (kv_range K db lo hi n False)) name = Some a"
  then have "a \<in> set (List.map_filter row_gw_app (range_items (kv_range K db lo hi n False)))"
    unfolding gw_apps_def by (auto dest!: map_of_SomeD)
  then obtain it where it: "it \<in> set (range_items (kv_range K db lo hi n False))" "row_gw_app it = Some a"
    by (auto simp: set_map_filter_iff)
  then have "it_val it = Some (AppRow a)" by (auto simp: row_gw_app_def split: option.splits irow.splits)
  then have "irow_ok zone (it_key it) (AppRow a)"
    using ranged_row [OF assms(1,3) it(1)] assms(2) by (simp add: ing_rows_ok_def)
  then show "ga_deploy a \<noteq> None" by (simp add: irow_ok_def)
qed

definition zone_apps :: "('db, irow) kvgo \<Rightarrow> string \<Rightarrow> 'db \<Rightarrow> string \<Rightarrow> gw_app option" where
  "zone_apps K zone db =
     gw_apps (range_items (kv_range K db (NsAppInstance zone []) (upper_of (NsAppInstance zone [])) 10000 False))"

definition zone_ingresses :: "('db, irow) kvgo \<Rightarrow> string \<Rightarrow> 'db \<Rightarrow> (nat \<times> gateway_ingress) list" where
  "zone_ingresses K zone db =
     List.map_filter enabled_ingress
       (range_items (kv_range K db (NsZoneletGatewayIngress zone []) (upper_of (NsZoneletGatewayIngress zone [])) 10000 False))"

lemma zone_ingresses_wf:
  assumes "kv_ranged K db" "ing_rows_ok zone K db" "(ver, g) \<in> set (zone_ingresses K zone db)"
  shows "routes_wf (gi_routes g)"
proof -
  obtain it where it: "it \<in> set (range_items (kv_range K db (NsZoneletGatewayIngress zone [])
        (upper_of (NsZoneletGatewayIngress zone [])) 10000 False))" "enabled_ingress it = Some (ver, g)"
    using assms(3) by (auto simp: zone_ingresses_def set_map_filter_iff)
  then have "it_val it = Some (IngRow g)"
    by (auto simp: enabled_ingress_def row_ingress_def split: option.splits irow.splits if_splits)
  then have "irow_ok zone (it_key it) (IngRow g)"
    using ranged_row [OF assms(1) _ it(1)] assms(2) by (simp add: ing_rows_ok_def)
  then show ?thesis by (simp add: irow_ok_def ingress_wf_def)
qed

lemma deploy_list_unfold:
  assumes "leader" "validator_allow av [AuthScope_GatewayIngressDeploy_Read]"
  shows "GatewayIngressDeployList K av leader zone U hosts since db =
     list_deploys (ingress_deploy_of U hosts (zone_apps K zone db)) (filter (newer since) (zone_ingresses K zone db))"
  using assms by (simp add: GatewayIngressDeployList_def Let_def zone_apps_def zone_ingresses_def)

lemma deploy_list_ok:
  assumes db: "kv_ranged K db" "ing_rows_ok zone K db"
    and auth: "leader" "validator_allow av [AuthScope_GatewayIngressDeploy_Read]"
  shows "\<exists>ds. GatewayIngressDeployList K av leader zone U hosts since db = Inr ds \<and>
    set ds = {d. \<exists>x \<in> set (zone_ingresses K zone db). newer since x \<and>
      ingress_deploy_of U hosts (zone_apps K zone db) x = Inr (Some d)}"
proof -
  let ?xs = "filter (newer since) (zone_ingresses K zone db)" and ?f = "ingress_deploy_of U hosts (zone_apps K zone db)"
  have apps: "apps_deployed (zone_apps K zone db)" using gw_apps_deployed [OF db] by (simp add: zone_apps_def)
  have "\<exists>r. ?f x = Inr r" if "x \<in> set ?xs" for x
  proof -
    obtain ver g where x: "x = (ver, g)" by (cases x)
    then have "routes_wf (gi_routes g)" using that zone_ingresses_wf [OF db, of ver g] by simp
    then show ?thesis using ingress_deploy_ok [OF apps, of g U hosts ver] x by blast
  qed
  then obtain ds where "list_deploys ?f ?xs = Inr ds" "set ds = {y. \<exists>x \<in> set ?xs. ?f x = Inr (Some y)}"
    using list_deploys_ok [of ?xs ?f] by blast
  then show ?thesis by (auto simp: deploy_list_unfold [OF auth])
qed

lemma deploy_list_panic_free:
  assumes "kv_ranged K db" "ing_rows_ok zone K db"
  shows "GatewayIngressDeployList K av leader zone U hosts since db \<noteq> Inl IngPanic"
proof (cases "leader \<and> validator_allow av [AuthScope_GatewayIngressDeploy_Read]")
  case True
  then show ?thesis using deploy_list_ok [OF assms, of leader av U hosts since] by auto
qed (auto simp: GatewayIngressDeployList_def)

text \<open>
  C20: ingress records stay well-formed, and the deployment list never panics. Whatever ingress calls (sets,
  deletes, by callers with or without the scope) and instance writes run on a database whose rows are well-formed,
  every ingress row that is left is filed under its domain, is enabled or disabled, has routes with pairwise
  distinct cleaned paths in descending order, and only backends of the form its type demands: an instance backend is a
  name and a port from 80 to 65505, an upstream an IPv4 address and such a port. The deployment list splits these
  backends again without a length check and dereferences the deployment of an instance; on such a database it
  never runs into the index panic or the nil dereference, for any caller, host map, URL parser and revision.
\<close>

theorem ingress_records_stay_wf:
  assumes "kv_lawful K" "kv_del_quiet K" "ing_rows_ok zone K db" "kv_ranged K (fold (ing_step zone K) cs db)"
  shows "ing_rows_ok zone K (fold (ing_step zone K) cs db) \<and>
    (\<forall>av leader U hosts since.
       GatewayIngressDeployList K av leader zone U hosts since (fold (ing_step zone K) cs db) \<noteq> Inl IngPanic)"
proof -
  have ok: "ing_rows_ok zone K (fold (ing_step zone K) cs db)" by (rule ing_run_ok [OF assms(1-3)])
  then show ?thesis using deploy_list_panic_free [OF assms(4) ok] by blast
qed

lemma mem_insert_sorted:
  "sorted_wrt str_lt (map fst es) \<Longrightarrow> sorted_wrt str_lt (map fst (mem_insert k v es))"
proof (induction k v es rule: mem_insert.induct)
  case (2 k v k' w es)
  have keys: "fst ` set (mem_insert k v es) \<subseteq> insert k (fst ` set es)"
    by (induction k v es rule: mem_insert.induct) auto
  show ?case
  proof (cases "k = k'")
    case False
    show ?thesis
    proof (cases "str_le k k'")
      case True
      then have "str_lt k k'" using False by (simp add: str_lt_def)
      moreover have "str_lt k x" if "x \<in> fst ` set es" for x using that "2.prems" \<open>str_lt k k'\<close> str_lt_trans by auto
      ultimately show ?thesis using "2.prems" True False by (auto simp: str_lt_def)
    next
      case nle: False
      have lt: "str_lt k' k" using nle str_le_total [of k k'] False by (auto simp: str_lt_def)
      have "str_lt k' x" if "x \<in> fst ` set (mem_insert k v es)" for x
      proof -
        have "x = k \<or> x \<in> fst ` set es" using that keys by blast
        then show ?thesis using lt "2.prems" by auto
      qed
      then show ?thesis using "2.IH" [OF _ nle] "2.prems" nle False by auto
    qed
  qed (use "2.prems" in auto)
qed simp

lemma ing_step_frame:
  assumes "P db" "\<And>k opt row. P (fst (kv_put K db k opt row))" "\<And>k. P (fst (kv_del K db k))"
  shows "P (ing_step zone K c db)"
proof -
  have del: "P (fst (ingress_delete K E k db))" for E :: "'u ing_env" and k
  proof -
    obtain db' d where del: "kv_del K db k = (db', d)" by (meson surj_pair)
    then have "P db'" using assms(3) [of k] by simp
    then show ?thesis using assms(1) del
      by (simp add: ingress_delete_def split: kv_read.split option.split irow.split kv_dr.split)
  qed
  have put: "P (fst (ingress_put K E k rq db))" for E :: "'u ing_env" and k rq
  proof (cases "\<exists>g gm routes. stored_ingress K E k (gi_domain rq) db = Inr (g, gm) \<and> put_routes E (gi_routes rq) (gi_routes g) = Inr routes")
    case True
    then obtain g gm routes where g: "stored_ingress K E k (gi_domain rq) db = Inr (g, gm)"
        "put_routes E (gi_routes rq) (gi_routes g) = Inr routes" by blast
    let ?opt = "if gm_version gm > 0 then prev_put (gm_version gm) else plain_put"
      and ?row = "IngRow (merge_request E rq g gm routes)"
    obtain db' w where put: "kv_put K db k ?opt ?row = (db', w)" by (meson surj_pair)
    then have "P db'" using assms(2) [of k ?opt ?row] by simp
    then show ?thesis using g put by (cases w) (simp_all add: ingress_put_def Let_def)
  next
    case False
    then have "fst (ingress_put K E k rq db) = db" by (auto simp: ingress_put_def split: sum.splits)
    then show ?thesis using assms(1) by simp
  qed
  show ?thesis
  proof (cases c)
    case (SetIngress av leader E item)
    then show ?thesis using assms(1) del put
      by (cases item) (auto simp: GatewayIngressSet_def Let_def split: option.split)
  qed (simp add: assms(2))
qed

lemma mem_run_sorted:
  "sorted_wrt str_lt (map fst (snd db)) \<Longrightarrow> sorted_wrt str_lt (map fst (snd (fold (ing_step zone mem_kv) cs db)))"
proof (induction cs arbitrary: db)
  case (Cons c cs)
  have "sorted_wrt str_lt (map fst (snd (fst (kv_put mem_kv db k opt row))))" for k opt row
    using Cons.prems mem_insert_sorted [OF Cons.prems] by (simp add: mem_kv_def mem_put_def Let_def)
  moreover have "sorted_wrt str_lt (map fst (snd (fst (kv_del mem_kv db k))))" for k
    using Cons.prems by (simp add: mem_kv_def mem_del_def sorted_wrt_map sorted_wrt_filter)
  ultimately have "sorted_wrt str_lt (map fst (snd (ing_step zone mem_kv c db)))"
    using Cons.prems by (intro ing_step_frame [where P = "\<lambda>db. sorted_wrt str_lt (map fst (snd db))"])
  then show ?case using Cons.IH by simp
qed simp

text \<open>A store with one enabled ingress and a started instance of two replicas.\<close>

definition demo_url :: "string url_api" where
  "demo_url = \<lparr>ua_request = Some, ua_parse = Some, ua_path = (\<lambda>u. u), ua_with_path = (\<lambda>p u. p), ua_string = (\<lambda>u. u)\<rparr>"

definition demo_ing_env :: "string ing_env" where
  "demo_ing_env =
     \<lparr>ge_zone = ''z'', ge_suffix = (\<lambda>_. True), ge_idna = (\<lambda>_. True), ge_dns = (\<lambda>n. n \<noteq> []), ge_lower = (\<lambda>s. s),
      ge_url = demo_url, ge_created = 5, ge_now = 6, ge_id_now = 7, ge_id_rnd = (\<lambda>n. Some (replicate n 1)), ge_picks = []\<rparr>"

definition demo_ingress :: gateway_ingress where
  "demo_ingress =
     \<lparr>gi_meta = Some \<lparr>gm_id = ''i'', gm_created = 1, gm_updated = 1, gm_version = 0\<rparr>, gi_domain = ''a.io'',
      gi_description = [], gi_options = None, gi_action = GatewayIngressActionEnable,
      gi_routes = [\<lparr>gr_path = ''/'', gr_type = GatewayIngressType_Instance, gr_action = GatewayIngressActionEnable,
                    gr_targets = [\<lparr>gt_backend = ''web:8080'', gt_weight = 0\<rparr>]\<rparr>]\<rparr>"

definition demo_gw_replica :: "string \<Rightarrow> u32 \<Rightarrow> gw_replica" where
  "demo_gw_replica h p = \<lparr>dr_id = 0, dr_host = h, dr_ip = [], dr_ports = [\<lparr>dp_name = [], dp_port = 8080, dp_host_port = p\<rparr>],
     gp_state = []\<rparr>"

definition demo_gw_deploy :: gw_app_deploy where
  "demo_gw_deploy = \<lparr>ga_action = OpActionStart, ga_replicas = [demo_gw_replica ''h1'' 9001, demo_gw_replica ''h2'' 9002]\<rparr>"

definition demo_ing_db :: "irow mem_db" where
  "demo_ing_db =
     (2, [(NsAppInstance ''z'' ''web'', 2, AppRow \<lparr>ga_name = ''web'', ga_deploy = Some demo_gw_deploy\<rparr>),
          (NsZoneletGatewayIngress ''z'' ''a.io'', 1, IngRow demo_ingress)])"

definition demo_ing_calls :: "string ing_call list" where
  "demo_ing_calls =
     [SetIngress \<lparr>av_at = None, av_ak = Some demo_key\<rparr> True demo_ing_env (Some demo_ingress),
      StoreApp plain_put ''api'' ''api'' demo_gw_deploy]"

lemma demo_ing_sorted: "sorted_wrt str_lt (map fst (snd demo_ing_db))"
  by code_simp

lemma Clean_root: "''/'' \<in> range Clean"
  by (rule image_eqI [of _ _ "''/''"]) (simp_all add: Clean_def IsAbs_def has_prefix_def)

lemma demo_ingress_wf: "ingress_wf demo_ingress"
  using Clean_root
  by (simp add: demo_ingress_def ingress_wf_def routes_wf_def backend_wf_def ingress_consts port_ok_def Atoi_def
      parse_uint_def is_digit_def read_nat_def digit_val_def)

lemma demo_ing_rows: "ing_rows_ok ''z'' mem_kv demo_ing_db"
  using demo_ingress_wf
  by (auto simp: ing_rows_ok_def mem_kv_def mem_get_def demo_ing_db_def irow_ok_def demo_ingress_def split: if_splits)

lemma ingress_records_stay_wf_witness:
  "ing_rows_ok ''z'' mem_kv (fold (ing_step ''z'' mem_kv) demo_ing_calls demo_ing_db) \<and>
    (\<forall>av leader (U :: string url_api) hosts since.
       GatewayIngressDeployList mem_kv av leader ''z'' U hosts since
         (fold (ing_step ''z'' mem_kv) demo_ing_calls demo_ing_db) \<noteq> Inl IngPanic)"
  by (rule ingress_records_stay_wf [OF mem_kv_lawful mem_del_quiet demo_ing_rows
        mem_kv_ranged [OF mem_run_sorted [OF demo_ing_sorted]]])



end
