(* ===== verification/Gateway.thy ===== *)
theory Gateway
  imports Ingress "HOL-Library.AList"
begin

text \<open>
  The HTTP gateway \<open>cmd/ingate/main.go\<close>: the table of domains with their routes, the refresh from the zone
  server with the retained local routes and the list of TLS hosts, the lookup of a route, and the dispatch of a
  request. A route object is shared by the ordered list and the path index of its domain, so it has a number and
  the index refers to it. The URL parser, the file system and the third-party HTTP server are arguments or
  outcomes of the dispatch; the throttle and the buffered response are in \<open>RespWriter\<close>.
\<close>

section \<open>Data\<close>

definition gatewayIngressTypeLocalfs :: string where "gatewayIngressTypeLocalfs = ''localfs''"
definition gatewayIngressTypeProxy :: string where "gatewayIngressTypeProxy = ''proxy''"

lemmas gateway_types = gatewayIngressTypeLocalfs_def gatewayIngressTypeProxy_def

text \<open>A URL as far as the gateway reads it, and a route object.\<close>

record gw_url =
  gu_scheme :: string
  gu_host :: string
  gu_text :: string

record groute =
  rt_no :: nat
  rt_type :: string
  rt_path :: string
  rt_urls :: "string list"
  rt_calls :: u64
  rt_proxies :: "string list"

record domain_entry =
  en_domain :: ingress_deploy
  en_routes :: "groute list"
  en_index :: "(string \<times> nat) list"
  en_setup :: nat

record gconfig =
  gc_https :: bool
  gc_domains :: "ingress_deploy list"
  gc_index :: "(string \<times> domain_entry) list"
  gc_revision :: nat
  gc_full :: int
  gc_tls :: "string list"

record gw_env =
  gw_parse :: "string \<Rightarrow> gw_url option"
  gw_is_dir :: "string \<Rightarrow> bool"
  gw_picks :: "nat list"

definition confClampInt64 :: "int \<Rightarrow> int \<Rightarrow> int \<Rightarrow> int \<Rightarrow> int" where
  "confClampInt64 v dflt lo hi = (if v \<le> 0 then dflt else min (max v lo) hi)"

section \<open>Local routes\<close>

definition isLocalRouteType :: "string \<Rightarrow> bool" where
  "isLocalRouteType t \<longleftrightarrow> t = gatewayIngressTypeLocalfs \<or> t = gatewayIngressTypeProxy"

fun appendLocalRoutes :: "deploy_route list \<Rightarrow> deploy_route list \<Rightarrow> deploy_route list" where
  "appendLocalRoutes dst [] = dst"
| "appendLocalRoutes dst (r # src) =
     (if \<not> isLocalRouteType (lr_type r) then appendLocalRoutes dst src
      else if \<exists>a \<in> set dst. lr_path a = lr_path r then appendLocalRoutes dst src
      else appendLocalRoutes (dst @ [r]) src)"

definition mergeLocalRoutes :: "domain_entry \<Rightarrow> ingress_deploy \<Rightarrow> ingress_deploy" where
  "mergeLocalRoutes e d = d\<lparr>gd_routes := appendLocalRoutes (gd_routes d) (gd_routes (en_domain e))\<rparr>"

definition hasLocalRoutes :: "domain_entry \<Rightarrow> bool" where
  "hasLocalRoutes e \<longleftrightarrow> (\<exists>r \<in> set (gd_routes (en_domain e)). isLocalRouteType (lr_type r))"

section \<open>Routes of a domain\<close>

definition contains_sub :: "string \<Rightarrow> string \<Rightarrow> bool" where
  "contains_sub s t \<longleftrightarrow> (\<exists>k \<in> set [0 ..< Suc (length s)]. has_prefix (drop k s) t)"

definition parseProxyTarget :: "gw_env \<Rightarrow> string \<Rightarrow> gw_url option" where
  "parseProxyTarget E backend =
     (let s = TrimSpace backend in
      if s = [] then None
      else case gw_parse E (if contains_sub s ''://'' then s else ''http://'' @ s) of
        None \<Rightarrow> None
      | Some u \<Rightarrow>
          if gu_scheme u \<noteq> ''http'' \<and> gu_scheme u \<noteq> ''https'' then None
          else if gu_host u = [] then None
          else Some u)"

definition new_route :: "nat \<Rightarrow> deploy_route \<Rightarrow> groute" where
  "new_route n l = \<lparr>rt_no = n, rt_type = lr_type l, rt_path = lr_path l, rt_urls = [], rt_calls = 0, rt_proxies = []\<rparr>"

text \<open>The route object a location gets, or none: without targets, with an unknown type or a redirect that does not
  parse. A localfs route keeps its directory only when it exists, a proxy route only the targets that parse.\<close>

definition make_route :: "gw_env \<Rightarrow> nat \<Rightarrow> deploy_route \<Rightarrow> groute option" where
  "make_route E n l =
     (case lr_targets l of
        [] \<Rightarrow> None
      | t # ts \<Rightarrow>
          if lr_type l = GatewayIngressType_Instance \<or> lr_type l = GatewayIngressType_Upstream then
            Some ((new_route n l)\<lparr>rt_urls := map (\<lambda>b. ''http://'' @ b) (t # ts), rt_proxies := map (\<lambda>b. ''http://'' @ b) (t # ts)\<rparr>)
          else if lr_type l = GatewayIngressType_Redirect then
            map_option (\<lambda>u. (new_route n l)\<lparr>rt_urls := [gu_text u]\<rparr>) (gw_parse E t)
          else if lr_type l = gatewayIngressTypeLocalfs then
            Some (if ts = [] \<and> length t > 1 \<and> gw_is_dir E (Clean t)
                  then (new_route n l)\<lparr>rt_urls := [Clean t]\<rparr> else new_route n l)
          else if lr_type l = gatewayIngressTypeProxy then
            Some ((new_route n l)\<lparr>rt_proxies := List.map_filter (\<lambda>b. map_option gu_text (parseProxyTarget E b)) (t # ts)\<rparr>)
          else None)"

fun build_routes :: "gw_env \<Rightarrow> deploy_route list \<Rightarrow> groute list \<Rightarrow> (string \<times> nat) list \<Rightarrow> groute list \<times> (string \<times> nat) list" where
  "build_routes E [] rs ix = (rs, ix)"
| "build_routes E (l # ls) rs ix =
     (case make_route E (length rs) l of
        None \<Rightarrow> build_routes E ls rs ix
      | Some r \<Rightarrow> build_routes E ls (rs @ [r]) (AList.update (rt_path r) (rt_no r) ix))"

text \<open>The pushed domain is changed in place: it gains the local routes of the domain it replaces.\<close>

definition domainFresh :: "gw_env \<Rightarrow> domain_entry \<Rightarrow> ingress_deploy \<Rightarrow> domain_entry \<times> ingress_deploy" where
  "domainFresh E e d =
     (let d' = d\<lparr>gd_routes := appendLocalRoutes (gd_routes d) (gd_routes (en_domain e))\<rparr>;
          (rs, ix) = build_routes E (gd_routes d') [] []
      in (\<lparr>en_domain = d', en_routes = rs, en_index = ix, en_setup = gd_revision d\<rparr>, d'))"

definition route_no :: "domain_entry \<Rightarrow> nat \<Rightarrow> groute option" where
  "route_no e n = find (\<lambda>r. rt_no r = n) (en_routes e)"

definition route_at :: "domain_entry \<Rightarrow> string \<Rightarrow> groute option" where
  "route_at e p = (case map_of (en_index e) p of None \<Rightarrow> None | Some n \<Rightarrow> route_no e n)"

text \<open>The walk from a path to its ancestors; the measure is the length, and \<open>.\<close> and \<open>/\<close> stop it.\<close>

function lookup_up :: "(string \<Rightarrow> groute option) \<Rightarrow> string \<Rightarrow> groute option" where
  "lookup_up at p =
     (case at p of
        Some r \<Rightarrow> Some r
      | None \<Rightarrow>
          if p = ''/'' \<or> p = ''.'' \<or> p = [] then None
          else if Dir p = p then None
          else lookup_up at (Dir p))"
  by pat_completeness auto
termination
proof (relation "measure (\<lambda>(at, p). if p = ''/'' \<or> p = ''.'' then 0 else Suc (length p))")
  fix at :: "string \<Rightarrow> groute option" and p
  assume p: "at p = None" "\<not> (p = ''/'' \<or> p = ''.'' \<or> p = [])" "Dir p \<noteq> p"
  show "((at, Dir p), at, p) \<in> measure (\<lambda>(at, p). if p = ''/'' \<or> p = ''.'' then 0 else Suc (length p))"
    using p Dir_shorter [of p] by auto
qed simp

declare lookup_up.simps [simp del]

definition lookup :: "domain_entry \<Rightarrow> string \<Rightarrow> groute option" where
  "lookup e p =
     (case lookup_up (route_at e) p of
        Some r \<Rightarrow> Some r
      | None \<Rightarrow> if en_routes e = [] then None else Some (last (en_routes e)))"

section \<open>The refresh\<close>

record refresh_acc =
  ra_index :: "(string \<times> domain_entry) list"
  ra_revision :: nat
  ra_new :: "ingress_deploy list"
  ra_tls :: "string list"
  ra_flush :: bool

definition add_host :: "bool \<Rightarrow> string \<Rightarrow> string list \<Rightarrow> string list" where
  "add_host on h hs = (if on \<and> h \<notin> set hs then hs @ [h] else hs)"

definition empty_entry :: "ingress_deploy \<Rightarrow> domain_entry" where
  "empty_entry d = \<lparr>en_domain = d, en_routes = [], en_index = [], en_setup = 0\<rparr>"

definition refresh_domain :: "gw_env \<Rightarrow> ingress_deploy \<Rightarrow> refresh_acc \<Rightarrow> refresh_acc" where
  "refresh_domain E d a =
     (let known = map_of (ra_index a) (gd_domain d);
          e0 = (case known of Some e \<Rightarrow> e | None \<Rightarrow> empty_entry d);
          fresh = (known = None \<or> gd_revision d > en_setup e0);
          (e1, d1) = (if fresh then domainFresh E e0 d else (e0, d));
          d2 = mergeLocalRoutes e1 d1;
          a1 = a\<lparr>ra_revision := max (ra_revision a) (gd_revision d), ra_flush := ra_flush a \<or> fresh\<rparr>
      in if en_routes e1 = [] then
           (if known = None then a1 else a1\<lparr>ra_index := AList.update (gd_domain d) e1 (ra_index a)\<rparr>)
         else
           a1\<lparr>ra_index := AList.update (gd_domain d)
                (e1\<lparr>en_routes := sort_desc (gw_picks E) rt_path (en_routes e1)\<rparr>) (ra_index a),
              ra_tls := add_host (gd_letsencrypt d) (gd_domain d) (ra_tls a),
              ra_new := ra_new a @ [d2]\<rparr>)"

text \<open>The domains that are no longer delivered: those with local routes stay, the others leave the index.\<close>

fun evict :: "ingress_deploy list \<Rightarrow> (string \<times> domain_entry) list \<times> ingress_deploy list
    \<Rightarrow> (string \<times> domain_entry) list \<times> ingress_deploy list" where
  "evict [] (ix, new) = (ix, new)"
| "evict (d # ds) (ix, new) =
     (if \<exists>a \<in> set new. gd_domain a = gd_domain d then evict ds (ix, new)
      else case map_of ix (gd_domain d) of
        Some e \<Rightarrow> if hasLocalRoutes e then evict ds (ix, new @ [d]) else evict ds (AList.delete (gd_domain d) ix, new)
      | None \<Rightarrow> evict ds (AList.delete (gd_domain d) ix, new))"

text \<open>The update of the configuration from a delivered list; the flag tells whether the file is written.\<close>

definition refresh_apply :: "gw_env \<Rightarrow> bool \<Rightarrow> ingress_deploy list \<Rightarrow> gconfig \<Rightarrow> gconfig \<times> bool" where
  "refresh_apply E full domains c =
     (let a = fold (refresh_domain E) domains
            \<lparr>ra_index = gc_index c, ra_revision = gc_revision c, ra_new = [], ra_tls = [], ra_flush = False\<rparr>;
          sweep = full \<and> (length (ra_new a) \<noteq> length (ra_index a) \<or> length (ra_new a) \<noteq> length (gc_domains c));
          (ix, new) = (if sweep then evict (gc_domains c) (ra_index a, ra_new a) else (ra_index a, gc_domains c))
      in (c\<lparr>gc_index := ix, gc_domains := new, gc_revision := ra_revision a,
            gc_tls := if gc_https c \<and> gc_tls c \<noteq> ra_tls a then ra_tls a else gc_tls c\<rparr>,
          ra_flush a \<or> sweep))"

text \<open>
  \<open>configRefresh\<close>. A connection is a function from the requested revision to the reply; the share of delivered
  to known domains is below one half exactly when twice the first is below the second.
\<close>

definition configRefresh ::
    "gw_env \<Rightarrow> int \<Rightarrow> (nat \<Rightarrow> string + ingress_deploy list) option \<Rightarrow> ingress_deploy list \<Rightarrow> gconfig
      \<Rightarrow> gconfig \<times> (string + bool)" where
  "configRefresh E tn conn domains c =
     (case conn of
        Some fetch \<Rightarrow>
          if domains \<noteq> [] then (case refresh_apply E True domains c of (c', w) \<Rightarrow> (c', Inr w))
          else
            let full = (gc_full c + 600 < tn); rev = (if full then 0 else gc_revision c);
                c1 = (if full then c\<lparr>gc_full := tn\<rparr> else c) in
            (case fetch rev of
               Inl e \<Rightarrow> (c1, Inl e)
             | Inr items \<Rightarrow>
                 if items = [] then (c1, Inr False)
                 else if rev = 0 \<and> gc_domains c1 \<noteq> [] \<and> 2 * length items < length (gc_domains c1) then (c1, Inr False)
                 else (case refresh_apply E (rev = 0) items c1 of (c', w) \<Rightarrow> (c', Inr w)))
      | None \<Rightarrow> (case refresh_apply E True domains c of (c', w) \<Rightarrow> (c', Inr w)))"

section \<open>Serving a request\<close>

record gw_request =
  q_host :: string
  q_path :: string
  q_conn_upgrade :: bool
  q_upgrade :: string
  q_hijack :: bool

datatype fs_open = FsMissing | FsDir | FsFile

datatype gresponse =
    RespHtml nat
  | RespModule
  | RespAcme
  | RespRedirect string
  | RespProxy string
  | RespTunnel string
  | RespBadGateway
  | RespNotImplemented
  | RespFile string string

definition stripHostPort :: "string \<Rightarrow> string" where
  "stripHostPort h =
     (case split_last CHR '':'' h of Some (a, b) \<Rightarrow> if CHR '']'' \<in> set b then h else a | None \<Rightarrow> h)"

definition trim_prefix :: "string \<Rightarrow> string \<Rightarrow> string" where
  "trim_prefix s p = (if has_prefix s p then drop (length p) s else s)"

definition localfs_rel :: "string \<Rightarrow> string \<Rightarrow> string" where
  "localfs_rel urlPath routePath = Clean (trim_prefix (trim_prefix urlPath routePath) ''/'')"

text \<open>The route of a host, with the entry it was found in.\<close>

definition find_route :: "gconfig \<Rightarrow> string \<Rightarrow> string \<Rightarrow> (domain_entry \<times> groute) option" where
  "find_route c host urlPath =
     (case map_of (gc_index c) host of
        None \<Rightarrow> None
      | Some e \<Rightarrow> map_option (\<lambda>r. (e, r)) (lookup e urlPath))"

definition localfsServe :: "(string \<Rightarrow> string \<Rightarrow> fs_open) \<Rightarrow> gconfig \<Rightarrow> string \<Rightarrow> string \<Rightarrow> gresponse option" where
  "localfsServe fs c host urlPath =
     (case find_route c host urlPath of
        None \<Rightarrow> None
      | Some (e, r) \<Rightarrow>
          if rt_type r \<noteq> gatewayIngressTypeLocalfs then None
          else case rt_urls r of
            [] \<Rightarrow> Some (RespHtml 404)
          | root # _ \<Rightarrow>
              let rel = localfs_rel urlPath (rt_path r) in
              if IsAbs rel \<or> has_prefix rel ''..'' then Some (RespHtml 403)
              else Some (case fs root rel of FsMissing \<Rightarrow> RespHtml 404 | FsDir \<Rightarrow> RespHtml 403 | FsFile \<Rightarrow> RespFile root rel))"

text \<open>\<open>pickProxy\<close>: the counter of the route object moves, and its remainder picks the target.\<close>

definition pickProxy :: "groute \<Rightarrow> (u64 \<times> string) option" where
  "pickProxy r =
     (if rt_proxies r = [] then None
      else let n = rt_calls r + 1 in Some (n, rt_proxies r ! (unat n mod length (rt_proxies r))))"

definition set_calls :: "string \<Rightarrow> nat \<Rightarrow> u64 \<Rightarrow> gconfig \<Rightarrow> gconfig" where
  "set_calls host n calls c =
     (case map_of (gc_index c) host of
        None \<Rightarrow> c
      | Some e \<Rightarrow>
          c\<lparr>gc_index := AList.update host
              (e\<lparr>en_routes := map (\<lambda>r. if rt_no r = n then r\<lparr>rt_calls := calls\<rparr> else r) (en_routes e)\<rparr>) (gc_index c)\<rparr>)"

definition serve_proxy :: "(string \<Rightarrow> gresponse) \<Rightarrow> string \<Rightarrow> groute \<Rightarrow> gconfig \<Rightarrow> gconfig \<times> gresponse" where
  "serve_proxy reply host r c =
     (case pickProxy r of
        None \<Rightarrow> (c, RespBadGateway)
      | Some (n, target) \<Rightarrow> (set_calls host (rt_no r) n c, reply target))"

definition upgradeRequestType :: "gw_request \<Rightarrow> string" where
  "upgradeRequestType q = (if q_conn_upgrade q then q_upgrade q else [])"

definition proxyTunnelServe :: "gconfig \<Rightarrow> gw_request \<Rightarrow> string \<Rightarrow> string \<Rightarrow> (gconfig \<times> gresponse) option" where
  "proxyTunnelServe c q host urlPath =
     (if upgradeRequestType q = [] then None
      else case find_route c host urlPath of
        None \<Rightarrow> None
      | Some (e, r) \<Rightarrow>
          if rt_type r \<noteq> gatewayIngressTypeProxy then None
          else Some (serve_proxy (\<lambda>t. if q_hijack q then RespTunnel t else RespNotImplemented) host r c))"

text \<open>The handler behind the buffered writer.\<close>

definition serve_route :: "gconfig \<Rightarrow> string \<Rightarrow> string \<Rightarrow> gconfig \<times> gresponse" where
  "serve_route c host urlPath =
     (case map_of (gc_index c) host of
        None \<Rightarrow> (c, RespHtml 403)
      | Some e \<Rightarrow>
          (case lookup e urlPath of
             None \<Rightarrow> (c, RespHtml 404)
           | Some r \<Rightarrow>
               if rt_type r \<in> {GatewayIngressType_Instance, GatewayIngressType_Upstream, gatewayIngressTypeProxy} then
                 serve_proxy RespProxy host r c
               else if rt_type r = GatewayIngressType_Redirect then (c, RespRedirect (hd (rt_urls r)))
               else (c, RespHtml 404)))"

definition rootHandler :: "(string \<Rightarrow> string \<Rightarrow> fs_open) \<Rightarrow> gw_request \<Rightarrow> gconfig \<Rightarrow> gconfig \<times> gresponse" where
  "rootHandler fs q c =
     (let host = stripHostPort (q_host q); urlPath = Clean (q_path q) in
      case localfsServe fs c host urlPath of
        Some r \<Rightarrow> (c, r)
      | None \<Rightarrow>
          (case proxyTunnelServe c q host urlPath of
             Some r \<Rightarrow> r
           | None \<Rightarrow> serve_route c host urlPath))"

definition httpRootHandler ::
    "(string \<Rightarrow> string \<Rightarrow> fs_open) \<Rightarrow> string list \<Rightarrow> gw_request \<Rightarrow> gconfig \<Rightarrow> gconfig \<times> gresponse" where
  "httpRootHandler fs modules q c =
     (let host = stripHostPort (q_host q) in
      case map_of (gc_index c) host of
        None \<Rightarrow> if host \<in> set modules then (c, RespModule) else (c, RespHtml 404)
      | Some e \<Rightarrow>
          if gc_https c \<and> gd_letsencrypt (en_domain e) then (c, RespAcme)
          else rootHandler fs (q\<lparr>q_host := host\<rparr>) c)"

text \<open>The steps of a running gateway: refreshes and requests on either port.\<close>

datatype gw_step =
    GwRefresh gw_env int "(nat \<Rightarrow> string + ingress_deploy list) option" "ingress_deploy list"
  | GwHttp "string \<Rightarrow> string \<Rightarrow> fs_open" "string list" gw_request
  | GwHttps "string \<Rightarrow> string \<Rightarrow> fs_open" gw_request

fun gw_run :: "gw_step \<Rightarrow> gconfig \<Rightarrow> gconfig" where
  "gw_run (GwRefresh E tn conn ds) c = fst (configRefresh E tn conn ds c)"
| "gw_run (GwHttp fs ms q) c = fst (httpRootHandler fs ms q c)"
| "gw_run (GwHttps fs q) c = fst (rootHandler fs q c)"

definition gw_start :: "bool \<Rightarrow> ingress_deploy list \<Rightarrow> gconfig" where
  "gw_start https ds = \<lparr>gc_https = https, gc_domains = ds, gc_index = [], gc_revision = 0, gc_full = 0, gc_tls = []\<rparr>"

section \<open>What an entry holds\<close>

definition index_ok :: "groute list \<Rightarrow> (string \<times> nat) list \<Rightarrow> string \<Rightarrow> bool" where
  "index_ok rs ix p \<longleftrightarrow>
     (case map_of ix p of
        Some n \<Rightarrow> \<exists>r \<in> set rs. rt_no r = n \<and> rt_path r = p
      | None \<Rightarrow> p \<notin> rt_path ` set rs)"

definition entry_ok :: "domain_entry \<Rightarrow> bool" where
  "entry_ok e \<longleftrightarrow>
     distinct (map rt_no (en_routes e)) \<and>
     (\<forall>r \<in> set (en_routes e). \<exists>E l. l \<in> set (gd_routes (en_domain e)) \<and> make_route E (rt_no r) l = Some (r\<lparr>rt_calls := 0\<rparr>)) \<and>
     (\<forall>p. index_ok (en_routes e) (en_index e) p)"

definition table_ok :: "gconfig \<Rightarrow> bool" where
  "table_ok c \<longleftrightarrow> (\<forall>h e. map_of (gc_index c) h = Some e \<longrightarrow> entry_ok e)"

lemma find_no_Some: "distinct (map rt_no rs) \<Longrightarrow> r \<in> set rs \<Longrightarrow> find (\<lambda>x. rt_no x = rt_no r) rs = Some r"
proof (induction rs)
  case (Cons y ys)
  show ?case
  proof (cases "r = y")
    case False
    then have "r \<in> set ys" using Cons.prems(2) by simp
    moreover from this have "rt_no y \<noteq> rt_no r" using Cons.prems(1) by (metis distinct.simps(2) image_eqI list.set_map list.simps(9))
    ultimately show ?thesis using Cons by simp
  qed simp
qed simp

lemma route_no_Some:
  "distinct (map rt_no (en_routes e)) \<Longrightarrow> r \<in> set (en_routes e) \<Longrightarrow> route_no e (rt_no r) = Some r"
  unfolding route_no_def by (rule find_no_Some)

lemma route_at_ok:
  assumes "entry_ok e"
  shows "case route_at e p of Some r \<Rightarrow> r \<in> set (en_routes e) \<and> rt_path r = p | None \<Rightarrow> p \<notin> rt_path ` set (en_routes e)"
proof -
  have ix: "index_ok (en_routes e) (en_index e) p" and d: "distinct (map rt_no (en_routes e))"
    using assms by (auto simp: entry_ok_def)
  show ?thesis
  proof (cases "map_of (en_index e) p")
    case None
    then show ?thesis using ix by (simp add: route_at_def index_ok_def)
  next
    case (Some n)
    then obtain r where r: "r \<in> set (en_routes e)" "rt_no r = n" "rt_path r = p"
      using ix by (auto simp: index_ok_def)
    then show ?thesis using route_no_Some [OF d r(1)] by (simp add: route_at_def Some)
  qed
qed

lemma make_route_path: "make_route E n l = Some r \<Longrightarrow> rt_no r = n \<and> rt_path r = lr_path l \<and> rt_type r = lr_type l \<and> rt_calls r = 0"
  by (auto simp: make_route_def new_route_def split: list.splits if_splits option.splits)

lemma build_routes_ok:
  assumes "build_routes E ls rs ix = (rs', ix')" "set ls \<subseteq> L"
    and "map rt_no rs = [0 ..< length rs]"
    and "\<forall>r \<in> set rs. \<exists>l \<in> L. make_route E (rt_no r) l = Some r"
    and "\<forall>p. index_ok rs ix p"
  shows "map rt_no rs' = [0 ..< length rs'] \<and> (\<forall>r \<in> set rs'. \<exists>l \<in> L. make_route E (rt_no r) l = Some r) \<and>
    (\<forall>p. index_ok rs' ix' p)"
  using assms
proof (induction E ls rs ix rule: build_routes.induct)
  case (2 E l ls rs ix)
  show ?case
  proof (cases "make_route E (length rs) l")
    case None
    then show ?thesis using "2.IH"(1) [OF None] "2.prems" by simp
  next
    case (Some r)
    note mk = make_route_path [OF Some]
    have "\<forall>p. index_ok (rs @ [r]) (AList.update (rt_path r) (rt_no r) ix) p"
    proof
      fix p
      show "index_ok (rs @ [r]) (AList.update (rt_path r) (rt_no r) ix) p"
        using "2.prems"(5) [rule_format, of p]
        by (cases "p = rt_path r") (auto simp: index_ok_def update_conv' split: option.splits)
    qed
    moreover have "\<forall>x \<in> set (rs @ [r]). \<exists>l \<in> L. make_route E (rt_no x) l = Some x"
      using "2.prems"(2,4) Some mk by auto
    ultimately show ?thesis using "2.IH"(2) [OF Some] "2.prems"(1,2,3) Some mk by simp
  qed
qed simp

lemma domainFresh_sel:
  assumes "domainFresh E e d = (e', d')"
  shows "d' = d\<lparr>gd_routes := appendLocalRoutes (gd_routes d) (gd_routes (en_domain e))\<rparr> \<and> en_domain e' = d' \<and>
    en_setup e' = gd_revision d \<and> build_routes E (gd_routes d') [] [] = (en_routes e', en_index e')"
  using assms by (auto simp: domainFresh_def Let_def split: prod.splits)

lemma domainFresh_ok: "domainFresh E e d = (e', d') \<Longrightarrow> entry_ok e'"
proof -
  assume f: "domainFresh E e d = (e', d')"
  note sel = domainFresh_sel [OF f]
  have "map rt_no (en_routes e') = [0 ..< length (en_routes e')] \<and>
      (\<forall>r \<in> set (en_routes e'). \<exists>l \<in> set (gd_routes d'). make_route E (rt_no r) l = Some r) \<and>
      (\<forall>p. index_ok (en_routes e') (en_index e') p)"
    using sel by (intro build_routes_ok [of E "gd_routes d'" "[]" "[]"]) (auto simp: index_ok_def)
  moreover from this have "distinct (map rt_no (en_routes e'))" by simp
  moreover have "r\<lparr>rt_calls := 0\<rparr> = r" if "make_route E n l = Some r" for n l r
    using make_route_path [OF that] by simp
  ultimately show ?thesis unfolding entry_ok_def using sel by metis
qed

lemma index_ok_cong: "(\<lambda>r. (rt_no r, rt_path r)) ` set rs = (\<lambda>r. (rt_no r, rt_path r)) ` set rs' \<Longrightarrow> index_ok rs ix p = index_ok rs' ix p"
proof -
  assume eq: "(\<lambda>r. (rt_no r, rt_path r)) ` set rs = (\<lambda>r. (rt_no r, rt_path r)) ` set rs'"
  have p1: "(\<exists>r \<in> set xs. rt_no r = n \<and> rt_path r = p) \<longleftrightarrow> (n, p) \<in> (\<lambda>r. (rt_no r, rt_path r)) ` set xs" for xs n
    by auto
  have p2: "rt_path ` set xs = snd ` (\<lambda>r. (rt_no r, rt_path r)) ` set xs" for xs by (simp add: image_image)
  have "rt_path ` set rs = rt_path ` set rs'" by (simp only: p2 [of rs] p2 [of rs'] eq)
  moreover have "(\<exists>r \<in> set rs. rt_no r = n \<and> rt_path r = p) \<longleftrightarrow> (\<exists>r \<in> set rs'. rt_no r = n \<and> rt_path r = p)" for n
    by (simp only: p1 eq)
  ultimately show ?thesis by (simp add: index_ok_def split: option.split)
qed

lemma entry_ok_perm:
  assumes "entry_ok e" "mset rs = mset (en_routes e)"
  shows "entry_ok (e\<lparr>en_routes := rs\<rparr>)"
proof -
  have set: "set rs = set (en_routes e)" using assms(2) by (metis set_mset_mset)
  have "mset (map rt_no rs) = mset (map rt_no (en_routes e))" using assms(2) by simp
  then have "distinct (map rt_no rs)" using assms(1) mset_eq_imp_distinct_iff unfolding entry_ok_def by blast
  then show ?thesis using assms(1) index_ok_cong [of rs "en_routes e"] by (simp add: entry_ok_def set)
qed

lemma entry_ok_calls:
  assumes "entry_ok e"
  shows "entry_ok (e\<lparr>en_routes := map (\<lambda>r. if rt_no r = n then r\<lparr>rt_calls := k\<rparr> else r) (en_routes e)\<rparr>)"
proof -
  let ?f = "\<lambda>r. if rt_no r = n then r\<lparr>rt_calls := k\<rparr> else r"
  have no: "map rt_no (map ?f (en_routes e)) = map rt_no (en_routes e)" by simp
  have "(\<lambda>r. (rt_no r, rt_path r)) ` set (map ?f (en_routes e)) = (\<lambda>r. (rt_no r, rt_path r)) ` set (en_routes e)"
    unfolding set_map image_image by (intro image_cong) auto
  note ix = index_ok_cong [OF this]
  show ?thesis using assms no by (auto simp: entry_ok_def ix simp del: map_map)
qed

lemma mem_update: "map_of (AList.update k v xs) h = (if h = k then Some v else map_of xs h)"
  by (simp add: update_conv')

lemma refresh_domain_ok:
  assumes "\<And>h e. map_of (ra_index a) h = Some e \<Longrightarrow> entry_ok e"
    and "map_of (ra_index (refresh_domain E d a)) h = Some e"
  shows "entry_ok e"
proof -
  let ?known = "map_of (ra_index a) (gd_domain d)"
  define e0 where "e0 = (case ?known of Some e \<Rightarrow> e | None \<Rightarrow> empty_entry d)"
  define ed where "ed = (if ?known = None \<or> gd_revision d > en_setup e0 then domainFresh E e0 d else (e0, d))"
  obtain e1 d1 where ed1: "ed = (e1, d1)" by (cases ed)
  have ok1: "entry_ok e1"
  proof (cases "?known = None \<or> gd_revision d > en_setup e0")
    case True then show ?thesis using ed1 domainFresh_ok by (simp add: ed_def)
  next
    case False
    then have "e1 = e0" "?known = Some e0" using ed1 by (auto simp: ed_def e0_def)
    then show ?thesis using assms(1) by simp
  qed
  then have "entry_ok (e1\<lparr>en_routes := sort_desc (gw_picks E) rt_path (en_routes e1)\<rparr>)" by (intro entry_ok_perm) simp_all
  then show ?thesis using assms ok1 ed1
    by (auto simp: refresh_domain_def Let_def e0_def ed_def mem_update split: if_splits)
qed

lemma evict_sub: "map_of (fst (evict ds (ix, new))) h = Some e \<Longrightarrow> map_of ix h = Some e"
proof (induction ds arbitrary: ix new)
  case (Cons d ds)
  have "\<exists>ix' new'. evict (d # ds) (ix, new) = evict ds (ix', new') \<and> (ix' = ix \<or> ix' = AList.delete (gd_domain d) ix)"
    by (auto split: option.split)
  then obtain ix' new' where ev: "evict (d # ds) (ix, new) = evict ds (ix', new')"
      "ix' = ix \<or> ix' = AList.delete (gd_domain d) ix" by blast
  then have "map_of ix' h = Some e" using Cons.IH Cons.prems by simp
  then show ?case using ev(2) by (auto simp: AList.delete_conv' split: if_splits)
qed simp

lemma refresh_apply_ok:
  assumes "table_ok c" shows "table_ok (fst (refresh_apply E full ds c))"
proof -
  let ?init = "\<lparr>ra_index = gc_index c, ra_revision = gc_revision c, ra_new = [], ra_tls = [], ra_flush = False\<rparr>"
  let ?a = "fold (refresh_domain E) ds ?init"
  have step: "\<forall>h e. map_of (ra_index (fold (refresh_domain E) ds a)) h = Some e \<longrightarrow> entry_ok e"
    if "\<forall>h e. map_of (ra_index a) h = Some e \<longrightarrow> entry_ok e" for a
    using that
  proof (induction ds arbitrary: a)
    case (Cons d ds)
    have "\<forall>h e. map_of (ra_index (refresh_domain E d a)) h = Some e \<longrightarrow> entry_ok e"
      using refresh_domain_ok [of a] Cons.prems by blast
    then show ?case using Cons.IH by simp
  qed simp
  have base: "\<forall>h e. map_of (ra_index ?a) h = Some e \<longrightarrow> entry_ok e"
    using assms by (intro step) (simp add: table_ok_def)
  have "map_of (gc_index (fst (refresh_apply E full ds c))) h = Some e \<Longrightarrow> map_of (ra_index ?a) h = Some e" for h e
    using evict_sub [of "gc_domains c" "ra_index ?a" "ra_new ?a" h e]
    by (simp add: refresh_apply_def Let_def split: prod.splits if_splits)
  then show ?thesis using base unfolding table_ok_def by blast
qed

lemma set_calls_ok: "table_ok c \<Longrightarrow> table_ok (set_calls host n k c)"
  by (auto simp: table_ok_def set_calls_def mem_update entry_ok_calls split: option.split)

lemma configRefresh_ok: "table_ok c \<Longrightarrow> table_ok (fst (configRefresh E tn conn ds c))"
proof -
  assume c: "table_ok c"
  then have c1: "table_ok (c\<lparr>gc_full := tn\<rparr>)" by (simp add: table_ok_def)
  show ?thesis
    using c c1 refresh_apply_ok [OF c, of E] refresh_apply_ok [OF c1, of E]
    by (auto simp: configRefresh_def Let_def case_prod_beta split: option.split sum.split)
qed

lemma serve_proxy_frame: "fst (serve_proxy reply host r c) = c \<or> (\<exists>n k. fst (serve_proxy reply host r c) = set_calls host n k c)"
  by (auto simp: serve_proxy_def split: option.split)

lemma request_frame:
  "fst (rootHandler fs q c) = c \<or> (\<exists>host n k. fst (rootHandler fs q c) = set_calls host n k c)"
proof -
  have "fst (serve_route c host p) = c \<or> (\<exists>n k. fst (serve_route c host p) = set_calls host n k c)" for host p
    using serve_proxy_frame by (auto simp: serve_route_def split: option.split)
  moreover have "fst r = c \<or> (\<exists>n k. fst r = set_calls host n k c)" if "proxyTunnelServe c q host p = Some r" for host p r
    using that serve_proxy_frame by (auto simp: proxyTunnelServe_def split: option.splits prod.splits if_splits)
  ultimately show ?thesis
    by (auto simp: rootHandler_def Let_def split: option.split) (metis)+
qed

lemma http_frame:
  "fst (httpRootHandler fs ms q c) = c \<or> (\<exists>host n k. fst (httpRootHandler fs ms q c) = set_calls host n k c)"
  using request_frame by (auto simp: httpRootHandler_def Let_def split: option.split)

lemma gw_run_ok: "table_ok c \<Longrightarrow> table_ok (gw_run s c)"
  using configRefresh_ok request_frame http_frame set_calls_ok by (cases s) (metis gw_run.simps)+

interpretation gw_table: guarded_calls gw_run "\<lambda>_. True" table_ok
  by unfold_locales (rule gw_run_ok)

lemma gw_runs_ok: "table_ok c \<Longrightarrow> table_ok (fold gw_run ss c)"
  by (rule gw_table.calls_keep) simp_all

lemma gw_start_ok: "table_ok (gw_start https ds)"
  by (simp add: table_ok_def gw_start_def)

section \<open>The route of a path\<close>

lemma abs_path_snoc_neq:
  assumes "plain_path (es @ [e])"
  shows "abs_path (es @ [e]) \<noteq> ''/'' \<and> abs_path (es @ [e]) \<noteq> abs_path es"
proof -
  have e: "e \<noteq> []" using assms by (simp add: plain_path_def plain_elem_def)
  have "length (abs_path es) < length (abs_path (es @ [e]))" using e by (simp add: abs_path_def join_snoc)
  then show ?thesis by (auto simp: abs_path_def)
qed

lemma lookup_up_abs:
  "plain_path es \<Longrightarrow>
    (case lookup_up at (abs_path es) of
       Some r \<Rightarrow> \<exists>k \<le> length es. at (abs_path (take k es)) = Some r \<and>
                  (\<forall>j. k < j \<and> j \<le> length es \<longrightarrow> at (abs_path (take j es)) = None)
     | None \<Rightarrow> \<forall>j \<le> length es. at (abs_path (take j es)) = None)"
proof (induction es rule: rev_induct)
  case Nil
  show ?case by (subst lookup_up.simps) (auto simp: abs_path_def split: option.split)
next
  case (snoc e es)
  let ?p = "abs_path (es @ [e])"
  have p: "?p \<noteq> ''/''" "?p \<noteq> ''.''" "?p \<noteq> []" "Dir ?p = abs_path es" "Dir ?p \<noteq> ?p"
    using abs_path_snoc_neq [OF snoc.prems] Dir_abs_path [OF snoc.prems] by (auto simp: abs_path_def)
  have es: "plain_path es" using snoc.prems by (simp add: plain_path_def)
  show ?case
  proof (cases "at ?p")
    case (Some r)
    then have "lookup_up at ?p = Some r" by (subst lookup_up.simps) simp
    then show ?thesis using Some by (auto intro!: exI [of _ "length (es @ [e])"])
  next
    case None
    then have up: "lookup_up at ?p = lookup_up at (abs_path es)" using p by (subst lookup_up.simps) simp
    have last: "at (abs_path (take j (es @ [e]))) = None" if "length es < j" for j using None that by simp
    show ?thesis
    proof (cases "lookup_up at (abs_path es)")
      case (Some r)
      then obtain k where k: "k \<le> length es" "at (abs_path (take k es)) = Some r"
          "\<forall>j. k < j \<and> j \<le> length es \<longrightarrow> at (abs_path (take j es)) = None" using snoc.IH [OF es] by auto
      have "at (abs_path (take j (es @ [e]))) = None" if "k < j" "j \<le> Suc (length es)" for j
        using that k(3) last [of j] by (cases "j \<le> length es") auto
      then show ?thesis using k(1,2) by (auto simp: up Some intro!: exI [of _ k])
    next
      case none: None
      have "at (abs_path (take j (es @ [e]))) = None" for j
        using snoc.IH [OF es] none last [of j] by (cases "j \<le> length es") auto
      then show ?thesis by (simp add: up none)
    qed
  qed
qed

definition has_route :: "domain_entry \<Rightarrow> string list \<Rightarrow> bool" where
  "has_route e es \<longleftrightarrow> abs_path es \<in> rt_path ` set (en_routes e)"

text \<open>
  C30: a request is routed to the longest configured path. In a gateway that has gone through any sequence of
  refreshes and requests, the lookup of a rooted request path ends, and it answers with a route of the domain: the one
  whose path is the deepest ancestor of the cleaned request path, element by element, among the paths of the domain.
  When no ancestor is configured it answers with the last route of the ordered list, and with nothing exactly when
  the domain has no route.
\<close>

theorem route_lookup_longest:
  assumes "map_of (gc_index (fold gw_run ss (gw_start https ds))) host = Some e" "IsAbs q"
  shows "\<exists>es. plain_path es \<and> Clean q = abs_path es \<and>
    (case lookup e (Clean q) of
       None \<Rightarrow> en_routes e = []
     | Some r \<Rightarrow> r \<in> set (en_routes e) \<and>
         ((\<exists>k \<le> length es. rt_path r = abs_path (take k es) \<and> (\<forall>j. k < j \<and> j \<le> length es \<longrightarrow> \<not> has_route e (take j es))) \<or>
          ((\<forall>j \<le> length es. \<not> has_route e (take j es)) \<and> r = last (en_routes e))))"
proof -
  obtain es where es: "plain_path es" "Clean q = abs_path es" using Clean_rooted [OF assms(2)] by blast
  have ok: "entry_ok e" using gw_runs_ok [OF gw_start_ok] assms(1) unfolding table_ok_def by blast
  have none: "route_at e (abs_path x) = None \<Longrightarrow> \<not> has_route e x" for x
    using route_at_ok [OF ok, of "abs_path x"] by (simp add: has_route_def)
  have some: "route_at e p = Some r \<Longrightarrow> r \<in> set (en_routes e) \<and> rt_path r = p" for p r
    using route_at_ok [OF ok, of p] by simp
  note up = lookup_up_abs [OF es(1), of "route_at e"]
  show ?thesis
  proof (intro exI conjI)
    show "plain_path es" "Clean q = abs_path es" by (fact es)+
    show "case lookup e (Clean q) of None \<Rightarrow> en_routes e = []
      | Some r \<Rightarrow> r \<in> set (en_routes e) \<and>
         ((\<exists>k \<le> length es. rt_path r = abs_path (take k es) \<and> (\<forall>j. k < j \<and> j \<le> length es \<longrightarrow> \<not> has_route e (take j es))) \<or>
          ((\<forall>j \<le> length es. \<not> has_route e (take j es)) \<and> r = last (en_routes e)))"
    proof (cases "lookup_up (route_at e) (abs_path es)")
      case (Some r)
      then obtain k where k: "k \<le> length es" "route_at e (abs_path (take k es)) = Some r"
          "\<forall>j. k < j \<and> j \<le> length es \<longrightarrow> route_at e (abs_path (take j es)) = None" using up by auto
      then show ?thesis using some [OF k(2)] none Some by (auto simp: lookup_def es(2))
    next
      case None
      then show ?thesis using up none by (auto simp: lookup_def es(2))
    qed
  qed
qed

text \<open>A gateway with a domain of its own file: an upstream, a deeper upstream and a local directory.\<close>

definition demo_gw_env :: gw_env where
  "demo_gw_env = \<lparr>gw_parse = (\<lambda>s. Some \<lparr>gu_scheme = ''http'', gu_host = s, gu_text = s\<rparr>), gw_is_dir = (\<lambda>_. True), gw_picks = []\<rparr>"

definition demo_upstream :: "string \<Rightarrow> deploy_route" where
  "demo_upstream p = \<lparr>lr_type = GatewayIngressType_Upstream, lr_path = p, lr_targets = [''10.0.0.1:80'', ''10.0.0.2:80'']\<rparr>"

definition demo_localfs :: deploy_route where
  "demo_localfs = \<lparr>lr_type = gatewayIngressTypeLocalfs, lr_path = ''/f'', lr_targets = [''/srv/w'']\<rparr>"

definition demo_own :: ingress_deploy where
  "demo_own = \<lparr>gd_domain = ''a.io'', gd_letsencrypt = True, gd_routes = [demo_upstream ''/'', demo_upstream ''/a'', demo_localfs],
     gd_revision = 0\<rparr>"

definition demo_pushed :: "string \<Rightarrow> nat \<Rightarrow> ingress_deploy" where
  "demo_pushed h n = \<lparr>gd_domain = h, gd_letsencrypt = True, gd_routes = [demo_upstream ''/''], gd_revision = n\<rparr>"

definition demo_steps :: "gw_step list" where
  "demo_steps =
     [GwRefresh demo_gw_env 1000 None [demo_own],
      GwRefresh demo_gw_env 1000 (Some (\<lambda>_. Inr [demo_pushed ''a.io'' 3, demo_pushed ''b.io'' 4])) [],
      GwHttps (\<lambda>_ _. FsFile) \<lparr>q_host = ''b.io:443'', q_path = ''/'', q_conn_upgrade = False, q_upgrade = [], q_hijack = True\<rparr>]"

definition demo_gw :: gconfig where
  "demo_gw = fold gw_run demo_steps (gw_start True [demo_own])"

definition demo_entry :: domain_entry where
  "demo_entry = the (map_of (gc_index demo_gw) ''a.io'')"

lemma demo_entry_at: "map_of (gc_index demo_gw) ''a.io'' = Some demo_entry"
proof -
  have "\<not> Option.is_none (map_of (gc_index demo_gw) ''a.io'')" by code_simp
  then show ?thesis by (auto simp: demo_entry_def Option.is_none_def)
qed

lemma route_lookup_longest_witness:
  "map_option rt_path (lookup demo_entry ''/f/x'') = Some ''/f'' \<and>
   (\<exists>es. plain_path es \<and> Clean ''/f/./x'' = abs_path es \<and>
     (case lookup demo_entry (Clean ''/f/./x'') of
       None \<Rightarrow> en_routes demo_entry = []
     | Some r \<Rightarrow> r \<in> set (en_routes demo_entry) \<and>
         ((\<exists>k \<le> length es. rt_path r = abs_path (take k es) \<and> (\<forall>j. k < j \<and> j \<le> length es \<longrightarrow> \<not> has_route demo_entry (take j es))) \<or>
          ((\<forall>j \<le> length es. \<not> has_route demo_entry (take j es)) \<and> r = last (en_routes demo_entry)))))"
proof (rule conjI)
  show "map_option rt_path (lookup demo_entry ''/f/x'') = Some ''/f''" by code_simp
  show "\<exists>es. plain_path es \<and> Clean ''/f/./x'' = abs_path es \<and>
     (case lookup demo_entry (Clean ''/f/./x'') of
       None \<Rightarrow> en_routes demo_entry = []
     | Some r \<Rightarrow> r \<in> set (en_routes demo_entry) \<and>
         ((\<exists>k \<le> length es. rt_path r = abs_path (take k es) \<and> (\<forall>j. k < j \<and> j \<le> length es \<longrightarrow> \<not> has_route demo_entry (take j es))) \<or>
          ((\<forall>j \<le> length es. \<not> has_route demo_entry (take j es)) \<and> r = last (en_routes demo_entry))))"
    by (rule route_lookup_longest [OF demo_entry_at [unfolded demo_gw_def]]) (simp add: IsAbs_def has_prefix_def)
qed

section \<open>Local files\<close>

lemma make_route_localfs:
  "make_route E n l = Some x \<Longrightarrow> lr_type l = gatewayIngressTypeLocalfs \<Longrightarrow>
     rt_urls x = [] \<or> (\<exists>t. lr_targets l = [t] \<and> rt_urls x = [Clean t])"
  by (auto simp: make_route_def new_route_def gateway_types ingress_consts split: list.splits if_splits)

lemma lookup_up_hit: "lookup_up at p = Some r \<Longrightarrow> \<exists>p'. at p' = Some r"
proof (induction at p rule: lookup_up.induct)
  case (1 at p)
  show ?case
  proof (cases "at p")
    case None
    then have "lookup_up at (Dir p) = Some r" "\<not> (p = ''/'' \<or> p = ''.'' \<or> p = [])" "Dir p \<noteq> p"
      using "1.prems" by (subst (asm) lookup_up.simps, simp split: if_splits)+
    then show ?thesis using "1.IH" [OF None] by blast
  next
    case (Some x)
    then show ?thesis using "1.prems" by (subst (asm) lookup_up.simps) auto
  qed
qed

text \<open>
  C29: a file answered from disk lies inside a configured directory. In a gateway that has gone through any sequence of
  refreshes and requests, when a request of any host, path and headers is answered with a file, the directory is the
  cleaned single target of a local-files route of the domain of that host, and the name opened below it is \<open>.\<close>
  or a sequence of plain elements: not empty, neither \<open>.\<close> nor \<open>..\<close>, without a slash. So no request path, not even
  one whose route prefix was cut in the middle of an element, names a file outside the directory.
\<close>

theorem local_files_confined:
  assumes "rootHandler fs q (fold gw_run ss (gw_start https ds)) = (c', RespFile root rel)"
  shows "(rel = ''.'' \<or> (\<exists>es. es \<noteq> [] \<and> plain_path es \<and> rel = join_with CHR ''/'' es)) \<and>
    (\<exists>e l t. map_of (gc_index (fold gw_run ss (gw_start https ds))) (stripHostPort (q_host q)) = Some e \<and>
       l \<in> set (gd_routes (en_domain e)) \<and> lr_type l = gatewayIngressTypeLocalfs \<and> lr_targets l = [t] \<and> root = Clean t)"
proof -
  let ?c = "fold gw_run ss (gw_start https ds)" and ?host = "stripHostPort (q_host q)" and ?p = "Clean (q_path q)"
  have proxy: "snd (serve_proxy reply h r c) \<noteq> RespFile root rel" if "\<And>t. reply t \<noteq> RespFile root rel" for reply h r c
    using that by (simp add: serve_proxy_def split: option.split)
  have "localfsServe fs ?c ?host ?p = Some (RespFile root rel)"
  proof (cases "localfsServe fs ?c ?host ?p")
    case None
    have "snd (serve_route ?c ?host ?p) \<noteq> RespFile root rel"
      using proxy [of RespProxy] by (simp add: serve_route_def split: option.split)
    moreover have "snd r \<noteq> RespFile root rel" if "proxyTunnelServe ?c q ?host ?p = Some r" for r
    proof -
      have "(if q_hijack q then RespTunnel t else RespNotImplemented) \<noteq> RespFile root rel" for t by simp
      then show ?thesis using that proxy by (auto simp: proxyTunnelServe_def split: option.splits prod.splits if_splits)
    qed
    ultimately have "snd (rootHandler fs q ?c) \<noteq> RespFile root rel"
      using None by (simp add: rootHandler_def Let_def split: option.split)
    then show ?thesis using assms by simp
  next
    case (Some r) then show ?thesis using assms by (simp add: rootHandler_def Let_def)
  qed
  then obtain e r rs where r: "find_route ?c ?host ?p = Some (e, r)" "rt_type r = gatewayIngressTypeLocalfs"
      "rt_urls r = root # rs" "rel = localfs_rel ?p (rt_path r)" "\<not> IsAbs rel" "\<not> has_prefix rel ''..''"
    by (auto simp: localfsServe_def Let_def split: option.splits if_splits list.splits fs_open.splits)
  have e: "map_of (gc_index ?c) ?host = Some e" "lookup e ?p = Some r"
    using r(1) by (auto simp: find_route_def split: option.splits)
  have ok: "entry_ok e" using gw_runs_ok [OF gw_start_ok] e(1) unfolding table_ok_def by blast
  have "r \<in> set (en_routes e)"
  proof (cases "lookup_up (route_at e) ?p")
    case None then show ?thesis using e(2) by (auto simp: lookup_def split: if_splits)
  next
    case (Some x)
    then obtain p where "route_at e p = Some x" using lookup_up_hit by blast
    then show ?thesis using route_at_ok [OF ok, of p] e(2) Some by (simp add: lookup_def)
  qed
  then obtain E l where l: "l \<in> set (gd_routes (en_domain e))" "make_route E (rt_no r) l = Some (r\<lparr>rt_calls := 0\<rparr>)"
    using ok unfolding entry_ok_def by blast
  have ty: "lr_type l = gatewayIngressTypeLocalfs" using make_route_path [OF l(2)] r(2) by simp
  have "\<exists>t. lr_targets l = [t] \<and> root = Clean t"
    using make_route_localfs [OF l(2) ty] r(3) by auto
  then show ?thesis using e(1) l(1) ty Clean_relative r(4-6) unfolding localfs_rel_def by blast
qed

definition demo_file_request :: gw_request where
  "demo_file_request = \<lparr>q_host = ''a.io:443'', q_path = ''/f//x/../y'', q_conn_upgrade = False, q_upgrade = [], q_hijack = True\<rparr>"

lemma demo_file_served: "snd (rootHandler (\<lambda>_ _. FsFile) demo_file_request demo_gw) = RespFile ''/srv/w'' ''y''"
  by code_simp

lemma local_files_confined_witness:
  "(''y'' = ''.'' \<or> (\<exists>es. es \<noteq> [] \<and> plain_path es \<and> ''y'' = join_with CHR ''/'' es)) \<and>
    (\<exists>e l t. map_of (gc_index (fold gw_run demo_steps (gw_start True [demo_own]))) (stripHostPort (q_host demo_file_request)) = Some e \<and>
       l \<in> set (gd_routes (en_domain e)) \<and> lr_type l = gatewayIngressTypeLocalfs \<and> lr_targets l = [t] \<and> ''/srv/w'' = Clean t)"
proof -
  obtain c' where "rootHandler (\<lambda>_ _. FsFile) demo_file_request demo_gw = (c', RespFile ''/srv/w'' ''y'')"
    using demo_file_served by (metis prod.collapse)
  then show ?thesis unfolding demo_gw_def by (rule local_files_confined)
qed

section \<open>Routes of the configuration file\<close>

definition own_route :: "gconfig \<Rightarrow> string \<Rightarrow> string \<Rightarrow> deploy_route \<Rightarrow> bool" where
  "own_route c host p l \<longleftrightarrow>
     (\<exists>e. map_of (gc_index c) host = Some e \<and> find (\<lambda>a. lr_path a = p) (gd_routes (en_domain e)) = Some l \<and>
        isLocalRouteType (lr_type l))"

definition delivered :: "gw_step \<Rightarrow> ingress_deploy \<Rightarrow> bool" where
  "delivered s d \<longleftrightarrow>
     (\<exists>E tn conn ds. s = GwRefresh E tn conn ds \<and>
        (d \<in> set ds \<or> (\<exists>f rv items. conn = Some f \<and> f rv = Inr items \<and> d \<in> set items)))"

lemma append_local_prefix: "\<exists>xs. appendLocalRoutes dst src = dst @ xs"
proof (induction dst src rule: appendLocalRoutes.induct)
  case (2 dst r src)
  then show ?case by auto
qed simp

lemma find_append_hit: "find P xs = Some x \<Longrightarrow> find P (xs @ ys) = Some x"
  by (induction xs) auto

lemma append_local_find:
  "p \<notin> lr_path ` set dst \<Longrightarrow> find (\<lambda>a. lr_path a = p) src = Some l \<Longrightarrow> isLocalRouteType (lr_type l)
    \<Longrightarrow> find (\<lambda>a. lr_path a = p) (appendLocalRoutes dst src) = Some l"
proof (induction dst src rule: appendLocalRoutes.induct)
  case (2 dst r src)
  show ?case
  proof (cases "lr_path r = p")
    case True
    then have l: "l = r" using "2.prems"(2) by simp
    have new: "\<not> (\<exists>a \<in> set dst. lr_path a = lr_path r)" using "2.prems"(1) True by (metis image_eqI)
    have "find (\<lambda>a. lr_path a = p) (dst @ [r]) = Some r"
      using "2.prems"(1) True by (induction dst) auto
    moreover obtain xs where "appendLocalRoutes (dst @ [r]) src = (dst @ [r]) @ xs" using append_local_prefix by blast
    ultimately show ?thesis using new "2.prems"(3) l find_append_hit by (metis appendLocalRoutes.simps(2))
  next
    case False
    then show ?thesis using 2 by simp
  qed
qed simp

lemma own_route_fresh:
  assumes "find (\<lambda>a. lr_path a = p) (gd_routes (en_domain e)) = Some l" "isLocalRouteType (lr_type l)"
    "p \<notin> lr_path ` set (gd_routes d)" "domainFresh E e d = (e', d')"
  shows "find (\<lambda>a. lr_path a = p) (gd_routes (en_domain e')) = Some l"
  using append_local_find [OF assms(3,1,2)] domainFresh_sel [OF assms(4)] by simp

definition index_own :: "(string \<times> domain_entry) list \<Rightarrow> string \<Rightarrow> string \<Rightarrow> deploy_route \<Rightarrow> bool" where
  "index_own ix host p l \<longleftrightarrow>
     (\<exists>e. map_of ix host = Some e \<and> find (\<lambda>a. lr_path a = p) (gd_routes (en_domain e)) = Some l)"

lemma refresh_domain_own:
  assumes "index_own (ra_index a) host p l" "isLocalRouteType (lr_type l)"
    "gd_domain d = host \<Longrightarrow> p \<notin> lr_path ` set (gd_routes d)"
  shows "index_own (ra_index (refresh_domain E d a)) host p l"
proof (cases "gd_domain d = host")
  case False
  then show ?thesis using assms(1)
    by (auto simp: index_own_def refresh_domain_def Let_def mem_update split: prod.splits option.splits)
next
  case True
  then obtain e where e: "map_of (ra_index a) (gd_domain d) = Some e"
      "find (\<lambda>a. lr_path a = p) (gd_routes (en_domain e)) = Some l" using assms(1) by (auto simp: index_own_def)
  obtain e1 d1 where ed: "(if gd_revision d > en_setup e then domainFresh E e d else (e, d)) = (e1, d1)" by (meson surj_pair)
  have "find (\<lambda>a. lr_path a = p) (gd_routes (en_domain e1)) = Some l"
    using ed own_route_fresh [OF e(2) assms(2) assms(3) [OF True]] e(2) by (cases "gd_revision d > en_setup e") auto
  then show ?thesis using e(1) ed True by (auto simp: index_own_def refresh_domain_def Let_def mem_update)
qed

lemma refresh_fold_own:
  "index_own (ra_index a) host p l \<Longrightarrow> isLocalRouteType (lr_type l)
    \<Longrightarrow> \<forall>d \<in> set ds. gd_domain d = host \<longrightarrow> p \<notin> lr_path ` set (gd_routes d)
    \<Longrightarrow> index_own (ra_index (fold (refresh_domain E) ds a)) host p l"
  by (induction ds arbitrary: a) (auto intro: refresh_domain_own)

lemma evict_local: "map_of ix h = Some e \<Longrightarrow> hasLocalRoutes e \<Longrightarrow> map_of (fst (evict ds (ix, new))) h = Some e"
proof (induction ds arbitrary: ix new)
  case (Cons d ds)
  obtain ix' new' where ev: "evict (d # ds) (ix, new) = evict ds (ix', new')"
      "ix' = ix \<or> (ix' = AList.delete (gd_domain d) ix \<and> \<not> (\<exists>e. map_of ix (gd_domain d) = Some e \<and> hasLocalRoutes e))"
  proof (cases "\<exists>a \<in> set new. gd_domain a = gd_domain d")
    case True then show ?thesis using that [of ix new] by simp
  next
    case False
    show ?thesis
    proof (cases "map_of ix (gd_domain d)")
      case None
      then show ?thesis using that [of "AList.delete (gd_domain d) ix" new] False by simp
    next
      case (Some x)
      then show ?thesis
        using that [of ix "new @ [d]"] that [of "AList.delete (gd_domain d) ix" new] False by (cases "hasLocalRoutes x") simp_all
    qed
  qed
  then have "map_of ix' h = Some e" using Cons.prems by (auto simp: AList.delete_conv')
  then show ?case using Cons.IH [OF _ Cons.prems(2)] ev(1) by simp
qed simp

lemma refresh_apply_own:
  assumes "own_route c host p l" "\<forall>d \<in> set ds. gd_domain d = host \<longrightarrow> p \<notin> lr_path ` set (gd_routes d)"
  shows "own_route (fst (refresh_apply E full ds c)) host p l"
proof -
  let ?init = "\<lparr>ra_index = gc_index c, ra_revision = gc_revision c, ra_new = [], ra_tls = [], ra_flush = False\<rparr>"
  let ?a = "fold (refresh_domain E) ds ?init"
  have loc: "isLocalRouteType (lr_type l)" and own0: "index_own (ra_index ?init) host p l"
    using assms(1) by (auto simp: own_route_def index_own_def)
  have "index_own (ra_index ?a) host p l" by (rule refresh_fold_own [OF own0 loc assms(2)])
  then obtain e where e: "map_of (ra_index ?a) host = Some e" "find (\<lambda>a. lr_path a = p) (gd_routes (en_domain e)) = Some l"
    by (auto simp: index_own_def)
  have "hasLocalRoutes e" using find_SomeD [OF e(2)] loc by (auto simp: hasLocalRoutes_def)
  then have ev: "map_of (fst (evict (gc_domains c) (ra_index ?a, ra_new ?a))) host = Some e" by (rule evict_local [OF e(1)])
  have "map_of (gc_index (fst (refresh_apply E full ds c))) host = Some e"
    using e(1) ev by (simp add: refresh_apply_def Let_def case_prod_beta)
  then show ?thesis using e(2) loc by (auto simp: own_route_def)
qed

lemma configRefresh_own:
  assumes own: "own_route c host p l"
    and quiet: "\<And>d. delivered (GwRefresh E tn conn ds) d \<Longrightarrow> gd_domain d = host \<Longrightarrow> p \<notin> lr_path ` set (gd_routes d)"
  shows "own_route (fst (configRefresh E tn conn ds c)) host p l"
proof -
  have own1: "own_route (c\<lparr>gc_full := tn\<rparr>) host p l" using own by (simp add: own_route_def)
  have ds: "\<forall>d \<in> set ds. gd_domain d = host \<longrightarrow> p \<notin> lr_path ` set (gd_routes d)"
    using quiet by (auto simp: delivered_def)
  show ?thesis
  proof (cases conn)
    case None
    then show ?thesis using refresh_apply_own [OF own ds] by (simp add: configRefresh_def case_prod_beta)
  next
    case (Some f)
    define c1 where "c1 = (if gc_full c + 600 < tn then c\<lparr>gc_full := tn\<rparr> else c)"
    have own_c1: "own_route c1 host p l" using own own1 by (simp add: c1_def)
    show ?thesis
    proof (cases "ds = []")
      case False
      then show ?thesis using Some refresh_apply_own [OF own ds] by (simp add: configRefresh_def case_prod_beta)
    next
      case True
      let ?rv = "if gc_full c + 600 < tn then 0 else gc_revision c"
      show ?thesis
      proof (cases "f ?rv")
        case (Inl e)
        then show ?thesis using own_c1 by (simp add: configRefresh_def Some True Let_def c1_def [symmetric])
      next
        case (Inr items)
        have "\<forall>d \<in> set items. gd_domain d = host \<longrightarrow> p \<notin> lr_path ` set (gd_routes d)"
          using quiet Inr Some by (auto simp: delivered_def)
        from refresh_apply_own [OF own_c1 this, of E "?rv = 0"] show ?thesis
          using own_c1 Inr by (simp add: configRefresh_def Some True Let_def c1_def [symmetric] case_prod_beta)
      qed
    qed
  qed
qed

lemma set_calls_own: "own_route c host p l \<Longrightarrow> own_route (set_calls h n k c) host p l"
  by (auto simp: own_route_def set_calls_def mem_update split: option.split)

lemma gw_run_own:
  assumes "own_route c host p l" "\<And>d. delivered s d \<Longrightarrow> gd_domain d = host \<Longrightarrow> p \<notin> lr_path ` set (gd_routes d)"
  shows "own_route (gw_run s c) host p l"
proof (cases s)
  case (GwRefresh E tn conn ds)
  then show ?thesis using configRefresh_own [OF assms(1)] assms(2) by simp
next
  case (GwHttp fs ms q)
  then show ?thesis using http_frame [of fs ms q c] set_calls_own [OF assms(1)] assms(1) by auto
next
  case (GwHttps fs q)
  then show ?thesis using request_frame [of fs q c] set_calls_own [OF assms(1)] assms(1) by auto
qed

interpretation gw_own: guarded_calls gw_run
  "\<lambda>s. \<forall>d. delivered s d \<and> gd_domain d = host \<longrightarrow> p \<notin> lr_path ` set (gd_routes d)" "\<lambda>c. own_route c host p l" for host p l
  by unfold_locales (use gw_run_own in blast)


definition demo_later :: "gw_step list" where
  "demo_later =
     [GwRefresh demo_gw_env 2000 (Some (\<lambda>_. Inr [demo_pushed ''b.io'' 5, demo_pushed ''c.io'' 6])) [],
      GwRefresh demo_gw_env 2010 (Some (\<lambda>_. Inl ''down'')) []]"

lemma demo_own_route: "own_route demo_gw ''a.io'' ''/f'' demo_localfs"
proof -
  have "find (\<lambda>a. lr_path a = ''/f'') (gd_routes (en_domain demo_entry)) = Some demo_localfs" by code_simp
  moreover have "isLocalRouteType (lr_type demo_localfs)" by code_simp
  ultimately show ?thesis using demo_entry_at by (auto simp: own_route_def)
qed


section \<open>The hosts with certificates\<close>

lemma refresh_domain_tls:
  "set (ra_tls (refresh_domain E d a)) \<subseteq> set (ra_tls a) \<union> (if gd_letsencrypt d then {gd_domain d} else {})"
  by (auto simp: refresh_domain_def Let_def add_host_def split: prod.splits)

lemma refresh_fold_tls:
  "set (ra_tls (fold (refresh_domain E) ds a)) \<subseteq> set (ra_tls a) \<union> {gd_domain d | d. d \<in> set ds \<and> gd_letsencrypt d}"
proof (induction ds arbitrary: a)
  case (Cons d ds)
  show ?case using Cons.IH [of "refresh_domain E d a"] refresh_domain_tls [of E d a] by (auto split: if_splits)
qed simp

lemma refresh_fold_other:
  "h \<notin> gd_domain ` set ds \<Longrightarrow> map_of (ra_index (fold (refresh_domain E) ds a)) h = map_of (ra_index a) h"
proof (induction ds arbitrary: a)
  case (Cons d ds)
  have "map_of (ra_index (refresh_domain E d a)) h = map_of (ra_index a) h"
    using Cons.prems by (auto simp: refresh_domain_def Let_def mem_update split: prod.splits)
  then show ?case using Cons by simp
qed simp

text \<open>
  C40: an incremental refresh narrows the certificate hosts to the domains it delivers. On a gateway with an HTTPS port,
  a refresh that asks for the records newer than its revision and gets a non-empty reply leaves every domain that
  the reply does not mention in the table with its routes and its certificate setting, but takes it off the list
  of hosts for which certificates are issued: the new list holds only delivered domains.
\<close>

theorem incremental_refresh_drops_tls:
  assumes "gc_https c" "tn \<le> gc_full c + 600" "gc_revision c > 0" "f (gc_revision c) = Inr items" "items \<noteq> []"
    and "configRefresh E tn (Some f) [] c = (c', r)"
    and "map_of (gc_index c) host = Some e" "host \<notin> gd_domain ` set items"
  shows "map_of (gc_index c') host = Some e \<and> host \<notin> set (gc_tls c') \<and>
    set (gc_tls c') \<subseteq> {gd_domain d | d. d \<in> set items \<and> gd_letsencrypt d}"
proof -
  let ?init = "\<lparr>ra_index = gc_index c, ra_revision = gc_revision c, ra_new = [], ra_tls = [], ra_flush = False\<rparr>"
  have c': "c' = fst (refresh_apply E False items c)"
    using assms(2-6) by (auto simp: configRefresh_def Let_def case_prod_beta)
  have tls: "gc_tls c' = ra_tls (fold (refresh_domain E) items ?init)"
    using assms(1) by (simp add: c' refresh_apply_def Let_def)
  have "set (gc_tls c') \<subseteq> {gd_domain d | d. d \<in> set items \<and> gd_letsencrypt d}"
    unfolding tls using refresh_fold_tls [of E items ?init] by simp
  moreover have "map_of (gc_index c') host = Some e"
    using refresh_fold_other [OF assms(8), of E ?init] assms(7) by (simp add: c' refresh_apply_def Let_def)
  ultimately show ?thesis using assms(8) by blast
qed

lemma incremental_refresh_drops_tls_witness:
  "\<exists>c' r. configRefresh demo_gw_env 1010 (Some (\<lambda>_. Inr [demo_pushed ''b.io'' 7])) [] demo_gw = (c', r) \<and>
     ''a.io'' \<in> set (gc_tls demo_gw) \<and> map_of (gc_index c') ''a.io'' = Some demo_entry \<and> ''a.io'' \<notin> set (gc_tls c') \<and>
     set (gc_tls c') \<subseteq> {gd_domain d | d. d \<in> set [demo_pushed ''b.io'' 7] \<and> gd_letsencrypt d}"
proof -
  obtain c' r where cr: "configRefresh demo_gw_env 1010 (Some (\<lambda>_. Inr [demo_pushed ''b.io'' 7])) [] demo_gw = (c', r)"
    by (meson surj_pair)
  have hyps: "gc_https demo_gw" "1010 \<le> gc_full demo_gw + 600" "gc_revision demo_gw > 0"
      "''a.io'' \<notin> gd_domain ` set [demo_pushed ''b.io'' 7]" and tls: "''a.io'' \<in> set (gc_tls demo_gw)" by code_simp+
  from incremental_refresh_drops_tls [OF hyps(1-3) refl _ cr demo_entry_at hyps(4)] show ?thesis using cr tls by blast
qed

text \<open>
  The routes follow the revision of the pushed record and nothing else: a record at or below the installed revision
  leaves the domain and its routes as they are, whatever targets it carries.
\<close>

lemma unchanged_revision_keeps_routes:
  assumes "map_of (ra_index a) (gd_domain d) = Some e" "gd_revision d \<le> en_setup e"
  shows "\<exists>e'. map_of (ra_index (refresh_domain E d a)) (gd_domain d) = Some e' \<and> en_domain e' = en_domain e \<and>
    set (en_routes e') = set (en_routes e) \<and> en_index e' = en_index e \<and> en_setup e' = en_setup e"
  using assms by (auto simp: refresh_domain_def Let_def mem_update)

text \<open>A full refresh keeps a domain that is in the table but was never in the list of the configuration.\<close>

lemma evict_keeps_unlisted:
  "h \<notin> gd_domain ` set ds \<Longrightarrow> map_of (fst (evict ds (ix, new))) h = map_of ix h"
proof (induction ds arbitrary: ix new)
  case (Cons d ds)
  have "\<exists>ix' new'. evict (d # ds) (ix, new) = evict ds (ix', new') \<and> (ix' = ix \<or> ix' = AList.delete (gd_domain d) ix)"
    by (auto split: option.split)
  then obtain ix' new' where ev: "evict (d # ds) (ix, new) = evict ds (ix', new')"
      "ix' = ix \<or> ix' = AList.delete (gd_domain d) ix" by blast
  then show ?case using Cons by (auto simp: AList.delete_conv')
qed simp

end
