(* ===== verification/RespWriter.thy ===== *)
theory RespWriter
  imports GoPath Quantity
begin

text \<open>
  The response pipeline of the gateway, \<open>cmd/ingate/main.go\<close>: the throttled writer that sends a body in chunks
  of 4 KB under the rate limit, and above it the writer that buffers small responses, decides on compression, caps
  the size and commits the header once. The outcome of a chunk (sent, refused by the limiter, cut by the client) is
  an argument, as is the gzip encoder of the standard library, over an abstract state; what the pipeline relies on is
  that the output of an encoder decompresses to its input. What the client has received is part of the state.
\<close>

section \<open>The throttled writer\<close>

datatype chunk_out = ChunkOk | WaitErr | WriteErr nat

text \<open>The number of chunks tried and the bytes the client has; the result is the count of bytes sent and whether it failed.\<close>

definition chunkSize :: nat where "chunkSize = 4096"

function throttled_write :: "(nat \<Rightarrow> chunk_out) \<Rightarrow> bytes \<Rightarrow> nat \<times> bytes \<Rightarrow> (nat \<times> bytes) \<times> nat \<times> bool" where
  "throttled_write out p (k, body) =
     (if p = [] then ((k, body), 0, False)
      else let chunk = take chunkSize p in
        case out k of
          WaitErr \<Rightarrow> ((Suc k, body), 0, True)
        | WriteErr m \<Rightarrow> ((Suc k, body @ take m chunk), length (take m chunk), True)
        | ChunkOk \<Rightarrow>
            (case throttled_write out (drop chunkSize p) (Suc k, body @ chunk) of
               (s, n, err) \<Rightarrow> (s, length chunk + n, err)))"
  by pat_completeness auto
termination
  by (relation "measure (\<lambda>(out, p, s). length p)") (auto simp: chunkSize_def)

declare throttled_write.simps [simp del]

text \<open>What reaches the client is a prefix of the body, as long as the count says, and all of it unless an error is reported.\<close>

lemma throttled_write_prefix:
  "throttled_write out p (k, body) = ((k', body'), n, err) \<Longrightarrow>
     body' = body @ take n p \<and> n \<le> length p \<and> (\<not> err \<longrightarrow> n = length p)"
proof (induction out p "(k, body)" arbitrary: k body k' body' n err rule: throttled_write.induct)
  case (1 out p k body)
  show ?case
  proof (cases "p = []")
    case True
    then show ?thesis using "1.prems" by (subst (asm) throttled_write.simps) simp
  next
    case False
    show ?thesis
    proof (cases "out k")
      case ChunkOk
      obtain s n0 e0 where rec: "throttled_write out (drop chunkSize p) (Suc k, body @ take chunkSize p) = (s, n0, e0)"
        by (metis prod.collapse)
      then have "((k', body'), n, err) = (s, length (take chunkSize p) + n0, e0)"
        using "1.prems" False ChunkOk by (subst (asm) throttled_write.simps) (simp add: Let_def)
      then have eq: "s = (k', body')" "n = length (take chunkSize p) + n0" "err = e0" by auto
      have ih: "body' = (body @ take chunkSize p) @ take n0 (drop chunkSize p) \<and> n0 \<le> length (drop chunkSize p) \<and>
          (\<not> e0 \<longrightarrow> n0 = length (drop chunkSize p))"
        by (rule "1.hyps" [OF False refl ChunkOk]) (simp add: rec eq)
      have "take n p = take chunkSize p @ take n0 (drop chunkSize p)"
        using ih by (cases "length p \<le> chunkSize") (simp_all add: eq(2) take_add min_def)
      then show ?thesis using ih eq by auto
    next
      case WaitErr
      then show ?thesis using "1.prems" False by (subst (asm) throttled_write.simps) simp
    next
      case (WriteErr m)
      then show ?thesis using "1.prems" False by (subst (asm) throttled_write.simps) (auto simp: Let_def min_def)
    qed
  qed
qed

definition all_sent :: "(nat \<Rightarrow> chunk_out) \<Rightarrow> bool" where
  "all_sent out \<longleftrightarrow> (\<forall>j. out j = ChunkOk)"

lemma throttled_write_ok: "all_sent out \<Longrightarrow> \<exists>k'. throttled_write out p (k, body) = ((k', body @ p), length p, False)"
proof (induction out p "(k, body)" arbitrary: k body rule: throttled_write.induct)
  case (1 out p k body)
  show ?case
  proof (cases "p = []")
    case True then show ?thesis by (subst throttled_write.simps) simp
  next
    case False
    obtain k' where "throttled_write out (drop chunkSize p) (Suc k, body @ take chunkSize p)
        = ((k', (body @ take chunkSize p) @ drop chunkSize p), length (drop chunkSize p), False)"
      using "1.hyps" [OF False refl _ "1.prems"] "1.prems" by (auto simp: all_sent_def)
    then have "throttled_write out p (k, body) = ((k', body @ p), length p, False)"
      using False "1.prems" by (subst throttled_write.simps) (simp add: Let_def all_sent_def)
    then show ?thesis by blast
  qed
qed

section \<open>The response writer\<close>

record 'g gz_api =
  gz_new :: 'g
  gz_write :: "'g \<Rightarrow> bytes \<Rightarrow> 'g \<times> bytes"
  gz_flush :: "'g \<Rightarrow> 'g \<times> bytes"
  gz_close :: "'g \<Rightarrow> bytes"

type_synonym headers = "(string \<times> string) list"

definition hdr_get :: "headers \<Rightarrow> string \<Rightarrow> string" where
  "hdr_get h k = (case map_of h k of Some v \<Rightarrow> v | None \<Rightarrow> [])"

definition hdr_del :: "string \<Rightarrow> headers \<Rightarrow> headers" where
  "hdr_del k h = filter (\<lambda>kv. fst kv \<noteq> k) h"

definition hdr_set :: "string \<Rightarrow> string \<Rightarrow> headers \<Rightarrow> headers" where
  "hdr_set k v h = (k, v) # hdr_del k h"

record 'g resp =
  rw_path :: string
  rw_status :: int
  rw_size :: int
  rw_comp :: int
  rw_max :: int
  rw_accept :: bool
  rw_gz :: "'g option"
  rw_done :: bool
  rw_checked :: bool
  rw_exempt :: bool
  rw_buf :: bytes
  rw_hdr :: headers
  cl_status :: "int list"
  cl_hdr :: headers
  cl_chunks :: nat
  cl_body :: bytes
  cl_flushes :: nat

definition new_resp :: "string \<Rightarrow> int \<Rightarrow> bool \<Rightarrow> 'g resp" where
  "new_resp path mx accept =
     \<lparr>rw_path = path, rw_status = 0, rw_size = 0, rw_comp = 0, rw_max = mx, rw_accept = accept, rw_gz = None,
      rw_done = False, rw_checked = False, rw_exempt = False, rw_buf = [], rw_hdr = [], cl_status = [], cl_hdr = [],
      cl_chunks = 0, cl_body = [], cl_flushes = 0\<rparr>"

definition gzipMinSize :: nat where "gzipMinSize = 1024"

definition version_badge :: string where "version_badge = ''InnerStack/dev''"

definition setProxyBadge :: "headers \<Rightarrow> headers" where
  "setProxyBadge h = hdr_set ''X-Proxy'' version_badge h"

definition skipGzipExts :: "string list" where
  "skipGzipExts = [''.jpg'', ''.jpeg'', ''.png'', ''.gif'', ''.webp'', ''.mp4'', ''.mp3'', ''.zip'', ''.gz'', ''.rar'', ''.pdf'']"

definition Ext :: "string \<Rightarrow> string" where
  "Ext p =
     (let name = rev (takeWhile (\<lambda>c. c \<noteq> CHR ''/'') (rev p)) in
      case split_last CHR ''.'' name of None \<Rightarrow> [] | Some (_, e) \<Rightarrow> CHR ''.'' # e)"

definition substring :: "string \<Rightarrow> string \<Rightarrow> bool" where
  "substring t s \<longleftrightarrow> (\<exists>k \<in> set [0 ..< Suc (length s)]. has_prefix (drop k s) t)"

definition event_stream :: "headers \<Rightarrow> bool" where
  "event_stream h \<longleftrightarrow> substring ''text/event-stream'' (hdr_get h ''Content-Type'')"

definition gzipEligible :: "'g resp \<Rightarrow> bool" where
  "gzipEligible w \<longleftrightarrow>
     rw_accept w \<and>
     hdr_get (rw_hdr w) ''Content-Encoding'' = [] \<and> hdr_get (rw_hdr w) ''Content-Range'' = [] \<and>
     \<not> event_stream (rw_hdr w) \<and>
     \<not> substring ''image/'' (hdr_get (rw_hdr w) ''Content-Type'') \<and>
     \<not> substring ''video/'' (hdr_get (rw_hdr w) ''Content-Type'') \<and>
     map lower_char (Ext (rw_path w)) \<notin> set skipGzipExts"

text \<open>Bytes for the client, counted.\<close>

definition send :: "(nat \<Rightarrow> chunk_out) \<Rightarrow> bytes \<Rightarrow> 'g resp \<Rightarrow> 'g resp \<times> bool" where
  "send out b w =
     (case throttled_write out b (cl_chunks w, cl_body w) of
        ((k, body), n, err) \<Rightarrow> (w\<lparr>cl_chunks := k, cl_body := body, rw_comp := i64 (rw_comp w + int n)\<rparr>, err))"

definition writeBody :: "'g gz_api \<Rightarrow> (nat \<Rightarrow> chunk_out) \<Rightarrow> bytes \<Rightarrow> 'g resp \<Rightarrow> 'g resp \<times> bool" where
  "writeBody G out b w =
     (case rw_gz w of
        Some g \<Rightarrow> (case gz_write G g b of (g', enc) \<Rightarrow> send out enc (w\<lparr>rw_gz := Some g'\<rparr>))
      | None \<Rightarrow> send out b w)"

definition commit :: "'g gz_api \<Rightarrow> (nat \<Rightarrow> chunk_out) \<Rightarrow> bool \<Rightarrow> 'g resp \<Rightarrow> 'g resp \<times> bool" where
  "commit G out gzipOn w =
     (let w1 = w\<lparr>rw_hdr := setProxyBadge (rw_hdr w)\<rparr>;
          w2 = (if gzipOn then w1\<lparr>rw_hdr := hdr_set ''Content-Encoding'' ''gzip'' (hdr_del ''Content-Length'' (rw_hdr w1)),
                                 rw_gz := Some (gz_new G)\<rparr> else w1);
          w3 = w2\<lparr>rw_done := True, cl_status := cl_status w2 @ [if rw_status w2 > 0 then rw_status w2 else 200],
                 cl_hdr := rw_hdr w2\<rparr>
      in if rw_buf w3 = [] then (w3, False)
         else case writeBody G out (rw_buf w3) w3 of (w4, err) \<Rightarrow> (w4\<lparr>rw_buf := []\<rparr>, err))"

datatype 'g wresult = Open "'g resp" | Failed "'g resp" | Aborted "'g resp"

definition check_cap :: "'g resp \<Rightarrow> 'g resp" where
  "check_cap w = (if rw_checked w then w else w\<lparr>rw_checked := True, rw_exempt := event_stream (rw_hdr w)\<rparr>)"

definition opened :: "'g resp \<times> bool \<Rightarrow> 'g wresult" where
  "opened r = (case r of (w, err) \<Rightarrow> if err then Failed w else Open w)"

definition Write :: "'g gz_api \<Rightarrow> (nat \<Rightarrow> chunk_out) \<Rightarrow> bytes \<Rightarrow> 'g resp \<Rightarrow> 'g wresult" where
  "Write G out b w0 =
     (let w = check_cap w0 in
      if rw_max w > 0 \<and> \<not> rw_exempt w \<and> i64 (rw_size w + int (length b)) > rw_max w then Aborted w
      else
        let w1 = w\<lparr>rw_size := i64 (rw_size w + int (length b))\<rparr> in
        if rw_done w1 then opened (writeBody G out b w1)
        else
          let w2 = w1\<lparr>rw_buf := rw_buf w1 @ b\<rparr> in
          if length (rw_buf w2) < gzipMinSize then Open w2
          else opened (commit G out (gzipEligible w2) w2))"

definition WriteHeader :: "int \<Rightarrow> 'g resp \<Rightarrow> 'g resp" where
  "WriteHeader s w = (if rw_status w = 0 then w\<lparr>rw_status := s\<rparr> else w)"

definition Flush :: "'g gz_api \<Rightarrow> (nat \<Rightarrow> chunk_out) \<Rightarrow> 'g resp \<Rightarrow> 'g resp" where
  "Flush G out w =
     (let w1 = (if rw_done w then w else fst (commit G out (gzipEligible w) w));
          w2 = (case rw_gz w1 of
                  Some g \<Rightarrow> (case gz_flush G g of (g', enc) \<Rightarrow> fst (send out enc (w1\<lparr>rw_gz := Some g'\<rparr>)))
                | None \<Rightarrow> w1)
      in w2\<lparr>cl_flushes := Suc (cl_flushes w2)\<rparr>)"

definition finish :: "'g gz_api \<Rightarrow> (nat \<Rightarrow> chunk_out) \<Rightarrow> 'g resp \<Rightarrow> 'g resp" where
  "finish G out w =
     (let w1 = (case rw_gz w of Some g \<Rightarrow> (fst (send out (gz_close G g) w))\<lparr>rw_gz := None\<rparr> | None \<Rightarrow> w) in
      if rw_done w1 then w1
      else
        let w2 = (if rw_buf w1 = [] then w1
                  else w1\<lparr>rw_hdr := hdr_set ''Content-Length'' (show_nat (length (rw_buf w1))) (rw_hdr w1)\<rparr>)
        in fst (commit G out False w2))"

text \<open>The calls a handler makes on the writer; after an error or an abort it makes no more.\<close>

datatype wop = SetHeader string string | Status int | Body bytes | Push

fun run_op :: "'g gz_api \<Rightarrow> (nat \<Rightarrow> chunk_out) \<Rightarrow> wop \<Rightarrow> 'g resp \<Rightarrow> 'g wresult" where
  "run_op G out (SetHeader k v) w = Open (w\<lparr>rw_hdr := hdr_set k v (rw_hdr w)\<rparr>)"
| "run_op G out (Status s) w = Open (WriteHeader s w)"
| "run_op G out (Body b) w = Write G out b w"
| "run_op G out Push w = Open (Flush G out w)"

fun run_wops :: "'g gz_api \<Rightarrow> (nat \<Rightarrow> chunk_out) \<Rightarrow> wop list \<Rightarrow> 'g resp \<Rightarrow> 'g wresult" where
  "run_wops G out [] w = Open w"
| "run_wops G out (op # ops) w = (case run_op G out op w of Open w' \<Rightarrow> run_wops G out ops w' | r \<Rightarrow> r)"

text \<open>The handler, then \<open>finish\<close>; a panic skips it.\<close>

definition respond :: "'g gz_api \<Rightarrow> (nat \<Rightarrow> chunk_out) \<Rightarrow> wop list \<Rightarrow> 'g resp \<Rightarrow> 'g wresult" where
  "respond G out ops w =
     (case run_wops G out ops w of Open w' \<Rightarrow> Open (finish G out w') | r \<Rightarrow> r)"

section \<open>What the client receives\<close>

datatype gz_op = GzWrite bytes | GzFlush

fun gz_step :: "'g gz_api \<Rightarrow> gz_op \<Rightarrow> 'g \<times> bytes \<Rightarrow> 'g \<times> bytes" where
  "gz_step G (GzWrite b) (g, enc) = (case gz_write G g b of (g', e) \<Rightarrow> (g', enc @ e))"
| "gz_step G GzFlush (g, enc) = (case gz_flush G g of (g', e) \<Rightarrow> (g', enc @ e))"

definition gz_trace :: "'g gz_api \<Rightarrow> gz_op list \<Rightarrow> 'g \<times> bytes" where
  "gz_trace G tr = fold (gz_step G) tr (gz_new G, [])"

definition gz_input :: "gz_op list \<Rightarrow> bytes" where
  "gz_input tr = concat (map (\<lambda>op. case op of GzWrite b \<Rightarrow> b | GzFlush \<Rightarrow> []) tr)"

text \<open>The documented behaviour of an encoder: the output of any writes and flushes, closed, decompresses to the input.\<close>

definition gz_lawful :: "'g gz_api \<Rightarrow> (bytes \<Rightarrow> bytes option) \<Rightarrow> bool" where
  "gz_lawful G gunzip \<longleftrightarrow> (\<forall>tr. case gz_trace G tr of (g, enc) \<Rightarrow> gunzip (enc @ gz_close G g) = Some (gz_input tr))"

lemma gz_trace_snoc: "gz_trace G (tr @ [op]) = gz_step G op (gz_trace G tr)"
  by (simp add: gz_trace_def)

lemma gz_input_snoc: "gz_input (tr @ [op]) = gz_input tr @ (case op of GzWrite b \<Rightarrow> b | GzFlush \<Rightarrow> [])"
  by (simp add: gz_input_def)

lemma hdr_get_set [simp]: "hdr_get (hdr_set k v h) k' = (if k' = k then v else hdr_get h k')"
proof -
  have "map_of (hdr_del k h) k' = (if k' = k then None else map_of h k')" by (induction h) (auto simp: hdr_del_def)
  then show ?thesis by (simp add: hdr_get_def hdr_set_def)
qed

lemma hdr_get_del [simp]: "hdr_get (hdr_del k h) k' = (if k' = k then [] else hdr_get h k')"
proof -
  have "map_of (hdr_del k h) k' = (if k' = k then None else map_of h k')" by (induction h) (auto simp: hdr_del_def)
  then show ?thesis by (simp add: hdr_get_def)
qed

lemma i64_add_len: "i64 (i64 (int m) + int n) = i64 (int (m + n))"
  by (simp add: i64_def mod_simps algebra_simps)

lemma send_ok:
  assumes "all_sent out"
  shows "\<exists>k. send out b w = (w\<lparr>cl_chunks := k, cl_body := cl_body w @ b, rw_comp := i64 (rw_comp w + int (length b))\<rparr>, False)"
proof -
  obtain k where "throttled_write out b (cl_chunks w, cl_body w) = ((k, cl_body w @ b), length b, False)"
    using throttled_write_ok [OF assms, of b] by blast
  then show ?thesis by (auto simp: send_def)
qed

text \<open>
  The state after the calls that wrote \<open>body\<close>: before the commit everything is buffered; after it the client has one
  status line and either the body or the output of an encoder that was fed the body.
\<close>

definition streamed :: "'g gz_api \<Rightarrow> bytes \<Rightarrow> 'g resp \<Rightarrow> bool" where
  "streamed G body w \<longleftrightarrow>
     (rw_gz w = None \<and> cl_body w = body) \<or>
     (\<exists>g tr. rw_gz w = Some g \<and> gz_trace G tr = (g, cl_body w) \<and> gz_input tr = body \<and> rw_accept w \<and>
        hdr_get (cl_hdr w) ''Content-Encoding'' = ''gzip'' \<and> hdr_get (cl_hdr w) ''Content-Length'' = [])"

definition resp_inv :: "'g gz_api \<Rightarrow> bytes \<Rightarrow> 'g resp \<Rightarrow> bool" where
  "resp_inv G body w \<longleftrightarrow>
     rw_comp w = i64 (int (length (cl_body w))) \<and>
     (if rw_done w then rw_buf w = [] \<and> length (cl_status w) = 1 \<and> streamed G body w
      else rw_gz w = None \<and> cl_status w = [] \<and> cl_body w = [] \<and> rw_buf w = body)"

lemma writeBody_inv:
  assumes out: "all_sent out" and s: "streamed G body w" and comp: "rw_comp w = i64 (int (length (cl_body w)))"
  shows "\<exists>w'. writeBody G out b w = (w', False) \<and> streamed G (body @ b) w' \<and>
    rw_comp w' = i64 (int (length (cl_body w'))) \<and>
    w' = w\<lparr>rw_gz := rw_gz w', cl_chunks := cl_chunks w', cl_body := cl_body w', rw_comp := rw_comp w'\<rparr>"
proof (cases "rw_gz w")
  case None
  then have "cl_body w = body" using s by (simp add: streamed_def)
  then show ?thesis using send_ok [OF out, of b w] None comp
    by (auto simp: writeBody_def streamed_def i64_add_len)
next
  case (Some g)
  then obtain tr where tr: "gz_trace G tr = (g, cl_body w)" "gz_input tr = body" "rw_accept w"
      "hdr_get (cl_hdr w) ''Content-Encoding'' = ''gzip''" "hdr_get (cl_hdr w) ''Content-Length'' = []"
    using s by (auto simp: streamed_def)
  obtain g' enc where gw: "gz_write G g b = (g', enc)" by (meson surj_pair)
  obtain k where snd: "send out enc (w\<lparr>rw_gz := Some g'\<rparr>) =
      (w\<lparr>rw_gz := Some g', cl_chunks := k, cl_body := cl_body w @ enc, rw_comp := i64 (rw_comp w + int (length enc))\<rparr>, False)"
    using send_ok [OF out, of enc "w\<lparr>rw_gz := Some g'\<rparr>"] by auto
  have "gz_trace G (tr @ [GzWrite b]) = (g', cl_body w @ enc) \<and> gz_input (tr @ [GzWrite b]) = body @ b"
    using tr gw by (simp add: gz_trace_snoc gz_input_snoc)
  then show ?thesis using tr(3-5) comp snd gw Some
    by (auto simp: writeBody_def streamed_def i64_add_len)
qed

lemma commit_inv:
  assumes out: "all_sent out" and inv: "resp_inv G body w" "\<not> rw_done w" and gz: "gzipOn \<longrightarrow> rw_accept w"
  shows "\<exists>w'. commit G out gzipOn w = (w', False) \<and> resp_inv G body w' \<and> rw_done w' \<and>
    cl_status w' = [if rw_status w > 0 then rw_status w else 200] \<and>
    (\<not> gzipOn \<longrightarrow> rw_gz w' = None \<and> hdr_get (cl_hdr w') ''Content-Length'' = hdr_get (rw_hdr w) ''Content-Length'') \<and>
    rw_status w' = rw_status w \<and> rw_accept w' = rw_accept w \<and> rw_max w' = rw_max w \<and> rw_size w' = rw_size w \<and>
    rw_checked w' = rw_checked w \<and> rw_exempt w' = rw_exempt w"
proof -
  have start: "rw_gz w = None" "cl_status w = []" "cl_body w = []" "rw_buf w = body" "rw_comp w = 0"
    using inv by (auto simp: resp_inv_def i64_def)
  define w3 where "w3 = (let w1 = w\<lparr>rw_hdr := setProxyBadge (rw_hdr w)\<rparr>;
          w2 = (if gzipOn then w1\<lparr>rw_hdr := hdr_set ''Content-Encoding'' ''gzip'' (hdr_del ''Content-Length'' (rw_hdr w1)),
                                 rw_gz := Some (gz_new G)\<rparr> else w1)
      in w2\<lparr>rw_done := True, cl_status := cl_status w2 @ [if rw_status w2 > 0 then rw_status w2 else 200], cl_hdr := rw_hdr w2\<rparr>)"
  have w3: "rw_buf w3 = body" "cl_body w3 = []" "rw_done w3" "cl_status w3 = [if rw_status w > 0 then rw_status w else 200]"
      "rw_comp w3 = 0" "rw_status w3 = rw_status w" "rw_accept w3 = rw_accept w" "rw_max w3 = rw_max w" "rw_size w3 = rw_size w"
      "rw_checked w3 = rw_checked w" "rw_exempt w3 = rw_exempt w"
      "\<not> gzipOn \<Longrightarrow> rw_gz w3 = None \<and> hdr_get (cl_hdr w3) ''Content-Length'' = hdr_get (rw_hdr w) ''Content-Length''"
    using start by (auto simp: w3_def Let_def setProxyBadge_def)
  have s3: "streamed G [] w3"
  proof (cases gzipOn)
    case True
    then show ?thesis using gz start unfolding streamed_def
      by (intro disjI2 exI [of _ "gz_new G"] exI [of _ "[]"])
        (simp add: w3_def Let_def setProxyBadge_def gz_trace_def gz_input_def)
  next
    case False
    then show ?thesis using w3 by (simp add: streamed_def)
  qed
  have com: "commit G out gzipOn w = (if rw_buf w3 = [] then (w3, False)
      else case writeBody G out (rw_buf w3) w3 of (w4, err) \<Rightarrow> (w4\<lparr>rw_buf := []\<rparr>, err))"
    by (simp add: commit_def w3_def Let_def)
  obtain w4 where w4: "writeBody G out body w3 = (w4, False)" "streamed G body w4" "rw_comp w4 = i64 (int (length (cl_body w4)))"
      "w4 = w3\<lparr>rw_gz := rw_gz w4, cl_chunks := cl_chunks w4, cl_body := cl_body w4, rw_comp := rw_comp w4\<rparr>"
    using writeBody_inv [OF out s3, of body] w3 by (auto simp: i64_def)
  show ?thesis
  proof (cases "body = []")
    case True
    then show ?thesis using com w3 s3 by (auto simp: resp_inv_def i64_def)
  next
    case False
    have gz4: "rw_gz w3 = None \<Longrightarrow> rw_gz w4 = None"
      using w4(1) by (auto simp: writeBody_def send_def split: prod.splits)
    have sel: "rw_done w4" "cl_status w4 = cl_status w3" "cl_hdr w4 = cl_hdr w3" "rw_status w4 = rw_status w3" "rw_accept w4 = rw_accept w3"
        "rw_max w4 = rw_max w3" "rw_size w4 = rw_size w3" "rw_checked w4 = rw_checked w3" "rw_exempt w4 = rw_exempt w3"
      by (subst w4(4), simp add: w3(3))+
    have "commit G out gzipOn w = (w4\<lparr>rw_buf := []\<rparr>, False)" using com w4(1) w3(1) False by simp
    then show ?thesis using w4(2,3) sel w3 gz4 by (auto simp: resp_inv_def streamed_def)
  qed
qed

definition size_inv :: "bytes \<Rightarrow> 'g resp \<Rightarrow> bool" where
  "size_inv body w \<longleftrightarrow>
     rw_size w = i64 (int (length body)) \<and>
     (in_i64 (int (length body)) \<longrightarrow> rw_exempt w \<or> rw_max w \<le> 0 \<or> int (length body) \<le> rw_max w)"

text \<open>The fields a call leaves alone, and the status the first call of the handler has set.\<close>

definition keeps :: "'g resp \<Rightarrow> 'g resp \<Rightarrow> bool" where
  "keeps w w' \<longleftrightarrow>
     rw_max w' = rw_max w \<and> rw_accept w' = rw_accept w \<and> (rw_status w > 0 \<longrightarrow> rw_status w' = rw_status w) \<and>
     (rw_done w \<longrightarrow> rw_done w' \<and> cl_status w' = cl_status w) \<and>
     (rw_status w > 0 \<and> \<not> rw_done w \<and> rw_done w' \<longrightarrow> cl_status w' = [rw_status w])"

lemma check_cap_sel:
  "resp_inv G body (check_cap w) \<longleftrightarrow> resp_inv G body w" "rw_max (check_cap w) = rw_max w" "rw_size (check_cap w) = rw_size w"
  "rw_done (check_cap w) = rw_done w" "rw_status (check_cap w) = rw_status w" "rw_accept (check_cap w) = rw_accept w"
  "cl_status (check_cap w) = cl_status w" "rw_buf (check_cap w) = rw_buf w" "rw_gz (check_cap w) = rw_gz w"
  by (simp_all add: check_cap_def resp_inv_def streamed_def)

lemma resp_inv_sized: "resp_inv G body (w\<lparr>rw_size := n\<rparr>) = resp_inv G body w"
  by (simp add: resp_inv_def streamed_def)

lemma gzip_needs_accept: "gzipEligible w \<longrightarrow> rw_accept w"
  by (simp add: gzipEligible_def)

lemma exempt_fixed: "rw_exempt w \<Longrightarrow> rw_checked w \<Longrightarrow> rw_exempt (check_cap w)"
  by (simp add: check_cap_def)

lemma Write_inv:
  assumes out: "all_sent out" and inv: "resp_inv G body w0" "size_inv body w0" "rw_exempt w0 \<longrightarrow> rw_checked w0"
    and run: "Write G out b w0 = Open w'"
  shows "resp_inv G (body @ b) w' \<and> size_inv (body @ b) w' \<and> keeps w0 w' \<and> (rw_exempt w' \<longrightarrow> rw_checked w') \<and>
    (\<not> rw_done w0 \<and> length (body @ b) < gzipMinSize \<longrightarrow> \<not> rw_done w')"
proof -
  define w1 where "w1 = (check_cap w0)\<lparr>rw_size := i64 (rw_size w0 + int (length b))\<rparr>"
  have cap: "\<not> (rw_max w0 > 0 \<and> \<not> rw_exempt (check_cap w0) \<and> i64 (rw_size w0 + int (length b)) > rw_max w0)"
    using run by (auto simp: Write_def Let_def check_cap_sel split: if_splits)
  have go: "(if rw_done w1 then opened (writeBody G out b w1)
      else let w2 = w1\<lparr>rw_buf := rw_buf w1 @ b\<rparr> in
        if length (rw_buf w2) < gzipMinSize then Open w2 else opened (commit G out (gzipEligible w2) w2)) = Open w'"
    using run cap unfolding Write_def Let_def check_cap_sel w1_def [symmetric] by simp
  have w1: "rw_max w1 = rw_max w0" "rw_accept w1 = rw_accept w0" "rw_status w1 = rw_status w0" "rw_done w1 = rw_done w0"
      "cl_status w1 = cl_status w0" "rw_exempt w1 = rw_exempt (check_cap w0)" "rw_checked w1" "rw_buf w1 = rw_buf w0"
      "rw_size w1 = i64 (rw_size w0 + int (length b))"
    by (simp_all add: w1_def check_cap_sel) (simp add: check_cap_def)
  have inv1: "resp_inv G body w1" using inv(1) by (simp add: w1_def resp_inv_sized check_cap_sel)
  have size: "rw_size w1 = i64 (int (length (body @ b)))"
    using inv(2) w1(9) by (simp add: size_inv_def i64_add_len)
  have fits: "in_i64 (int (length (body @ b))) \<longrightarrow> rw_exempt w1 \<or> rw_max w1 \<le> 0 \<or> int (length (body @ b)) \<le> rw_max w1"
    using cap size w1 by (auto simp: not_less)
  have fin: "size_inv (body @ b) x" if "rw_size x = rw_size w1" "rw_max x = rw_max w1" "rw_exempt x = rw_exempt w1" for x
    using that size fits by (simp add: size_inv_def)
  show ?thesis
  proof (cases "rw_done w1")
    case True
    then have s1: "streamed G body w1" "rw_comp w1 = i64 (int (length (cl_body w1)))" using inv1 by (auto simp: resp_inv_def)
    obtain x where x: "writeBody G out b w1 = (x, False)" "streamed G (body @ b) x" "rw_comp x = i64 (int (length (cl_body x)))"
        "x = w1\<lparr>rw_gz := rw_gz x, cl_chunks := cl_chunks x, cl_body := cl_body x, rw_comp := rw_comp x\<rparr>"
      using writeBody_inv [OF out s1] by blast
    have w': "w' = x" using go x(1) True by (simp add: opened_def)
    have sel: "rw_done x" "rw_buf x = rw_buf w1" "cl_status x = cl_status w1" "rw_status x = rw_status w1" "rw_accept x = rw_accept w1"
        "rw_max x = rw_max w1" "rw_size x = rw_size w1" "rw_checked x" "rw_exempt x = rw_exempt w1"
      by (subst x(4), simp add: True w1(7))+
    show ?thesis using x(2,3) sel w' inv1 True fin [of x] w1 by (simp add: resp_inv_def keeps_def)
  next
    case False
    define w2 where "w2 = w1\<lparr>rw_buf := rw_buf w1 @ b\<rparr>"
    have inv2: "resp_inv G (body @ b) w2" "\<not> rw_done w2" using inv1 False by (auto simp: w2_def resp_inv_def)
    have len: "length (rw_buf w2) = length (body @ b)" using inv1 False by (simp add: w2_def resp_inv_def)
    show ?thesis
    proof (cases "length (rw_buf w2) < gzipMinSize")
      case True
      then have "w' = w2" using go False by (simp add: w2_def Let_def)
      then show ?thesis using inv2 fin [of w2] w1 by (simp add: w2_def keeps_def)
    next
      case big: False
      obtain x where x: "commit G out (gzipEligible w2) w2 = (x, False)" "resp_inv G (body @ b) x" "rw_done x"
          "cl_status x = [if rw_status w2 > 0 then rw_status w2 else 200]" "rw_status x = rw_status w2" "rw_accept x = rw_accept w2"
          "rw_max x = rw_max w2" "rw_size x = rw_size w2" "rw_checked x = rw_checked w2" "rw_exempt x = rw_exempt w2"
        using commit_inv [OF out inv2 gzip_needs_accept] by blast
      have "w' = x" using go False big x(1) by (simp add: w2_def Let_def opened_def)
      then show ?thesis using x fin [of x] w1 big len False by (simp add: w2_def keeps_def)
    qed
  qed
qed

lemma Flush_inv:
  assumes out: "all_sent out" and inv: "resp_inv G body w" "size_inv body w" "rw_exempt w \<longrightarrow> rw_checked w"
  shows "resp_inv G body (Flush G out w) \<and> size_inv body (Flush G out w) \<and> keeps w (Flush G out w) \<and>
    (rw_exempt (Flush G out w) \<longrightarrow> rw_checked (Flush G out w))"
proof -
  define w1 where "w1 = (if rw_done w then w else fst (commit G out (gzipEligible w) w))"
  have w1: "resp_inv G body w1 \<and> rw_done w1 \<and> keeps w w1 \<and> size_inv body w1 \<and> (rw_exempt w1 \<longrightarrow> rw_checked w1)"
  proof (cases "rw_done w")
    case True then show ?thesis using inv by (simp add: w1_def keeps_def)
  next
    case False
    obtain x where x: "commit G out (gzipEligible w) w = (x, False)" "resp_inv G body x" "rw_done x"
          "cl_status x = [if rw_status w > 0 then rw_status w else 200]" "rw_status x = rw_status w" "rw_accept x = rw_accept w"
          "rw_max x = rw_max w" "rw_size x = rw_size w" "rw_checked x = rw_checked w" "rw_exempt x = rw_exempt w"
      using commit_inv [OF out inv(1) False gzip_needs_accept] by blast
    then show ?thesis using inv False by (simp add: w1_def keeps_def size_inv_def)
  qed
  define w2 where "w2 = (case rw_gz w1 of
      Some g \<Rightarrow> (case gz_flush G g of (g', enc) \<Rightarrow> fst (send out enc (w1\<lparr>rw_gz := Some g'\<rparr>))) | None \<Rightarrow> w1)"
  have fl: "Flush G out w = w2\<lparr>cl_flushes := Suc (cl_flushes w2)\<rparr>" 
    unfolding Flush_def Let_def w1_def [symmetric] w2_def [symmetric] by (rule refl)
  have w2: "resp_inv G body w2 \<and> keeps w1 w2 \<and> size_inv body w2 \<and> (rw_exempt w2 \<longrightarrow> rw_checked w2)"
  proof (cases "rw_gz w1")
    case None then show ?thesis using w1 by (simp add: w2_def keeps_def)
  next
    case (Some g)
    have s1: "streamed G body w1" "rw_comp w1 = i64 (int (length (cl_body w1)))" using w1 by (auto simp: resp_inv_def)
    then obtain tr where tr: "gz_trace G tr = (g, cl_body w1)" "gz_input tr = body" "rw_accept w1"
        "hdr_get (cl_hdr w1) ''Content-Encoding'' = ''gzip''" "hdr_get (cl_hdr w1) ''Content-Length'' = []"
      using Some by (auto simp: streamed_def)
    obtain g' enc where gf: "gz_flush G g = (g', enc)" by (meson surj_pair)
    obtain k where snd: "send out enc (w1\<lparr>rw_gz := Some g'\<rparr>) =
        (w1\<lparr>rw_gz := Some g', cl_chunks := k, cl_body := cl_body w1 @ enc, rw_comp := i64 (rw_comp w1 + int (length enc))\<rparr>, False)"
      using send_ok [OF out, of enc "w1\<lparr>rw_gz := Some g'\<rparr>"] by auto
    have eq: "w2 = w1\<lparr>rw_gz := Some g', cl_chunks := k, cl_body := cl_body w1 @ enc, rw_comp := i64 (rw_comp w1 + int (length enc))\<rparr>"
      by (simp add: w2_def Some gf snd)
    have "gz_trace G (tr @ [GzFlush]) = (g', cl_body w1 @ enc) \<and> gz_input (tr @ [GzFlush]) = body"
      using tr gf by (simp add: gz_trace_snoc gz_input_snoc)
    then have str: "streamed G body w2" unfolding streamed_def
      by (intro disjI2 exI [of _ g'] exI [of _ "tr @ [GzFlush]"]) (simp add: eq tr)
    have sel: "rw_done w2 = rw_done w1" "rw_buf w2 = rw_buf w1" "cl_status w2 = cl_status w1" "rw_status w2 = rw_status w1"
        "rw_accept w2 = rw_accept w1" "rw_max w2 = rw_max w1" "rw_size w2 = rw_size w1" "rw_checked w2 = rw_checked w1"
        "rw_exempt w2 = rw_exempt w1" "rw_comp w2 = i64 (int (length (cl_body w2)))"
      by (simp_all add: eq s1(2) i64_add_len)
    have d1: "rw_done w1" and z1: "size_inv body w1" and c1: "rw_exempt w1 \<longrightarrow> rw_checked w1" using w1 by blast+
    have "rw_buf w1 = []" "length (cl_status w1) = 1" using w1 by (auto simp: resp_inv_def)
    then have "resp_inv G body w2" using str sel d1 by (simp add: resp_inv_def)
    moreover have "keeps w1 w2" using sel d1 by (simp add: keeps_def)
    moreover have "size_inv body w2" using sel z1 by (simp add: size_inv_def)
    ultimately show ?thesis using sel c1 by simp
  qed
  have "keeps w w2" using w1 w2 by (auto simp: keeps_def)
  moreover have "resp_inv G body (w2\<lparr>cl_flushes := n\<rparr>) = resp_inv G body w2" for n by (simp add: resp_inv_def streamed_def)
  moreover have "keeps w (w2\<lparr>cl_flushes := n\<rparr>) = keeps w w2" for n by (simp add: keeps_def)
  moreover have "size_inv body (w2\<lparr>cl_flushes := n\<rparr>) = size_inv body w2" for n by (simp add: size_inv_def)
  ultimately show ?thesis using w2 by (simp add: fl)
qed

definition body_of :: "wop list \<Rightarrow> bytes" where
  "body_of ops = concat (map (\<lambda>op. case op of Body b \<Rightarrow> b | _ \<Rightarrow> []) ops)"

lemma keeps_trans: "keeps a b \<Longrightarrow> keeps b c \<Longrightarrow> keeps a c"
  by (auto simp: keeps_def)

definition flow_inv :: "'g gz_api \<Rightarrow> bytes \<Rightarrow> 'g resp \<Rightarrow> bool" where
  "flow_inv G body w \<longleftrightarrow> resp_inv G body w \<and> size_inv body w \<and> (rw_exempt w \<longrightarrow> rw_checked w)"

lemma streamed_sel [simp]:
  "streamed G body (w\<lparr>rw_hdr := h\<rparr>) = streamed G body w" "streamed G body (w\<lparr>rw_status := s\<rparr>) = streamed G body w"
  by (simp_all add: streamed_def)

lemma run_op_flow:
  assumes out: "all_sent out" and inv: "flow_inv G body w" and run: "run_op G out op w = Open w'"
  shows "flow_inv G (body @ body_of [op]) w' \<and> keeps w w' \<and>
    (op \<noteq> Push \<and> \<not> rw_done w \<and> length (body @ body_of [op]) < gzipMinSize \<longrightarrow> \<not> rw_done w')"
proof (cases op)
  case (SetHeader k v)
  then have "w' = w\<lparr>rw_hdr := hdr_set k v (rw_hdr w)\<rparr>" using run by simp
  then show ?thesis using inv SetHeader by (simp add: flow_inv_def resp_inv_def size_inv_def keeps_def body_of_def)
next
  case (Status s)
  then have "w' = WriteHeader s w" using run by simp
  then show ?thesis using inv Status
    by (simp add: WriteHeader_def flow_inv_def resp_inv_def size_inv_def keeps_def body_of_def)
next
  case (Body b)
  then show ?thesis using Write_inv [OF out, of G body w b w'] inv run by (simp add: flow_inv_def body_of_def)
next
  case Push
  then show ?thesis using Flush_inv [OF out, of G body w] inv run by (simp add: flow_inv_def body_of_def)
qed

lemma run_wops_flow:
  assumes out: "all_sent out"
  shows "flow_inv G body w \<Longrightarrow> run_wops G out ops w = Open w' \<Longrightarrow>
    flow_inv G (body @ body_of ops) w' \<and> keeps w w' \<and>
    (Push \<notin> set ops \<and> \<not> rw_done w \<and> length (body @ body_of ops) < gzipMinSize \<longrightarrow> \<not> rw_done w')"
proof (induction ops arbitrary: body w)
  case Nil
  then show ?case by (simp add: body_of_def keeps_def)
next
  case (Cons op ops)
  obtain w1 where w1: "run_op G out op w = Open w1" "run_wops G out ops w1 = Open w'"
    using Cons.prems(2) by (cases "run_op G out op w") auto
  have split: "body @ body_of (op # ops) = (body @ body_of [op]) @ body_of ops" by (simp add: body_of_def)
  note step = run_op_flow [OF out Cons.prems(1) w1(1)]
  note rest = Cons.IH [OF conjunct1 [OF step] w1(2)]
  have "flow_inv G (body @ body_of (op # ops)) w'" using rest by (simp only: split)
  moreover have "keeps w w'" using step rest keeps_trans by blast
  moreover have "\<not> rw_done w'" if small: "Push \<notin> set (op # ops) \<and> \<not> rw_done w \<and> length (body @ body_of (op # ops)) < gzipMinSize"
  proof -
    have "length (body @ body_of [op]) < gzipMinSize" "length ((body @ body_of [op]) @ body_of ops) < gzipMinSize"
      using small by (simp_all add: split)
    moreover have "op \<noteq> Push" "Push \<notin> set ops" "\<not> rw_done w" using small by auto
    ultimately show ?thesis using step rest by blast
  qed
  ultimately show ?case by blast
qed

text \<open>What \<open>finish\<close> leaves at the client.\<close>

definition received :: "(bytes \<Rightarrow> bytes option) \<Rightarrow> bytes \<Rightarrow> 'g resp \<Rightarrow> bool" where
  "received gunzip body w \<longleftrightarrow>
     cl_body w = body \<or>
     (rw_accept w \<and> hdr_get (cl_hdr w) ''Content-Encoding'' = ''gzip'' \<and> hdr_get (cl_hdr w) ''Content-Length'' = [] \<and>
      gunzip (cl_body w) = Some body)"

lemma finish_flow:
  assumes out: "all_sent out" and G: "gz_lawful G gunzip" and inv: "flow_inv G body w"
  shows "length (cl_status (finish G out w)) = 1 \<and> keeps w (finish G out w) \<and> rw_done (finish G out w) \<and>
    received gunzip body (finish G out w) \<and> rw_comp (finish G out w) = i64 (int (length (cl_body (finish G out w)))) \<and>
    size_inv body (finish G out w) \<and>
    (\<not> rw_done w \<longrightarrow> cl_body (finish G out w) = body \<and>
       (body \<noteq> [] \<longrightarrow> hdr_get (cl_hdr (finish G out w)) ''Content-Length'' = show_nat (length body)))"
proof (cases "rw_done w")
  case True
  have r: "resp_inv G body w" and z: "size_inv body w" using inv by (auto simp: flow_inv_def)
  then have s: "streamed G body w" "length (cl_status w) = 1" "rw_comp w = i64 (int (length (cl_body w)))"
    using True by (auto simp: resp_inv_def)
  show ?thesis
  proof (cases "rw_gz w")
    case None
    then have "finish G out w = w" using True by (simp add: finish_def)
    then show ?thesis using s z None True by (simp add: streamed_def received_def keeps_def)
  next
    case (Some g)
    then obtain tr where tr: "gz_trace G tr = (g, cl_body w)" "gz_input tr = body" "rw_accept w"
        "hdr_get (cl_hdr w) ''Content-Encoding'' = ''gzip''" "hdr_get (cl_hdr w) ''Content-Length'' = []"
      using s(1) by (auto simp: streamed_def)
    obtain k where snd: "send out (gz_close G g) w =
        (w\<lparr>cl_chunks := k, cl_body := cl_body w @ gz_close G g, rw_comp := i64 (rw_comp w + int (length (gz_close G g)))\<rparr>, False)"
      using send_ok [OF out] by blast
    have fin: "finish G out w = w\<lparr>cl_chunks := k, cl_body := cl_body w @ gz_close G g,
        rw_comp := i64 (rw_comp w + int (length (gz_close G g))), rw_gz := None\<rparr>"
      using True Some snd by (simp add: finish_def Let_def)
    have "gunzip (cl_body w @ gz_close G g) = Some body"
      using G tr(1,2) unfolding gz_lawful_def by (metis (mono_tags, lifting) case_prod_conv)
    then show ?thesis using tr(3-5) s(2,3) z True by (simp add: fin received_def keeps_def size_inv_def i64_add_len)
  qed
next
  case False
  have r: "resp_inv G body w" and z: "size_inv body w" using inv by (auto simp: flow_inv_def)
  then have start: "rw_gz w = None" "rw_buf w = body" using False by (auto simp: resp_inv_def)
  define w2 where "w2 = (if rw_buf w = [] then w
      else w\<lparr>rw_hdr := hdr_set ''Content-Length'' (show_nat (length (rw_buf w))) (rw_hdr w)\<rparr>)"
  have w2: "resp_inv G body w2" "\<not> rw_done w2" using r False by (auto simp: w2_def resp_inv_def streamed_def)
  obtain x where x: "commit G out False w2 = (x, False)" "resp_inv G body x" "rw_done x"
      "cl_status x = [if rw_status w2 > 0 then rw_status w2 else 200]" "rw_gz x = None"
      "hdr_get (cl_hdr x) ''Content-Length'' = hdr_get (rw_hdr w2) ''Content-Length''"
      "rw_status x = rw_status w2" "rw_accept x = rw_accept w2" "rw_max x = rw_max w2" "rw_size x = rw_size w2"
      "rw_exempt x = rw_exempt w2"
    using commit_inv [OF out w2, of False] by auto
  have fin: "finish G out w = x" using False start x(1) by (simp add: finish_def w2_def Let_def)
  have "cl_body x = body" using x(2,3,5) by (simp add: resp_inv_def streamed_def)
  moreover have "rw_status w2 = rw_status w" "rw_accept w2 = rw_accept w" "rw_max w2 = rw_max w" "rw_size w2 = rw_size w"
      "rw_exempt w2 = rw_exempt w" by (simp_all add: w2_def)
  moreover have "body \<noteq> [] \<longrightarrow> hdr_get (rw_hdr w2) ''Content-Length'' = show_nat (length body)"
    using start(2) by (simp add: w2_def)
  moreover have "rw_comp x = i64 (int (length (cl_body x)))" using x(2) by (simp add: resp_inv_def)
  ultimately show ?thesis using x z False by (simp add: fin received_def keeps_def size_inv_def)
qed


text \<open>An encoder that changes nothing, and a response whose upstream sends an informational status first.\<close>

definition plain_gz :: "unit gz_api" where
  "plain_gz = \<lparr>gz_new = (), gz_write = (\<lambda>g b. (g, b)), gz_flush = (\<lambda>g. (g, [])), gz_close = (\<lambda>g. [])\<rparr>"

lemma plain_gz_lawful: "gz_lawful plain_gz Some"
proof -
  have "gz_trace plain_gz tr = ((), gz_input tr)" for tr
  proof (induction tr rule: rev_induct)
    case (snoc op tr)
    then show ?case by (cases op) (simp_all add: gz_trace_snoc gz_input_snoc plain_gz_def)
  qed (simp add: gz_trace_def gz_input_def plain_gz_def)
  then show ?thesis by (simp add: gz_lawful_def plain_gz_def)
qed

definition demo_wops :: "wop list" where
  "demo_wops = [Status 103, SetHeader ''Content-Type'' ''text/plain'', Status 404, Body [1, 2, 3]]"

definition demo_response :: "unit wresult" where
  "demo_response = respond plain_gz (\<lambda>_. ChunkOk) demo_wops (new_resp ''/x'' 100 True)"


end
