(* ===== verification/Packages.thy ===== *)
theory Packages
  imports Deploy GoPath "HOL-Library.AList"
begin

text \<open>
  The package store: \<open>service_package.go\<close> (upload of a package in chunks, listing with the choice of the
  newest release, deletion), the chunk call of \<open>service_internal.go\<close> and the download of
  \<open>internal/hostlet/pkg_download.go\<close>. Package records and chunks are rows of one database. The mutexes of
  running uploads are the list of ids that have an entry; a call holds the mutex of its id, so calls on one id run
  one after the other. Empty bytes and the nil slice are one value, as after decoding. Semantic version
  validity and order (\<open>golang.org/x/mod/semver\<close>) and unpacking an archive are arguments. A nil dereference and a
  division by zero are the error \<open>PkgPanic\<close>.
\<close>

section \<open>Data\<close>

record pkg_meta =
  pm_name :: string
  pm_version :: string

record pkg_release =
  pr_version :: string
  pr_os :: string
  pr_arch :: string

record pkg_file =
  pf_state :: string
  pf_size :: int
  pf_chunk :: int
  pf_uploaded :: "int list"
  pf_created :: int
  pf_updated :: int

record pkg =
  pg_meta :: "pkg_meta option"
  pg_release :: "pkg_release option"
  pg_file :: "pkg_file option"

record pkg_chunk =
  ck_index :: int
  ck_crc :: u32
  ck_data :: bytes
  ck_uploaded :: int

datatype pkg_row = InfoRow pkg | ChunkRow pkg_chunk

record push_req =
  pq_id :: string
  pq_chunk :: "pkg_chunk option"
  pq_package :: "pkg option"
  pq_total :: int
  pq_chunk_size :: int
  pq_overwrite :: bool

datatype pkg_err =
    PkgSvc svc_err
  | PkgInvalid string
  | PkgTooBig int
  | PkgNotFound
  | PkgStore string
  | PkgDecode
  | BadChunkIndex int int
  | BadChunkSize int int
  | BadChecksum
  | UploadRunning
  | PkgNotReady
  | ChunkMissing int
  | PkgPanic

record pkg_env =
  en_now :: int
  en_semver :: "string \<Rightarrow> bool"

definition PackageFileStateUploading :: string where "PackageFileStateUploading = ''uploading''"
definition PackageFileStateComplete :: string where "PackageFileStateComplete = ''complete''"
definition AuthScope_Package_Read :: string where "AuthScope_Package_Read = ''pkg:ro''"
definition AuthScope_Package_Write :: string where "AuthScope_Package_Write = ''pkg:rw''"
definition PackageFileChunkSizeDefault :: int where "PackageFileChunkSizeDefault = 2 ^ 20"
definition PackageMaxSize :: int where "PackageMaxSize = 1000 * 2 ^ 20"

lemmas package_states = PackageFileStateUploading_def PackageFileStateComplete_def

text \<open>The verb \<open>%08d\<close> on an index that is not negative.\<close>

definition pad8 :: "int \<Rightarrow> string" where
  "pad8 i = (let ds = show_nat (nat i) in replicate (8 - length ds) CHR ''0'' @ ds)"

definition NsPackageFileChunk :: "string \<Rightarrow> int \<Rightarrow> string" where
  "NsPackageFileChunk pkgId i = NsPrefix @ ''pkg/chunk/'' @ pkgId @ ''/'' @ pad8 i"

section \<open>Checksum and chunk arithmetic\<close>

text \<open>\<open>crc32.ChecksumIEEE\<close>, bit by bit with the reversed polynomial.\<close>

definition crc_step :: "u32 \<Rightarrow> u32" where
  "crc_step c = (if bit c 0 then xor (drop_bit 1 c) 0xEDB88320 else drop_bit 1 c)"

definition crc_byte :: "u8 \<Rightarrow> u32 \<Rightarrow> u32" where
  "crc_byte b c = (crc_step ^^ 8) (xor c (ucast b))"

definition ChecksumIEEE :: "bytes \<Rightarrow> u32" where
  "ChecksumIEEE p = not (fold crc_byte p (not 0))"

definition calcTotalChunks :: "int \<Rightarrow> int \<Rightarrow> int" where
  "calcTotalChunks totalSize chunkSz = godiv (i64 (i64 (totalSize + chunkSz) - 1)) chunkSz"

definition expectedChunkSize :: "pkg_file \<Rightarrow> int \<Rightarrow> int" where
  "expectedChunkSize f i =
     (if i \<noteq> calcTotalChunks (pf_size f) (pf_chunk f) - 1 then pf_chunk f
      else let r = gomod (pf_size f) (pf_chunk f) in if r = 0 then pf_chunk f else r)"

definition chunk_indices :: "pkg_file \<Rightarrow> int list" where
  "chunk_indices f = map int [0..<nat (calcTotalChunks (pf_size f) (pf_chunk f))]"

section \<open>Validation\<close>

definition lower_letter :: "char \<Rightarrow> bool" where
  "lower_letter c \<longleftrightarrow> (let n = (of_char c :: nat) in 97 \<le> n \<and> n \<le> 122)"

definition NameRegex :: "string \<Rightarrow> bool" where
  "NameRegex s = (case s of
       [] \<Rightarrow> False
     | c # cs \<Rightarrow> lower_letter c \<and> (\<forall>d \<in> set cs. lower_letter d \<or> is_digit d \<or> d = CHR ''_'' \<or> d = CHR ''-''))"

definition MetadataValidate :: "pkg_env \<Rightarrow> pkg_meta \<Rightarrow> pkg_err option" where
  "MetadataValidate E m =
     (if pm_name m = [] then Some (PkgInvalid ''metadata.name is required'')
      else if \<not> NameRegex (pm_name m) then Some (PkgInvalid ''metadata.name'')
      else if pm_version m = [] then Some (PkgInvalid ''metadata.version is required'')
      else if \<not> en_semver E (with_v (pm_version m)) then Some (PkgInvalid ''metadata.version'')
      else None)"

definition ReleaseValidate :: "pkg_env \<Rightarrow> pkg_release \<Rightarrow> pkg_err option" where
  "ReleaseValidate E r =
     (if pr_version r = [] then Some (PkgInvalid ''release.version is required'')
      else if \<not> en_semver E (with_v (pr_version r)) then Some (PkgInvalid ''release.version'')
      else if pr_os r = [] then Some (PkgInvalid ''release.os is required'')
      else if pr_os r \<notin> {''linux'', ''freebsd'', ''darwin'', ''all''} then Some (PkgInvalid ''release.os'')
      else if pr_arch r = [] then Some (PkgInvalid ''release.arch is required'')
      else if pr_arch r \<notin> {''amd64'', ''arm64'', ''src''} then Some (PkgInvalid ''release.arch'')
      else None)"

section \<open>Upload\<close>

definition check_file :: "push_req \<Rightarrow> pkg \<Rightarrow> pkg_err option" where
  "check_file rq p =
     (if (case pg_file p of None \<Rightarrow> True | Some f \<Rightarrow> pf_size f \<le> 0) then Some (PkgInvalid ''package file size is required'')
      else if pq_chunk_size rq \<noteq> PackageFileChunkSizeDefault then Some (PkgInvalid ''chunk size'')
      else None)"

text \<open>What a request with the first chunk has to carry.\<close>

definition check_first :: "pkg_env \<Rightarrow> push_req \<Rightarrow> pkg_err option" where
  "check_first E rq =
     (case pq_package rq of
        None \<Rightarrow> Some (PkgInvalid ''package is required for first chunk'')
      | Some p \<Rightarrow>
          if pq_total rq \<le> 0 then Some (PkgInvalid ''total_size is required for first chunk'')
          else if pq_total rq > PackageMaxSize then Some (PkgTooBig (pq_total rq))
          else case pg_meta p of
            None \<Rightarrow> Some (PkgInvalid ''package metadata is required'')
          | Some m \<Rightarrow>
              if pm_name m = [] then Some (PkgInvalid ''package metadata is required'')
              else case pg_release p of
                None \<Rightarrow> Some (PkgInvalid ''package release info is required'')
              | Some r \<Rightarrow>
                  (case MetadataValidate E m of
                     Some e \<Rightarrow> Some e
                   | None \<Rightarrow> (case ReleaseValidate E r of Some e \<Rightarrow> Some e | None \<Rightarrow> check_file rq p)))"

text \<open>The record of a new upload; only a request that passed \<open>check_first\<close> reaches it.\<close>

definition new_upload :: "pkg_env \<Rightarrow> push_req \<Rightarrow> pkg_err + pkg" where
  "new_upload E rq =
     (case pq_package rq of
        None \<Rightarrow> Inl PkgPanic
      | Some p \<Rightarrow>
          (case pg_file p of
             None \<Rightarrow> Inl PkgPanic
           | Some f \<Rightarrow>
               Inr \<lparr>pg_meta = pg_meta p, pg_release = pg_release p,
                    pg_file = Some \<lparr>pf_state = PackageFileStateUploading, pf_size = pf_size f,
                      pf_chunk = pq_chunk_size rq, pf_uploaded = [], pf_created = en_now E, pf_updated = 0\<rparr>\<rparr>))"

definition read_upload :: "('db, pkg_row) kvgo \<Rightarrow> pkg_env \<Rightarrow> push_req \<Rightarrow> pkg_chunk \<Rightarrow> 'db \<Rightarrow> pkg_err + pkg" where
  "read_upload K E rq c db =
     (case kv_get K db (NsPackageInfo (pq_id rq)) of
        KvFound m (Some (InfoRow p)) \<Rightarrow> Inr p
      | KvFound m _ \<Rightarrow> Inl PkgDecode
      | KvReadErr e \<Rightarrow> Inl (PkgStore e)
      | KvNotFound \<Rightarrow> if ck_index c \<noteq> 0 then Inl PkgNotFound else new_upload E rq)"

text \<open>Delete the chunks of a file; the count is of the deletes that found their row.\<close>

definition delete_chunk :: "('db, pkg_row) kvgo \<Rightarrow> string \<Rightarrow> int \<Rightarrow> 'db \<times> nat \<Rightarrow> 'db \<times> nat" where
  "delete_chunk K i n s =
     (case kv_del K (fst s) (NsPackageFileChunk i n) of (db', r) \<Rightarrow> (db', if r = KvDeleted then Suc (snd s) else snd s))"

definition delete_chunks :: "('db, pkg_row) kvgo \<Rightarrow> string \<Rightarrow> pkg_file \<Rightarrow> 'db \<Rightarrow> 'db \<times> nat" where
  "delete_chunks K i f db = fold (delete_chunk K i) (chunk_indices f) (db, 0)"

text \<open>A complete package answers at once, or is replaced: its chunks go and the record starts anew.\<close>

datatype upload_state = Answer pkg_file | Go pkg pkg_file

definition renew_upload ::
    "('db, pkg_row) kvgo \<Rightarrow> pkg_env \<Rightarrow> push_req \<Rightarrow> pkg_chunk \<Rightarrow> pkg \<Rightarrow> 'db \<Rightarrow> 'db \<times> (pkg_err + upload_state)" where
  "renew_upload K E rq c p db =
     (case pg_file p of
        None \<Rightarrow> (db, Inl PkgPanic)
      | Some f \<Rightarrow>
          if pf_state f \<noteq> PackageFileStateComplete then (db, Inr (Go p f))
          else if \<not> pq_overwrite rq then (db, Inr (Answer f))
          else if ck_index c \<noteq> 0 then (db, Inl PkgNotFound)
          else if pf_chunk f = 0 then (db, Inl PkgPanic)
          else (fst (delete_chunks K (pq_id rq) f db),
            (case new_upload E rq of
               Inl e \<Rightarrow> Inl e
             | Inr p' \<Rightarrow> (case pg_file p' of None \<Rightarrow> Inl PkgPanic | Some f' \<Rightarrow> Inr (Go p' f')))))"

text \<open>The checks of a chunk against the file it belongs to.\<close>

definition check_chunk :: "pkg_file \<Rightarrow> pkg_chunk \<Rightarrow> pkg_err option" where
  "check_chunk f c =
     (if pf_chunk f = 0 then Some PkgPanic
      else let total = calcTotalChunks (pf_size f) (pf_chunk f); n = int (length (ck_data c)) in
        if ck_index c < 0 \<or> ck_index c \<ge> total then Some (BadChunkIndex (ck_index c) total)
        else if n \<noteq> expectedChunkSize f (ck_index c) then Some (BadChunkSize n (expectedChunkSize f (ck_index c)))
        else if ChecksumIEEE (ck_data c) \<noteq> ck_crc c then Some BadChecksum
        else None)"

definition add_uploaded :: "pkg_env \<Rightarrow> int \<Rightarrow> pkg_file \<Rightarrow> pkg_file" where
  "add_uploaded E i f =
     (let ups = sort (pf_uploaded f @ [i]);
          complete = (int (length ups) = calcTotalChunks (pf_size f) (pf_chunk f)) in
      f\<lparr>pf_state := if complete then PackageFileStateComplete else pf_state f,
        pf_uploaded := if complete then [] else ups,
        pf_updated := en_now E\<rparr>)"

text \<open>Store a checked chunk and the progress. The mutex entry goes with the last chunk, before the record is written.\<close>

definition store_chunk ::
    "('db, pkg_row) kvgo \<Rightarrow> pkg_env \<Rightarrow> string \<Rightarrow> pkg_chunk \<Rightarrow> pkg \<Rightarrow> pkg_file \<Rightarrow> string list \<times> 'db
      \<Rightarrow> (string list \<times> 'db) \<times> (pkg_err + pkg_file)" where
  "store_chunk K E i c p f s =
     (case kv_put K (snd s) (NsPackageFileChunk i (ck_index c)) plain_put (ChunkRow (c\<lparr>ck_uploaded := en_now E\<rparr>)) of
        (db1, KvWriteErr e) \<Rightarrow> ((fst s, db1), Inl (PkgStore e))
      | (db1, KvWritten _) \<Rightarrow>
          let f' = add_uploaded E (ck_index c) f;
              locks = (if pf_state f' = PackageFileStateComplete then removeAll i (fst s) else fst s) in
          (case kv_put K db1 (NsPackageInfo i) plain_put (InfoRow (p\<lparr>pg_file := Some f'\<rparr>)) of
             (db2, KvWriteErr e) \<Rightarrow> ((locks, db2), Inl (PkgStore e))
           | (db2, KvWritten _) \<Rightarrow> ((locks, db2), Inr f')))"

definition push_chunk ::
    "('db, pkg_row) kvgo \<Rightarrow> pkg_env \<Rightarrow> push_req \<Rightarrow> pkg_chunk \<Rightarrow> string list \<times> 'db
      \<Rightarrow> (string list \<times> 'db) \<times> (pkg_err + pkg_file)" where
  "push_chunk K E rq c s =
     (case read_upload K E rq c (snd s) of
        Inl e \<Rightarrow> (s, Inl e)
      | Inr p \<Rightarrow>
          (case renew_upload K E rq c p (snd s) of
             (db1, Inl e) \<Rightarrow> ((fst s, db1), Inl e)
           | (db1, Inr (Answer f)) \<Rightarrow> ((fst s, db1), Inr f)
           | (db1, Inr (Go p' f)) \<Rightarrow>
               (case check_chunk f c of
                  Some e \<Rightarrow> ((fst s, db1), Inl e)
                | None \<Rightarrow>
                    if ck_index c \<in> set (pf_uploaded f) then ((fst s, db1), Inr f)
                    else store_chunk K E (pq_id rq) c p' f (fst s, db1))))"

definition PackagePush ::
    "('db, pkg_row) kvgo \<Rightarrow> app_validator \<Rightarrow> bool \<Rightarrow> pkg_env \<Rightarrow> push_req \<Rightarrow> string list \<times> 'db
      \<Rightarrow> (string list \<times> 'db) \<times> (pkg_err + pkg_file)" where
  "PackagePush K av leader E rq s =
     (case svc_guard av AuthScope_Package_Write leader of
        Some e \<Rightarrow> (s, Inl (PkgSvc e))
      | None \<Rightarrow>
          if pq_id rq = [] then (s, Inl (PkgInvalid ''id is required''))
          else (case pq_chunk rq of
            None \<Rightarrow> (s, Inl (PkgInvalid ''chunk is required''))
          | Some c \<Rightarrow>
              if ck_data c = [] then (s, Inl (PkgInvalid ''chunk data is required''))
              else (case if ck_index c = 0 then check_first E rq else None of
                Some e \<Rightarrow> (s, Inl e)
              | None \<Rightarrow> push_chunk K E rq c (List.insert (pq_id rq) (fst s), snd s))))"

section \<open>Deletion and the chunk call\<close>

definition PackageDelete ::
    "('db, pkg_row) kvgo \<Rightarrow> app_validator \<Rightarrow> bool \<Rightarrow> string \<Rightarrow> string list \<times> 'db
      \<Rightarrow> (string list \<times> 'db) \<times> (pkg_err + 32 word)" where
  "PackageDelete K av leader i s =
     (case svc_guard av AuthScope_Package_Write leader of
        Some e \<Rightarrow> (s, Inl (PkgSvc e))
      | None \<Rightarrow>
          if i = [] then (s, Inl (PkgInvalid ''id is required''))
          else if i \<in> set (fst s) then (s, Inl UploadRunning)
          else (case kv_get K (snd s) (NsPackageInfo i) of
            KvNotFound \<Rightarrow> (s, Inl PkgNotFound)
          | KvReadErr e \<Rightarrow> (s, Inl (PkgStore e))
          | KvFound m (Some (InfoRow p)) \<Rightarrow>
              (let (db1, n) = (case pg_file p of
                     None \<Rightarrow> (snd s, 0)
                   | Some f \<Rightarrow> if pf_chunk f > 0 \<and> pf_size f > 0 then delete_chunks K i f (snd s) else (snd s, 0))
               in case kv_del K db1 (NsPackageInfo i) of
                    (db2, KvDelErr e) \<Rightarrow> ((fst s, db2), Inl (PkgStore e))
                  | (db2, _) \<Rightarrow> ((fst s, db2), Inr (of_nat n)))
          | KvFound m _ \<Rightarrow> (s, Inl PkgDecode)))"

text \<open>A host asks for a chunk with the access key of its agent; the scope carries the id of the key.\<close>

definition PackageChunk ::
    "('db, pkg_row) kvgo \<Rightarrow> app_validator \<Rightarrow> bool \<Rightarrow> string \<Rightarrow> string \<Rightarrow> int \<Rightarrow> 'db \<Rightarrow> pkg_err + (pkg_chunk \<times> pkg_file)" where
  "PackageChunk K av leader scope i n db =
     (if \<not> leader then Inl (PkgSvc NotLeader)
      else case authAllow av scope of Some e \<Rightarrow> Inl (PkgSvc e)
      | None \<Rightarrow>
          if i = [] then Inl (PkgInvalid ''id is required'')
          else if n < 0 then Inl (PkgInvalid ''index must be non-negative'')
          else (case kv_get K db (NsPackageInfo i) of
            KvNotFound \<Rightarrow> Inl PkgNotFound
          | KvReadErr e \<Rightarrow> Inl (PkgStore e)
          | KvFound m (Some (InfoRow p)) \<Rightarrow>
              (case pg_file p of
                 None \<Rightarrow> Inl PkgNotReady
               | Some f \<Rightarrow>
                   if pf_state f \<noteq> PackageFileStateComplete then Inl PkgNotReady
                   else if pf_chunk f = 0 then Inl PkgPanic
                   else if n \<ge> calcTotalChunks (pf_size f) (pf_chunk f)
                   then Inl (BadChunkIndex n (calcTotalChunks (pf_size f) (pf_chunk f)))
                   else (case kv_get K db (NsPackageFileChunk i n) of
                     KvNotFound \<Rightarrow> Inl (ChunkMissing n)
                   | KvReadErr e \<Rightarrow> Inl (PkgStore e)
                   | KvFound m' (Some (ChunkRow c)) \<Rightarrow> Inr (c, f)
                   | KvFound m' _ \<Rightarrow> Inl PkgDecode))
          | KvFound m _ \<Rightarrow> Inl PkgDecode))"

section \<open>Listing\<close>

record list_req =
  lq_name :: string
  lq_version :: string
  lq_os :: string
  lq_arch :: string
  lq_all :: bool
  lq_latest :: bool

text \<open>A version with its trailing revision \<open>-r<digits>\<close> cut off; the digits are folded as an \<open>int\<close>.\<close>

definition revision_digits :: "string \<Rightarrow> string" where
  "revision_digits v = rev (takeWhile is_digit (rev v))"

definition splitVersion :: "string \<Rightarrow> string \<times> int" where
  "splitVersion v0 =
     (if v0 = [] then (''v0.0.0'', 0)
      else let v = with_v v0; ds = revision_digits v; body = take (length v - length ds) v in
        if ds \<noteq> [] \<and> length body \<ge> 2 \<and> drop (length body - 2) body = ''-r''
        then (take (length body - 2) body, foldl (\<lambda>n c. i64 (n * 10 + int (digit_val c))) 0 ds)
        else (v, 0))"

definition semverCompare :: "(string \<Rightarrow> string \<Rightarrow> int) \<Rightarrow> string \<Rightarrow> string \<Rightarrow> int" where
  "semverCompare cmp v1 v2 =
     (let (b1, i1) = splitVersion v1; (b2, i2) = splitVersion v2; c = cmp b1 b2 in
      if c \<noteq> 0 then c else if i1 < i2 then -1 else if i1 > i2 then 1 else 0)"

type_synonym group_key = "string \<times> string \<times> string"

definition group_key :: "pkg \<Rightarrow> group_key option" where
  "group_key p =
     (case (pg_meta p, pg_release p) of
        (Some m, Some r) \<Rightarrow> Some (pm_name m, pr_os r, pr_arch r)
      | _ \<Rightarrow> None)"

definition release_version :: "pkg \<Rightarrow> string" where
  "release_version p = (case pg_release p of Some r \<Rightarrow> pr_version r | None \<Rightarrow> [])"

text \<open>The newest package of a group, the first of equal versions; the groups are kept in an association list.\<close>

fun keep_newer :: "(string \<Rightarrow> string \<Rightarrow> int) \<Rightarrow> group_key \<Rightarrow> pkg \<Rightarrow> (group_key \<times> pkg) list \<Rightarrow> (group_key \<times> pkg) list" where
  "keep_newer cmp k p [] = [(k, p)]"
| "keep_newer cmp k p ((k', q) # m) =
     (if k' = k then (k', if semverCompare cmp (release_version p) (release_version q) > 0 then p else q) # m
      else (k', q) # keep_newer cmp k p m)"

definition latest_map :: "(string \<Rightarrow> string \<Rightarrow> int) \<Rightarrow> pkg list \<Rightarrow> (group_key \<times> pkg) list" where
  "latest_map cmp ps = fold (\<lambda>p m. case group_key p of None \<Rightarrow> m | Some k \<Rightarrow> keep_newer cmp k p m) ps []"

definition key_before :: "group_key \<Rightarrow> group_key \<Rightarrow> bool" where
  "key_before a b =
     (case (a, b) of ((n, os, ar), (n', os', ar')) \<Rightarrow>
        if n \<noteq> n' then str_lt n n' else if os \<noteq> os' then str_lt os os' else str_lt ar ar')"

fun ins_group :: "group_key \<times> pkg \<Rightarrow> (group_key \<times> pkg) list \<Rightarrow> (group_key \<times> pkg) list" where
  "ins_group x [] = [x]"
| "ins_group x (y # ys) = (if key_before (fst y) (fst x) then y # ins_group x ys else x # y # ys)"

text \<open>The order of the map's iteration (\<open>picks\<close>) does not matter, as the groups of the map are distinct.\<close>

definition filterLatestPackages :: "nat list \<Rightarrow> (string \<Rightarrow> string \<Rightarrow> int) \<Rightarrow> pkg list \<Rightarrow> pkg list" where
  "filterLatestPackages picks cmp ps = map snd (foldr ins_group (shuffle picks (latest_map cmp ps)) [])"

definition row_pkg :: "pkg_row kv_item \<Rightarrow> pkg option" where
  "row_pkg it = (case it_val it of Some (InfoRow p) \<Rightarrow> Some p | _ \<Rightarrow> None)"

definition list_selects :: "list_req \<Rightarrow> pkg \<Rightarrow> bool" where
  "list_selects q p \<longleftrightarrow>
     (lq_all q \<or> (case pg_file p of Some f \<Rightarrow> pf_state f = PackageFileStateComplete | None \<Rightarrow> False)) \<and>
     (lq_name q = [] \<or> (case pg_meta p of Some m \<Rightarrow> pm_name m = lq_name q | None \<Rightarrow> False)) \<and>
     (lq_version q = [] \<or> (case pg_release p of Some r \<Rightarrow> versionMatch (lq_version q) (pr_version r) | None \<Rightarrow> False)) \<and>
     (lq_os q = [] \<or> (case pg_release p of Some r \<Rightarrow> pr_os r = lq_os q | None \<Rightarrow> False)) \<and>
     (lq_arch q = [] \<or> (case pg_release p of Some r \<Rightarrow> pr_arch r = lq_arch q | None \<Rightarrow> False))"

definition PackageList ::
    "('db, pkg_row) kvgo \<Rightarrow> app_validator \<Rightarrow> bool \<Rightarrow> nat list \<Rightarrow> (string \<Rightarrow> string \<Rightarrow> int) \<Rightarrow> list_req \<Rightarrow> 'db \<Rightarrow> pkg_err + pkg list" where
  "PackageList K av leader picks cmp q db =
     (case svc_guard av AuthScope_Package_Read leader of
        Some e \<Rightarrow> Inl (PkgSvc e)
      | None \<Rightarrow>
          let offset = NsPackageInfo [];
              rows = List.map_filter row_pkg (range_items (kv_range K db offset (upper_of offset) 1000 False));
              items = filter (list_selects q) rows in
          if \<not> lq_all q \<and> (\<exists>p \<in> set rows. pg_file p = None) then Inl PkgPanic
          else Inr (if lq_latest q \<and> items \<noteq> [] then filterLatestPackages picks cmp items else items))"

section \<open>Download\<close>

text \<open>
  What a host sees: the two calls of the zone (a list request, and a chunk by id and index, both with a text for an
  error), the platform, and the outcomes of the file operations. Unpacking an archive either succeeds, or fails before
  or after it has created the target directory. The file system is the list of archives with their bytes and the list of
  install directories.
\<close>

datatype extract_out = Extracted | ExtractFailed bool

record zone_api =
  za_list :: "list_req \<Rightarrow> string + pkg list"
  za_chunk :: "string \<Rightarrow> int \<Rightarrow> string + pkg_chunk option"

record dl_env =
  dl_prefix :: string
  dl_leader :: string
  dl_os :: string
  dl_arch :: string
  dl_driver :: "(string \<times> string) option"
  dl_lower :: "string \<Rightarrow> string"
  dl_connect :: bool
  dl_mkdir :: "string \<Rightarrow> bool"
  dl_create :: bool
  dl_write :: "int \<Rightarrow> bool"
  dl_sync :: bool
  dl_rename :: bool
  dl_extract :: "bytes \<Rightarrow> extract_out"

record fsys =
  fs_ipk :: "(string \<times> bytes) list"
  fs_installed :: "string list"

datatype dl_err =
    BadReference
  | NoLeader
  | ConnectFailed
  | ListFailed string
  | NotReady string string
  | NotFoundTried "string list"
  | NoPackageId
  | IoFailed string
  | ChunkFailed int string
  | ChunkEmpty int
  | ChunkCorrupt int
  | ExtractErr
  | DlPanic

definition PackageId :: "(string \<Rightarrow> string) \<Rightarrow> pkg \<Rightarrow> string" where
  "PackageId beyond p =
     (case (pg_meta p, pg_release p) of
        (Some m, Some r) \<Rightarrow> ToLower beyond (pm_name m @ ''_'' @ pr_version r @ ''_'' @ pr_os r @ ''_'' @ pr_arch r)
      | _ \<Rightarrow> [])"

text \<open>The candidates in the order they are tried; an empty native value is skipped.\<close>

definition candidates :: "string \<Rightarrow> string \<Rightarrow> (string \<times> string) list" where
  "candidates os arch = [(v, a). v \<leftarrow> [os, ''all''], v \<noteq> [], a \<leftarrow> [arch, ''src''], a \<noteq> []]"

definition native_query :: "string \<Rightarrow> string \<Rightarrow> string \<times> string \<Rightarrow> list_req" where
  "native_query name version oa =
     \<lparr>lq_name = name, lq_version = version, lq_os = fst oa, lq_arch = snd oa, lq_all = False, lq_latest = True\<rparr>"

fun try_candidates ::
    "(list_req \<Rightarrow> string + pkg list) \<Rightarrow> string \<Rightarrow> string \<Rightarrow> (string \<times> string) list \<Rightarrow> string list \<Rightarrow> dl_err + pkg" where
  "try_candidates ask name version [] tried = Inl (NotFoundTried tried)"
| "try_candidates ask name version (oa # oas) tried =
     (case ask (native_query name version oa) of
        Inl e \<Rightarrow> Inl (ListFailed e)
      | Inr [] \<Rightarrow> try_candidates ask name version oas (tried @ [fst oa @ ''/'' @ snd oa])
      | Inr (p # _) \<Rightarrow>
          if (case pg_file p of Some f \<Rightarrow> pf_state f \<noteq> PackageFileStateComplete | None \<Rightarrow> True)
          then Inl (NotReady (fst oa) (snd oa)) else Inr p)"

definition resolvePackage ::
    "(list_req \<Rightarrow> string + pkg list) \<Rightarrow> string \<Rightarrow> string \<Rightarrow> string \<Rightarrow> string \<Rightarrow> dl_err + pkg" where
  "resolvePackage ask name version os arch = try_candidates ask name version (candidates os arch) []"

fun download_chunks ::
    "(int \<Rightarrow> string + pkg_chunk option) \<Rightarrow> (int \<Rightarrow> bool) \<Rightarrow> int list \<Rightarrow> bytes \<Rightarrow> dl_err + bytes" where
  "download_chunks ask write [] file = Inr file"
| "download_chunks ask write (i # is) file =
     (case ask i of
        Inl e \<Rightarrow> Inl (ChunkFailed i e)
      | Inr None \<Rightarrow> Inl (ChunkEmpty i)
      | Inr (Some c) \<Rightarrow>
          if ck_data c = [] then Inl (ChunkEmpty i)
          else if ChecksumIEEE (ck_data c) \<noteq> ck_crc c then Inl (ChunkCorrupt i)
          else if \<not> write i then Inl (IoFailed ''write'')
          else download_chunks ask write is (file @ ck_data c))"

definition path_join :: "string list \<Rightarrow> string" where
  "path_join ps = (case filter (\<lambda>p. p \<noteq> []) ps of [] \<Rightarrow> [] | qs \<Rightarrow> Clean (join_with CHR ''/'' qs))"

definition IpkFile :: "string \<Rightarrow> string \<Rightarrow> string \<Rightarrow> string" where
  "IpkFile root name i = path_join [path_join [root, ''var'', ''ipk''], name, i @ ''.ipk'']"

definition IpkInstallPath :: "string \<Rightarrow> string \<Rightarrow> string \<Rightarrow> string" where
  "IpkInstallPath root name i = path_join [path_join [root, ''var'', ''ipk_install''], name, i]"

definition target_platform :: "dl_env \<Rightarrow> string \<times> string" where
  "target_platform E =
     (case dl_driver E of
        None \<Rightarrow> (dl_os E, dl_arch E)
      | Some (os, arch) \<Rightarrow> (if os \<noteq> [] then os else dl_os E, if arch \<noteq> [] then arch else dl_arch E))"

text \<open>The archive is complete on disk: unpack it.\<close>

definition install_archive :: "dl_env \<Rightarrow> string \<Rightarrow> bytes \<Rightarrow> fsys \<Rightarrow> fsys \<times> (dl_err + string)" where
  "install_archive E dir data fs =
     (case dl_extract E data of
        Extracted \<Rightarrow> (fs\<lparr>fs_installed := List.insert dir (fs_installed fs)\<rparr>, Inr dir)
      | ExtractFailed made \<Rightarrow>
          ((if made then fs\<lparr>fs_installed := List.insert dir (fs_installed fs)\<rparr> else fs), Inl ExtractErr))"

definition fetch_archive :: "dl_env \<Rightarrow> zone_api \<Rightarrow> string \<Rightarrow> string \<Rightarrow> pkg_file \<Rightarrow> fsys \<Rightarrow> fsys \<times> (dl_err + string)" where
  "fetch_archive E Z name i f fs =
     (let ipk = IpkFile (dl_prefix E) name i; dir = IpkInstallPath (dl_prefix E) name i in
      if \<not> dl_mkdir E (Dir ipk) \<or> \<not> dl_mkdir E (Dir dir) then (fs, Inl (IoFailed ''mkdir''))
      else if pf_chunk f = 0 then (fs, Inl DlPanic)
      else if \<not> dl_create E then (fs, Inl (IoFailed ''create''))
      else case download_chunks (za_chunk Z i) (dl_write E) (chunk_indices f) [] of
        Inl e \<Rightarrow> (fs, Inl e)
      | Inr data \<Rightarrow>
          if \<not> dl_sync E then (fs, Inl (IoFailed ''sync''))
          else if \<not> dl_rename E then (fs, Inl (IoFailed ''rename''))
          else install_archive E dir data (fs\<lparr>fs_ipk := AList.update ipk data (fs_ipk fs)\<rparr>))"

definition PackageDownload ::
    "dl_env \<Rightarrow> zone_api \<Rightarrow> (string \<times> string) option \<Rightarrow> fsys \<Rightarrow> fsys \<times> (dl_err + string)" where
  "PackageDownload E Z ref fs =
     (case ref of
        None \<Rightarrow> (fs, Inl BadReference)
      | Some (name, version) \<Rightarrow>
          if name = [] then (fs, Inl BadReference)
          else if dl_leader E = [] then (fs, Inl NoLeader)
          else if \<not> dl_connect E then (fs, Inl ConnectFailed)
          else (case resolvePackage (za_list Z) name version (fst (target_platform E)) (snd (target_platform E)) of
            Inl e \<Rightarrow> (fs, Inl e)
          | Inr p \<Rightarrow>
              (let i = PackageId (dl_lower E) p in
               if i = [] then (fs, Inl NoPackageId)
               else case (pg_meta p, pg_file p) of
                 (Some m, Some f) \<Rightarrow>
                   if IpkInstallPath (dl_prefix E) (pm_name m) i \<in> set (fs_installed fs)
                   then (fs, Inr (IpkInstallPath (dl_prefix E) (pm_name m) i))
                   else fetch_archive E Z (pm_name m) i f fs
               | _ \<Rightarrow> (fs, Inl DlPanic))))"

text \<open>All packages of an application, each name and version once; the last path of a name counts.\<close>

fun ensure_packages ::
    "dl_env \<Rightarrow> zone_api \<Rightarrow> (string \<times> string) option list \<Rightarrow> string list \<Rightarrow> (string \<times> string) list \<Rightarrow> fsys
      \<Rightarrow> fsys \<times> (dl_err + (string \<times> string) list)" where
  "ensure_packages E Z [] seen paths fs = (fs, Inr paths)"
| "ensure_packages E Z (None # refs) seen paths fs = ensure_packages E Z refs seen paths fs"
| "ensure_packages E Z (Some (name, version) # refs) seen paths fs =
     (let key = name @ '':'' @ version in
      if name = [] \<or> key \<in> set seen then ensure_packages E Z refs seen paths fs
      else case PackageDownload E Z (Some (name, version)) fs of
        (fs', Inl e) \<Rightarrow> (fs', Inl e)
      | (fs', Inr path) \<Rightarrow> ensure_packages E Z refs (key # seen) (AList.update name path paths) fs')"

definition EnsurePackages ::
    "dl_env \<Rightarrow> zone_api \<Rightarrow> (string \<times> string) option list option \<Rightarrow> fsys \<Rightarrow> fsys \<times> (dl_err + (string \<times> string) list)" where
  "EnsurePackages E Z refs fs = (case refs of None \<Rightarrow> (fs, Inr []) | Some rs \<Rightarrow> ensure_packages E Z rs [] [] fs)"

section \<open>The rows of a package\<close>

definition info_at :: "('db, pkg_row) kvgo \<Rightarrow> 'db \<Rightarrow> string \<Rightarrow> pkg option" where
  "info_at K db i = (case kv_get K db (NsPackageInfo i) of KvFound m (Some (InfoRow p)) \<Rightarrow> Some p | _ \<Rightarrow> None)"

definition chunk_at :: "('db, pkg_row) kvgo \<Rightarrow> 'db \<Rightarrow> string \<Rightarrow> int \<Rightarrow> pkg_chunk option" where
  "chunk_at K db i n = (case kv_get K db (NsPackageFileChunk i n) of KvFound m (Some (ChunkRow c)) \<Rightarrow> Some c | _ \<Rightarrow> None)"

definition chunk_ok :: "pkg_file \<Rightarrow> int \<Rightarrow> pkg_chunk \<Rightarrow> bool" where
  "chunk_ok f n c \<longleftrightarrow>
     ck_index c = n \<and> int (length (ck_data c)) = expectedChunkSize f n \<and> ChecksumIEEE (ck_data c) = ck_crc c"

definition stored_chunks :: "pkg_file \<Rightarrow> int set" where
  "stored_chunks f = (if pf_state f = PackageFileStateComplete then set (chunk_indices f) else set (pf_uploaded f))"

definition file_ok :: "pkg_file \<Rightarrow> bool" where
  "file_ok f \<longleftrightarrow>
     0 < pf_size f \<and> in_i64 (pf_size f) \<and> pf_chunk f = PackageFileChunkSizeDefault \<and>
     (if pf_state f = PackageFileStateComplete then 0 < calcTotalChunks (pf_size f) (pf_chunk f)
      else pf_state f = PackageFileStateUploading \<and> distinct (pf_uploaded f) \<and> set (pf_uploaded f) \<subseteq> set (chunk_indices f))"

text \<open>
  The record of a package is in order: its file is, it meets \<open>R\<close>, and every chunk it counts as stored is stored, has
  the size and checksum it should have and meets \<open>Q\<close>.
\<close>

definition pkg_ok ::
    "(int \<Rightarrow> bytes \<Rightarrow> bool) \<Rightarrow> (int \<Rightarrow> bool) \<Rightarrow> ('db, pkg_row) kvgo \<Rightarrow> 'db \<Rightarrow> string \<Rightarrow> bool" where
  "pkg_ok Q R K db i \<longleftrightarrow>
     (case info_at K db i of None \<Rightarrow> True | Some p \<Rightarrow>
        (\<exists>f. pg_file p = Some f \<and> file_ok f \<and> R (pf_size f) \<and>
           (\<forall>n \<in> stored_chunks f. \<exists>c. chunk_at K db i n = Some c \<and> chunk_ok f n c \<and> Q n (ck_data c))))"

lemma read_nat_zeros: "read_nat (replicate n CHR ''0'' @ s) = read_nat s"
  by (induction n) (simp_all add: read_nat_def digit_val_def)

lemma read_pad8: "read_nat (pad8 n) = nat n"
  by (simp add: pad8_def Let_def read_nat_zeros)

lemma pad8_inj: "0 \<le> m \<Longrightarrow> 0 \<le> n \<Longrightarrow> pad8 m = pad8 n \<Longrightarrow> m = n"
  using read_pad8 [of m] read_pad8 [of n] by simp

lemma pad8_no_slash: "CHR ''/'' \<notin> set (pad8 i)"
  using show_nat_no_sep [of "CHR ''/''" "nat i"] by (simp add: pad8_def Let_def is_digit_def)

lemma chunk_key_inj:
  assumes "0 \<le> m" "0 \<le> n"
  shows "NsPackageFileChunk i m = NsPackageFileChunk j n \<longleftrightarrow> i = j \<and> m = n"
proof
  assume "NsPackageFileChunk i m = NsPackageFileChunk j n"
  then have "i @ CHR ''/'' # pad8 m = j @ CHR ''/'' # pad8 n" by (simp add: NsPackageFileChunk_def)
  from append_sep_inj_last [OF pad8_no_slash pad8_no_slash this] show "i = j \<and> m = n" using pad8_inj [OF assms] by blast
qed simp

lemma info_key_inj [simp]: "NsPackageInfo i = NsPackageInfo j \<longleftrightarrow> i = j"
  by (simp add: NsPackageInfo_def)

lemma info_chunk_keys [simp]: "NsPackageInfo i \<noteq> NsPackageFileChunk j n" "NsPackageFileChunk j n \<noteq> NsPackageInfo i"
  by (simp_all add: NsPackageInfo_def NsPackageFileChunk_def)

lemma chunk_indices_nonneg: "n \<in> set (chunk_indices f) \<Longrightarrow> 0 \<le> n"
  by (auto simp: chunk_indices_def)

lemma stored_nonneg: "file_ok f \<Longrightarrow> n \<in> stored_chunks f \<Longrightarrow> 0 \<le> n"
  using chunk_indices_nonneg by (auto simp: file_ok_def stored_chunks_def split: if_splits)

text \<open>What a write or a delete does to the rows.\<close>

definition same_pkg :: "('db, pkg_row) kvgo \<Rightarrow> 'db \<Rightarrow> 'db \<Rightarrow> string \<Rightarrow> bool" where
  "same_pkg K db db' i \<longleftrightarrow> info_at K db' i = info_at K db i \<and> (\<forall>n \<ge> 0. chunk_at K db' i n = chunk_at K db i n)"

lemma same_refl [simp]: "same_pkg K db db i"
  by (simp add: same_pkg_def)

lemma same_trans: "same_pkg K a b i \<Longrightarrow> same_pkg K b c i \<Longrightarrow> same_pkg K a c i"
  by (simp add: same_pkg_def)

lemma pkg_ok_same: "same_pkg K db db' i \<Longrightarrow> pkg_ok Q R K db' i = pkg_ok Q R K db i"
  using stored_nonneg unfolding pkg_ok_def same_pkg_def by (simp split: option.split) metis

lemma same_of_get: "(\<And>k. kv_get K db' k = kv_get K db k) \<Longrightarrow> same_pkg K db db' i"
  by (simp add: same_pkg_def info_at_def chunk_at_def)

lemma put_chunk_effect:
  assumes K: "kv_lawful K" and put: "kv_put K db (NsPackageFileChunk i n) opt (ChunkRow c) = (db', KvWritten m)" and n: "0 \<le> n"
  shows "info_at K db' = info_at K db" "chunk_at K db' i n = Some c"
    "\<And>j k. 0 \<le> k \<Longrightarrow> (j, k) \<noteq> (i, n) \<Longrightarrow> chunk_at K db' j k = chunk_at K db j k"
  using kv_put_read [OF K put] kv_put_other [OF K put] n
  by (auto simp: info_at_def chunk_at_def chunk_key_inj fun_eq_iff)

lemma put_info_effect:
  assumes K: "kv_lawful K" and put: "kv_put K db (NsPackageInfo i) opt (InfoRow p) = (db', KvWritten m)"
  shows "info_at K db' i = Some p" "j \<noteq> i \<Longrightarrow> info_at K db' j = info_at K db j" "chunk_at K db' = chunk_at K db"
  using kv_put_read [OF K put] kv_put_other [OF K put] by (auto simp: info_at_def chunk_at_def fun_eq_iff)

lemma put_fails_same: "kv_lawful K \<Longrightarrow> kv_put K db k opt v = (db', KvWriteErr e) \<Longrightarrow> same_pkg K db db' i"
  by (rule same_of_get) (rule kv_put_fail)

lemma del_other_key:
  assumes "kv_lawful K" "kv_del_quiet K" "k' \<noteq> k"
  shows "kv_get K (fst (kv_del K db k)) k' = kv_get K db k'"
proof (cases "snd (kv_del K db k) = KvDeleted")
  case True
  then show ?thesis using kv_del_other [OF assms(1) _ assms(3)] by (metis prod.collapse)
next
  case False
  then show ?thesis using assms(2) unfolding kv_del_quiet_def by (metis prod.collapse)
qed

lemma delete_fold_other:
  assumes K: "kv_lawful K" "kv_del_quiet K" and k: "\<forall>n \<in> set ns. k \<noteq> NsPackageFileChunk i n"
  shows "kv_get K (fst (fold (delete_chunk K i) ns s)) k = kv_get K (fst s) k"
  using k
proof (induction ns arbitrary: s)
  case (Cons n ns)
  have "fst (delete_chunk K i n s) = fst (kv_del K (fst s) (NsPackageFileChunk i n))"
    by (simp add: delete_chunk_def split: prod.split)
  then show ?case using Cons del_other_key [OF K, of k "NsPackageFileChunk i n" "fst s"] by simp
qed simp

lemma delete_chunks_info:
  assumes K: "kv_lawful K" "kv_del_quiet K"
  shows "kv_get K (fst (delete_chunks K i f db)) (NsPackageInfo j) = kv_get K db (NsPackageInfo j)"
  unfolding delete_chunks_def by (subst delete_fold_other [OF K]) auto

lemma delete_chunks_other:
  assumes K: "kv_lawful K" "kv_del_quiet K" and "j \<noteq> i"
  shows "same_pkg K db (fst (delete_chunks K i f db)) j"
proof -
  have "kv_get K (fst (delete_chunks K i f db)) (NsPackageFileChunk j n) = kv_get K db (NsPackageFileChunk j n)" if "0 \<le> n" for n
    unfolding delete_chunks_def
    using delete_fold_other [OF K, of "chunk_indices f" "NsPackageFileChunk j n" i "(db, 0)"] assms(3) that
      chunk_indices_nonneg chunk_key_inj by (metis fst_conv)
  then show ?thesis using delete_chunks_info [OF K] by (simp add: same_pkg_def info_at_def chunk_at_def)
qed

section \<open>Chunk arithmetic\<close>

lemma i64_pred: "i64 (i64 a - 1) = i64 (a - 1)"
  by (simp add: i64_def mod_simps algebra_simps)

lemma godiv_neg: "a < 0 \<Longrightarrow> 0 < b \<Longrightarrow> godiv a b \<le> 0"
  by (simp add: godiv_def pos_imp_zdiv_nonneg_iff)

lemma calcTotalChunks_eq:
  assumes sz: "0 < z" "in_i64 z" and pos: "0 < calcTotalChunks z PackageFileChunkSizeDefault"
  shows "calcTotalChunks z PackageFileChunkSizeDefault = (z + 2 ^ 20 - 1) div 2 ^ 20"
proof (cases "z + 2 ^ 20 - 1 < 2 ^ 63")
  case True
  then have "in_i64 (z + 2 ^ 20 - 1)" using sz by (simp add: in_i64_def)
  then show ?thesis using sz(1) by (simp add: calcTotalChunks_def PackageFileChunkSizeDefault_def i64_pred)
next
  case False
  let ?x = "z + 2 ^ 20 - 1 + 2 ^ 63 - 2 ^ 64 :: int"
  have "0 \<le> ?x" "?x < 2 ^ 64" using False sz(2) by (simp_all add: in_i64_def)
  then have "?x mod 2 ^ 64 = ?x" by (rule mod_pos_pos_trivial)
  moreover have "?x mod 2 ^ 64 = (z + 2 ^ 20 - 1 + 2 ^ 63) mod 2 ^ 64" by (rule minus_mod_self2)
  ultimately have "i64 (z + 2 ^ 20 - 1) = z + 2 ^ 20 - 1 - 2 ^ 64" by (simp add: i64_def)
  then have "i64 (z + 2 ^ 20 - 1) < 0" using sz(2) by (simp add: in_i64_def)
  then show ?thesis using pos godiv_neg [of "i64 (z + 2 ^ 20 - 1)" "2 ^ 20"]
    by (simp add: calcTotalChunks_def PackageFileChunkSizeDefault_def i64_pred)
qed

lemma chunk_count:
  assumes "file_ok f" "chunk_indices f \<noteq> []"
  obtains t where "chunk_indices f = map int [0..<Suc t]" "calcTotalChunks (pf_size f) (pf_chunk f) = int (Suc t)"
    "int t * 2 ^ 20 < pf_size f" "pf_size f \<le> int (Suc t) * 2 ^ 20"
proof -
  let ?T = "calcTotalChunks (pf_size f) (pf_chunk f)"
  have pos: "0 < ?T" using assms(2) by (simp add: chunk_indices_def)
  then have T: "?T = (pf_size f + 2 ^ 20 - 1) div 2 ^ 20"
    using calcTotalChunks_eq [of "pf_size f"] assms(1) by (simp add: file_ok_def)
  obtain t where t: "nat ?T = Suc t" using pos by (cases "nat ?T") auto
  then have T': "?T = int (Suc t)" using pos by linarith
  let ?x = "pf_size f + 2 ^ 20 - 1"
  have "?x = int (Suc t) * 2 ^ 20 + ?x mod 2 ^ 20" using T T' div_mult_mod_eq [of ?x "2 ^ 20"] by simp
  moreover have "0 \<le> ?x mod 2 ^ 20" "?x mod 2 ^ 20 < 2 ^ 20" by simp_all
  ultimately have "int t * 2 ^ 20 < pf_size f" "pf_size f \<le> int (Suc t) * 2 ^ 20"
    by (simp_all add: algebra_simps)
  then show ?thesis using that [of t] t T' by (simp add: chunk_indices_def)
qed

lemma expected_size:
  assumes "file_ok f" "calcTotalChunks (pf_size f) (pf_chunk f) = int (Suc t)"
    "int t * 2 ^ 20 < pf_size f" "pf_size f \<le> int (Suc t) * 2 ^ 20"
  shows "n < t \<Longrightarrow> expectedChunkSize f (int n) = 2 ^ 20" "expectedChunkSize f (int t) = pf_size f - int t * 2 ^ 20"
proof -
  have c: "pf_chunk f = 2 ^ 20" and s: "0 < pf_size f"
    using assms(1) by (simp_all add: file_ok_def PackageFileChunkSizeDefault_def)
  show "n < t \<Longrightarrow> expectedChunkSize f (int n) = 2 ^ 20"
    using assms(2) c by (simp add: expectedChunkSize_def)
  show "expectedChunkSize f (int t) = pf_size f - int t * 2 ^ 20"
  proof (cases "pf_size f = int (Suc t) * 2 ^ 20")
    case True
    then have "pf_size f mod 2 ^ 20 = 0" by simp
    then show ?thesis using assms(2) c s True by (simp add: expectedChunkSize_def algebra_simps)
  next
    case False
    have "pf_size f mod 2 ^ 20 = pf_size f - int t * 2 ^ 20"
      using assms(3,4) False mod_mult_self1 [of "pf_size f - int t * 2 ^ 20" "int t" "2 ^ 20"]
    by (simp add: mod_pos_pos_trivial)
    then show ?thesis using assms(2,3) c s by (simp add: expectedChunkSize_def)
  qed
qed

lemma expected_pos: "file_ok f \<Longrightarrow> n \<in> set (chunk_indices f) \<Longrightarrow> 0 < expectedChunkSize f n"
proof -
  assume ok: "file_ok f" and n: "n \<in> set (chunk_indices f)"
  then have "chunk_indices f \<noteq> []" by auto
  then obtain t where t: "chunk_indices f = map int [0..<Suc t]" "calcTotalChunks (pf_size f) (pf_chunk f) = int (Suc t)"
    "int t * 2 ^ 20 < pf_size f" "pf_size f \<le> int (Suc t) * 2 ^ 20"
    using chunk_count [OF ok] by metis
  obtain k where k: "n = int k" "k < Suc t" using n t(1) by auto
  show ?thesis using expected_size [OF ok t(2-4)] k t(3) by (cases "k < t") (auto simp: less_Suc_eq)
qed

text \<open>The chunks of the sizes a file asks for make up the file.\<close>

lemma concat_size:
  assumes ok: "file_ok f" and ne: "chunk_indices f \<noteq> []"
    and len: "\<And>n. n \<in> set (chunk_indices f) \<Longrightarrow> int (length (d n)) = expectedChunkSize f n"
  shows "int (length (concat (map d (chunk_indices f)))) = pf_size f"
proof -
  obtain t where t: "chunk_indices f = map int [0..<Suc t]" "calcTotalChunks (pf_size f) (pf_chunk f) = int (Suc t)"
    "int t * 2 ^ 20 < pf_size f" "pf_size f \<le> int (Suc t) * 2 ^ 20"
    using chunk_count [OF ok ne] by metis
  have "k \<le> t \<Longrightarrow> int (length (concat (map d (map int [0..<k])))) = int k * 2 ^ 20" for k
  proof (induction k)
    case (Suc k)
    then show ?case using len [of "int k"] expected_size(1) [OF ok t(2-4), of k] t(1) by (simp add: algebra_simps)
  qed simp
  from this [of t] show ?thesis
    using len [of "int t"] expected_size(2) [OF ok t(2-4)] t(1) by simp
qed

definition slice_of :: "bytes \<Rightarrow> int \<Rightarrow> bytes" where
  "slice_of d n = take (nat PackageFileChunkSizeDefault) (drop (nat n * nat PackageFileChunkSizeDefault) d)"

lemma concat_slices: "concat (map (slice_of d) (map int [0..<k])) = take (k * nat PackageFileChunkSizeDefault) d"
proof (induction k)
  case (Suc k)
  let ?c = "nat PackageFileChunkSizeDefault"
  have "concat (map (slice_of d) (map int [0..<Suc k])) = take (k * ?c) d @ take ?c (drop (k * ?c) d)"
    using Suc by (simp add: slice_of_def [of d "int k"])
  also have "\<dots> = take (k * ?c + ?c) d" by (simp only: take_add)
  finally show ?case by (simp add: add.commute)
qed simp

lemma concat_slices_all:
  assumes ok: "file_ok f" and ne: "chunk_indices f \<noteq> []" and sz: "pf_size f = int (length d)"
  shows "concat (map (slice_of d) (chunk_indices f)) = d"
proof -
  obtain t where t: "chunk_indices f = map int [0..<Suc t]" "pf_size f \<le> int (Suc t) * 2 ^ 20"
    using chunk_count [OF ok ne] by metis
  have "length d \<le> Suc t * nat PackageFileChunkSizeDefault"
    using t(2) sz unfolding PackageFileChunkSizeDefault_def by simp
  then show ?thesis unfolding t(1) concat_slices by simp
qed

section \<open>Uploads keep the records in order\<close>

lemma new_upload_Inr:
  assumes "new_upload E rq = Inr p"
  obtains f where "pg_file p = Some f" "pf_state f = PackageFileStateUploading" "pf_uploaded f = []"
    "pf_chunk f = pq_chunk_size rq" "\<exists>q g. pq_package rq = Some q \<and> pg_file q = Some g \<and> pf_size f = pf_size g"
  using assms by (auto simp: new_upload_def split: option.splits)

lemma states_differ [simp]: "PackageFileStateUploading \<noteq> PackageFileStateComplete" "PackageFileStateComplete \<noteq> PackageFileStateUploading"
  by (simp_all add: package_states)

lemma check_first_file:
  assumes "check_first E rq = None"
  obtains q g where "pq_package rq = Some q" "pg_file q = Some g" "0 < pf_size g" "pq_chunk_size rq = PackageFileChunkSizeDefault"
  using assms by (auto simp: check_first_def check_file_def split: option.splits if_splits)

lemma new_upload_ok:
  assumes "new_upload E rq = Inr p" "check_first E rq = None"
    and "\<And>q g. pq_package rq = Some q \<Longrightarrow> pg_file q = Some g \<Longrightarrow> in_i64 (pf_size g) \<and> R (pf_size g)"
  obtains f where "pg_file p = Some f" "pf_state f = PackageFileStateUploading" "pf_uploaded f = []" "file_ok f" "R (pf_size f)"
proof -
  obtain f where f: "pg_file p = Some f" "pf_state f = PackageFileStateUploading" "pf_uploaded f = []"
    "pf_chunk f = pq_chunk_size rq" "\<exists>q g. pq_package rq = Some q \<and> pg_file q = Some g \<and> pf_size f = pf_size g"
    using new_upload_Inr [OF assms(1)] by metis
  obtain q g where g: "pq_package rq = Some q" "pg_file q = Some g" "0 < pf_size g" "pq_chunk_size rq = PackageFileChunkSizeDefault"
    using check_first_file [OF assms(2)] by metis
  have "pf_size f = pf_size g" using f(5) g(1,2) by auto
  then show ?thesis using that [OF f(1-3)] f g assms(3) [OF g(1,2)] by (simp add: file_ok_def)
qed

text \<open>A checked chunk is one of the file's, with the right size and checksum.\<close>

lemma check_chunk_None:
  assumes "check_chunk f c = None"
  shows "ck_index c \<in> set (chunk_indices f)" "chunk_ok f (ck_index c) c" "0 \<le> ck_index c"
proof -
  have i: "0 \<le> ck_index c" "ck_index c < calcTotalChunks (pf_size f) (pf_chunk f)"
    using assms by (auto simp: check_chunk_def Let_def split: if_splits)
  then have "ck_index c = int (nat (ck_index c))" "nat (ck_index c) < nat (calcTotalChunks (pf_size f) (pf_chunk f))" by auto
  then show "ck_index c \<in> set (chunk_indices f)" unfolding chunk_indices_def by (metis atLeastLessThan_iff image_eqI le0 list.set_map set_upt)
  show "chunk_ok f (ck_index c) c" using assms by (auto simp: check_chunk_def chunk_ok_def Let_def split: if_splits)
  show "0 \<le> ck_index c" by (rule i(1))
qed

lemma add_uploaded_sel [simp]:
  "pf_size (add_uploaded E i f) = pf_size f" "pf_chunk (add_uploaded E i f) = pf_chunk f"
  "chunk_indices (add_uploaded E i f) = chunk_indices f"
  "expectedChunkSize (add_uploaded E i f) n = expectedChunkSize f n"
  "chunk_ok (add_uploaded E i f) n c = chunk_ok f n c"
  by (simp_all add: add_uploaded_def Let_def chunk_indices_def expectedChunkSize_def chunk_ok_def)

lemma chunk_indices_card: "card (set (chunk_indices f)) = nat (calcTotalChunks (pf_size f) (pf_chunk f))"
  by (simp add: chunk_indices_def card_image)

text \<open>A file is complete exactly when every chunk has come.\<close>

lemma add_uploaded_stored:
  assumes ok: "file_ok f" and up: "pf_state f = PackageFileStateUploading" and i: "i \<in> set (chunk_indices f)" "i \<notin> set (pf_uploaded f)"
  shows "stored_chunks (add_uploaded E i f) = insert i (set (pf_uploaded f))" "file_ok (add_uploaded E i f)"
proof -
  let ?T = "calcTotalChunks (pf_size f) (pf_chunk f)" and ?ups = "sort (pf_uploaded f @ [i])"
  have d: "distinct (pf_uploaded f)" "set (pf_uploaded f) \<subseteq> set (chunk_indices f)" using ok up by (simp_all add: file_ok_def)
  then have u: "distinct ?ups" "set ?ups = insert i (set (pf_uploaded f))" "set ?ups \<subseteq> set (chunk_indices f)" using i by auto
  have T: "0 < ?T" using i(1) by (auto simp: chunk_indices_def)
  have full: "set ?ups = set (chunk_indices f)" if "int (length ?ups) = ?T"
    using u that distinct_card [OF u(1)] chunk_indices_card [of f] T by (intro card_subset_eq) auto
  show "stored_chunks (add_uploaded E i f) = insert i (set (pf_uploaded f))"
    using full u(2) up T by (auto simp: stored_chunks_def add_uploaded_def Let_def chunk_indices_def)
  show "file_ok (add_uploaded E i f)"
    using ok up u T by (auto simp: file_ok_def add_uploaded_def Let_def chunk_indices_def)
qed

lemma stored_uploading: "pf_state f = PackageFileStateUploading \<Longrightarrow> stored_chunks f = set (pf_uploaded f)"
  by (simp add: stored_chunks_def)

lemma chunk_ok_upload [simp]: "chunk_ok f n (c\<lparr>ck_uploaded := t\<rparr>) = chunk_ok f n c"
  by (simp add: chunk_ok_def)

lemma pkg_ok_None: "info_at K db i = None \<Longrightarrow> pkg_ok Q R K db i"
  by (simp add: pkg_ok_def)

text \<open>Calls on one package leave the others alone.\<close>

lemma store_frame:
  assumes K: "kv_lawful K" and st: "store_chunk K E i c p f (locks, db) = ((locks', db'), r)" and c: "0 \<le> ck_index c" and j: "j \<noteq> i"
  shows "same_pkg K db db' j"
proof -
  let ?c = "c\<lparr>ck_uploaded := en_now E\<rparr>" and ?f = "add_uploaded E (ck_index c) f"
  obtain db1 w where put: "kv_put K db (NsPackageFileChunk i (ck_index c)) plain_put (ChunkRow ?c) = (db1, w)"
    by (metis prod.collapse)
  obtain db2 w2 where put2: "kv_put K db1 (NsPackageInfo i) plain_put (InfoRow (p\<lparr>pg_file := Some ?f\<rparr>)) = (db2, w2)"
    by (metis prod.collapse)
  have db': "db' = (case w of KvWriteErr e \<Rightarrow> db1 | KvWritten m \<Rightarrow> db2)"
    using st put put2 by (cases w; cases w2) (simp_all add: store_chunk_def Let_def)
  have "same_pkg K db db1 j"
  proof (cases w)
    case (KvWritten m)
    then show ?thesis using put_chunk_effect(1,3) [OF K put [unfolded KvWritten] c] j by (simp add: same_pkg_def)
  qed (use put_fails_same [OF K] put in blast)
  moreover have "same_pkg K db1 db2 j"
  proof (cases w2)
    case (KvWritten m)
    then show ?thesis using put_info_effect(2,3) [OF K put2 [unfolded KvWritten]] j by (simp add: same_pkg_def)
  qed (use put_fails_same [OF K] put2 in blast)
  ultimately show ?thesis using same_trans [of K db db1 j db2] by (cases w) (simp_all add: db')
qed

lemma push_frame:
  assumes K: "kv_lawful K" "kv_del_quiet K" and st: "push_chunk K E rq c (locks, db) = ((locks', db'), r)" and j: "j \<noteq> pq_id rq"
  shows "same_pkg K db db' j"
proof (cases "read_upload K E rq c db")
  case (Inl e) then show ?thesis using st by (simp add: push_chunk_def)
next
  case (Inr p)
  obtain db1 u where ren: "renew_upload K E rq c p db = (db1, u)" by (metis prod.collapse)
  have "db1 = db \<or> (\<exists>f. db1 = fst (delete_chunks K (pq_id rq) f db))"
    using ren by (auto simp: renew_upload_def split: option.splits if_splits)
  then have s1: "same_pkg K db db1 j" using delete_chunks_other [OF K j] by auto
  have "db' = db1 \<or> (\<exists>p' f. check_chunk f c = None \<and> store_chunk K E (pq_id rq) c p' f (locks, db1) = ((locks', db'), r))"
    using st Inr ren by (auto simp: push_chunk_def split: sum.splits upload_state.splits option.splits if_splits)
  then show ?thesis
    using s1 store_frame [OF K(1) _ check_chunk_None(3) j] same_trans [of K db db1 j db'] by metis
qed

text \<open>
  Storing a checked chunk keeps the record in order. The record of the database is the one in hand or none, or (when
  a package is replaced) the store takes every write.
\<close>

lemma store_chunk_ok:
  assumes K: "kv_lawful K" and st: "store_chunk K E i c p f (locks, db) = ((locks', db'), r)"
    and f: "pf_state f = PackageFileStateUploading" "file_ok f" "R (pf_size f)" "check_chunk f c = None"
      "ck_index c \<notin> set (pf_uploaded f)" "Q (ck_index c) (ck_data c)"
    and rows: "\<forall>n \<in> set (pf_uploaded f). \<exists>c. chunk_at K db i n = Some c \<and> chunk_ok f n c \<and> Q n (ck_data c)"
    and info: "kv_accepts K \<or> info_at K db i = None \<or> info_at K db i = Some p \<and> pg_file p = Some f"
  shows "pkg_ok Q R K db' i"
proof -
  note c = check_chunk_None [OF f(4)]
  let ?c = "c\<lparr>ck_uploaded := en_now E\<rparr>" and ?f = "add_uploaded E (ck_index c) f"
  have cur: "kv_accepts K \<or> pkg_ok Q R K db i"
    using info f(1-3) rows by (auto simp: pkg_ok_def stored_uploading)
  have old: "\<exists>c. chunk_at K db1 i n = Some c \<and> chunk_ok f n c \<and> Q n (ck_data c)"
    if "chunk_at K db1 i n = chunk_at K db i n" "n \<in> set (pf_uploaded f)" for db1 n
    using that rows by simp
  obtain db1 w where put: "kv_put K db (NsPackageFileChunk i (ck_index c)) plain_put (ChunkRow ?c) = (db1, w)"
    by (metis prod.collapse)
  show ?thesis
  proof (cases w)
    case (KvWriteErr e)
    then have "db' = db1" using st put by (simp add: store_chunk_def)
    moreover have "\<not> kv_accepts K" using put KvWriteErr unfolding kv_accepts_def plain_put_def
      by (metis kv_wopt.update_convs(3) kv_wr.distinct(1) prod.inject)
    ultimately show ?thesis using put_fails_same [OF K put [unfolded KvWriteErr]] cur
      pkg_ok_same [of K db db1 i Q R] by simp
  next
    case (KvWritten m)
    note e1 = put_chunk_effect [OF K put [unfolded KvWritten] c(3)]
    obtain db2 w2 where put2: "kv_put K db1 (NsPackageInfo i) plain_put (InfoRow (p\<lparr>pg_file := Some ?f\<rparr>)) = (db2, w2)"
      by (metis prod.collapse)
    have db': "db' = db2" using st put put2 KvWritten by (cases w2) (simp_all add: store_chunk_def Let_def)
    have keep: "chunk_at K db1 i n = chunk_at K db i n" if "n \<in> set (pf_uploaded f)" for n
      using e1(3) [of n i] that f(1,2,5) chunk_indices_nonneg by (auto simp: file_ok_def)
    show ?thesis
    proof (cases w2)
      case (KvWriteErr e)
      have "\<not> kv_accepts K" using put2 KvWriteErr unfolding kv_accepts_def plain_put_def
        by (metis kv_wopt.update_convs(3) kv_wr.distinct(1) prod.inject)
      then have "pkg_ok Q R K db1 i"
        using info f(1-3) old keep by (auto simp: pkg_ok_def e1(1) stored_uploading)
      then show ?thesis
        using put_fails_same [OF K put2 [unfolded KvWriteErr]] pkg_ok_same [of K db1 db2 i Q R] unfolding db' by simp
    next
      case (KvWritten m2)
      note e2 = put_info_effect [OF K put2 [unfolded KvWritten]]
      note s = add_uploaded_stored [OF f(2,1) c(1) f(5), of E]
      have "\<exists>c. chunk_at K db2 i n = Some c \<and> chunk_ok ?f n c \<and> Q n (ck_data c)" if "n \<in> stored_chunks ?f" for n
        using that old [OF keep] e1(2) c(2) f(6) unfolding s(1) e2(3) add_uploaded_sel by auto
      then show ?thesis using s(2) f(3) unfolding db' by (simp add: pkg_ok_def e2(1))
    qed
  qed
qed

text \<open>A request that replaces a package carries a first chunk that fits the file it describes.\<close>

definition replaces_well :: "pkg_env \<Rightarrow> push_req \<Rightarrow> bool" where
  "replaces_well E rq \<longleftrightarrow>
     (\<forall>c p f. pq_chunk rq = Some c \<and> new_upload E rq = Inr p \<and> pg_file p = Some f \<longrightarrow> check_chunk f c = None)"

definition request_meets :: "(int \<Rightarrow> bytes \<Rightarrow> bool) \<Rightarrow> (int \<Rightarrow> bool) \<Rightarrow> ('db, pkg_row) kvgo \<Rightarrow> pkg_env \<Rightarrow> push_req \<Rightarrow> bool" where
  "request_meets Q R K E rq \<longleftrightarrow>
     (\<forall>c. pq_chunk rq = Some c \<longrightarrow> Q (ck_index c) (ck_data c)) \<and>
     (\<forall>q g. pq_package rq = Some q \<longrightarrow> pg_file q = Some g \<longrightarrow> in_i64 (pf_size g) \<and> R (pf_size g)) \<and>
     (pq_overwrite rq \<longrightarrow> kv_accepts K \<and> replaces_well E rq)"

lemma check_first_upload: "check_first E rq = None \<Longrightarrow> \<exists>p. new_upload E rq = Inr p"
  by (auto simp: new_upload_def elim!: check_first_file)

lemma read_upload_Inr:
  "read_upload K E rq c db = Inr p \<Longrightarrow>
     info_at K db (pq_id rq) = Some p \<or> info_at K db (pq_id rq) = None \<and> ck_index c = 0 \<and> new_upload E rq = Inr p"
  by (auto simp: read_upload_def info_at_def split: kv_read.splits option.splits pkg_row.splits if_splits)

lemma push_chunk_ok:
  assumes K: "kv_lawful K" "kv_del_quiet K" and ok: "pkg_ok Q R K db (pq_id rq)" and rq: "request_meets Q R K E rq"
    and c: "pq_chunk rq = Some c" and first: "ck_index c = 0 \<Longrightarrow> check_first E rq = None"
    and st: "push_chunk K E rq c (locks, db) = ((locks', db'), r)"
  shows "pkg_ok Q R K db' (pq_id rq)"
proof (cases "read_upload K E rq c db")
  case (Inl e)
  then show ?thesis using st ok by (simp add: push_chunk_def)
next
  case (Inr p)
  let ?i = "pq_id rq"
  have pk: "\<And>q g. pq_package rq = Some q \<Longrightarrow> pg_file q = Some g \<Longrightarrow> in_i64 (pf_size g) \<and> R (pf_size g)"
    and Qc: "Q (ck_index c) (ck_data c)" using rq c by (auto simp: request_meets_def)
  note cur = read_upload_Inr [OF Inr]
  have "\<exists>f. pg_file p = Some f \<and> file_ok f \<and> R (pf_size f) \<and>
      (pf_state f = PackageFileStateUploading \<longrightarrow>
        (\<forall>n \<in> set (pf_uploaded f). \<exists>c. chunk_at K db ?i n = Some c \<and> chunk_ok f n c \<and> Q n (ck_data c)))"
    using cur
  proof
    assume "info_at K db ?i = Some p"
    then show ?thesis using ok by (auto simp: pkg_ok_def stored_uploading)
  next
    assume n: "info_at K db ?i = None \<and> ck_index c = 0 \<and> new_upload E rq = Inr p"
    then show ?thesis using new_upload_ok [of E rq p R] first pk by (metis empty_iff list.set(1))
  qed
  then obtain f where f: "pg_file p = Some f" "file_ok f" "R (pf_size f)"
    "pf_state f = PackageFileStateUploading \<Longrightarrow>
       \<forall>n \<in> set (pf_uploaded f). \<exists>c. chunk_at K db ?i n = Some c \<and> chunk_ok f n c \<and> Q n (ck_data c)" by blast
  show ?thesis
  proof (cases "pf_state f = PackageFileStateComplete")
    case False
    then have up: "pf_state f = PackageFileStateUploading" using f(2) by (simp add: file_ok_def)
    show ?thesis
    proof (cases "check_chunk f c = None \<and> ck_index c \<notin> set (pf_uploaded f)")
      case True
      then have st': "store_chunk K E ?i c p f (locks, db) = ((locks', db'), r)"
        using st Inr f(1) False by (simp add: push_chunk_def renew_upload_def)
      have "info_at K db ?i = None \<or> info_at K db ?i = Some p \<and> pg_file p = Some f" using cur f(1) by blast
      then show ?thesis
        using store_chunk_ok [OF K(1) st' up f(2), where R = R and Q = Q] f(3) True f(4) [OF up] Qc by simp
    next
      case no: False
      then have "db' = db" using st Inr f(1) False by (auto simp: push_chunk_def renew_upload_def split: option.splits)
      then show ?thesis using ok by simp
    qed
  next
    case complete: True
    show ?thesis
    proof (cases "pq_overwrite rq \<and> ck_index c = 0")
      case False
      then have "db' = db" using st Inr f(1) complete by (auto simp: push_chunk_def renew_upload_def split: if_splits)
      then show ?thesis using ok by simp
    next
      case over: True
      then have acc: "kv_accepts K" and rw: "replaces_well E rq" using rq by (auto simp: request_meets_def)
      obtain p' where p': "new_upload E rq = Inr p'" using check_first_upload first over by blast
      obtain f' where f': "pg_file p' = Some f'" "pf_state f' = PackageFileStateUploading" "pf_uploaded f' = []" "file_ok f'" "R (pf_size f')"
        using new_upload_ok [OF p', of R] first over pk by metis
      have chk: "check_chunk f' c = None" using rw c p' f'(1) by (simp add: replaces_well_def)
      let ?db = "fst (delete_chunks K ?i f db)"
      have "pf_chunk f \<noteq> 0" using f(2) by (simp add: file_ok_def PackageFileChunkSizeDefault_def)
      then have "store_chunk K E ?i c p' f' (locks, ?db) = ((locks', db'), r)"
        using st Inr f(1) complete over p' f'(1,3) chk by (simp add: push_chunk_def renew_upload_def)
      from store_chunk_ok [OF K(1) this f'(2,4), where R = R and Q = Q] show ?thesis
        using f'(3,5) chk acc Qc by simp
    qed
  qed
qed

section \<open>Runs of calls\<close>

datatype pkg_call = CallPush app_validator bool pkg_env push_req | CallDelete app_validator bool string

definition pkg_step :: "('db, pkg_row) kvgo \<Rightarrow> pkg_call \<Rightarrow> string list \<times> 'db \<Rightarrow> string list \<times> 'db" where
  "pkg_step K call s =
     (case call of
        CallPush av leader E rq \<Rightarrow> fst (PackagePush K av leader E rq s)
      | CallDelete av leader i \<Rightarrow> fst (PackageDelete K av leader i s))"

definition pkg_run :: "('db, pkg_row) kvgo \<Rightarrow> pkg_call list \<Rightarrow> string list \<times> 'db \<Rightarrow> string list \<times> 'db" where
  "pkg_run K calls s = fold (pkg_step K) calls s"

text \<open>The pushes of a run that concern package \<open>i\<close> carry chunks with \<open>Q\<close> of files with \<open>R\<close>.\<close>

definition call_meets ::
    "(int \<Rightarrow> bytes \<Rightarrow> bool) \<Rightarrow> (int \<Rightarrow> bool) \<Rightarrow> ('db, pkg_row) kvgo \<Rightarrow> string \<Rightarrow> pkg_call \<Rightarrow> bool" where
  "call_meets Q R K i call \<longleftrightarrow>
     (case call of CallPush av leader E rq \<Rightarrow> pq_id rq = i \<longrightarrow> request_meets Q R K E rq | CallDelete av leader j \<Rightarrow> True)"

lemma call_meets_any: "call_meets Q R K i c \<Longrightarrow> call_meets (\<lambda>_ _. True) (\<lambda>_. True) K i c"
  by (cases c) (auto simp: call_meets_def request_meets_def)

lemma PackagePush_cases:
  assumes "PackagePush K av leader E rq (locks, db) = (s', r)"
  obtains "snd s' = db" | c where "pq_chunk rq = Some c" "ck_index c = 0 \<Longrightarrow> check_first E rq = None"
    "push_chunk K E rq c (List.insert (pq_id rq) locks, db) = (s', r)"
  using assms by (auto simp: PackagePush_def split: option.splits if_splits)

lemma delete_gone:
  assumes K: "kv_lawful K" "kv_del_quiet K" "kv_deletes K"
    and del: "PackageDelete K av leader i (locks, db) = ((locks', db'), r)"
  shows "db' = db \<or> info_at K db' i = None"
proof -
  let ?k = "NsPackageInfo i"
  have "db' = db \<or> (\<exists>db1 m v. kv_get K db1 ?k = KvFound m v \<and> db' = fst (kv_del K db1 ?k))"
    using del delete_chunks_info [OF K(1,2), of i _ db i]
    by (auto simp: PackageDelete_def Let_def case_prod_beta
        split: option.splits if_splits kv_read.splits pkg_row.splits prod.splits kv_dr.splits)
  then show ?thesis
  proof (elim disjE exE conjE)
    fix db1 m v assume g: "kv_get K db1 ?k = KvFound m v" and d: "db' = fst (kv_del K db1 ?k)"
    have "kv_del K db1 ?k = (db', KvDeleted)" using K(3) g d unfolding kv_deletes_def by (metis prod.collapse)
    then show ?thesis using kv_del_gone [OF K(1)] by (auto simp: info_at_def)
  qed simp
qed

lemma delete_frame:
  assumes K: "kv_lawful K" "kv_del_quiet K" and del: "PackageDelete K av leader i (locks, db) = ((locks', db'), r)" and j: "j \<noteq> i"
  shows "same_pkg K db db' j"
proof -
  let ?k = "NsPackageInfo i"
  have "db' = db \<or> (\<exists>db1. (db1 = db \<or> (\<exists>f. db1 = fst (delete_chunks K i f db))) \<and> db' = fst (kv_del K db1 ?k))"
    using del by (auto simp: PackageDelete_def Let_def case_prod_beta
        split: option.splits if_splits kv_read.splits pkg_row.splits prod.splits kv_dr.splits)
  moreover have "same_pkg K db1 (fst (kv_del K db1 ?k)) j" for db1
    using del_other_key [OF K, of _ ?k db1] j by (simp add: same_pkg_def info_at_def chunk_at_def)
  ultimately show ?thesis
    using delete_chunks_other [OF K j] same_trans [of K db _ j db'] by (elim disjE exE conjE) auto
qed

lemma pkg_step_ok:
  assumes K: "kv_lawful K" "kv_del_quiet K" "kv_deletes K" and ok: "pkg_ok Q R K (snd s) i" and call: "call_meets Q R K i call"
  shows "pkg_ok Q R K (snd (pkg_step K call s)) i"
proof (cases call)
  case (CallPush av leader E rq)
  obtain s' r where p: "PackagePush K av leader E rq (fst s, snd s) = (s', r)" by (metis prod.collapse)
  have s': "pkg_step K call s = s'" using p CallPush by (simp add: pkg_step_def)
  from p show ?thesis
  proof (cases rule: PackagePush_cases)
    case 1 then show ?thesis using ok s' by simp
  next
    case (2 c)
    then have st: "push_chunk K E rq c (List.insert (pq_id rq) (fst s), snd s) = ((fst s', snd s'), r)" by simp
    show ?thesis
    proof (cases "pq_id rq = i")
      case True
      then have rq: "request_meets Q R K E rq" using call CallPush by (simp add: call_meets_def)
      show ?thesis using push_chunk_ok [OF K(1,2) ok [folded True] rq 2(1,2) st] True s' by simp
    next
      case False
      then show ?thesis using push_frame [OF K(1,2) st, of i] pkg_ok_same [of K "snd s" "snd s'" i Q R] ok s' by simp
    qed
  qed
next
  case (CallDelete av leader j)
  obtain locks' db' r where d: "PackageDelete K av leader j (fst s, snd s) = ((locks', db'), r)" by (metis prod.collapse)
  have s': "snd (pkg_step K call s) = db'" using d CallDelete by (simp add: pkg_step_def)
  show ?thesis
  proof (cases "j = i")
    case True
    then show ?thesis using delete_gone [OF K d] ok pkg_ok_None [of K db' i Q R] s' by auto
  next
    case False
    then show ?thesis using delete_frame [OF K(1,2) d, of i] pkg_ok_same [of K "snd s" db' i Q R] ok s' by simp
  qed
qed

definition store_laws :: "('db, pkg_row) kvgo \<Rightarrow> bool" where
  "store_laws K \<longleftrightarrow> kv_lawful K \<and> kv_del_quiet K \<and> kv_deletes K"

interpretation pkg_calls: guarded_calls "pkg_step K" "call_meets Q R K i" "\<lambda>s. store_laws K \<and> pkg_ok Q R K (snd s) i" for K Q R i
  by unfold_locales (simp add: store_laws_def pkg_step_ok)

lemma pkg_run_ok:
  assumes K: "kv_lawful K" "kv_del_quiet K" "kv_deletes K"
  shows "pkg_ok Q R K (snd s) i \<Longrightarrow> \<forall>c \<in> set calls. call_meets Q R K i c \<Longrightarrow> pkg_ok Q R K (snd (pkg_run K calls s)) i"
  using pkg_calls.calls_keep [of calls Q R K i s] K by (simp add: pkg_run_def store_laws_def)

section \<open>Downloads\<close>

text \<open>What a host gets for a chunk, with an access key that may write its host.\<close>

definition served_chunk :: "('db, pkg_row) kvgo \<Rightarrow> app_validator \<Rightarrow> string \<Rightarrow> 'db \<Rightarrow> string \<Rightarrow> int \<Rightarrow> string + pkg_chunk option" where
  "served_chunk K av scope db i n =
     (case PackageChunk K av True scope i n db of Inl e \<Rightarrow> Inl [] | Inr (c, f) \<Rightarrow> Inr (Some c))"

lemma info_at_get: "info_at K db i = Some p \<Longrightarrow> \<exists>m. kv_get K db (NsPackageInfo i) = KvFound m (Some (InfoRow p))"
  by (auto simp: info_at_def split: kv_read.splits option.splits pkg_row.splits)

lemma chunk_at_get: "chunk_at K db i n = Some c \<Longrightarrow> \<exists>m. kv_get K db (NsPackageFileChunk i n) = KvFound m (Some (ChunkRow c))"
  by (auto simp: chunk_at_def split: kv_read.splits option.splits pkg_row.splits)

lemma served_chunk_eq:
  assumes "info_at K db i = Some p" "pg_file p = Some f" "pf_state f = PackageFileStateComplete" "file_ok f"
    and "n \<in> set (chunk_indices f)" "chunk_at K db i n = Some c" "authAllow av scope = None" "i \<noteq> []"
  shows "served_chunk K av scope db i n = Inr (Some c)"
proof -
  have "0 \<le> n" "n < calcTotalChunks (pf_size f) (pf_chunk f)" using assms(5) by (auto simp: chunk_indices_def)
  moreover have "pf_chunk f \<noteq> 0" using assms(4) by (simp add: file_ok_def PackageFileChunkSizeDefault_def)
  moreover obtain m m' where "kv_get K db (NsPackageInfo i) = KvFound m (Some (InfoRow p))"
      "kv_get K db (NsPackageFileChunk i n) = KvFound m' (Some (ChunkRow c))"
    using info_at_get [OF assms(1)] chunk_at_get [OF assms(6)] by metis
  ultimately show ?thesis using assms(2,3,7,8) by (simp add: served_chunk_def PackageChunk_def)
qed

lemma download_chunks_eq:
  "\<forall>n \<in> set ns. w n \<and> (\<exists>c. ask n = Inr (Some c) \<and> ck_data c = d n \<and> d n \<noteq> [] \<and> ChecksumIEEE (ck_data c) = ck_crc c) \<Longrightarrow>
     download_chunks ask w ns acc = Inr (acc @ concat (map d ns))"
  by (induction ns arbitrary: acc) auto

text \<open>A complete record that is in order is served in full.\<close>

lemma complete_served:
  assumes ok: "pkg_ok Q R K db i" and p: "info_at K db i = Some p" "pg_file p = Some f" "pf_state f = PackageFileStateComplete"
    and av: "authAllow av scope = None" and i: "i \<noteq> []" and w: "\<And>n. w n"
  obtains d where "file_ok f" "R (pf_size f)" "chunk_indices f \<noteq> []"
    "\<And>n. n \<in> set (chunk_indices f) \<Longrightarrow> Q n (d n)"
    "\<And>n. n \<in> set (chunk_indices f) \<Longrightarrow> int (length (d n)) = expectedChunkSize f n"
    "download_chunks (served_chunk K av scope db i) w (chunk_indices f) [] = Inr (concat (map d (chunk_indices f)))"
proof -
  have f: "file_ok f" "R (pf_size f)"
    and rows: "\<forall>n \<in> set (chunk_indices f). \<exists>c. chunk_at K db i n = Some c \<and> chunk_ok f n c \<and> Q n (ck_data c)"
    using ok p by (auto simp: pkg_ok_def stored_chunks_def)
  define d where "d n = ck_data (the (chunk_at K db i n))" for n
  have d: "chunk_at K db i n = Some (the (chunk_at K db i n))" "chunk_ok f n (the (chunk_at K db i n))" "Q n (d n)"
    if "n \<in> set (chunk_indices f)" for n using bspec [OF rows that] by (auto simp: d_def)
  have len: "int (length (d n)) = expectedChunkSize f n" if "n \<in> set (chunk_indices f)" for n
    using d(2) [OF that] by (simp add: chunk_ok_def d_def)
  have ne: "d n \<noteq> []" if "n \<in> set (chunk_indices f)" for n using len [OF that] expected_pos [OF f(1) that] by auto
  have "served_chunk K av scope db i n = Inr (Some (the (chunk_at K db i n)))" if "n \<in> set (chunk_indices f)" for n
    by (rule served_chunk_eq [OF p f(1) that d(1) [OF that] av i])
  then have "download_chunks (served_chunk K av scope db i) w (chunk_indices f) [] = Inr ([] @ concat (map d (chunk_indices f)))"
    using d(2) ne w by (intro download_chunks_eq) (auto simp: chunk_ok_def d_def)
  moreover have "chunk_indices f \<noteq> []" using f(1) p(3) by (auto simp: file_ok_def chunk_indices_def)
  ultimately show ?thesis using that [of d] f d(3) len by simp
qed

lemma try_candidates_complete:
  "try_candidates ask name version oas tried = Inr p \<Longrightarrow> \<exists>f. pg_file p = Some f \<and> pf_state f = PackageFileStateComplete"
  by (induction oas arbitrary: tried) (auto split: sum.splits list.splits option.splits if_splits)

lemma resolved_complete:
  "resolvePackage ask name version os arch = Inr p \<Longrightarrow> \<exists>f. pg_file p = Some f \<and> pf_state f = PackageFileStateComplete"
  unfolding resolvePackage_def by (rule try_candidates_complete)

section \<open>The choice of a release\<close>

text \<open>What the choice relies on of the semantic version order: a total preorder given by a comparison.\<close>

definition version_order :: "(string \<Rightarrow> string \<Rightarrow> int) \<Rightarrow> bool" where
  "version_order cmp \<longleftrightarrow>
     (\<forall>a b. cmp a b > 0 \<longleftrightarrow> cmp b a < 0) \<and> (\<forall>a b c. cmp a b \<le> 0 \<and> cmp b c \<le> 0 \<longrightarrow> cmp a c \<le> 0)"

text \<open>The comparison with revisions is an order again.\<close>

lemma semverCompare_le:
  "version_order cmp \<Longrightarrow> semverCompare cmp a b \<le> 0 \<longleftrightarrow>
     cmp (fst (splitVersion a)) (fst (splitVersion b)) < 0 \<or>
     cmp (fst (splitVersion a)) (fst (splitVersion b)) \<le> 0 \<and> snd (splitVersion a) \<le> snd (splitVersion b)"
  by (auto simp: semverCompare_def Let_def case_prod_beta)

lemma version_order_less:
  assumes "version_order cmp" "cmp a b < 0" "cmp b c \<le> 0"
  shows "cmp a c < 0"
proof (rule ccontr)
  have tr: "cmp x y \<le> 0 \<Longrightarrow> cmp y z \<le> 0 \<Longrightarrow> cmp x z \<le> 0" and sy: "cmp x y > 0 \<longleftrightarrow> cmp y x < 0" for x y z
    using assms(1) unfolding version_order_def by blast+
  assume "\<not> cmp a c < 0"
  then have "cmp c a \<le> 0" using sy [of c a] by linarith
  then have "cmp b a \<le> 0" using tr assms(3) by blast
  then show False using sy [of b a] assms(2) by simp
qed

lemma version_order_less':
  assumes "version_order cmp" "cmp a b \<le> 0" "cmp b c < 0"
  shows "cmp a c < 0"
proof (rule ccontr)
  have tr: "cmp x y \<le> 0 \<Longrightarrow> cmp y z \<le> 0 \<Longrightarrow> cmp x z \<le> 0" and sy: "cmp x y > 0 \<longleftrightarrow> cmp y x < 0" for x y z
    using assms(1) unfolding version_order_def by blast+
  assume "\<not> cmp a c < 0"
  then have "cmp c a \<le> 0" using sy [of c a] by linarith
  then have "cmp c b \<le> 0" using tr assms(2) by blast
  then show False using sy [of c b] assms(3) by simp
qed

lemma semver_order: "version_order cmp \<Longrightarrow> version_order (semverCompare cmp)"
proof -
  assume o: "version_order cmp"
  have sy: "cmp a b > 0 \<longleftrightarrow> cmp b a < 0" for a b using o unfolding version_order_def by blast
  have "semverCompare cmp a b > 0 \<longleftrightarrow> semverCompare cmp b a < 0" for a b
    using sy [of "fst (splitVersion a)" "fst (splitVersion b)"] sy [of "fst (splitVersion b)" "fst (splitVersion a)"]
    by (auto simp: semverCompare_def Let_def case_prod_beta)
  moreover have "semverCompare cmp a c \<le> 0" if "semverCompare cmp a b \<le> 0" "semverCompare cmp b c \<le> 0" for a b c
  proof -
    let ?s = "\<lambda>v. fst (splitVersion v)"
    have "cmp (?s a) (?s c) \<le> 0" if "cmp (?s a) (?s b) \<le> 0" "cmp (?s b) (?s c) \<le> 0"
      using o that unfolding version_order_def by blast
    then show ?thesis using that version_order_less [OF o, of "?s a" "?s b" "?s c"] version_order_less' [OF o, of "?s a" "?s b" "?s c"]
      unfolding semverCompare_le [OF o] by linarith
  qed
  ultimately show ?thesis unfolding version_order_def by blast
qed

lemma latest_of_group:
  assumes o: "version_order cmp"
  shows "ps \<noteq> [] \<Longrightarrow> \<forall>p \<in> set ps. group_key p = Some k \<Longrightarrow>
    \<exists>q \<in> set ps. latest_map cmp ps = [(k, q)] \<and> (\<forall>p \<in> set ps. semverCompare cmp (release_version p) (release_version q) \<le> 0)"
proof (induction ps rule: rev_induct)
  case (snoc p ps)
  have tr: "semverCompare cmp x y \<le> 0 \<Longrightarrow> semverCompare cmp y z \<le> 0 \<Longrightarrow> semverCompare cmp x z \<le> 0"
    and sy: "semverCompare cmp x y > 0 \<longleftrightarrow> semverCompare cmp y x < 0" for x y z
    using semver_order [OF o] unfolding version_order_def by blast+
  have self: "semverCompare cmp x x \<le> 0" for x using sy [of x x] by linarith
  show ?case
  proof (cases "ps = []")
    case True
    then show ?thesis using snoc.prems self by (simp add: latest_map_def)
  next
    case False
    then obtain q where q: "q \<in> set ps" "latest_map cmp ps = [(k, q)]"
      "\<forall>p \<in> set ps. semverCompare cmp (release_version p) (release_version q) \<le> 0" using snoc by auto
    let ?b = "if semverCompare cmp (release_version p) (release_version q) > 0 then p else q"
    have "latest_map cmp (ps @ [p]) = [(k, ?b)]"
      using q(2) snoc.prems(2) by (simp add: latest_map_def)
    moreover have "semverCompare cmp (release_version x) (release_version ?b) \<le> 0" if "x \<in> set (ps @ [p])" for x
      using that q(3) self tr [of "release_version x" "release_version q" "release_version p"]
        sy [of "release_version p" "release_version q"] by fastforce
    ultimately show ?thesis using q(1) by (intro bexI [of _ ?b]) auto
  qed
qed simp

definition query_fits :: "string \<Rightarrow> string \<Rightarrow> string \<times> string \<Rightarrow> pkg \<Rightarrow> bool" where
  "query_fits name version oa = list_selects (native_query name version oa)"

definition listed_rows :: "('db, pkg_row) kvgo \<Rightarrow> 'db \<Rightarrow> pkg list" where
  "listed_rows K db =
     List.map_filter row_pkg (range_items (kv_range K db (NsPackageInfo []) (upper_of (NsPackageInfo [])) 1000 False))"

lemma fits_group:
  "query_fits name version oa p \<Longrightarrow> name \<noteq> [] \<Longrightarrow> fst oa \<noteq> [] \<Longrightarrow> snd oa \<noteq> [] \<Longrightarrow> group_key p = Some (name, fst oa, snd oa)"
  by (auto simp: query_fits_def list_selects_def native_query_def group_key_def split: option.splits)

lemma filterLatest_single: "latest_map cmp ps = [(k, q)] \<Longrightarrow> filterLatestPackages picks cmp ps = [q]"
  by (cases picks) (simp_all add: filterLatestPackages_def)

text \<open>The answer to the query of a candidate: nothing when no package fits, else one of the newest that fit.\<close>

lemma list_newest:
  assumes o: "version_order cmp" and av: "svc_guard av AuthScope_Package_Read True = None"
    and oa: "name \<noteq> []" "fst oa \<noteq> []" "snd oa \<noteq> []"
    and ps: "PackageList K av True picks cmp (native_query name version oa) db = Inr ps"
  shows "(ps = [] \<and> (\<forall>p \<in> set (listed_rows K db). \<not> query_fits name version oa p)) \<or>
    (\<exists>q \<in> set (listed_rows K db). ps = [q] \<and> query_fits name version oa q \<and>
      (\<forall>p \<in> set (listed_rows K db). query_fits name version oa p \<longrightarrow>
         semverCompare cmp (release_version p) (release_version q) \<le> 0))"
proof -
  let ?fit = "filter (query_fits name version oa) (listed_rows K db)"
  have ps': "ps = (if ?fit \<noteq> [] then filterLatestPackages picks cmp ?fit else ?fit)"
    using ps av unfolding query_fits_def listed_rows_def
    by (auto simp: PackageList_def Let_def native_query_def split: if_splits)
  show ?thesis
  proof (cases "?fit = []")
    case True
    then show ?thesis using ps' by (simp add: filter_empty_conv)
  next
    case False
    moreover have "\<forall>p \<in> set ?fit. group_key p = Some (name, fst oa, snd oa)" using fits_group [OF _ oa]
      by (auto simp del: prod.collapse)
    ultimately obtain q where q: "q \<in> set ?fit" "latest_map cmp ?fit = [((name, fst oa, snd oa), q)]"
      "\<forall>p \<in> set ?fit. semverCompare cmp (release_version p) (release_version q) \<le> 0"
      using latest_of_group [OF o] by meson
    then show ?thesis using ps' False filterLatest_single [OF q(2)] by auto
  qed
qed

definition zone_lister ::
    "('db, pkg_row) kvgo \<Rightarrow> app_validator \<Rightarrow> nat list \<Rightarrow> (string \<Rightarrow> string \<Rightarrow> int) \<Rightarrow> 'db \<Rightarrow> list_req \<Rightarrow> string + pkg list" where
  "zone_lister K av picks cmp db q = (case PackageList K av True picks cmp q db of Inl e \<Rightarrow> Inl [] | Inr ps \<Rightarrow> Inr ps)"

lemma try_newest:
  assumes o: "version_order cmp" and av: "svc_guard av AuthScope_Package_Read True = None" and name: "name \<noteq> []"
  shows "\<forall>oa \<in> set oas. fst oa \<noteq> [] \<and> snd oa \<noteq> [] \<Longrightarrow>
    try_candidates (zone_lister K av picks cmp db) name version oas tried = Inr p \<Longrightarrow>
    \<exists>pre oa post. oas = pre @ oa # post \<and> p \<in> set (listed_rows K db) \<and> query_fits name version oa p \<and>
      (\<forall>q \<in> set (listed_rows K db). query_fits name version oa q \<longrightarrow>
         semverCompare cmp (release_version q) (release_version p) \<le> 0) \<and>
      (\<forall>oa' \<in> set pre. \<forall>q \<in> set (listed_rows K db). \<not> query_fits name version oa' q)"
proof (induction oas arbitrary: tried)
  case (Cons oa oas)
  obtain ps where ps: "PackageList K av True picks cmp (native_query name version oa) db = Inr ps"
    using Cons.prems(2) by (auto simp: zone_lister_def split: sum.splits)
  then have z: "zone_lister K av picks cmp db (native_query name version oa) = Inr ps" by (simp add: zone_lister_def)
  consider "ps = []" "\<forall>p \<in> set (listed_rows K db). \<not> query_fits name version oa p"
    | q where "q \<in> set (listed_rows K db)" "ps = [q]" "query_fits name version oa q"
      "\<forall>p \<in> set (listed_rows K db). query_fits name version oa p \<longrightarrow>
         semverCompare cmp (release_version p) (release_version q) \<le> 0"
    using list_newest [OF o av name _ _ ps] Cons.prems(1) by auto
  then show ?case
  proof cases
    case 1
    then have "try_candidates (zone_lister K av picks cmp db) name version oas (tried @ [fst oa @ ''/'' @ snd oa]) = Inr p"
      using Cons.prems(2) z by simp
    from Cons.IH [OF _ this] obtain pre oa2 post where r: "oas = pre @ oa2 # post" "p \<in> set (listed_rows K db)"
      "query_fits name version oa2 p" "\<forall>q \<in> set (listed_rows K db). query_fits name version oa2 q \<longrightarrow>
         semverCompare cmp (release_version q) (release_version p) \<le> 0"
      "\<forall>oa' \<in> set pre. \<forall>q \<in> set (listed_rows K db). \<not> query_fits name version oa' q" using Cons.prems(1) by auto
    then show ?thesis using 1(2) by (intro exI [of _ "oa # pre"] exI [of _ oa2] exI [of _ post]) simp
  next
    case (2 q)
    then have "p = q" using Cons.prems(2) z by (auto split: option.splits if_splits)
    then show ?thesis using 2 by (intro exI [of _ "[]"] exI [of _ oa] exI [of _ oas]) simp
  qed
qed simp

section \<open>Where a package can be lost\<close>

lemma del_chunk_gone:
  assumes K: "kv_lawful K" "kv_del_quiet K" "kv_deletes K"
  shows "chunk_at K (fst (kv_del K db (NsPackageFileChunk i n))) i n = None"
proof -
  let ?k = "NsPackageFileChunk i n"
  obtain db' d where del: "kv_del K db ?k = (db', d)" by (metis prod.collapse)
  have "\<exists>v. kv_get K db' ?k \<in> {KvNotFound, KvReadErr v}"
  proof (cases "d = KvDeleted")
    case True
    then show ?thesis using kv_del_gone [OF K(1)] del by simp
  next
    case False
    then have "kv_get K db' ?k = kv_get K db ?k" using K(2) del unfolding kv_del_quiet_def by blast
    moreover have "kv_get K db ?k \<noteq> KvFound m v" for m v using K(3) del False unfolding kv_deletes_def by (metis snd_conv)
    ultimately show ?thesis by (cases "kv_get K db ?k") auto
  qed
  then show ?thesis using del by (auto simp: chunk_at_def)
qed

lemma delete_fold_gone:
  assumes K: "kv_lawful K" "kv_del_quiet K" "kv_deletes K"
  shows "n \<in> set ns \<Longrightarrow> \<forall>k \<in> set ns. 0 \<le> k \<Longrightarrow> chunk_at K (fst (fold (delete_chunk K i) ns s)) i n = None"
proof (induction ns arbitrary: s)
  case (Cons k ns)
  show ?case
  proof (cases "n \<in> set ns")
    case False
    then have "kv_get K (fst (fold (delete_chunk K i) ns s1)) (NsPackageFileChunk i n) = kv_get K (fst s1) (NsPackageFileChunk i n)" for s1
      using delete_fold_other [OF K(1,2), of ns "NsPackageFileChunk i n" i s1] Cons.prems chunk_key_inj [of n _ i i] by auto
    moreover have "fst (delete_chunk K i n s) = fst (kv_del K (fst s) (NsPackageFileChunk i n))"
      by (simp add: delete_chunk_def split: prod.split)
    ultimately show ?thesis using Cons.prems False del_chunk_gone [OF K, of "fst s" i n] by (simp add: chunk_at_def)
  qed (use Cons in simp)
qed simp

text \<open>
  A request to replace a complete package deletes its chunks before it looks at its own first chunk. When that chunk
  is refused, the record still says complete and no chunk is left.
\<close>

lemma bad_replace_loses_chunks:
  assumes K: "kv_lawful K" "kv_del_quiet K" "kv_deletes K"
    and p: "info_at K db (pq_id rq) = Some p" "pg_file p = Some f" "pf_state f = PackageFileStateComplete" "pf_chunk f \<noteq> 0"
    and rq: "pq_overwrite rq" "ck_index c = 0" "new_upload E rq = Inr p'" "pg_file p' = Some f'" "check_chunk f' c = Some e"
  shows "\<exists>db'. push_chunk K E rq c (locks, db) = ((locks, db'), Inl e) \<and> info_at K db' (pq_id rq) = Some p
    \<and> (\<forall>n \<in> set (chunk_indices f). chunk_at K db' (pq_id rq) n = None)"
proof -
  let ?db = "fst (delete_chunks K (pq_id rq) f db)"
  obtain m where "kv_get K db (NsPackageInfo (pq_id rq)) = KvFound m (Some (InfoRow p))" using info_at_get [OF p(1)] by blast
  then have "push_chunk K E rq c (locks, db) = ((locks, ?db), Inl e)"
    using p rq by (simp add: push_chunk_def read_upload_def renew_upload_def)
  moreover have "info_at K ?db (pq_id rq) = Some p"
    using p(1) delete_chunks_info [OF K(1,2)] by (simp add: info_at_def)
  moreover have "chunk_at K ?db (pq_id rq) n = None" if "n \<in> set (chunk_indices f)" for n
    unfolding delete_chunks_def using delete_fold_gone [OF K that] chunk_indices_nonneg by blast
  ultimately show ?thesis by blast
qed

lemma resolve_not_unpacked: "try_candidates ask name version oas tried \<noteq> Inl ExtractErr"
  by (induction oas arbitrary: tried) (auto split: sum.splits list.splits option.splits)

lemma chunks_not_unpacked: "download_chunks get w ns acc \<noteq> Inl ExtractErr"
  by (induction ns arbitrary: acc) (auto split: sum.splits option.splits)

text \<open>An unpacking that fails after it has made its directory is reported once; the next download takes the directory for done.\<close>

lemma partial_install_taken_for_done:
  "PackageDownload E Z ref fs = (fs', Inl ExtractErr) \<Longrightarrow> \<forall>d. dl_extract E d = ExtractFailed True \<Longrightarrow>
     \<exists>dir. PackageDownload E Z ref fs' = (fs', Inr dir)"
  by (auto simp: PackageDownload_def fetch_archive_def install_archive_def Let_def resolvePackage_def resolve_not_unpacked chunks_not_unpacked
      split: option.splits if_splits sum.splits prod.splits)

section \<open>Properties\<close>


definition io_ok :: "dl_env \<Rightarrow> bytes \<Rightarrow> bool" where
  "io_ok E d \<longleftrightarrow> dl_leader E \<noteq> [] \<and> dl_connect E \<and> (\<forall>p. dl_mkdir E p) \<and> dl_create E \<and> (\<forall>n. dl_write E n) \<and>
     dl_sync E \<and> dl_rename E \<and> dl_extract E d = Extracted"



text \<open>Three releases of a package: the bare version and a revision for the native platform, and a newer source release.\<close>

definition demo_release :: "string \<Rightarrow> string \<Rightarrow> pkg" where
  "demo_release v arch =
     \<lparr>pg_meta = Some \<lparr>pm_name = ''web'', pm_version = ''1.0.0''\<rparr>, pg_release = Some \<lparr>pr_version = v, pr_os = ''linux'', pr_arch = arch\<rparr>,
      pg_file = Some \<lparr>pf_state = ''complete'', pf_size = 3, pf_chunk = 2 ^ 20, pf_uploaded = [], pf_created = 7, pf_updated = 7\<rparr>\<rparr>"

definition demo_releases :: "pkg_row mem_db" where
  "demo_releases = (9, [(''i8k/v2/pkg/info/a'', 1, InfoRow (demo_release ''1.0.0'' ''amd64'')),
     (''i8k/v2/pkg/info/b'', 2, InfoRow (demo_release ''1.0.0-r2'' ''amd64'')),
     (''i8k/v2/pkg/info/c'', 3, InfoRow (demo_release ''1.0.9'' ''src''))])"

lemma demo_release_ranges:
  "in_range (NsPackageInfo []) (upper_of (NsPackageInfo [])) ''i8k/v2/pkg/info/a''"
  "in_range (NsPackageInfo []) (upper_of (NsPackageInfo [])) ''i8k/v2/pkg/info/b''"
  "in_range (NsPackageInfo []) (upper_of (NsPackageInfo [])) ''i8k/v2/pkg/info/c''"
  "versionMatch ''1.0'' ''1.0.0''" "versionMatch ''1.0'' ''1.0.0-r2''" "versionMatch ''1.0'' ''1.0.9''"
  "semverCompare (\<lambda>_ _. 0) ''1.0.0-r2'' ''1.0.0'' = 1" "svc_guard demo_caller AuthScope_Package_Read True = None"
  by code_simp+

lemma demo_best: "resolvePackage (zone_lister mem_kv demo_caller [] (\<lambda>_ _. 0) demo_releases) ''web'' ''1.0'' ''linux'' ''amd64''
    = Inr (demo_release ''1.0.0-r2'' ''amd64'')"
proof -
  have "List.map_filter row_pkg (range_items (kv_range mem_kv demo_releases (NsPackageInfo []) (upper_of (NsPackageInfo [])) 1000 False))
      = [demo_release ''1.0.0'' ''amd64'', demo_release ''1.0.0-r2'' ''amd64'', demo_release ''1.0.9'' ''src'']"
    by (simp add: mem_kv_def mem_range_def demo_releases_def demo_release_ranges range_items_def row_pkg_def)
  then show ?thesis
    by (simp add: resolvePackage_def candidates_def zone_lister_def PackageList_def demo_release_ranges list_selects_def native_query_def
        demo_release_def package_states filterLatestPackages_def latest_map_def group_key_def release_version_def Let_def)
qed


section \<open>A concrete upload\<close>

definition demo_file :: bytes where "demo_file = [1, 2, 3]"
definition demo_pkg_id :: string where "demo_pkg_id = ''web_1.0.0_linux_amd64''"
definition demo_meta :: pkg_meta where "demo_meta = \<lparr>pm_name = ''web'', pm_version = ''1.0.0''\<rparr>"
definition demo_rel :: pkg_release where "demo_rel = \<lparr>pr_version = ''1.0.0'', pr_os = ''linux'', pr_arch = ''amd64''\<rparr>"
definition demo_pkg_env :: pkg_env where "demo_pkg_env = \<lparr>en_now = 7, en_semver = (\<lambda>_. True)\<rparr>"

definition demo_upload :: "bool \<Rightarrow> push_req" where
  "demo_upload over =
     \<lparr>pq_id = demo_pkg_id,
      pq_chunk = Some \<lparr>ck_index = 0, ck_crc = ChecksumIEEE demo_file, ck_data = demo_file, ck_uploaded = 0\<rparr>,
      pq_package = Some \<lparr>pg_meta = Some demo_meta, pg_release = Some demo_rel,
        pg_file = Some \<lparr>pf_state = [], pf_size = 3, pf_chunk = 0, pf_uploaded = [], pf_created = 0, pf_updated = 0\<rparr>\<rparr>,
      pq_total = 3, pq_chunk_size = 2 ^ 20, pq_overwrite = over\<rparr>"

text \<open>The package is pushed, pushed again, deleted (refused: the second push left its mutex), replaced, and a bad delete asked.\<close>

definition demo_calls :: "pkg_call list" where
  "demo_calls = [CallPush demo_caller True demo_pkg_env (demo_upload False), CallPush demo_caller True demo_pkg_env (demo_upload False),
     CallDelete demo_caller True demo_pkg_id, CallPush demo_caller True demo_pkg_env (demo_upload True),
     CallDelete demo_caller True ''other'']"

definition demo_done_file :: pkg_file where
  "demo_done_file = \<lparr>pf_state = ''complete'', pf_size = 3, pf_chunk = 2 ^ 20, pf_uploaded = [], pf_created = 7, pf_updated = 7\<rparr>"

definition demo_done :: pkg where
  "demo_done = \<lparr>pg_meta = Some demo_meta, pg_release = Some demo_rel, pg_file = Some demo_done_file\<rparr>"

definition demo_chunk :: "int \<Rightarrow> pkg_chunk" where
  "demo_chunk t = \<lparr>ck_index = 0, ck_crc = ChecksumIEEE demo_file, ck_data = demo_file, ck_uploaded = t\<rparr>"

definition demo_pkg_db :: "nat \<Rightarrow> nat \<Rightarrow> pkg_row mem_db" where
  "demo_pkg_db m n = (n, [(NsPackageFileChunk demo_pkg_id 0, m, ChunkRow (demo_chunk 7)), (NsPackageInfo demo_pkg_id, n, InfoRow demo_done)])"

lemma demo_guards:
  "svc_guard demo_caller AuthScope_Package_Write True = None" "check_first demo_pkg_env (demo_upload b) = None"
  "str_le (NsPackageFileChunk demo_pkg_id 0) (NsPackageInfo demo_pkg_id)" "\<not> str_le (NsPackageInfo demo_pkg_id) (NsPackageFileChunk demo_pkg_id 0)"
  "demo_pkg_id \<noteq> []" "demo_pkg_id \<noteq> ''other''" "chunk_indices demo_done_file = [0]" "demo_file \<noteq> []"
     apply code_simp
    apply (simp add: check_first_def check_file_def demo_upload_def MetadataValidate_def ReleaseValidate_def demo_meta_def demo_rel_def
    NameRegex_def lower_letter_def is_digit_def demo_pkg_env_def PackageMaxSize_def PackageFileChunkSizeDefault_def)
  apply code_simp
  apply code_simp
  apply code_simp
  apply code_simp
  apply (simp add: chunk_indices_def demo_done_file_def calcTotalChunks_def i64_def)
  apply code_simp
  done

definition demo_fresh_file :: pkg_file where
  "demo_fresh_file = \<lparr>pf_state = ''uploading'', pf_size = 3, pf_chunk = 2 ^ 20, pf_uploaded = [], pf_created = 7, pf_updated = 0\<rparr>"

lemma demo_upload_sel [simp]:
  "pq_id (demo_upload b) = demo_pkg_id" "pq_chunk (demo_upload b) = Some (demo_chunk 0)" "pq_overwrite (demo_upload b) = b"
  "ck_index (demo_chunk t) = 0" "ck_data (demo_chunk t) = demo_file" "(demo_chunk t)\<lparr>ck_uploaded := u\<rparr> = demo_chunk u"
  "en_now demo_pkg_env = 7"
  by (simp_all add: demo_upload_def demo_chunk_def demo_pkg_env_def)

lemma demo_new: "new_upload demo_pkg_env (demo_upload b) = Inr (demo_done\<lparr>pg_file := Some demo_fresh_file\<rparr>)"
  by (simp add: new_upload_def demo_upload_def demo_done_def demo_fresh_file_def demo_pkg_env_def package_states)

lemma demo_total: "calcTotalChunks 3 1048576 = 1" "calcTotalChunks 3 (2 ^ 20) = 1"
  by (simp_all add: calcTotalChunks_def i64_def)

lemma demo_check: "check_chunk demo_fresh_file (demo_chunk t) = None" "add_uploaded demo_pkg_env 0 demo_fresh_file = demo_done_file"
  by (simp_all add: check_chunk_def expectedChunkSize_def demo_fresh_file_def demo_done_file_def demo_chunk_def demo_file_def
      demo_total add_uploaded_def package_states demo_pkg_env_def Let_def)

lemma demo_done_sel [simp]: "demo_done\<lparr>pg_file := Some demo_done_file\<rparr> = demo_done" "pg_file demo_done = Some demo_done_file"
  "pf_state demo_done_file = PackageFileStateComplete" "pf_chunk demo_done_file \<noteq> 0"
  "pf_state demo_fresh_file \<noteq> PackageFileStateComplete" "pf_uploaded demo_fresh_file = []"
  by (simp_all add: demo_done_def demo_done_file_def demo_fresh_file_def package_states)

lemmas demo_mem = mem_kv_def mem_get_def mem_put_def mem_del_def plain_put_def demo_guards(3,4,5,7,8)

lemma demo_push_new:
  "PackagePush mem_kv demo_caller True demo_pkg_env (demo_upload b) ([], (0, [])) = (([], demo_pkg_db (Suc 0) 2), Inr demo_done_file)"
  by (simp add: PackagePush_def demo_guards(1,2) push_chunk_def read_upload_def renew_upload_def store_chunk_def demo_mem
      demo_new demo_check demo_pkg_db_def Let_def)

lemma demo_push_again:
  "PackagePush mem_kv demo_caller True demo_pkg_env (demo_upload False) (ls, demo_pkg_db m n)
     = ((List.insert demo_pkg_id ls, demo_pkg_db m n), Inr demo_done_file)"
  by (simp add: PackagePush_def demo_guards(1,2) push_chunk_def read_upload_def renew_upload_def demo_mem demo_pkg_db_def)

lemma demo_push_over:
  "PackagePush mem_kv demo_caller True demo_pkg_env (demo_upload True) ([demo_pkg_id], demo_pkg_db (Suc 0) 2)
     = (([], demo_pkg_db 3 6), Inr demo_done_file)"
  by (simp add: PackagePush_def demo_guards(1,2) push_chunk_def read_upload_def renew_upload_def store_chunk_def demo_mem
      demo_new demo_check demo_pkg_db_def Let_def delete_chunks_def delete_chunk_def)

lemma demo_delete:
  "PackageDelete mem_kv demo_caller True demo_pkg_id ([demo_pkg_id], db) = (([demo_pkg_id], db), Inl UploadRunning)"
  "PackageDelete mem_kv demo_caller True ''other'' ([], demo_pkg_db m n) = (([], demo_pkg_db m n), Inl PkgNotFound)"
  using demo_guards(6) by (simp_all add: PackageDelete_def demo_guards(1) demo_mem demo_pkg_db_def)

lemma demo_store_eq: "pkg_run mem_kv demo_calls ([], (0, [])) = ([], demo_pkg_db 3 6)"
  by (simp add: pkg_run_def demo_calls_def pkg_step_def demo_push_new demo_push_again demo_push_over demo_delete)

lemma demo_info: "info_at mem_kv (demo_pkg_db m n) demo_pkg_id = Some demo_done"
  by (simp add: info_at_def demo_mem demo_pkg_db_def)

lemma demo_calls_meet: "\<forall>c \<in> set demo_calls. call_meets (\<lambda>n d. d = slice_of demo_file n) (\<lambda>z. z = int (length demo_file)) mem_kv demo_pkg_id c"
proof -
  have "replaces_well demo_pkg_env (demo_upload b)" for b
    by (auto simp: replaces_well_def demo_new demo_check)
  then have "request_meets (\<lambda>n d. d = slice_of demo_file n) (\<lambda>z. z = int (length demo_file)) mem_kv demo_pkg_env (demo_upload b)" for b
    using mem_kv_accepts
    by (auto simp: request_meets_def slice_of_def PackageFileChunkSizeDefault_def demo_upload_def demo_file_def demo_chunk_def in_i64_def)
  then show ?thesis by (simp add: demo_calls_def call_meets_def)
qed

lemma demo_allowed: "authAllow demo_caller ''host:rw:a1'' = None" "svc_guard demo_caller AuthScope_Package_Read True = None"
  by code_simp+


definition demo_zone_api :: zone_api where
  "demo_zone_api =
     \<lparr>za_list = zone_lister mem_kv demo_caller [] (\<lambda>_ _. 0) (demo_pkg_db 3 6),
      za_chunk = served_chunk mem_kv demo_caller ''host:rw:a1'' (demo_pkg_db 3 6)\<rparr>"

definition demo_host :: dl_env where
  "demo_host = \<lparr>dl_prefix = ''/opt/in'', dl_leader = ''10.0.0.1:9533'', dl_os = ''linux'', dl_arch = ''amd64'', dl_driver = None,
     dl_lower = (\<lambda>s. s), dl_connect = True, dl_mkdir = (\<lambda>_. True), dl_create = True, dl_write = (\<lambda>_. True), dl_sync = True,
     dl_rename = True, dl_extract = (\<lambda>_. Extracted)\<rparr>"

lemma demo_ranges:
  "in_range (NsPackageInfo []) (upper_of (NsPackageInfo [])) (NsPackageInfo demo_pkg_id)"
  "\<not> in_range (NsPackageInfo []) (upper_of (NsPackageInfo [])) (NsPackageFileChunk demo_pkg_id 0)"
  "versionMatch ''1.0'' ''1.0.0''" "group_key demo_done = Some (''web'', ''linux'', ''amd64'')"
  "PackageId (\<lambda>s. s) demo_done = demo_pkg_id"
  by code_simp+

lemma demo_selects:
  "list_selects (native_query ''web'' ''1.0'' (''linux'', ''amd64'')) demo_done"
  "filterLatestPackages [] (\<lambda>_ _. 0) [demo_done] = [demo_done]"
  using demo_ranges(3) by (simp_all add: list_selects_def native_query_def demo_done_def demo_meta_def demo_rel_def
      demo_done_file_def package_states filterLatestPackages_def latest_map_def group_key_def)

lemma demo_listed:
  "za_list demo_zone_api (native_query ''web'' ''1.0'' (''linux'', ''amd64'')) = Inr [demo_done]"
proof -
  have "List.map_filter row_pkg (range_items (kv_range mem_kv (demo_pkg_db 3 6) (NsPackageInfo []) (upper_of (NsPackageInfo [])) 1000 False))
      = [demo_done]"
    by (simp add: mem_kv_def mem_range_def demo_pkg_db_def demo_ranges(1,2) range_items_def row_pkg_def)
  then show ?thesis
    by (simp add: demo_zone_api_def zone_lister_def PackageList_def demo_allowed(2) demo_selects Let_def)
qed

lemma demo_resolved: "resolvePackage (za_list demo_zone_api) ''web'' ''1.0'' ''linux'' ''amd64'' = Inr demo_done"
  by (simp add: resolvePackage_def candidates_def demo_listed)


end
